(* ===== verification/Prelude.thy ===== *)
theory Prelude
  imports Main "HOL-Library.Word"
begin

text \<open>
  Shared vocabulary of the xnetty development.

  \<^item> machine types: a \<open>uint8_t\<close> is an \<open>8 word\<close>; a \<open>size_t\<close> or \<open>uint64_t\<close> is a \<open>nat\<close> whose
    arithmetic is written with the explicit wrap-around of \<open>add_sz\<close>, \<open>sub_sz\<close> and \<open>mul_sz\<close>;
  \<^item> faults: C++ exceptions, undefined behaviour and non-termination are values of the
    datatype \<open>fault\<close>, carried in the left half of a sum, and \<open>rbind\<close> sequences fallible steps;
  \<^item> memory: a block obtained from \<open>malloc\<close> is a byte list, a null pointer is \<open>None\<close>, and every
    raw access goes through \<open>mem_read\<close> or \<open>mem_write\<close>, which yield \<open>UndefinedBehaviour\<close> when
    the access leaves the block. The allocator is the parameter \<open>heap\<close>: which requests it
    grants, and what the fresh bytes of a block happen to hold;
  \<^item> list lemmas and the theorem collections the component theories share.
\<close>

unbundle bit_operations_syntax

named_theorems buf_simps "defining equations of the byte buffer operations"
named_theorems sz_simps "size_t arithmetic that does not wrap"
named_theorems wf_intros "operations that keep a component invariant"

section \<open>Machine types\<close>

type_synonym byte = "8 word"
type_synonym u32 = "32 word"
type_synonym bytes = "byte list"

abbreviation SZ :: nat where
  "SZ \<equiv> 18446744073709551616"

definition add_sz :: "nat \<Rightarrow> nat \<Rightarrow> nat" where
  "add_sz a b = (a + b) mod SZ"

definition sub_sz :: "nat \<Rightarrow> nat \<Rightarrow> nat" where
  "sub_sz a b = (a + SZ - b) mod SZ"

definition mul_sz :: "nat \<Rightarrow> nat \<Rightarrow> nat" where
  "mul_sz a b = (a * b) mod SZ"

lemma add_sz_exact [sz_simps]: "a + b < SZ \<Longrightarrow> add_sz a b = a + b"
  by (simp add: add_sz_def)

lemma sub_sz_exact [sz_simps]: "b \<le> a \<Longrightarrow> a < SZ \<Longrightarrow> sub_sz a b = a - b"
proof -
  assume a: "b \<le> a" "a < SZ"
  then have eq: "a + SZ - b = SZ + (a - b)" by simp
  have "(SZ + (a - b)) mod SZ = (a - b) mod SZ" by (rule mod_add_self1)
  then show ?thesis unfolding sub_sz_def eq using a by simp
qed

lemma mul_sz_exact [sz_simps]: "a * b < SZ \<Longrightarrow> mul_sz a b = a * b"
  by (simp add: mul_sz_def)

lemma add_sz_less [simp]: "add_sz a b < SZ"
  by (simp add: add_sz_def)

lemma mul_sz_less [simp]: "mul_sz a b < SZ"
  by (simp add: mul_sz_def)

lemma add_sz_0 [simp]: "a < SZ \<Longrightarrow> add_sz a 0 = a"
  by (simp add: add_sz_def)

section \<open>Faults and sequencing\<close>

datatype fault =
    OutOfRange            \<comment> \<open>\<open>std::out_of_range\<close>\<close>
  | BadAlloc              \<comment> \<open>\<open>std::bad_alloc\<close>\<close>
  | LengthError           \<comment> \<open>\<open>std::length_error\<close>\<close>
  | BadFunctionCall       \<comment> \<open>\<open>std::bad_function_call\<close>\<close>
  | RuntimeError          \<comment> \<open>\<open>std::runtime_error\<close>\<close>
  | Terminated            \<comment> \<open>\<open>std::terminate\<close> or \<open>abort\<close>\<close>
  | UndefinedBehaviour    \<comment> \<open>an access outside a block, a null dereference, a division by 0\<close>
  | Diverges              \<comment> \<open>a loop that does not end\<close>

type_synonym 'a res = "fault + 'a"

definition rbind :: "'e + 'a \<Rightarrow> ('a \<Rightarrow> 'e + 'b) \<Rightarrow> 'e + 'b" where
  "rbind m f = (case m of Inl e \<Rightarrow> Inl e | Inr x \<Rightarrow> f x)"

lemma rbind_Inl [simp]: "rbind (Inl e) f = Inl e"
  by (simp add: rbind_def)

lemma rbind_Inr [simp]: "rbind (Inr x) f = f x"
  by (simp add: rbind_def)

lemma rbind_eq_Inr [simp]: "rbind m f = Inr y \<longleftrightarrow> (\<exists>x. m = Inr x \<and> f x = Inr y)"
  by (cases m) simp_all

lemma rbind_eq_Inl: "rbind m f = Inl e \<longleftrightarrow> m = Inl e \<or> (\<exists>x. m = Inr x \<and> f x = Inl e)"
  by (cases m) simp_all

lemma rbind_assoc: "rbind (rbind m f) g = rbind m (\<lambda>x. rbind (f x) g)"
  by (cases m) simp_all

text \<open>The result of a loop given as a partial function: not returning is a fault.\<close>

definition returned :: "'a res option \<Rightarrow> 'a res" where
  "returned r = (case r of None \<Rightarrow> Inl Diverges | Some x \<Rightarrow> x)"

lemma returned_simps [simp]: "returned (Some x) = x" "returned None = Inl Diverges"
  by (simp_all add: returned_def)

lemma rbind_cong [fundef_cong]:
  "m = m' \<Longrightarrow> (\<And>x. m' = Inr x \<Longrightarrow> f x = f' x) \<Longrightarrow> rbind m f = rbind m' f'"
  by (cases m') simp_all

section \<open>Memory blocks\<close>

record heap =
  alloc_ok :: "nat \<Rightarrow> bool"
  fresh :: "nat \<Rightarrow> byte"

definition splice_at :: "nat \<Rightarrow> 'a list \<Rightarrow> 'a list \<Rightarrow> 'a list" where
  "splice_at off bs d = take off d @ bs @ drop (off + length bs) d"

definition malloc :: "heap \<Rightarrow> nat \<Rightarrow> bytes option" where
  "malloc h n = (if alloc_ok h n then Some (map (fresh h) [0..<n]) else None)"

text \<open>
  \<open>realloc\<close> keeps the common prefix. A request for 0 bytes is implementation-defined in C17 and
  undefined in C23, so the model refuses it; a refused request leaves the old block in place.
\<close>

definition realloc :: "heap \<Rightarrow> bytes option \<Rightarrow> nat \<Rightarrow> bytes option res" where
  "realloc h old n =
     (if n = 0 then Inl UndefinedBehaviour
      else let d = (case old of None \<Rightarrow> [] | Some d \<Rightarrow> d)
           in Inr (if alloc_ok h n then Some (take n d @ map (fresh h) [length d..<n]) else None))"

definition mem_read :: "bytes option \<Rightarrow> nat \<Rightarrow> nat \<Rightarrow> bytes res" where
  "mem_read p off len =
     (if len = 0 then Inr []
      else case p of
             None \<Rightarrow> Inl UndefinedBehaviour
           | Some d \<Rightarrow> if off + len \<le> length d then Inr (take len (drop off d))
                       else Inl UndefinedBehaviour)"

definition mem_write :: "bytes option \<Rightarrow> nat \<Rightarrow> bytes \<Rightarrow> bytes option res" where
  "mem_write p off bs =
     (if bs = [] then Inr p
      else case p of
             None \<Rightarrow> Inl UndefinedBehaviour
           | Some d \<Rightarrow> if off + length bs \<le> length d then Inr (Some (splice_at off bs d))
                       else Inl UndefinedBehaviour)"

lemma length_splice_at [simp]:
  "off + length bs \<le> length d \<Longrightarrow> length (splice_at off bs d) = length d"
  by (simp add: splice_at_def)

lemma take_splice_at [simp]: "off \<le> length d \<Longrightarrow> n \<le> off \<Longrightarrow> take n (splice_at off bs d) = take n d"
  by (simp add: splice_at_def min_absorb1)

lemma splice_at_window:
  assumes "r \<le> w" and "w + length bs \<le> length d"
  shows "take (w + length bs - r) (drop r (splice_at w bs d)) = take (w - r) (drop r d) @ bs"
proof -
  have "drop r (splice_at w bs d) = (take (w - r) (drop r d)) @ bs @ drop (w + length bs) d"
    using assms by (simp add: splice_at_def drop_take)
  moreover have "length (take (w - r) (drop r d) @ bs) = w + length bs - r"
    using assms by simp
  ultimately show ?thesis
    by (metis append_assoc append_eq_conv_conj)
qed

lemma splice_at_append: "splice_at (off + length xs) ys (splice_at off xs d) = splice_at off (xs @ ys) d"
  if "off + length xs + length ys \<le> length d"
  using that by (simp add: splice_at_def min_absorb1 min_absorb2 add.commute add.left_commute)

lemma mem_read_ok:
  "off + len \<le> length d \<Longrightarrow> mem_read (Some d) off len = Inr (take len (drop off d))"
  by (simp add: mem_read_def)

lemma mem_write_ok:
  "off + length bs \<le> length d \<Longrightarrow> mem_write (Some d) off bs = Inr (Some (splice_at off bs d))"
  by (simp add: mem_write_def splice_at_def)

lemma malloc_Some [simp]: "alloc_ok h n \<Longrightarrow> malloc h n = Some (map (fresh h) [0..<n])"
  by (simp add: malloc_def)

lemma realloc_grow:
  assumes "alloc_ok h n" and "0 < n" and "length d \<le> n"
  shows "realloc h (Some d) n = Inr (Some (d @ map (fresh h) [length d..<n]))"
  using assms by (simp add: realloc_def)

lemma realloc_null: "alloc_ok h n \<Longrightarrow> 0 < n \<Longrightarrow> realloc h None n = Inr (Some (map (fresh h) [0..<n]))"
  by (simp add: realloc_def)

end
