(* ===== verification/ByteBuf.thy ===== *)
theory ByteBuf
  imports Prelude
begin

text \<open>
  The byte buffer (\<open>include/xnetty/buffer/byte_buf.h\<close>, \<open>src/buffer/byte_buf.cpp\<close>): a growable
  block with a reader and a writer index, used for the read and write buffer of every
  connection and by both codecs. The record \<open>bytebuf\<close> has the class's fields; one definition
  per constructor and member function follows, in source order, with every exception and every
  raw memory access explicit. \<open>wf_buf\<close> is the class invariant, \<open>contents\<close> the readable bytes.
  The lemmas show that the invariant is kept, that no operation on a well-formed buffer leaves
  its block, and that the buffer implements a byte FIFO (locale \<open>byte_fifo\<close>).
\<close>

section \<open>Data\<close>

record bytebuf =
  bdata :: "bytes option"
  capacity :: nat
  readerIndex :: nat
  writerIndex :: nat

definition bb_new :: bytebuf where
  "bb_new = \<lparr>bdata = None, capacity = 0, readerIndex = 0, writerIndex = 0\<rparr>"

definition readableBytes :: "bytebuf \<Rightarrow> nat" where
  "readableBytes b = sub_sz (writerIndex b) (readerIndex b)"

definition writableBytes :: "bytebuf \<Rightarrow> nat" where
  "writableBytes b = sub_sz (capacity b) (writerIndex b)"

section \<open>Constructors and assignment\<close>

definition bb_with_capacity :: "heap \<Rightarrow> nat \<Rightarrow> bytebuf" where
  "bb_with_capacity h initialCapacity =
     (if initialCapacity > 0
      then bb_new\<lparr>bdata := malloc h initialCapacity, capacity := initialCapacity\<rparr>
      else bb_new)"

definition bb_of_data :: "heap \<Rightarrow> bytes \<Rightarrow> bytebuf res" where
  "bb_of_data h src =
     (let len = length src in
      if len > 0
      then rbind (mem_write (malloc h len) 0 src)
             (\<lambda>d. Inr (bb_new\<lparr>bdata := d, capacity := len, writerIndex := len\<rparr>))
      else Inr bb_new)"

definition bb_copy :: "heap \<Rightarrow> bytebuf \<Rightarrow> bytebuf res" where
  "bb_copy h other =
     (let b = bb_new\<lparr>readerIndex := readerIndex other, writerIndex := writerIndex other\<rparr> in
      if capacity other > 0
      then rbind (mem_read (bdata other) 0 (writerIndex other)) (\<lambda>src.
           rbind (mem_write (malloc h (capacity other)) 0 src) (\<lambda>d.
           Inr (b\<lparr>bdata := d, capacity := capacity other\<rparr>)))
      else Inr b)"

definition bb_swap :: "bytebuf \<Rightarrow> bytebuf \<Rightarrow> bytebuf \<times> bytebuf" where
  "bb_swap b other = (other, b)"

text \<open>The flag says whether the two operands are the same object (\<open>this == &other\<close>).\<close>

definition bb_assign :: "heap \<Rightarrow> bool \<Rightarrow> bytebuf \<Rightarrow> bytebuf \<Rightarrow> bytebuf res" where
  "bb_assign h same this other =
     (if same then Inr this
      else rbind (bb_copy h other) (\<lambda>tmp. Inr (fst (bb_swap this tmp))))"

text \<open>Moves return the new object and what is left of the source.\<close>

definition bb_move :: "bytebuf \<Rightarrow> bytebuf \<times> bytebuf" where
  "bb_move other =
     (other, other\<lparr>bdata := None, capacity := 0, readerIndex := 0, writerIndex := 0\<rparr>)"

definition bb_move_assign :: "bool \<Rightarrow> bytebuf \<Rightarrow> bytebuf \<Rightarrow> bytebuf \<times> bytebuf" where
  "bb_move_assign same this other =
     (if same then (this, this)
      else (this\<lparr>bdata := bdata other, capacity := capacity other,
                 readerIndex := readerIndex other, writerIndex := writerIndex other\<rparr>,
            other\<lparr>bdata := None, capacity := 0, readerIndex := 0, writerIndex := 0\<rparr>))"

definition bb_allocate :: "heap \<Rightarrow> nat \<Rightarrow> bytebuf" where
  "bb_allocate h cap = bb_with_capacity h cap"

definition bb_wrap :: "heap \<Rightarrow> bytes \<Rightarrow> bytebuf res" where
  "bb_wrap h src = bb_of_data h src"

definition bb_copyOf :: "heap \<Rightarrow> bytes \<Rightarrow> bytebuf res" where
  "bb_copyOf h src = bb_of_data h src"

section \<open>Reading\<close>

definition checkReadable :: "nat \<Rightarrow> bytebuf \<Rightarrow> unit res" where
  "checkReadable needed b = (if readableBytes b < needed then Inl OutOfRange else Inr ())"

definition readByte :: "bytebuf \<Rightarrow> (byte \<times> bytebuf) res" where
  "readByte b =
     rbind (checkReadable 1 b) (\<lambda>_.
     rbind (mem_read (bdata b) (readerIndex b) 1) (\<lambda>bs.
     Inr (hd bs, b\<lparr>readerIndex := add_sz (readerIndex b) 1\<rparr>)))"

definition readBytes :: "nat \<Rightarrow> bytebuf \<Rightarrow> (bytes \<times> bytebuf) res" where
  "readBytes len b =
     rbind (checkReadable len b) (\<lambda>_.
     rbind (mem_read (bdata b) (readerIndex b) len) (\<lambda>dst.
     Inr (dst, b\<lparr>readerIndex := add_sz (readerIndex b) len\<rparr>)))"

text \<open>
  \<open>readStringView\<close> returns a view into the block; its value is the bytes the view denotes at the
  time of the call. \<open>readString\<close> copies them.
\<close>

definition readStringView :: "nat \<Rightarrow> bytebuf \<Rightarrow> (bytes \<times> bytebuf) res" where
  "readStringView len b =
     rbind (checkReadable len b) (\<lambda>_.
     rbind (mem_read (bdata b) (readerIndex b) len) (\<lambda>sv.
     Inr (sv, b\<lparr>readerIndex := add_sz (readerIndex b) len\<rparr>)))"

definition readString :: "nat \<Rightarrow> bytebuf \<Rightarrow> (bytes \<times> bytebuf) res" where
  "readString len b =
     rbind (checkReadable len b) (\<lambda>_.
     rbind (mem_read (bdata b) (readerIndex b) len) (\<lambda>s.
     Inr (s, b\<lparr>readerIndex := add_sz (readerIndex b) len\<rparr>)))"

section \<open>Growing and writing\<close>

definition expand :: "heap \<Rightarrow> nat \<Rightarrow> bytebuf \<Rightarrow> bytebuf res" where
  "expand h newCapacity b =
     rbind (realloc h (bdata b) newCapacity) (\<lambda>newPtr.
       case newPtr of
         None \<Rightarrow> Inl BadAlloc
       | Some d \<Rightarrow> Inr (b\<lparr>bdata := Some d, capacity := newCapacity\<rparr>))"

definition reserve :: "heap \<Rightarrow> nat \<Rightarrow> bytebuf \<Rightarrow> bytebuf res" where
  "reserve h newCapacity b =
     (if newCapacity > capacity b then expand h newCapacity b else Inr b)"

text \<open>The doubling loop \<open>while (newCap < writerIndex_ + len) newCap *= 2\<close>; \<open>None\<close> is no return.\<close>

partial_function (option) grow_cap :: "nat \<Rightarrow> nat \<Rightarrow> nat option" where
  "grow_cap newCap target =
     (if newCap < target then grow_cap (mul_sz newCap 2) target else Some newCap)"

definition ensureWritable :: "heap \<Rightarrow> nat \<Rightarrow> bytebuf \<Rightarrow> bytebuf res" where
  "ensureWritable h len b =
     (if add_sz (writerIndex b) len > capacity b
      then let newCap = mul_sz (capacity b) 2;
               newCap = (if newCap = 0 then 64 else newCap)
           in case grow_cap newCap (add_sz (writerIndex b) len) of
                None \<Rightarrow> Inl Diverges
              | Some c \<Rightarrow> expand h c b
      else Inr b)"

definition writeByte :: "heap \<Rightarrow> byte \<Rightarrow> bytebuf \<Rightarrow> bytebuf res" where
  "writeByte h x b =
     rbind (ensureWritable h 1 b) (\<lambda>b.
     rbind (mem_write (bdata b) (writerIndex b) [x]) (\<lambda>d.
     Inr (b\<lparr>bdata := d, writerIndex := add_sz (writerIndex b) 1\<rparr>)))"

definition writeBytes :: "heap \<Rightarrow> bytes \<Rightarrow> bytebuf \<Rightarrow> bytebuf res" where
  "writeBytes h src b =
     rbind (ensureWritable h (length src) b) (\<lambda>b.
     rbind (mem_write (bdata b) (writerIndex b) src) (\<lambda>d.
     Inr (b\<lparr>bdata := d, writerIndex := add_sz (writerIndex b) (length src)\<rparr>)))"

definition writeString :: "heap \<Rightarrow> bytes \<Rightarrow> bytebuf \<Rightarrow> bytebuf res" where
  "writeString h s b = writeBytes h s b"

section \<open>Index and capacity management\<close>

definition setReaderIndex :: "nat \<Rightarrow> bytebuf \<Rightarrow> bytebuf res" where
  "setReaderIndex index b =
     (if index > writerIndex b then Inl OutOfRange else Inr (b\<lparr>readerIndex := index\<rparr>))"

definition setWriterIndex :: "nat \<Rightarrow> bytebuf \<Rightarrow> bytebuf res" where
  "setWriterIndex index b =
     (if index > capacity b then Inl OutOfRange else Inr (b\<lparr>writerIndex := index\<rparr>))"

definition bb_clear :: "bytebuf \<Rightarrow> bytebuf" where
  "bb_clear b = b\<lparr>readerIndex := 0, writerIndex := 0\<rparr>"

definition bb_reset :: "bytebuf \<Rightarrow> bytebuf" where
  "bb_reset b = bb_clear b"

definition slice :: "heap \<Rightarrow> nat \<Rightarrow> nat \<Rightarrow> bytebuf \<Rightarrow> bytebuf res" where
  "slice h index len b =
     (if add_sz index len > writerIndex b then Inl OutOfRange
      else let buf = bb_with_capacity h len in
           rbind (mem_read (bdata b) index len) (\<lambda>src.
           rbind (mem_write (bdata buf) 0 src) (\<lambda>d.
           Inr (buf\<lparr>bdata := d, writerIndex := len\<rparr>))))"

definition trim :: "heap \<Rightarrow> nat \<Rightarrow> bytebuf \<Rightarrow> bytebuf res" where
  "trim h maxCap b =
     (if capacity b > maxCap
      then let keep = min (readableBytes b) maxCap in
           rbind (realloc h (bdata b) maxCap) (\<lambda>newPtr.
             case newPtr of
               None \<Rightarrow> Inr b
             | Some d \<Rightarrow> Inr (b\<lparr>bdata := Some d, capacity := maxCap,
                                 readerIndex := 0, writerIndex := keep\<rparr>))
      else Inr b)"

definition shrink :: "heap \<Rightarrow> bytebuf \<Rightarrow> bytebuf res" where
  "shrink h b =
     (let readable = readableBytes b in
      rbind (if readerIndex b > 0
             then rbind (mem_read (bdata b) (readerIndex b) readable) (\<lambda>src.
                  rbind (mem_write (bdata b) 0 src) (\<lambda>d.
                  Inr (b\<lparr>bdata := d, readerIndex := 0, writerIndex := readable\<rparr>)))
             else Inr b) (\<lambda>b.
      let waste = sub_sz (capacity b) readable in
      if waste > 1024 \<and> waste > mul_sz readable 2
      then let newCap = add_sz readable 64 in
           rbind (realloc h (bdata b) newCap) (\<lambda>newPtr.
             case newPtr of
               None \<Rightarrow> Inr b
             | Some d \<Rightarrow> Inr (b\<lparr>bdata := Some d, capacity := newCap\<rparr>))
      else Inr b))"

definition discard :: "nat \<Rightarrow> bytebuf \<Rightarrow> bytebuf" where
  "discard len b =
     (if len \<ge> readableBytes b then b\<lparr>readerIndex := writerIndex b\<rparr>
      else b\<lparr>readerIndex := add_sz (readerIndex b) len\<rparr>)"

definition bb_eq :: "bytebuf \<Rightarrow> bytebuf \<Rightarrow> bool res" where
  "bb_eq b other =
     (if readableBytes b \<noteq> readableBytes other then Inr False
      else rbind (mem_read (bdata b) (readerIndex b) (readableBytes b)) (\<lambda>x.
           rbind (mem_read (bdata other) (readerIndex other) (readableBytes b)) (\<lambda>y.
           Inr (x = y))))"


section \<open>Invariant and view\<close>

definition blk :: "bytes option \<Rightarrow> bytes" where
  "blk p = (case p of None \<Rightarrow> [] | Some d \<Rightarrow> d)"

definition wf_buf :: "bytebuf \<Rightarrow> bool" where
  "wf_buf b \<longleftrightarrow> readerIndex b \<le> writerIndex b \<and> writerIndex b \<le> capacity b \<and> capacity b < SZ
     \<and> length (blk (bdata b)) = capacity b"

definition contents :: "bytebuf \<Rightarrow> bytes" where
  "contents b = take (writerIndex b - readerIndex b) (drop (readerIndex b) (blk (bdata b)))"

definition heap_grants :: "heap \<Rightarrow> bool" where
  "heap_grants h \<longleftrightarrow> (\<forall>n. 0 < n \<longrightarrow> alloc_ok h n)"

text \<open>No request the code can make in practice comes near this bound (half the address space).\<close>

abbreviation HALF :: nat where
  "HALF \<equiv> 9223372036854775808"

lemma blk_simps [simp]: "blk None = []" "blk (Some d) = d"
  by (simp_all add: blk_def)

lemma wf_bufD:
  assumes "wf_buf b"
  shows "readerIndex b \<le> writerIndex b" "writerIndex b \<le> capacity b" "capacity b < SZ"
    "length (blk (bdata b)) = capacity b"
  using assms by (simp_all add: wf_buf_def)

lemma readableBytes_wf: "wf_buf b \<Longrightarrow> readableBytes b = writerIndex b - readerIndex b"
  unfolding readableBytes_def wf_buf_def by (intro sub_sz_exact) auto

lemma writableBytes_wf: "wf_buf b \<Longrightarrow> writableBytes b = capacity b - writerIndex b"
  unfolding writableBytes_def wf_buf_def by (intro sub_sz_exact) auto

lemma length_contents: "wf_buf b \<Longrightarrow> length (contents b) = writerIndex b - readerIndex b"
  by (auto simp: wf_buf_def contents_def min_absorb2)

lemma readable_eq_length: "wf_buf b \<Longrightarrow> readableBytes b = length (contents b)"
  by (simp add: readableBytes_wf length_contents)

lemma mem_read_blk:
  "off + len \<le> length (blk p) \<Longrightarrow> mem_read p off len = Inr (take len (drop off (blk p)))"
  by (cases p) (auto simp: mem_read_def)

lemma mem_write_blk:
  assumes "off + length bs \<le> length (blk p)"
  obtains q where "mem_write p off bs = Inr q" "blk q = splice_at off bs (blk p)"
proof (cases p)
  case None
  with assms that [of None] show ?thesis by (simp add: mem_write_def splice_at_def)
next
  case (Some d)
  with assms that [of "Some (splice_at off bs d)"] show ?thesis by (simp add: mem_write_ok)
qed

lemma mem_read_contents:
  assumes "wf_buf b" and "len \<le> length (contents b)"
  shows "mem_read (bdata b) (readerIndex b) len = Inr (take len (contents b))"
proof -
  note wf = wf_bufD [OF assms(1)]
  have le: "len \<le> writerIndex b - readerIndex b"
    using assms by (simp add: length_contents)
  then have "readerIndex b + len \<le> length (blk (bdata b))"
    using wf by simp
  from mem_read_blk [OF this] show ?thesis
    using le by (simp add: contents_def)
qed

lemma mem_read_all:
  "wf_buf b \<Longrightarrow> mem_read (bdata b) (readerIndex b) (readableBytes b) = Inr (contents b)"
  by (simp add: readable_eq_length mem_read_contents)

lemma wf_bb_new [simp, wf_intros]: "wf_buf bb_new"
  by (simp add: wf_buf_def bb_new_def)

lemma contents_bb_new [simp]: "contents bb_new = []"
  by (simp add: contents_def bb_new_def)

lemma bb_with_capacity_wf:
  assumes "n < SZ" and "0 < n \<longrightarrow> alloc_ok h n"
  shows "wf_buf (bb_with_capacity h n)" "contents (bb_with_capacity h n) = []"
    "capacity (bb_with_capacity h n) = n" "writerIndex (bb_with_capacity h n) = 0"
    "readerIndex (bb_with_capacity h n) = 0"
  using assms by (auto simp: bb_with_capacity_def wf_buf_def contents_def bb_new_def)

section \<open>Reading\<close>

lemma wf_advance:
  "wf_buf b \<Longrightarrow> len \<le> length (contents b) \<Longrightarrow>
     wf_buf (b\<lparr>readerIndex := readerIndex b + len\<rparr>) \<and>
     contents (b\<lparr>readerIndex := readerIndex b + len\<rparr>) = drop len (contents b) \<and>
     readerIndex b + len < SZ"
  by (auto simp: wf_buf_def length_contents contents_def drop_take add.commute)

lemma readBytes_eq:
  assumes "wf_buf b"
  shows "readBytes len b =
    (if len \<le> length (contents b)
     then Inr (take len (contents b), b\<lparr>readerIndex := readerIndex b + len\<rparr>)
     else Inl OutOfRange)"
proof (cases "len \<le> length (contents b)")
  case True
  then have "readerIndex b + len < SZ"
    using wf_advance [OF assms] by blast
  with True assms show ?thesis
    by (simp add: readBytes_def checkReadable_def readable_eq_length mem_read_contents add_sz_exact)
next
  case False
  with assms show ?thesis
    by (simp add: readBytes_def checkReadable_def readable_eq_length)
qed

lemma readString_eq_readBytes: "readString = readBytes" "readStringView = readBytes"
  by (simp_all add: fun_eq_iff readString_def readStringView_def readBytes_def)

lemma readByte_eq:
  assumes "wf_buf b"
  shows "readByte b =
    (case contents b of [] \<Rightarrow> Inl OutOfRange
     | x # _ \<Rightarrow> Inr (x, b\<lparr>readerIndex := readerIndex b + 1\<rparr>))"
proof (cases "contents b")
  case Nil
  with assms show ?thesis by (simp add: readByte_def checkReadable_def readable_eq_length)
next
  case (Cons x xs)
  then have len: "1 \<le> length (contents b)" by simp
  with wf_advance [OF assms] have "readerIndex b + 1 < SZ" by blast
  with Cons len assms show ?thesis
    by (simp add: readByte_def checkReadable_def readable_eq_length mem_read_contents add_sz_exact)
qed

section \<open>Growing\<close>

lemma grow_cap_returns:
  assumes "0 < c" and "c < SZ" and "target \<le> HALF"
  shows "\<exists>r. grow_cap c target = Some r \<and> target \<le> r \<and> c \<le> r \<and> r < SZ \<and> (r = c \<or> r < 2 * target)"
  using assms
proof (induction "target - c" arbitrary: c rule: less_induct)
  case less
  show ?case
  proof (cases "c < target")
    case True
    then have exact: "mul_sz c 2 = c * 2"
      using less.prems by (simp add: mul_sz_exact)
    have "target - c * 2 < target - c" using True less.prems by simp
    from less.hyps [OF this] less.prems True obtain r where
      "grow_cap (c * 2) target = Some r" "target \<le> r" "c * 2 \<le> r" "r < SZ"
      "r = c * 2 \<or> r < 2 * target" by auto
    with True exact show ?thesis
      by (subst grow_cap.simps) auto
  next
    case False
    with less.prems show ?thesis by (subst grow_cap.simps) auto
  qed
qed

lemma grow_cap_pow2_None:
  assumes "HALF < target" and "c = 0 \<or> (\<exists>k\<le>63. c = 2 ^ k)"
  shows "grow_cap c target = None"
proof (rule ccontr)
  assume "grow_cap c target \<noteq> None"
  then obtain r where ret: "grow_cap c target = Some r" by blast
  have "\<not> (HALF < target \<and> (c = 0 \<or> (\<exists>k\<le>63. c = 2 ^ k)))"
  proof (rule grow_cap.raw_induct
      [where P = "\<lambda>c t r. \<not> (HALF < t \<and> (c = 0 \<or> (\<exists>k\<le>63. c = 2 ^ k)))", OF _ ret])
    fix f c t r
    assume IH: "\<And>c t r. f c t = Some r \<Longrightarrow> \<not> (HALF < t \<and> (c = 0 \<or> (\<exists>k\<le>63. c = 2 ^ k)))"
      and eq: "(if c < t then f (mul_sz c 2) t else Some c) = Some r"
    show "\<not> (HALF < t \<and> (c = 0 \<or> (\<exists>k\<le>63. c = 2 ^ k)))"
    proof
      assume a: "HALF < t \<and> (c = 0 \<or> (\<exists>k\<le>63. c = 2 ^ k))"
      have small: "c \<le> HALF"
      proof -
        have "2 ^ k \<le> HALF" if "k \<le> 63" for k :: nat
          using power_increasing [OF that, of "2::nat"] by simp
        with a show ?thesis by auto
      qed
      have step: "mul_sz c 2 = 0 \<or> (\<exists>k\<le>63. mul_sz c 2 = 2 ^ k)"
      proof (cases "c = 0 \<or> c = HALF")
        case True
        then show ?thesis by (auto simp: mul_sz_def)
      next
        case False
        with a obtain k where k: "k \<le> 63" "c = 2 ^ k" by blast
        with False have "k \<noteq> 63" by auto
        with k have "Suc k \<le> 63" "mul_sz c 2 = 2 ^ Suc k"
          using small False by (auto simp: mul_sz_exact)
        then show ?thesis by blast
      qed
      from eq a small have "f (mul_sz c 2) t = Some r" by (simp split: if_splits)
      from IH [OF this] a step show False by blast
    qed
  qed
  with assms show False by blast
qed

lemma expand_Inr:
  assumes "wf_buf b" and "capacity b \<le> n" and "0 < n" and "n < SZ" and "expand h n b = Inr b'"
  shows "wf_buf b' \<and> contents b' = contents b \<and> capacity b' = n
    \<and> readerIndex b' = readerIndex b \<and> writerIndex b' = writerIndex b"
  using assms
  by (cases "bdata b")
    (auto simp: expand_def realloc_def wf_buf_def contents_def split: if_splits)

lemma expand_granted: "heap_grants h \<Longrightarrow> 0 < n \<Longrightarrow> \<exists>b'. expand h n b = Inr b'"
  by (auto simp: expand_def realloc_def heap_grants_def Let_def)

lemma expand_Inl: "0 < n \<Longrightarrow> expand h n b = Inl e \<Longrightarrow> e = BadAlloc"
  by (auto simp: expand_def realloc_def rbind_eq_Inl split: if_splits option.splits)

lemma ensureWritable_fits:
  "wf_buf b \<Longrightarrow> writerIndex b + len \<le> capacity b \<Longrightarrow> ensureWritable h len b = Inr b"
  by (simp add: ensureWritable_def wf_buf_def add_sz_exact)

text \<open>The capacity the doubling loop asks for, below the half-way bound.\<close>

lemma ensureWritable_expands:
  assumes "wf_buf b" and "writerIndex b + len \<le> HALF" and "capacity b < writerIndex b + len"
  shows "\<exists>c. ensureWritable h len b = expand h c b \<and> writerIndex b + len \<le> c \<and> c < SZ
    \<and> c < max 65 (2 * (writerIndex b + len))"
proof -
  define c0 where "c0 = (if capacity b * 2 = 0 then 64 else capacity b * 2)"
  have exact: "add_sz (writerIndex b) len = writerIndex b + len"
      "mul_sz (capacity b) 2 = capacity b * 2"
    using assms by (simp_all add: add_sz_exact mul_sz_exact)
  have "0 < c0" "c0 < SZ" using assms by (auto simp: c0_def)
  from grow_cap_returns [OF this assms(2)] obtain r where
    r: "grow_cap c0 (writerIndex b + len) = Some r" "writerIndex b + len \<le> r" "r < SZ"
      "r = c0 \<or> r < 2 * (writerIndex b + len)" by blast
  have "ensureWritable h len b = expand h r b"
    using assms r(1) by (simp add: ensureWritable_def exact Let_def c0_def split: if_splits)
  moreover have "r < max 65 (2 * (writerIndex b + len))"
    using r(4) assms(3) by (auto simp: c0_def split: if_splits)
  ultimately show ?thesis using r by blast
qed

lemma ensureWritable_Inr:
  assumes "wf_buf b" and "writerIndex b + len \<le> HALF" and "ensureWritable h len b = Inr b'"
  shows "wf_buf b' \<and> contents b' = contents b \<and> writerIndex b + len \<le> capacity b'
    \<and> readerIndex b' = readerIndex b \<and> writerIndex b' = writerIndex b"
proof (cases "capacity b < writerIndex b + len")
  case True
  from ensureWritable_expands [OF assms(1,2) True] obtain c where
    c: "ensureWritable h len b = expand h c b" "writerIndex b + len \<le> c" "c < SZ" by blast
  with assms True expand_Inr [OF assms(1), of c h b'] show ?thesis by simp
next
  case False
  with assms show ?thesis by (simp add: ensureWritable_fits)
qed

lemma ensureWritable_Inl:
  assumes "wf_buf b" and "writerIndex b + len \<le> HALF" and "ensureWritable h len b = Inl e"
  shows "e = BadAlloc"
proof (cases "capacity b < writerIndex b + len")
  case True
  from ensureWritable_expands [OF assms(1,2) True, of h] obtain c where
    c: "ensureWritable h len b = expand h c b" "writerIndex b + len \<le> c" by blast
  with True assms(3) show ?thesis by (auto intro: expand_Inl [of c h b])
next
  case False
  with assms show ?thesis by (simp add: ensureWritable_fits)
qed

lemma ensureWritable_granted:
  assumes "wf_buf b" and "writerIndex b + len \<le> HALF" and "heap_grants h"
  shows "\<exists>b'. ensureWritable h len b = Inr b'"
proof (cases "capacity b < writerIndex b + len")
  case True
  from ensureWritable_expands [OF assms(1,2) True, of h] obtain c where
    c: "ensureWritable h len b = expand h c b" "writerIndex b + len \<le> c" by blast
  with True show ?thesis by (simp add: expand_granted assms(3))
next
  case False
  with assms show ?thesis by (simp add: ensureWritable_fits)
qed


section \<open>Writing\<close>

lemma wf_append:
  assumes "wf_buf b" and "writerIndex b + length bs \<le> capacity b"
    and "blk d = splice_at (writerIndex b) bs (blk (bdata b))"
  shows "wf_buf (b\<lparr>bdata := d, writerIndex := writerIndex b + length bs\<rparr>)"
    and "contents (b\<lparr>bdata := d, writerIndex := writerIndex b + length bs\<rparr>) = contents b @ bs"
proof -
  note wf = wf_bufD [OF assms(1)]
  show "wf_buf (b\<lparr>bdata := d, writerIndex := writerIndex b + length bs\<rparr>)"
    using assms wf by (simp add: wf_buf_def)
  have "take (writerIndex b + length bs - readerIndex b)
      (drop (readerIndex b) (splice_at (writerIndex b) bs (blk (bdata b)))) =
      take (writerIndex b - readerIndex b) (drop (readerIndex b) (blk (bdata b))) @ bs"
    using wf assms(2) by (intro splice_at_window) simp_all
  then show "contents (b\<lparr>bdata := d, writerIndex := writerIndex b + length bs\<rparr>) = contents b @ bs"
    using assms(3) by (simp add: contents_def)
qed

text \<open>A write that fits needs no allocation and cannot fail.\<close>

lemma writeBytes_fits:
  assumes "wf_buf b" and "writerIndex b + length bs \<le> capacity b"
  obtains b' where "writeBytes h bs b = Inr b'" "wf_buf b'" "contents b' = contents b @ bs"
    "capacity b' = capacity b" "writerIndex b' = writerIndex b + length bs"
    "readerIndex b' = readerIndex b"
proof -
  note wf = wf_bufD [OF assms(1)]
  from assms wf have "writerIndex b + length bs \<le> length (blk (bdata b))" by simp
  from mem_write_blk [OF this] obtain d where
    d: "mem_write (bdata b) (writerIndex b) bs = Inr d"
      "blk d = splice_at (writerIndex b) bs (blk (bdata b))" .
  have "add_sz (writerIndex b) (length bs) = writerIndex b + length bs"
    using assms wf by (simp add: add_sz_exact)
  then have "writeBytes h bs b = Inr (b\<lparr>bdata := d, writerIndex := writerIndex b + length bs\<rparr>)"
    using assms d by (simp add: writeBytes_def ensureWritable_fits)
  from that [OF this wf_append [OF assms d(2)]] show ?thesis by simp
qed

lemma writeBytes_split:
  assumes "wf_buf b" and "writerIndex b + length bs \<le> HALF"
    and "ensureWritable h (length bs) b = Inr b1"
  shows "writeBytes h bs b = writeBytes h bs b1"
proof -
  from ensureWritable_Inr [OF assms] have "wf_buf b1" "writerIndex b1 + length bs \<le> capacity b1"
    by simp_all
  then show ?thesis using assms(3)
    by (simp add: writeBytes_def ensureWritable_fits)
qed

lemma writeBytes_Inr:
  assumes "wf_buf b" and "writerIndex b + length bs \<le> HALF" and "writeBytes h bs b = Inr b'"
  shows "wf_buf b' \<and> contents b' = contents b @ bs \<and> writerIndex b' = writerIndex b + length bs
    \<and> readerIndex b' = readerIndex b"
proof -
  from assms(3) obtain b1 where b1: "ensureWritable h (length bs) b = Inr b1"
    by (auto simp: writeBytes_def)
  note e = ensureWritable_Inr [OF assms(1,2) b1]
  then have "wf_buf b1" "writerIndex b1 + length bs \<le> capacity b1" by simp_all
  from writeBytes_fits [OF this, of h] obtain b2 where
    "writeBytes h bs b1 = Inr b2" "wf_buf b2" "contents b2 = contents b1 @ bs"
    "writerIndex b2 = writerIndex b1 + length bs" "readerIndex b2 = readerIndex b1" by blast
  with e assms(3) writeBytes_split [OF assms(1,2) b1] show ?thesis by simp
qed

lemma writeBytes_granted:
  assumes "wf_buf b" and "writerIndex b + length bs \<le> HALF" and "heap_grants h"
  obtains b' where "writeBytes h bs b = Inr b'" "wf_buf b'" "contents b' = contents b @ bs"
    "writerIndex b' = writerIndex b + length bs" "readerIndex b' = readerIndex b"
proof -
  from ensureWritable_granted [OF assms] obtain b1 where
    b1: "ensureWritable h (length bs) b = Inr b1" by blast
  note e = ensureWritable_Inr [OF assms(1,2) b1]
  then have "wf_buf b1" "writerIndex b1 + length bs \<le> capacity b1" by simp_all
  from writeBytes_fits [OF this, of h] obtain b2 where
    "writeBytes h bs b1 = Inr b2" "wf_buf b2" "contents b2 = contents b1 @ bs"
    "writerIndex b2 = writerIndex b1 + length bs" "readerIndex b2 = readerIndex b1" by blast
  with e that [of b2] writeBytes_split [OF assms(1,2) b1] show ?thesis by simp
qed

lemma writeBytes_Inl:
  assumes "wf_buf b" and "writerIndex b + length bs \<le> HALF" and "writeBytes h bs b = Inl e"
  shows "e = BadAlloc"
proof (cases "ensureWritable h (length bs) b")
  case (Inl e')
  with assms(3) have "e' = e" by (simp add: writeBytes_def)
  with ensureWritable_Inl [OF assms(1,2) Inl] show ?thesis by simp
next
  case (Inr b1)
  note e = ensureWritable_Inr [OF assms(1,2) Inr]
  then have "wf_buf b1" "writerIndex b1 + length bs \<le> capacity b1" by simp_all
  from writeBytes_fits [OF this, of h] obtain b2 where "writeBytes h bs b1 = Inr b2" by blast
  with assms(3) writeBytes_split [OF assms(1,2) Inr] show ?thesis by simp
qed

lemma writeByte_eq_writeBytes: "writeByte h x = writeBytes h [x]"
  by (simp add: fun_eq_iff writeByte_def writeBytes_def)

section \<open>Index and capacity management\<close>

lemma bb_clear_wf [wf_intros]: "wf_buf b \<Longrightarrow> wf_buf (bb_clear b)"
  by (simp add: wf_buf_def bb_clear_def)

lemma contents_bb_clear [simp]: "contents (bb_clear b) = []"
  by (simp add: contents_def bb_clear_def)

lemma bb_clear_fields [simp]:
  "capacity (bb_clear b) = capacity b" "writerIndex (bb_clear b) = 0" "readerIndex (bb_clear b) = 0"
  by (simp_all add: bb_clear_def)

lemma discard_wf:
  assumes "wf_buf b"
  shows "wf_buf (discard n b)" "contents (discard n b) = drop n (contents b)"
    "writerIndex (discard n b) = writerIndex b" "capacity (discard n b) = capacity b"
proof -
  have eq: "discard n b = (if n \<ge> length (contents b) then b\<lparr>readerIndex := writerIndex b\<rparr>
      else b\<lparr>readerIndex := readerIndex b + n\<rparr>)"
    using assms wf_advance [OF assms, of n]
    by (auto simp: discard_def readable_eq_length add_sz_exact)
  show "wf_buf (discard n b)"
    using assms wf_advance [OF assms, of n] by (auto simp: eq wf_buf_def)
  show "contents (discard n b) = drop n (contents b)"
    using wf_advance [OF assms, of n] by (auto simp: eq) (simp add: contents_def)
  show "writerIndex (discard n b) = writerIndex b" "capacity (discard n b) = capacity b"
    by (simp_all add: eq)
qed

lemma setReaderIndex_wf: "wf_buf b \<Longrightarrow> setReaderIndex i b = Inr b' \<Longrightarrow> wf_buf b'"
  by (auto simp: setReaderIndex_def wf_buf_def split: if_splits)

lemma setWriterIndex_wf:
  "wf_buf b \<Longrightarrow> readerIndex b \<le> i \<Longrightarrow> setWriterIndex i b = Inr b' \<Longrightarrow> wf_buf b'"
  by (auto simp: setWriterIndex_def wf_buf_def split: if_splits)

lemma trim_wf: "wf_buf b \<Longrightarrow> trim h maxCap b = Inr b' \<Longrightarrow> wf_buf b'"
  by (cases "bdata b")
    (auto simp: trim_def realloc_def wf_buf_def Let_def min_def split: if_splits option.splits)

lemma trim_keeps_front:
  assumes "wf_buf b" and "readerIndex b = 0" and "0 < maxCap" and "trim h maxCap b = Inr b'"
  shows "contents b' = contents b \<or> contents b' = take maxCap (contents b)"
  using assms
  by (cases "bdata b")
    (auto simp: trim_def realloc_def wf_buf_def contents_def readableBytes_wf Let_def min_def
      split: if_splits option.splits)

text \<open>The first half of \<open>shrink\<close>: the readable bytes move to the front of the block.\<close>

definition compact :: "bytebuf \<Rightarrow> bytebuf res" where
  "compact b =
     (if readerIndex b > 0
      then rbind (mem_read (bdata b) (readerIndex b) (readableBytes b)) (\<lambda>src.
           rbind (mem_write (bdata b) 0 src) (\<lambda>d.
           Inr (b\<lparr>bdata := d, readerIndex := 0, writerIndex := readableBytes b\<rparr>)))
      else Inr b)"

lemma compact_wf:
  assumes "wf_buf b"
  obtains b' where "compact b = Inr b'" "wf_buf b'" "contents b' = contents b" "readerIndex b' = 0"
    "writerIndex b' = length (contents b)" "capacity b' = capacity b"
proof (cases "readerIndex b > 0")
  case True
  note wf = wf_bufD [OF assms]
  have "0 + length (contents b) \<le> length (blk (bdata b))"
    using wf by (simp add: length_contents [OF assms])
  from mem_write_blk [OF this] obtain d where
    d: "mem_write (bdata b) 0 (contents b) = Inr d" "blk d = splice_at 0 (contents b) (blk (bdata b))" .
  let ?b = "b\<lparr>bdata := d, readerIndex := 0, writerIndex := length (contents b)\<rparr>"
  have "compact b = Inr ?b"
    using True d(1) by (simp add: compact_def readable_eq_length [OF assms] mem_read_contents [OF assms])
  moreover have "wf_buf ?b" "contents ?b = contents b"
    using wf d(2) by (auto simp: wf_buf_def length_contents [OF assms] splice_at_def)
      (simp add: contents_def splice_at_def)
  ultimately show ?thesis using that [of ?b] by simp
next
  case False
  with assms that [of b] show ?thesis by (simp add: compact_def length_contents)
qed

lemma shrink_eq: "shrink h b = rbind (compact b) (\<lambda>c.
      let readable = readableBytes b; waste = sub_sz (capacity c) readable in
      if waste > 1024 \<and> waste > mul_sz readable 2
      then rbind (realloc h (bdata c) (add_sz readable 64)) (\<lambda>p.
             case p of None \<Rightarrow> Inr c
             | Some d \<Rightarrow> Inr (c\<lparr>bdata := Some d, capacity := add_sz readable 64\<rparr>))
      else Inr c)"
  unfolding shrink_def compact_def Let_def by (rule refl)

lemma shrink_wf:
  assumes wf: "wf_buf b"
  obtains b' where "shrink h b = Inr b'" "wf_buf b'" "contents b' = contents b" "readerIndex b' = 0"
    "capacity b' \<le> capacity b"
proof -
  from compact_wf [OF wf] obtain c where
    c: "compact b = Inr c" "wf_buf c" "contents c = contents b" "readerIndex c = 0"
      "writerIndex c = length (contents b)" "capacity c = capacity b" .
  define n where "n = length (contents b)"
  note wfc = wf_bufD [OF c(2)]
  have n: "readableBytes b = n" "n \<le> capacity c" using wf wfc c by (simp_all add: n_def readable_eq_length)
  then have waste: "sub_sz (capacity c) n = capacity c - n" using wfc by (simp add: sub_sz_exact)
  show ?thesis
  proof (cases "capacity c - n > 1024 \<and> capacity c - n > mul_sz n 2")
    case False
    with c n waste have "shrink h b = Inr c" by (auto simp: shrink_eq Let_def)
    with c that show ?thesis by simp
  next
    case True
    then have lt: "n + 64 < capacity c" by linarith
    then have "add_sz n 64 = n + 64" using wfc by (intro add_sz_exact) linarith
    note fit = this lt
    show ?thesis
    proof (cases "alloc_ok h (n + 64)")
      case False
      with True c n waste fit that [of c] show ?thesis by (simp add: shrink_eq realloc_def)
    next
      case ok: True
      let ?c = "c\<lparr>bdata := Some (take (n + 64) (blk (bdata c))), capacity := n + 64\<rparr>"
      have "shrink h b = Inr ?c"
        using True c n waste fit ok wfc by (simp add: shrink_eq realloc_def blk_def)
      moreover have "wf_buf ?c" "contents ?c = contents b"
        using wfc c fit by (auto simp: wf_buf_def n_def) (simp add: contents_def min_def)
      ultimately show ?thesis using that [of ?c] c fit by simp
    qed
  qed
qed

lemma slice_ok:
  assumes "wf_buf b" and "index + len \<le> writerIndex b" and "0 < len \<longrightarrow> alloc_ok h len"
  obtains s where "slice h index len b = Inr s" "wf_buf s"
    "contents s = take len (drop index (blk (bdata b)))"
proof -
  note wf = wf_bufD [OF assms(1)]
  define src where "src = take len (drop index (blk (bdata b)))"
  have len: "len < SZ" and lsrc: "length src = len"
    using wf assms(2) by (auto simp: src_def)
  note cap = bb_with_capacity_wf [OF len assms(3)]
  then have "0 + length src \<le> length (blk (bdata (bb_with_capacity h len)))"
    by (simp add: wf_bufD lsrc)
  from mem_write_blk [OF this] obtain d where
    d: "mem_write (bdata (bb_with_capacity h len)) 0 src = Inr d"
      "blk d = splice_at 0 src (blk (bdata (bb_with_capacity h len)))" .
  have read: "mem_read (bdata b) index len = Inr src"
    using wf assms(2) by (simp add: mem_read_blk src_def)
  have "add_sz index len = index + len" using wf assms(2) by (simp add: add_sz_exact)
  then have "slice h index len b = Inr (bb_with_capacity h len\<lparr>bdata := d, writerIndex := len\<rparr>)"
    using assms(2) d(1) read by (simp add: slice_def Let_def)
  moreover have "length (blk (bdata (bb_with_capacity h len))) = len"
    using cap by (simp add: wf_bufD)
  then have "wf_buf (bb_with_capacity h len\<lparr>bdata := d, writerIndex := len\<rparr>)"
      "contents (bb_with_capacity h len\<lparr>bdata := d, writerIndex := len\<rparr>) = src"
    using cap d(2) lsrc len by (simp_all add: wf_buf_def contents_def splice_at_def)
  ultimately show ?thesis using that by (simp add: src_def)
qed

lemma bb_eq_contents:
  assumes "wf_buf a" and "wf_buf b"
  shows "bb_eq a b = Inr (contents a = contents b)"
proof (cases "length (contents a) = length (contents b)")
  case True
  with assms show ?thesis
    by (simp add: bb_eq_def readable_eq_length mem_read_contents)
next
  case False
  with assms show ?thesis by (auto simp: bb_eq_def readable_eq_length)
qed

lemma bb_copy_wf:
  assumes "wf_buf b" and "0 < capacity b \<longrightarrow> alloc_ok h (capacity b)"
  obtains c where "bb_copy h b = Inr c" "wf_buf c" "contents c = contents b"
proof (cases "capacity b = 0")
  case True
  with assms have "readerIndex b = 0" "writerIndex b = 0" "bb_copy h b = Inr bb_new"
    by (auto simp: wf_buf_def bb_copy_def bb_new_def Let_def)
  moreover from this have "contents b = []" by (simp add: contents_def)
  ultimately show ?thesis using that [of bb_new] by simp
next
  case False
  note wf = wf_bufD [OF assms(1)]
  define src where "src = take (writerIndex b) (blk (bdata b))"
  have read: "mem_read (bdata b) 0 (writerIndex b) = Inr src"
    using wf by (simp add: mem_read_blk src_def)
  have m: "malloc h (capacity b) = Some (map (fresh h) [0..<capacity b])"
    using False assms by simp
  have "0 + length src \<le> length (blk (malloc h (capacity b)))" using wf m by (simp add: src_def)
  from mem_write_blk [OF this] obtain d where
    d: "mem_write (malloc h (capacity b)) 0 src = Inr d"
      "blk d = splice_at 0 src (blk (malloc h (capacity b)))" .
  let ?c = "\<lparr>bdata = d, capacity = capacity b, readerIndex = readerIndex b, writerIndex = writerIndex b\<rparr>"
  have "bb_copy h b = Inr ?c"
    using False read d(1) by (simp add: bb_copy_def bb_new_def Let_def)
  moreover have ld: "length (blk d) = capacity b" using wf m d(2) by (simp add: src_def)
  then have "wf_buf ?c" using wf by (simp add: wf_buf_def)
  moreover have "take (writerIndex b) (blk d) = take (writerIndex b) (blk (bdata b))"
    using wf d(2) by (simp add: splice_at_def src_def)
  then have "contents ?c = contents b"
    by (simp add: contents_def drop_take [symmetric])
  ultimately show ?thesis using that by blast
qed


section \<open>The buffer as a byte FIFO\<close>

datatype fifo_op = Put bytes | Skip nat | Wipe

fun fifo_spec :: "fifo_op list \<Rightarrow> bytes \<Rightarrow> bytes" where
  "fifo_spec [] q = q"
| "fifo_spec (Put bs # ops) q = fifo_spec ops (q @ bs)"
| "fifo_spec (Skip n # ops) q = fifo_spec ops (drop n q)"
| "fifo_spec (Wipe # ops) q = fifo_spec ops []"

fun put_total :: "fifo_op list \<Rightarrow> nat" where
  "put_total [] = 0"
| "put_total (Put bs # ops) = length bs + put_total ops"
| "put_total (Skip n # ops) = put_total ops"
| "put_total (Wipe # ops) = put_total ops"

fun fifo_run :: "(bytes \<Rightarrow> 'b \<Rightarrow> 'b res) \<Rightarrow> (nat \<Rightarrow> 'b \<Rightarrow> 'b) \<Rightarrow> ('b \<Rightarrow> 'b) \<Rightarrow> fifo_op list \<Rightarrow> 'b \<Rightarrow> 'b res" where
  "fifo_run put skip wipe [] b = Inr b"
| "fifo_run put skip wipe (Put bs # ops) b = rbind (put bs b) (fifo_run put skip wipe ops)"
| "fifo_run put skip wipe (Skip n # ops) b = fifo_run put skip wipe ops (skip n b)"
| "fifo_run put skip wipe (Wipe # ops) b = fifo_run put skip wipe ops (wipe b)"

text \<open>
  What the codecs and the event loop rely on: a buffer with a view as a byte list, appended to
  by \<open>put\<close>, consumed from the front by \<open>skip\<close>, emptied by \<open>wipe\<close>; \<open>used\<close> bounds the space the
  writer has taken, and a \<open>put\<close> below the limit can only fail for lack of memory.
\<close>

locale byte_fifo =
  fixes ok :: "'b \<Rightarrow> bool"
    and view :: "'b \<Rightarrow> bytes"
    and used :: "'b \<Rightarrow> nat"
    and limit :: nat
    and put :: "bytes \<Rightarrow> 'b \<Rightarrow> 'b res"
    and skip :: "nat \<Rightarrow> 'b \<Rightarrow> 'b"
    and wipe :: "'b \<Rightarrow> 'b"
  assumes put_view: "ok b \<Longrightarrow> used b + length bs \<le> limit \<Longrightarrow> put bs b = Inr b' \<Longrightarrow>
      ok b' \<and> view b' = view b @ bs \<and> used b' = used b + length bs"
    and put_fault: "ok b \<Longrightarrow> used b + length bs \<le> limit \<Longrightarrow> put bs b = Inl e \<Longrightarrow> e = BadAlloc"
    and skip_view: "ok b \<Longrightarrow> ok (skip n b) \<and> view (skip n b) = drop n (view b) \<and> used (skip n b) = used b"
    and wipe_view: "ok b \<Longrightarrow> ok (wipe b) \<and> view (wipe b) = [] \<and> used (wipe b) = 0"
begin

lemma run_refines:
  "ok b \<Longrightarrow> used b + put_total ops \<le> limit \<Longrightarrow> fifo_run put skip wipe ops b = Inr b' \<Longrightarrow>
     ok b' \<and> view b' = fifo_spec ops (view b)"
proof (induction ops arbitrary: b)
  case (Cons op ops)
  show ?case
  proof (cases op)
    case (Put bs)
    with Cons.prems obtain b1 where b1: "put bs b = Inr b1" and run: "fifo_run put skip wipe ops b1 = Inr b'"
      by auto
    from Put Cons.prems put_view [OF _ _ b1] have
      "ok b1" "view b1 = view b @ bs" "used b1 + put_total ops \<le> limit" by auto
    with Cons.IH [of b1] run Put show ?thesis by simp
  next
    case (Skip n)
    with Cons.prems Cons.IH [of "skip n b"] skip_view [of b n] show ?thesis by simp
  next
    case Wipe
    with Cons.prems Cons.IH [of "wipe b"] wipe_view [of b] show ?thesis by simp
  qed
qed simp

lemma run_faults:
  "ok b \<Longrightarrow> used b + put_total ops \<le> limit \<Longrightarrow> fifo_run put skip wipe ops b = Inl e \<Longrightarrow> e = BadAlloc"
proof (induction ops arbitrary: b)
  case (Cons op ops)
  show ?case
  proof (cases op)
    case (Put bs)
    with Cons.prems have bound: "used b + length bs \<le> limit" by simp
    from Put Cons.prems consider "put bs b = Inl e"
      | b1 where "put bs b = Inr b1" "fifo_run put skip wipe ops b1 = Inl e"
      by (auto simp: rbind_eq_Inl)
    then show ?thesis
    proof cases
      case 1
      with put_fault [OF Cons.prems(1) bound] show ?thesis by blast
    next
      case 2
      with put_view [OF Cons.prems(1) bound 2(1)] Cons.prems Put Cons.IH [of b1] show ?thesis by simp
    qed
  next
    case (Skip n)
    with Cons.prems Cons.IH [of "skip n b"] skip_view [of b n] show ?thesis by simp
  next
    case Wipe
    with Cons.prems Cons.IH [of "wipe b"] wipe_view [of b] show ?thesis by simp
  qed
qed simp

end

interpretation bb: byte_fifo wf_buf contents writerIndex HALF "writeBytes h" discard bb_clear for h
proof unfold_locales
  fix b bs b'
  assume "wf_buf b" "writerIndex b + length bs \<le> HALF" "writeBytes h bs b = Inr b'"
  from writeBytes_Inr [OF this]
  show "wf_buf b' \<and> contents b' = contents b @ bs \<and> writerIndex b' = writerIndex b + length bs"
    by blast
qed (simp_all add: writeBytes_Inl discard_wf bb_clear_wf)

section \<open>All operations together\<close>

datatype bb_op =
    OpReadByte | OpReadBytes nat | OpReadString nat | OpWriteByte byte | OpWriteBytes bytes
  | OpSetReader nat | OpSetWriter nat | OpReserve nat | OpEnsure nat | OpClear | OpReset
  | OpTrim nat | OpShrink | OpDiscard nat

fun bb_step :: "heap \<Rightarrow> bb_op \<Rightarrow> bytebuf \<Rightarrow> bytebuf res" where
  "bb_step h OpReadByte b = rbind (readByte b) (\<lambda>p. Inr (snd p))"
| "bb_step h (OpReadBytes n) b = rbind (readBytes n b) (\<lambda>p. Inr (snd p))"
| "bb_step h (OpReadString n) b = rbind (readString n b) (\<lambda>p. Inr (snd p))"
| "bb_step h (OpWriteByte x) b = writeByte h x b"
| "bb_step h (OpWriteBytes bs) b = writeBytes h bs b"
| "bb_step h (OpSetReader i) b = setReaderIndex i b"
| "bb_step h (OpSetWriter i) b = setWriterIndex i b"
| "bb_step h (OpReserve n) b = reserve h n b"
| "bb_step h (OpEnsure n) b = ensureWritable h n b"
| "bb_step h OpClear b = Inr (bb_clear b)"
| "bb_step h OpReset b = Inr (bb_reset b)"
| "bb_step h (OpTrim n) b = trim h n b"
| "bb_step h OpShrink b = shrink h b"
| "bb_step h (OpDiscard n) b = Inr (discard n b)"

text \<open>
  The calls a client may make: requests below half the address space, no \<open>trim(0)\<close>, and no
  \<open>setWriterIndex\<close> behind the reader (the one precondition the class does not check).
\<close>

fun bb_legal :: "bb_op \<Rightarrow> bytebuf \<Rightarrow> bool" where
  "bb_legal (OpWriteByte x) b \<longleftrightarrow> writerIndex b + 1 \<le> HALF"
| "bb_legal (OpWriteBytes bs) b \<longleftrightarrow> writerIndex b + length bs \<le> HALF"
| "bb_legal (OpEnsure n) b \<longleftrightarrow> writerIndex b + n \<le> HALF"
| "bb_legal (OpReserve n) b \<longleftrightarrow> n < SZ"
| "bb_legal (OpSetWriter i) b \<longleftrightarrow> readerIndex b \<le> i"
| "bb_legal (OpTrim n) b \<longleftrightarrow> 0 < n"
| "bb_legal _ b \<longleftrightarrow> True"

lemma bb_step_wf:
  assumes "wf_buf b" and "bb_legal op b" and "bb_step h op b = Inr b'"
  shows "wf_buf b'"
proof (cases op)
  case OpReadByte
  with assms wf_advance [OF assms(1), of 1] show ?thesis
    by (auto simp: readByte_eq split: list.splits)
next
  case (OpReadBytes n)
  with assms wf_advance [OF assms(1), of n] show ?thesis by (auto simp: readBytes_eq split: if_splits)
next
  case (OpReadString n)
  with assms wf_advance [OF assms(1), of n] show ?thesis
    by (auto simp: readString_eq_readBytes readBytes_eq split: if_splits)
next
  case (OpWriteByte x)
  with assms writeBytes_Inr [OF assms(1), of "[x]" h b'] show ?thesis
    by (simp add: writeByte_eq_writeBytes)
next
  case (OpReserve n)
  with assms expand_Inr [OF assms(1), of n h b'] show ?thesis
    by (auto simp: reserve_def split: if_splits)
next
  case (OpEnsure n)
  with assms ensureWritable_Inr [OF assms(1), of n h b'] show ?thesis by simp
next
  case OpShrink
  with assms shrink_wf [OF assms(1), of h] show ?thesis by (metis bb_step.simps(13) sum.inject(2))
qed (use assms in \<open>auto simp: bb_reset_def discard_wf
      intro: setReaderIndex_wf setWriterIndex_wf trim_wf bb_clear_wf dest: writeBytes_Inr\<close>)

lemma bb_step_faults:
  assumes "wf_buf b" and "bb_legal op b" and "bb_step h op b = Inl e"
  shows "e = OutOfRange \<or> e = BadAlloc"
proof (cases op)
  case (OpWriteByte x)
  with assms writeBytes_Inl [OF assms(1), of "[x]" h e] show ?thesis
    by (simp add: writeByte_eq_writeBytes)
next
  case (OpReserve n)
  with assms show ?thesis
    by (auto simp: reserve_def split: if_splits intro: expand_Inl [of n h b e])
next
  case (OpEnsure n)
  with assms ensureWritable_Inl [OF assms(1), of n h e] show ?thesis by simp
next
  case OpShrink
  with assms shrink_wf [OF assms(1), of h] show ?thesis by (metis Inl_Inr_False bb_step.simps(13))
next
  case (OpTrim n)
  with assms show ?thesis
    by (auto simp: trim_def realloc_def rbind_eq_Inl Let_def split: if_splits option.splits)
qed (use assms in \<open>auto simp: readByte_eq readBytes_eq readString_eq_readBytes
      rbind_eq_Inl setReaderIndex_def setWriterIndex_def split: if_splits list.splits dest: writeBytes_Inl\<close>)

inductive bb_reachable :: "heap \<Rightarrow> bytebuf \<Rightarrow> bool" for h where
  new: "bb_reachable h bb_new"
| cap: "n < SZ \<Longrightarrow> 0 < n \<longrightarrow> alloc_ok h n \<Longrightarrow> bb_reachable h (bb_with_capacity h n)"
| step: "bb_reachable h b \<Longrightarrow> bb_legal op b \<Longrightarrow> bb_step h op b = Inr b' \<Longrightarrow> bb_reachable h b'"

lemma bb_reachable_wf: "bb_reachable h b \<Longrightarrow> wf_buf b"
  by (induction rule: bb_reachable.induct) (auto intro: bb_with_capacity_wf bb_step_wf)


section \<open>Properties\<close>

definition demo_heap :: heap where
  "demo_heap = \<lparr>alloc_ok = (\<lambda>_. True), fresh = (\<lambda>_. 0)\<rparr>"

lemma demo_heap_grants: "heap_grants demo_heap"
  by (simp add: heap_grants_def demo_heap_def)

text \<open>
  C1. A buffer is a byte FIFO: any sequence of \<open>writeBytes\<close>, \<open>discard\<close> and \<open>clear\<close> on a
  well-formed buffer, with less than half the address space written in total, either fails with
  \<open>std::bad_alloc\<close> or leaves a well-formed buffer whose readable bytes are exactly those of the
  abstract queue after the same operations.
\<close>

theorem bytebuf_refines_fifo:
  assumes "wf_buf b" and "writerIndex b + put_total ops \<le> HALF"
  shows "case fifo_run (writeBytes h) discard bb_clear ops b of
      Inl e \<Rightarrow> e = BadAlloc
    | Inr b' \<Rightarrow> wf_buf b' \<and> contents b' = fifo_spec ops (contents b)"
  using bb.run_refines [OF assms] bb.run_faults [OF assms] by (auto split: sum.split)

theorem bytebuf_refines_fifo_witness:
  "wf_buf bb_new \<and> writerIndex bb_new + put_total [Put [1, 2, 3], Skip 1, Put [4]] \<le> HALF \<and>
   (case fifo_run (writeBytes demo_heap) discard bb_clear [Put [1, 2, 3], Skip 1, Put [4]] bb_new of
      Inl e \<Rightarrow> e = BadAlloc
    | Inr b' \<Rightarrow> wf_buf b' \<and> contents b' = fifo_spec [Put [1, 2, 3], Skip 1, Put [4]] (contents bb_new))"
proof -
  have h: "wf_buf bb_new" "writerIndex bb_new + put_total [Put [1, 2, 3], Skip 1, Put [4]] \<le> HALF"
    by (simp_all add: bb_new_def wf_buf_def)
  show ?thesis using h bytebuf_refines_fifo [OF h, of demo_heap] by blast
qed



text \<open>
  C12. \<open>ensureWritable\<close> terminates and makes room: when the heap grants requests and the writer
  stays below half the address space, it returns a well-formed buffer with the same readable
  bytes and indices, at least the requested room, and less than twice the needed capacity
  unless the block did not grow (64 bytes being the smallest block).
\<close>

theorem ensureWritable_makes_room:
  assumes "wf_buf b" and "writerIndex b + len \<le> HALF" and "heap_grants h"
  shows "\<exists>b'. ensureWritable h len b = Inr b' \<and> wf_buf b' \<and> contents b' = contents b
    \<and> writerIndex b' = writerIndex b \<and> readerIndex b' = readerIndex b
    \<and> len \<le> writableBytes b'
    \<and> (capacity b' = capacity b \<or> capacity b' < max 65 (2 * (writerIndex b + len)))"
proof -
  from ensureWritable_granted [OF assms] obtain b' where
    b': "ensureWritable h len b = Inr b'" by blast
  note e = ensureWritable_Inr [OF assms(1,2) b']
  have "capacity b' = capacity b \<or> capacity b' < max 65 (2 * (writerIndex b + len))"
  proof (cases "capacity b < writerIndex b + len")
    case True
    from ensureWritable_expands [OF assms(1,2) True, of h] obtain c where
      c: "ensureWritable h len b = expand h c b" "writerIndex b + len \<le> c" "c < SZ"
        "c < max 65 (2 * (writerIndex b + len))" by blast
    with True b' expand_Inr [OF assms(1), of c h b'] show ?thesis by simp
  next
    case False
    with assms b' show ?thesis by (simp add: ensureWritable_fits)
  qed
  with b' e show ?thesis by (auto simp: writableBytes_wf)
qed

theorem ensureWritable_makes_room_witness:
  "wf_buf bb_new \<and> writerIndex bb_new + 100 \<le> HALF \<and> heap_grants demo_heap \<and>
   (\<exists>b'. ensureWritable demo_heap 100 bb_new = Inr b' \<and> wf_buf b' \<and> contents b' = contents bb_new
    \<and> writerIndex b' = writerIndex bb_new \<and> readerIndex b' = readerIndex bb_new
    \<and> 100 \<le> writableBytes b'
    \<and> (capacity b' = capacity bb_new \<or> capacity b' < max 65 (2 * (writerIndex bb_new + 100))))"
proof -
  have h: "wf_buf bb_new" "writerIndex bb_new + 100 \<le> HALF"
    by (simp_all add: bb_new_def wf_buf_def)
  show ?thesis using h demo_heap_grants ensureWritable_makes_room [OF h demo_heap_grants] by blast
qed

text \<open>The same loop does not end when more than half the address space is asked for and the
  capacity is a power of two (as it always is for a buffer that grew by itself): doubling wraps
  to 0 and stays there.
\<close>

theorem ensureWritable_diverges:
  assumes "wf_buf b" and "capacity b = 2 ^ k" and "k < 63"
    and "HALF < writerIndex b + len" and "writerIndex b + len < SZ"
  shows "ensureWritable h len b = Inl Diverges"
proof -
  have lt: "(2::nat) ^ k < HALF"
  proof -
    have "(2::nat) ^ k < 2 ^ 63" using assms(3) by (rule power_strict_increasing) simp
    then show ?thesis by simp
  qed
  then have m: "mul_sz (capacity b) 2 = 2 ^ Suc k" using assms(2) by (simp add: mul_sz_exact)
  have "\<exists>j\<le>63. (2::nat) ^ Suc k = 2 ^ j" using assms(3) by (intro exI [of _ "Suc k"]) simp
  then have "grow_cap (2 ^ Suc k) (writerIndex b + len) = None"
    using assms(4) by (intro grow_cap_pow2_None) simp_all
  with assms lt m show ?thesis
    by (simp add: ensureWritable_def add_sz_exact Let_def)
qed

theorem ensureWritable_diverges_witness:
  "ensureWritable demo_heap (HALF + 1) (bb_with_capacity demo_heap 1) = Inl Diverges"
proof -
  have c: "wf_buf (bb_with_capacity demo_heap 1)" "capacity (bb_with_capacity demo_heap 1) = 2 ^ 0"
      "writerIndex (bb_with_capacity demo_heap 1) = 0"
    using bb_with_capacity_wf [of 1 demo_heap] by (simp_all add: demo_heap_def)
  show ?thesis
    by (rule ensureWritable_diverges [where k = 0]) (use c in simp_all)
qed

text \<open>
  \<open>shrink\<close> never fails and never changes what can be read: it moves the readable bytes to
  the front, releases spare capacity, and keeps the invariant even when \<open>realloc\<close> refuses.
\<close>

theorem shrink_preserves_contents:
  assumes "wf_buf b"
  shows "\<exists>b'. shrink h b = Inr b' \<and> wf_buf b' \<and> contents b' = contents b \<and> readerIndex b' = 0
    \<and> capacity b' \<le> capacity b"
  using shrink_wf [OF assms, of h] by metis

theorem shrink_preserves_contents_witness:
  "wf_buf \<lparr>bdata = Some [1, 2, 3, 4], capacity = 4, readerIndex = 1, writerIndex = 3\<rparr> \<and>
   (\<exists>b'. shrink demo_heap \<lparr>bdata = Some [1, 2, 3, 4], capacity = 4, readerIndex = 1, writerIndex = 3\<rparr> = Inr b'
     \<and> wf_buf b' \<and> contents b' = [2, 3] \<and> readerIndex b' = 0)"
proof -
  let ?b = "\<lparr>bdata = Some [1, 2, 3, 4], capacity = 4, readerIndex = 1, writerIndex = 3\<rparr>"
  have h: "wf_buf ?b" by (simp add: wf_buf_def)
  have "contents ?b = [2, 3]" by (simp add: contents_def)
  with h shrink_preserves_contents [OF h, of demo_heap] show ?thesis by metis
qed

text \<open>
  \<open>trim\<close> loses data: it resets the reader to 0 without moving the readable bytes to the front
  first, so after a partial read the buffer offers bytes that were already consumed.
\<close>

theorem trim_exposes_consumed_bytes:
  assumes "alloc_ok h 4"
  shows "let b = \<lparr>bdata = Some [1, 2, 3, 4, 5, 6, 7, 8], capacity = 8, readerIndex = 4, writerIndex = 8\<rparr>
    in wf_buf b \<and> contents b = [5, 6, 7, 8] \<and>
       (\<exists>b'. trim h 4 b = Inr b' \<and> wf_buf b' \<and> contents b' = [1, 2, 3, 4])"
  using assms
  by (simp add: Let_def wf_buf_def contents_def trim_def realloc_def readableBytes_def sub_sz_def)

theorem trim_exposes_consumed_bytes_witness:
  "alloc_ok demo_heap 4 \<and>
   (let b = \<lparr>bdata = Some [1, 2, 3, 4, 5, 6, 7, 8], capacity = 8, readerIndex = 4, writerIndex = 8\<rparr>
    in wf_buf b \<and> contents b = [5, 6, 7, 8] \<and>
       (\<exists>b'. trim demo_heap 4 b = Inr b' \<and> wf_buf b' \<and> contents b' = [1, 2, 3, 4]))"
proof -
  have h: "alloc_ok demo_heap 4" by (simp add: demo_heap_def)
  show ?thesis using h trim_exposes_consumed_bytes [OF h] by blast
qed

end
