(* ===== verification/WsCodec.thy ===== *)
theory WsCodec
  imports ByteBuf
begin

text \<open>
  The WebSocket frame codec (\<open>include/xnetty/websocket/websocket_codec.h\<close>,
  \<open>src/websocket/websocket_codec.cpp\<close>). An opcode is the byte it is cast from (the cast of
  \<open>b0 & 0x0F\<close> is not range checked); a frame is the record \<open>ws_frame\<close>; the per-connection
  \<open>CodecState\<close> is \<open>ws_codec\<close>. \<open>ws_step\<close> is one round of the parsing loop of \<open>channelRead\<close>,
  \<open>ws_loop\<close> the loop, \<open>ws_channelRead\<close> the handler with its reassembly of partial input, and
  \<open>encodeFrame\<close> the encoder over the byte buffer. The frames handed to the next handler by
  \<open>ctx->fireRead\<close> are collected in order. Lengths are 64-bit words, as in the code.
  Allocation inside \<open>std::string\<close> is not modelled, except for its length limit.
\<close>

section \<open>Data\<close>

type_synonym u64 = "64 word"

abbreviation op_CONTINUATION :: byte where "op_CONTINUATION \<equiv> 0x0"
abbreviation op_TEXT :: byte where "op_TEXT \<equiv> 0x1"
abbreviation op_BINARY :: byte where "op_BINARY \<equiv> 0x2"
abbreviation op_CLOSE :: byte where "op_CLOSE \<equiv> 0x8"
abbreviation op_PING :: byte where "op_PING \<equiv> 0x9"
abbreviation op_PONG :: byte where "op_PONG \<equiv> 0xA"

record ws_frame =
  ws_opcode :: byte
  ws_fin :: bool
  ws_mask :: bool
  ws_key :: bytes
  ws_payload :: bytes

definition ws_frame_default :: ws_frame where
  "ws_frame_default =
     \<lparr>ws_opcode = op_TEXT, ws_fin = True, ws_mask = False, ws_key = [0, 0, 0, 0], ws_payload = []\<rparr>"

record ws_codec =
  leftover :: bytebuf
  fragmentPayload :: bytes
  fragmentOpcode :: byte

definition ws_codec_init :: ws_codec where
  "ws_codec_init = \<lparr>leftover = bb_new, fragmentPayload = [], fragmentOpcode = op_TEXT\<rparr>"

text \<open>\<open>std::string::max_size()\<close> on a 64-bit platform: a longer string is refused.\<close>

abbreviation string_max :: nat where
  "string_max \<equiv> 9223372036854775807"

section \<open>UTF-8 validation\<close>

fun isValidUtf8 :: "bytes \<Rightarrow> bool" where
  "isValidUtf8 [] = True"
| "isValidUtf8 (b # s) =
     (if b AND 0x80 = 0 then isValidUtf8 s
      else if b AND 0xe0 = 0xc0 then
        (case s of
           c1 # s' \<Rightarrow> if c1 AND 0xc0 \<noteq> 0x80 then False else isValidUtf8 s'
         | _ \<Rightarrow> False)
      else if b AND 0xf0 = 0xe0 then
        (case s of
           c1 # c2 # s' \<Rightarrow>
             if c1 AND 0xc0 \<noteq> 0x80 \<or> c2 AND 0xc0 \<noteq> 0x80 then False
             else if b = 0xe0 \<and> c1 AND 0xe0 = 0x80 then False
             else if b = 0xed \<and> c1 AND 0xe0 = 0xa0 then False
             else isValidUtf8 s'
         | _ \<Rightarrow> False)
      else if b AND 0xf8 = 0xf0 then
        (case s of
           c1 # c2 # c3 # s' \<Rightarrow>
             if c1 AND 0xc0 \<noteq> 0x80 \<or> c2 AND 0xc0 \<noteq> 0x80 \<or> c3 AND 0xc0 \<noteq> 0x80 then False
             else if b = 0xf0 \<and> c1 AND 0xf0 = 0x80 then False
             else if b > 0xf4 \<or> (b = 0xf4 \<and> c1 > 0x8f) then False
             else isValidUtf8 s'
         | _ \<Rightarrow> False)
      else False)"

section \<open>Decoding\<close>

definition be16 :: "byte \<Rightarrow> byte \<Rightarrow> u64" where
  "be16 hi lo = push_bit 8 (ucast hi) OR ucast lo"

definition be64 :: "bytes \<Rightarrow> u64" where
  "be64 bs = foldl (\<lambda>payloadLen b. push_bit 8 payloadLen OR ucast b) 0 bs"

definition xor_key :: "bytes \<Rightarrow> bytes \<Rightarrow> bytes" where
  "xor_key key bs = map (\<lambda>i. bs ! i XOR key ! (i mod 4)) [0..<length bs]"

text \<open>
  The length field: \<open>None\<close> when more input is needed, otherwise the header length before the
  masking key and the payload length.
\<close>

definition ws_lengths :: "bytes \<Rightarrow> byte \<Rightarrow> (nat \<times> u64) option" where
  "ws_lengths raw b1 =
     (let len = length raw; payloadLen = (ucast (b1 AND 0x7F) :: u64) in
      if payloadLen = 126
      then if len < 4 then None else Some (4, be16 (raw ! 2) (raw ! 3))
      else if payloadLen = 127
      then if len < 10 then None else Some (10, be64 (take 8 (drop 2 raw)))
      else Some (2, payloadLen))"

datatype ws_round =
    Stash                          \<comment> \<open>input is incomplete: keep it for the next read\<close>
  | Throw fault                    \<comment> \<open>an exception leaves the handler\<close>
  | Abandon                        \<comment> \<open>protocol violation: \<open>return\<close>\<close>
  | Absorb ws_codec nat            \<comment> \<open>a fragment was stored; bytes consumed\<close>
  | Emit ws_codec ws_frame nat     \<comment> \<open>a frame is passed on; bytes consumed\<close>

definition ws_dispatch :: "ws_codec \<Rightarrow> bool \<Rightarrow> byte \<Rightarrow> bool \<Rightarrow> bytes \<Rightarrow> nat \<Rightarrow> ws_round" where
  "ws_dispatch st fin opcode masked payload consumed =
     (let emit = (\<lambda>st opcode payload.
            Emit st (ws_frame_default\<lparr>ws_opcode := opcode, ws_fin := True, ws_mask := masked,
                                       ws_payload := payload\<rparr>) consumed) in
      if opcode \<ge> op_CLOSE \<and> \<not> fin then Abandon
      else if opcode = op_TEXT \<and> \<not> isValidUtf8 payload then Abandon
      else if opcode = op_CONTINUATION then
        let joined = fragmentPayload st @ payload in
        if fin then emit (st\<lparr>fragmentPayload := []\<rparr>) (fragmentOpcode st) joined
        else Absorb (st\<lparr>fragmentPayload := joined\<rparr>) consumed
      else if \<not> fin then
        Absorb (st\<lparr>fragmentOpcode := opcode, fragmentPayload := payload\<rparr>) consumed
      else emit st opcode payload)"

definition ws_step :: "ws_codec \<Rightarrow> bytes \<Rightarrow> ws_round" where
  "ws_step st raw =
     (let len = length raw in
      if len < 2 then Stash
      else
        let b0 = raw ! 0; b1 = raw ! 1;
            fin = (b0 AND 0x80 \<noteq> 0);
            opcode = b0 AND 0x0F;
            masked = (b1 AND 0x80 \<noteq> 0) in
        case ws_lengths raw b1 of
          None \<Rightarrow> Stash
        | Some (hl, payloadLen) \<Rightarrow>
            if masked \<and> len < hl + 4 then Stash
            else
              let headerLen = (if masked then hl + 4 else hl); pl = unat payloadLen in
              if len < add_sz headerLen pl then Stash
              else if pl > string_max then Throw LengthError
              else if headerLen + pl > len then Throw UndefinedBehaviour
              else
                let maskingKey = take 4 (drop (headerLen - 4) raw);
                    data = take pl (drop headerLen raw);
                    payload = (if masked then xor_key maskingKey data else data)
                in ws_dispatch st fin opcode masked payload (add_sz headerLen pl))"

text \<open>
  The loop. \<open>raw\<close> is the byte view of \<open>buf\<close>, recomputed by the code at the top of each round;
  the result is the state, the buffer, the frames passed on and the exception, if any.
\<close>

type_synonym ws_result = "ws_codec \<times> bytebuf \<times> ws_frame list \<times> fault option"

lemma ws_dispatch_consumed:
  "ws_dispatch st fin opcode masked payload n = Absorb st' m \<Longrightarrow> m = n"
  "ws_dispatch st fin opcode masked payload n = Emit st' f m \<Longrightarrow> m = n"
  by (auto simp: ws_dispatch_def Let_def split: if_splits)

lemma ws_lengths_bound: "ws_lengths raw b1 = Some (hl, pl) \<Longrightarrow> 2 \<le> hl \<and> hl \<le> 10"
  by (auto simp: ws_lengths_def Let_def split: if_splits)

lemma ws_step_consumed:
  assumes "ws_step st raw = Absorb st' n \<or> ws_step st raw = Emit st' f n"
  shows "2 \<le> n \<and> n \<le> length raw"
proof -
  obtain hl pl where l: "ws_lengths raw (raw ! 1) = Some (hl, pl)"
    using assms by (auto simp: ws_step_def Let_def split: if_splits option.splits)
  define headerLen where "headerLen = (if raw ! 1 AND 0x80 \<noteq> 0 then hl + 4 else hl)"
  have h: "2 \<le> headerLen" "headerLen \<le> 14" using ws_lengths_bound [OF l] by (auto simp: headerLen_def)
  have "headerLen + unat pl \<le> length raw \<and> unat pl \<le> string_max \<and> n = add_sz headerLen (unat pl)"
    using assms l by (auto simp: ws_step_def Let_def headerLen_def dest!: ws_dispatch_consumed split: if_splits)
  with h show ?thesis by (auto simp: add_sz_exact)
qed

lemma ws_step_progress:
  "ws_step st raw = Absorb st' n \<Longrightarrow> 2 \<le> n \<and> n \<le> length raw"
  "ws_step st raw = Emit st' f n \<Longrightarrow> 2 \<le> n \<and> n \<le> length raw"
  using ws_step_consumed by metis+

function ws_loop :: "heap \<Rightarrow> ws_codec \<Rightarrow> bytebuf \<Rightarrow> bytes \<Rightarrow> ws_frame list \<Rightarrow> ws_result" where
  "ws_loop h st buf raw out =
     (if raw = [] then (st, bb_clear buf, out, None)
      else case ws_step st raw of
        Stash \<Rightarrow>
          (case writeBytes h raw (leftover st) of
             Inl e \<Rightarrow> (st, buf, out, Some e)
           | Inr l \<Rightarrow> (st\<lparr>leftover := l\<rparr>, bb_clear buf, out, None))
      | Throw e \<Rightarrow> (st, buf, out, Some e)
      | Abandon \<Rightarrow> (st, buf, out, None)
      | Absorb st' n \<Rightarrow> ws_loop h st' (discard n buf) (drop n raw) out
      | Emit st' f n \<Rightarrow>
          if ws_opcode f = op_CLOSE then (st', buf, out @ [f], None)
          else ws_loop h st' (discard n buf) (drop n raw) (out @ [f]))"
  by pat_completeness auto
termination
  by (relation "measure (\<lambda>(h, st, buf, raw, out). length raw)")
    (auto dest!: ws_step_progress)

declare ws_loop.simps [simp del]

text \<open>
  The handler. The message is \<open>None\<close> when it is not a non-null \<open>ByteBuf*\<close>; such a message, and
  an empty buffer, is passed to the next handler unchanged.
\<close>

datatype ws_read = PassOn | Decoded ws_codec bytebuf "ws_frame list" "fault option"

definition ws_merge :: "heap \<Rightarrow> ws_codec \<Rightarrow> bytebuf \<Rightarrow> (ws_codec \<times> bytebuf) res" where
  "ws_merge h st buf =
     (if readableBytes (leftover st) > 0
      then rbind (mem_read (bdata buf) (readerIndex buf) (readableBytes buf)) (\<lambda>new.
           rbind (writeBytes h new (leftover st)) (\<lambda>l.
           rbind (mem_read (bdata l) (readerIndex l) (readableBytes l)) (\<lambda>all.
           rbind (writeBytes h all (bb_clear buf)) (\<lambda>buf.
           rbind (setReaderIndex 0 buf) (\<lambda>buf.
           Inr (st\<lparr>leftover := bb_clear l\<rparr>, buf))))))
      else Inr (st, buf))"

definition ws_channelRead :: "heap \<Rightarrow> ws_codec \<Rightarrow> bytebuf option \<Rightarrow> ws_read" where
  "ws_channelRead h st msg =
     (case msg of
        None \<Rightarrow> PassOn
      | Some buf \<Rightarrow>
          if readableBytes buf = 0 then PassOn
          else case ws_merge h st buf of
                 Inl e \<Rightarrow> Decoded st buf [] (Some e)
               | Inr (st, buf) \<Rightarrow>
                   (case ws_loop h st buf (contents buf) [] of
                      (st, buf, out, ex) \<Rightarrow> Decoded st buf out ex))"

text \<open>\<open>tryParse\<close> is declared and never used; it always refuses.\<close>

definition ws_tryParse :: "bytes \<Rightarrow> ws_frame \<Rightarrow> bool" where
  "ws_tryParse data out = False"

section \<open>Encoding\<close>

fun writeEach :: "heap \<Rightarrow> bytes \<Rightarrow> bytebuf \<Rightarrow> bytebuf res" where
  "writeEach h [] b = Inr b"
| "writeEach h (x # xs) b = rbind (writeByte h x b) (writeEach h xs)"

definition ws_header_size :: "ws_frame \<Rightarrow> nat" where
  "ws_header_size frame =
     (let payloadSize = length (ws_payload frame);
          headerSize = (if payloadSize \<ge> 126 \<and> payloadSize \<le> 0xFFFF then 2 + 2
                        else if payloadSize > 0xFFFF then 2 + 10 else 2)
      in if ws_mask frame then headerSize + 4 else headerSize)"

definition ws_length_bytes :: "nat \<Rightarrow> bool \<Rightarrow> bytes" where
  "ws_length_bytes payloadSize masked =
     (let m = (if masked then 0x80 else 0 :: byte); n = (of_nat payloadSize :: u64) in
      if payloadSize < 126 then [ucast n OR m]
      else if payloadSize \<le> 0xFFFF
      then [126 OR m, ucast (drop_bit 8 n AND 0xFF), ucast (n AND 0xFF)]
      else (127 OR m) # map (\<lambda>i. ucast (drop_bit (i * 8) n AND 0xFF)) [7, 6, 5, 4, 3, 2, 1, 0])"

definition encodeFrame :: "heap \<Rightarrow> ws_frame \<Rightarrow> bytebuf res" where
  "encodeFrame h frame =
     (let payloadSize = length (ws_payload frame);
          buf = bb_with_capacity h (ws_header_size frame + payloadSize);
          b0 = (if ws_fin frame then 0x80 else 0x00) OR ws_opcode frame in
      rbind (writeByte h b0 buf) (\<lambda>buf.
      rbind (writeEach h (ws_length_bytes payloadSize (ws_mask frame)) buf) (\<lambda>buf.
      rbind (if ws_mask frame then writeBytes h (ws_key frame) buf else Inr buf) (\<lambda>buf.
      if ws_payload frame \<noteq> []
      then if ws_mask frame
           then writeEach h (xor_key (ws_key frame) (ws_payload frame)) buf
           else writeBytes h (ws_payload frame) buf
      else Inr buf))))"

text \<open>
  The outbound handler: a frame replaces whatever the connection's write buffer holds; the
  caller then flushes it. Any other message is forwarded (\<open>None\<close>).
\<close>

definition ws_write :: "heap \<Rightarrow> ws_frame option \<Rightarrow> bytebuf \<Rightarrow> bytebuf res option" where
  "ws_write h msg wbuf =
     (case msg of
        None \<Rightarrow> None
      | Some frame \<Rightarrow> Some (
          rbind (encodeFrame h frame) (\<lambda>buf.
          rbind (mem_read (bdata buf) (readerIndex buf) (readableBytes buf)) (\<lambda>src.
          writeBytes h src (bb_clear wbuf)))))"

section \<open>The wire format\<close>

lemma shift_or_bit:
  "bit (push_bit 8 (p::u64) OR ucast (b::byte)) j \<longleftrightarrow> (if j < 8 then bit b j else j < 64 \<and> bit p (j - 8))"
  by (auto simp: bit_simps dest: bit_imp_le_length)

lemma and_255: "(x::u64) AND 0xFF = take_bit 8 x"
  by (simp add: take_bit_eq_mask mask_eq_exp_minus_1)

lemma join_byte: "push_bit 8 (drop_bit 8 x) OR ucast (ucast (x AND 0xFF) :: byte) = (x::u64)"
  by (rule bit_word_eqI) (auto simp: shift_or_bit and_255 bit_simps)

lemma be64_bytes:
  "be64 (map (\<lambda>i. ucast (drop_bit (i * 8) (n::u64) AND 0xFF)) [7, 6, 5, 4, 3, 2, 1, 0]) = n"
proof -
  have step: "push_bit 8 (drop_bit (k + 8) n) OR ucast (ucast (drop_bit k n AND 0xFF) :: byte) = drop_bit k n" for k
    using join_byte [of "drop_bit k n"] by (simp add: add.commute)
  have top: "drop_bit 64 n = 0" by (rule bit_word_eqI) (simp add: bit_simps)
  show ?thesis
    using step [of 56] step [of 48] step [of 40] step [of 32] step [of 24] step [of 16] step [of 8] step [of 0] top
    by (simp add: be64_def)
qed

lemma word_less_bit: 
  assumes "unat (n::u64) < 2 ^ k" and "k \<le> j" shows "\<not> bit n j"
proof -
  have "take_bit k n = n" using assms(1) by (simp add: word_unat_eq_iff unsigned_take_bit_eq take_bit_nat_eq_self_iff)
  then have "bit n j = bit (take_bit k n) j" by simp
  with assms(2) show ?thesis by (simp add: bit_take_bit_iff)
qed

lemma be16_bytes:
  assumes "unat (n::u64) \<le> 0xFFFF"
  shows "be16 (ucast (drop_bit 8 n AND 0xFF)) (ucast (n AND 0xFF)) = n"
proof (rule bit_word_eqI)
  fix j assume "j < LENGTH(64)"
  moreover have "16 \<le> j \<Longrightarrow> \<not> bit n j"
    using word_less_bit [of n 16 j] assms by simp
  ultimately show "bit (be16 (ucast (drop_bit 8 n AND 0xFF)) (ucast (n AND 0xFF))) j = bit n j"
    by (fastforce simp: be16_def shift_or_bit and_255 bit_simps)
qed

lemma len_byte:
  assumes "unat (x::byte) < 128"
  shows "(x OR (if m then 0x80 else 0)) AND 0x7F = x"
    "(x OR (if m then 0x80 else 0)) AND 0x80 \<noteq> 0 \<longleftrightarrow> m"
proof -
  have t: "take_bit 7 x = x" using assms by (simp add: word_unat_eq_iff unsigned_take_bit_eq take_bit_nat_eq_self_iff)
  have x7: "x AND 0x7F = x" using t take_bit_eq_mask [of 7 x] by (simp add: mask_eq_exp_minus_1)
  have "x AND 0x80 = x AND (0x7F AND 0x80)" by (metis x7 and.assoc)
  then have x8: "x AND 0x80 = 0" by simp
  show "(x OR (if m then 0x80 else 0)) AND 0x7F = x" using x7 by (simp add: bit.conj_disj_distrib2)
  show "(x OR (if m then 0x80 else 0)) AND 0x80 \<noteq> 0 \<longleftrightarrow> m" using x8 by (simp add: bit.conj_disj_distrib2)
qed

lemma xor_key_involutive: "length key = 4 \<Longrightarrow> xor_key key (xor_key key bs) = bs"
  by (rule nth_equalityI) (simp_all add: xor_key_def xor.assoc)
lemma length_xor_key [simp]: "length (xor_key key bs) = length bs"
  by (simp add: xor_key_def)

definition ws_wire :: "ws_frame \<Rightarrow> bytes" where
  "ws_wire f = ((if ws_fin f then 0x80 else 0x00) OR ws_opcode f)
     # ws_length_bytes (length (ws_payload f)) (ws_mask f)
     @ (if ws_mask f then ws_key f @ xor_key (ws_key f) (ws_payload f) else ws_payload f)"

definition appended :: "bytebuf \<Rightarrow> bytes \<Rightarrow> bytebuf \<Rightarrow> bool" where
  "appended b xs b' \<longleftrightarrow> wf_buf b' \<and> contents b' = contents b @ xs \<and> capacity b' = capacity b
     \<and> writerIndex b' = writerIndex b + length xs"

lemma appended_trans: "appended a xs b \<Longrightarrow> appended b ys c \<Longrightarrow> appended a (xs @ ys) c"
  by (simp add: appended_def)

lemma writeBytes_appended:
  assumes "wf_buf b" and "writerIndex b + length xs \<le> capacity b"
  shows "\<exists>b'. writeBytes h xs b = Inr b' \<and> appended b xs b'"
  using writeBytes_fits [OF assms, of h] by (metis appended_def)

lemma writeEach_appended:
  "wf_buf b \<Longrightarrow> writerIndex b + length xs \<le> capacity b \<Longrightarrow>
     \<exists>b'. writeEach h xs b = Inr b' \<and> appended b xs b'"
proof (induction xs arbitrary: b)
  case Nil
  then show ?case by (simp add: appended_def)
next
  case (Cons x xs)
  then have "writerIndex b + length [x] \<le> capacity b" by simp
  from writeBytes_appended [OF Cons.prems(1) this] obtain b1 where
    b1: "writeBytes h [x] b = Inr b1" "appended b [x] b1" by blast
  then have "wf_buf b1" "writerIndex b1 + length xs \<le> capacity b1"
    using Cons.prems by (simp_all add: appended_def)
  from Cons.IH [OF this] obtain b2 where "writeEach h xs b1 = Inr b2" "appended b1 xs b2" by blast
  with b1 appended_trans [of b "[x]" b1 xs b2] show ?case by (simp add: writeByte_eq_writeBytes)
qed

lemma length_ws_length_bytes:
  "length (ws_length_bytes n m) = (if n < 126 then 1 else if n \<le> 0xFFFF then 3 else 9)"
  by (simp add: ws_length_bytes_def Let_def)

lemma length_ws_wire:
  "ws_mask f \<longrightarrow> length (ws_key f) = 4 \<Longrightarrow>
   length (ws_wire f) = 1 + length (ws_length_bytes (length (ws_payload f)) (ws_mask f))
     + (if ws_mask f then 4 else 0) + length (ws_payload f)"
  by (simp add: ws_wire_def)

lemma ws_wire_fits:
  "ws_mask f \<longrightarrow> length (ws_key f) = 4 \<Longrightarrow>
   length (ws_wire f) \<le> ws_header_size f + length (ws_payload f)"
  by (simp add: length_ws_wire length_ws_length_bytes ws_header_size_def Let_def)

lemma encodeFrame_wire:
  assumes key: "ws_mask f \<longrightarrow> length (ws_key f) = 4"
    and size: "ws_header_size f + length (ws_payload f) < SZ"
    and ok: "alloc_ok h (ws_header_size f + length (ws_payload f))"
  shows "\<exists>b. encodeFrame h f = Inr b \<and> wf_buf b \<and> contents b = ws_wire f
    \<and> capacity b = ws_header_size f + length (ws_payload f) \<and> writerIndex b = length (ws_wire f)"
proof -
  define b where "b = bb_with_capacity h (ws_header_size f + length (ws_payload f))"
  note cap = bb_with_capacity_wf [OF size, of h, folded b_def]
  define b0 where "b0 = (if ws_fin f then 0x80 else 0x00) OR ws_opcode f"
  define lb where "lb = ws_length_bytes (length (ws_payload f)) (ws_mask f)"
  define kb where "kb = (if ws_mask f then ws_key f else [])"
  define pb where "pb = (if ws_mask f then xor_key (ws_key f) (ws_payload f) else ws_payload f)"
  have wire: "ws_wire f = [b0] @ lb @ kb @ pb"
    by (simp add: ws_wire_def b0_def lb_def kb_def pb_def)
  have fit: "length ([b0] @ lb @ kb @ pb) \<le> capacity b"
    using ws_wire_fits [OF key] cap ok wire by simp
  obtain b1 where b1: "writeByte h b0 b = Inr b1" "appended b [b0] b1"
    using writeBytes_appended [of b "[b0]" h] cap ok fit by (auto simp: writeByte_eq_writeBytes)
  obtain b2 where b2: "writeEach h lb b1 = Inr b2" "appended b1 lb b2"
    using writeEach_appended [of b1 lb h] b1 cap ok fit by (auto simp: appended_def)
  obtain b3 where b3: "(if ws_mask f then writeBytes h (ws_key f) b2 else Inr b2) = Inr b3" "appended b2 kb b3"
    using writeBytes_appended [of b2 kb h] b1 b2 cap ok fit
    by (cases "ws_mask f") (auto simp: appended_def kb_def)
  obtain b4 where b4: "(if ws_payload f \<noteq> [] then if ws_mask f
        then writeEach h (xor_key (ws_key f) (ws_payload f)) b3 else writeBytes h (ws_payload f) b3
        else Inr b3) = Inr b4" "appended b3 pb b4"
    using writeBytes_appended [of b3 pb h] writeEach_appended [of b3 pb h] b1 b2 b3 cap ok fit
    by (cases "ws_payload f = []"; cases "ws_mask f") (auto simp: appended_def pb_def xor_key_def)
  have "encodeFrame h f = Inr b4"
    using b1(1) b2(1) b3(1) b4(1)
    by (simp add: encodeFrame_def Let_def b_def [symmetric] b0_def [symmetric] lb_def [symmetric])
  moreover have "appended b (ws_wire f) b4"
    unfolding wire using b1(2) b2(2) b3(2) b4(2) by (metis appended_trans)
  ultimately show ?thesis using cap ok by (auto simp: appended_def)
qed

lemma unat_len_byte: "n < 256 \<Longrightarrow> unat (ucast (of_nat n :: u64) :: byte) = n"
  by (simp add: unsigned_ucast_eq unat_of_nat take_bit_nat_eq_self_iff)

lemma ws_length_first:
  fixes n :: nat and m :: bool
  assumes "n < SZ"
  defines "b1 \<equiv> ws_length_bytes n m ! 0"
  shows "b1 AND 0x80 \<noteq> 0 \<longleftrightarrow> m"
    and "(ucast (b1 AND 0x7F) :: u64) = (if n < 126 then of_nat n else if n \<le> 0xFFFF then 126 else 127)"
proof -
  define x :: byte where "x = (if n < 126 then ucast (of_nat n :: u64) else if n \<le> 0xFFFF then 126 else 127)"
  have b1: "b1 = x OR (if m then 0x80 else 0)"
    by (simp add: b1_def x_def ws_length_bytes_def Let_def)
  have x: "unat x < 128" by (simp add: x_def unat_len_byte)
  show "b1 AND 0x80 \<noteq> 0 \<longleftrightarrow> m" unfolding b1 by (rule len_byte(2) [OF x])
  have "b1 AND 0x7F = x" unfolding b1 by (rule len_byte(1) [OF x])
  moreover have "n < 126 \<Longrightarrow> (ucast (ucast (of_nat n :: u64) :: byte) :: u64) = of_nat n"
    by (simp add: word_unat_eq_iff unsigned_ucast_eq unsigned_take_bit_eq unat_of_nat take_bit_nat_eq_self_iff)
  ultimately show "(ucast (b1 AND 0x7F) :: u64) = (if n < 126 then of_nat n else if n \<le> 0xFFFF then 126 else 127)"
    by (simp add: x_def)
qed

lemma of_nat_ne: "n < 126 \<Longrightarrow> (of_nat n :: u64) \<noteq> 126 \<and> (of_nat n :: u64) \<noteq> 127"
  by (auto simp: word_unat_eq_iff unat_of_nat)

text \<open>The length field of a prefix of a frame: incomplete, or decoded in full.\<close>

lemma ws_lengths_mid:
  assumes n: "n < SZ" "126 \<le> n" "n \<le> 0xFFFF" and k: "4 \<le> k"
  shows "ws_lengths (take k (b0 # ws_length_bytes n m @ tail)) (ws_length_bytes n m ! 0) = Some (4, of_nat n)"
proof -
  have lb: "ws_length_bytes n m = [126 OR (if m then 0x80 else 0),
      ucast (drop_bit 8 (of_nat n :: u64) AND 0xFF), ucast ((of_nat n :: u64) AND 0xFF)]"
    using n by (simp add: ws_length_bytes_def Let_def)
  have u: "unat (of_nat n :: u64) \<le> 0xFFFF" using n by (simp add: unat_of_nat)
  have "take k (b0 # ws_length_bytes n m @ tail) = b0 # ws_length_bytes n m @ take (k - 4) tail"
    using k by (simp add: lb take_Cons' numeral_eq_Suc)
  with n k ws_length_first(2) [OF n(1), of m] show ?thesis by (simp add: ws_lengths_def Let_def lb be16_bytes [OF u])
qed

lemma ws_lengths_long:
  assumes n: "n < SZ" "0xFFFF < n" and k: "10 \<le> k"
  shows "ws_lengths (take k (b0 # ws_length_bytes n m @ tail)) (ws_length_bytes n m ! 0) = Some (10, of_nat n)"
proof -
  define eight :: bytes where
    "eight = map (\<lambda>i. ucast (drop_bit (i * 8) (of_nat n :: u64) AND 0xFF)) [7, 6, 5, 4, 3, 2, 1, 0]"
  have lb: "ws_length_bytes n m = (127 OR (if m then 0x80 else 0)) # eight"
    using n by (simp add: ws_length_bytes_def Let_def eight_def)
  have l8: "length eight = 8" by (simp add: eight_def)
  have "take k (b0 # ws_length_bytes n m @ tail) = b0 # (127 OR (if m then 0x80 else 0)) # eight @ take (k - 10) tail"
    unfolding lb using l8 k by (simp add: take_Cons')
  then have "take 8 (drop 2 (take k (b0 # ws_length_bytes n m @ tail))) = eight" using l8 by simp
  then have "be64 (take 8 (drop 2 (take k (b0 # ws_length_bytes n m @ tail)))) = of_nat n"
    using be64_bytes [of "of_nat n"] by (simp add: eight_def)
  moreover have "length (ws_length_bytes n m) = 9" using n by (simp add: length_ws_length_bytes)
  ultimately show ?thesis using n k ws_length_first(2) [OF n(1), of m] by (simp add: ws_lengths_def Let_def)
qed

lemma ws_lengths_take:
  assumes n: "n < SZ" and k: "2 \<le> k"
  shows "ws_lengths (take k (b0 # ws_length_bytes n m @ tail)) (ws_length_bytes n m ! 0) =
    (if k < 1 + length (ws_length_bytes n m) then None
     else Some (1 + length (ws_length_bytes n m), of_nat n))"
proof -
  note f = ws_length_first(2) [OF n, of m]
  consider (short) "n < 126" | (mid) "126 \<le> n" "n \<le> 0xFFFF" | (long) "0xFFFF < n" by linarith
  then show ?thesis
  proof cases
    case short
    then show ?thesis using f of_nat_ne [OF short] k by (simp add: ws_lengths_def Let_def length_ws_length_bytes)
  next
    case mid
    then show ?thesis using f k ws_lengths_mid [OF n mid, of k b0 m tail]
      by (cases "k < 4") (auto simp: ws_lengths_def Let_def length_ws_length_bytes)
  next
    case long
    then show ?thesis using f k ws_lengths_long [OF n long, of k b0 m tail]
      by (cases "k < 10") (auto simp: ws_lengths_def Let_def length_ws_length_bytes)
  qed
qed

text \<open>A frame the decoder is meant to pass on unchanged.\<close>

definition ws_wellformed :: "ws_frame \<Rightarrow> bool" where
  "ws_wellformed f \<longleftrightarrow> ws_fin f \<and> unat (ws_opcode f) < 16 \<and> ws_opcode f \<noteq> op_CONTINUATION
     \<and> (ws_opcode f = op_TEXT \<longrightarrow> isValidUtf8 (ws_payload f))
     \<and> (ws_mask f \<longrightarrow> length (ws_key f) = 4) \<and> length (ws_payload f) \<le> string_max"

definition ws_received :: "ws_frame \<Rightarrow> ws_frame" where
  "ws_received f = f\<lparr>ws_key := [0, 0, 0, 0]\<rparr>"

lemma op_byte:
  assumes "unat (x::byte) < 16"
  shows "((if m then 0x80 else 0x00) OR x) AND 0x0F = x"
    "((if m then 0x80 else 0x00) OR x) AND 0x80 \<noteq> 0 \<longleftrightarrow> m"
proof -
  have t: "take_bit 4 x = x"
    using assms by (simp add: word_unat_eq_iff unsigned_take_bit_eq take_bit_nat_eq_self_iff)
  have x4: "x AND 0x0F = x" using t take_bit_eq_mask [of 4 x] by (simp add: mask_eq_exp_minus_1)
  have "x AND 0x80 = x AND (0x0F AND 0x80)" by (metis x4 and.assoc)
  then have x8: "x AND 0x80 = 0" by simp
  show "((if m then 0x80 else 0x00) OR x) AND 0x0F = x" using x4 by (simp add: bit.conj_disj_distrib2)
  show "((if m then 0x80 else 0x00) OR x) AND 0x80 \<noteq> 0 \<longleftrightarrow> m" using x8 by (simp add: bit.conj_disj_distrib2)
qed

lemma ws_dispatch_wellformed:
  "ws_wellformed f \<Longrightarrow>
   ws_dispatch st True (ws_opcode f) (ws_mask f) (ws_payload f) n = Emit st (ws_received f) n"
  by (simp add: ws_dispatch_def ws_wellformed_def ws_received_def ws_frame_default_def)

lemma ws_step_wire:
  assumes wf: "ws_wellformed f"
  shows "ws_step st (ws_wire f @ rest) = Emit st (ws_received f) (length (ws_wire f))"
proof -
  define n where "n = length (ws_payload f)"
  define m where "m = ws_mask f"
  define lb where "lb = ws_length_bytes n m"
  define b0 :: byte where "b0 = (if ws_fin f then 0x80 else 0x00) OR ws_opcode f"
  define kb where "kb = (if m then ws_key f else [])"
  define pb where "pb = (if m then xor_key (ws_key f) (ws_payload f) else ws_payload f)"
  have n: "n < SZ" "n \<le> string_max" using wf by (simp_all add: ws_wellformed_def n_def)
  have W: "ws_wire f @ rest = b0 # lb @ kb @ pb @ rest"
    by (simp add: ws_wire_def b0_def lb_def kb_def pb_def n_def m_def)
  have ne: "lb \<noteq> []" "1 + length lb \<le> 10" "2 \<le> 1 + length lb"
    by (auto simp: lb_def length_ws_length_bytes ws_length_bytes_def Let_def)
  have b1: "(b0 # lb @ kb @ pb @ rest) ! 1 = lb ! 0" using ne by (simp add: nth_append)
  have lens: "ws_lengths (b0 # lb @ kb @ pb @ rest) (lb ! 0) = Some (1 + length lb, of_nat n)"
    using ws_lengths_take [OF n(1), of "length (b0 # lb @ kb @ pb @ rest)" b0 m "kb @ pb @ rest"] ne
    by (simp add: lb_def)
  have masked: "lb ! 0 AND 0x80 \<noteq> 0 \<longleftrightarrow> m" unfolding lb_def by (rule ws_length_first(1) [OF n(1)])
  have lk: "length kb = (if m then 4 else 0)" and lp: "length pb = n"
    using wf by (simp_all add: kb_def pb_def m_def n_def ws_wellformed_def)
  define H where "H = 1 + length lb + length kb"
  have H: "H \<le> 14" using ne lk by (simp add: H_def)
  have un: "unat (of_nat n :: u64) = n" using n by (simp add: unat_of_nat)
  have exact: "add_sz H n = H + n" using H n by (simp add: add_sz_exact)
  have drops: "drop H (b0 # lb @ kb @ pb @ rest) = pb @ rest"
    "m \<Longrightarrow> drop (H - 4) (b0 # lb @ kb @ pb @ rest) = kb @ pb @ rest"
    using lk by (simp_all add: H_def)
  have cut: "take n (drop H (b0 # lb @ kb @ pb @ rest)) = pb" "m \<Longrightarrow> take 4 (drop (H - 4) (b0 # lb @ kb @ pb @ rest)) = kb"
    unfolding drops(1) using drops(2) lk lp by simp_all
  have "m \<Longrightarrow> xor_key kb pb = ws_payload f" "\<not> m \<Longrightarrow> pb = ws_payload f"
    using wf by (simp_all add: kb_def pb_def m_def ws_wellformed_def xor_key_involutive)
  then have pay: "(if m then xor_key (take 4 (drop (H - 4) (b0 # lb @ kb @ pb @ rest)))
        (take n (drop H (b0 # lb @ kb @ pb @ rest))) else take n (drop H (b0 # lb @ kb @ pb @ rest)))
      = ws_payload f"
    unfolding cut(1) using cut(2) by simp
  have lenW: "length (b0 # lb @ kb @ pb @ rest) = H + n + length rest" by (simp add: H_def lp)
  have op: "b0 AND 0x0F = ws_opcode f" "b0 AND 0x80 \<noteq> 0"
    using op_byte [of "ws_opcode f" "ws_fin f"] wf by (simp_all add: b0_def ws_wellformed_def)
  have hdr: "(if m then 1 + length lb + 4 else 1 + length lb) = H" using lk by (simp add: H_def)
  have nolt: "\<not> (m \<and> length (b0 # lb @ kb @ pb @ rest) < 1 + length lb + 4)"
    using lenW hdr by auto
  have "ws_step st (b0 # lb @ kb @ pb @ rest)
      = ws_dispatch st True (ws_opcode f) m (ws_payload f) (H + n)"
    unfolding ws_step_def Let_def b1 lens masked option.case prod.case hdr un exact
    using nolt lenW n op pay ne by (auto simp: nth_append)
  moreover have "length (ws_wire f) = H + n"
    using arg_cong [OF W, of length] lenW by simp
  ultimately show ?thesis
    using ws_dispatch_wellformed [OF wf, of st "H + n"] W by (simp add: m_def)
qed

lemma ws_step_prefix:
  assumes wf: "ws_wellformed f" and k: "k < length (ws_wire f)"
  shows "ws_step st (take k (ws_wire f)) = Stash"
proof (cases "k < 2")
  case True
  then have "length (take k (ws_wire f)) < 2" by simp
  then show ?thesis unfolding ws_step_def Let_def by (rule if_P)
next
  case False
  define n where "n = length (ws_payload f)"
  define m where "m = ws_mask f"
  define lb where "lb = ws_length_bytes n m"
  define tail where "tail = (if m then ws_key f @ xor_key (ws_key f) (ws_payload f) else ws_payload f)"
  obtain b0 where W: "ws_wire f = b0 # lb @ tail"
    by (simp add: ws_wire_def lb_def tail_def n_def m_def)
  have n: "n < SZ" "n \<le> string_max" using wf by (simp_all add: ws_wellformed_def n_def)
  have lb: "lb \<noteq> []" "1 + length lb \<le> 10"
    by (auto simp: lb_def length_ws_length_bytes ws_length_bytes_def Let_def)
  have raw1: "take k (b0 # lb @ tail) ! 1 = lb ! 0" using False lb by (simp add: nth_append)
  have len: "length (take k (ws_wire f)) = k" using k by simp
  have lens: "ws_lengths (take k (b0 # lb @ tail)) (lb ! 0) =
      (if k < 1 + length lb then None else Some (1 + length lb, of_nat n))"
    unfolding lb_def using ws_lengths_take [OF n(1)] False by simp
  have masked: "lb ! 0 AND 0x80 \<noteq> 0 \<longleftrightarrow> m" unfolding lb_def by (rule ws_length_first(1) [OF n(1)])
  have total: "length (ws_wire f) = 1 + length lb + (if m then 4 else 0) + n"
    using wf by (simp add: length_ws_wire ws_wellformed_def lb_def n_def m_def)
  have un: "unat (of_nat n :: u64) = n" using n by (simp add: unat_of_nat)
  have exact: "add_sz (5 + length lb) n = 5 + length lb + n"
    "add_sz (Suc (length lb)) n = Suc (length lb) + n"
    using lb n by (simp_all add: add_sz_exact)
  show ?thesis
    unfolding ws_step_def Let_def len unfolding W raw1 lens masked
    using False k total by (auto simp: un exact)
qed

section \<open>Streams of frames\<close>

lemma ws_wire_not_Nil: "ws_wire f \<noteq> []"
  by (simp add: ws_wire_def)

text \<open>What the codec keeps between two reads: a proper prefix of the next frame.\<close>

definition ws_pending :: "ws_codec \<Rightarrow> ws_frame list \<Rightarrow> bytes \<Rightarrow> bool" where
  "ws_pending st fs later \<longleftrightarrow> wf_buf (leftover st) \<and> readerIndex (leftover st) = 0
     \<and> contents (leftover st) @ later = concat (map ws_wire fs)
     \<and> (fs \<noteq> [] \<longrightarrow> length (contents (leftover st)) < length (ws_wire (hd fs)))"

text \<open>The loop on a frame that is not complete yet keeps it; on a complete frame it passes it on and goes on behind it.\<close>

lemma ws_loop_partial:
  assumes "ws_wellformed f" and "length raw < length (ws_wire f)" and "raw @ later = concat (map ws_wire (f # fs))"
    and "wf_buf (leftover st)" and "writerIndex (leftover st) = 0" and "length raw \<le> HALF" and "heap_grants h"
  shows "\<exists>st'. ws_loop h st buf raw out = (st', bb_clear buf, out, None) \<and> ws_pending st' (f # fs) later"
proof (cases "raw = []")
  case True
  then have "ws_pending st (f # fs) later"
    using assms ws_wire_not_Nil [of f] by (auto simp: ws_pending_def wf_buf_def contents_def)
  then show ?thesis using True by (simp add: ws_loop.simps)
next
  case False
  have raw: "raw = take (length raw) (ws_wire f)" using arg_cong [OF assms(3), of "take (length raw)"] assms(2) by simp
  have "writerIndex (leftover st) + length raw \<le> HALF" using assms(5,6) by simp
  from writeBytes_granted [OF assms(4) this assms(7)] obtain l where
    l: "writeBytes h raw (leftover st) = Inr l" "wf_buf l" "contents l = contents (leftover st) @ raw"
      "readerIndex l = readerIndex (leftover st)" .
  have e: "contents (leftover st) = []" "readerIndex (leftover st) = 0" using assms(4,5) by (auto simp: wf_buf_def contents_def)
  have "ws_step st raw = Stash" using ws_step_prefix [OF assms(1,2)] raw by simp
  then have "ws_loop h st buf raw out = (st\<lparr>leftover := l\<rparr>, bb_clear buf, out, None)" using False l by (simp add: ws_loop.simps)
  moreover have "ws_pending (st\<lparr>leftover := l\<rparr>) (f # fs) later" using assms l e by (simp add: ws_pending_def)
  ultimately show ?thesis by blast
qed

lemma ws_loop_frame:
  assumes "ws_wellformed f" and "ws_opcode f \<noteq> op_CLOSE" and "\<not> length raw < length (ws_wire f)" and "raw @ later = ws_wire f @ others"
  obtains rest where "raw = ws_wire f @ rest" "rest @ later = others"
    "ws_loop h st buf raw out = ws_loop h st (discard (length (ws_wire f)) buf) rest (out @ [ws_received f])"
proof -
  define rest where "rest = drop (length (ws_wire f)) raw"
  have raw: "raw = ws_wire f @ rest"
    using arg_cong [OF assms(4), of "take (length (ws_wire f))"] assms(3)
      append_take_drop_id [of "length (ws_wire f)" raw] by (simp add: rest_def)
  moreover have "rest @ later = others" using assms(4) unfolding raw by simp
  moreover have "ws_step st raw = Emit st (ws_received f) (length (ws_wire f))"
    unfolding raw by (rule ws_step_wire [OF assms(1)])
  then have "ws_loop h st buf raw out = ws_loop h st (discard (length (ws_wire f)) buf) rest (out @ [ws_received f])"
    using assms(1,2) ws_wire_not_Nil [of f] by (subst ws_loop.simps) (simp add: raw ws_received_def)
  ultimately show thesis by (rule that)
qed

lemma ws_loop_stream:
  assumes "list_all ws_wellformed fs" and "list_all (\<lambda>f. ws_opcode f \<noteq> op_CLOSE) fs"
    and "raw @ later = concat (map ws_wire fs)"
    and "wf_buf (leftover st)" and "writerIndex (leftover st) = 0"
    and "length raw \<le> HALF" and "heap_grants h"
  shows "\<exists>st' buf' fs1 fs2. ws_loop h st buf raw out = (st', buf', out @ map ws_received fs1, None)
    \<and> fs = fs1 @ fs2 \<and> ws_pending st' fs2 later"
  using assms
proof (induction fs arbitrary: raw buf out)
  case Nil
  then have "raw = []" "later = []" by auto
  moreover have "ws_pending st [] []"
    using Nil.prems by (auto simp: ws_pending_def wf_buf_def contents_def)
  ultimately show ?case by (simp add: ws_loop.simps)
next
  case (Cons f fs)
  have wf: "ws_wellformed f" "ws_opcode f \<noteq> op_CLOSE" using Cons.prems by simp_all
  show ?case
  proof (cases "length raw < length (ws_wire f)")
    case True
    from ws_loop_partial [OF wf(1) True Cons.prems(3-7), of buf out] show ?thesis
      by (metis append_Nil append_Nil2 list.map(1))
  next
    case False
    have "raw @ later = ws_wire f @ concat (map ws_wire fs)" using Cons.prems(3) by simp
    from ws_loop_frame [OF wf False this, of h st buf out] obtain rest where rest: "raw = ws_wire f @ rest" "rest @ later = concat (map ws_wire fs)"
      "ws_loop h st buf raw out = ws_loop h st (discard (length (ws_wire f)) buf) rest (out @ [ws_received f])" .
    obtain st' buf' fs1 fs2 where
      "ws_loop h st (discard (length (ws_wire f)) buf) rest (out @ [ws_received f])
        = (st', buf', (out @ [ws_received f]) @ map ws_received fs1, None)"
      "fs = fs1 @ fs2" "ws_pending st' fs2 later"
      using Cons.IH [OF _ _ rest(2), of "discard (length (ws_wire f)) buf" "out @ [ws_received f]"]
        Cons.prems rest(1) by auto
    then show ?thesis
      using rest(3) by (intro exI [of _ st'] exI [of _ buf'] exI [of _ "f # fs1"] exI [of _ fs2]) simp
  qed
qed

lemma ws_merge_ok:
  assumes "wf_buf (leftover st)" and "readerIndex (leftover st) = 0" and "wf_buf buf"
    and "length (contents (leftover st)) + length (contents buf) \<le> HALF" and "heap_grants h"
  obtains st' buf' where "ws_merge h st buf = Inr (st', buf')"
    "contents buf' = contents (leftover st) @ contents buf"
    "wf_buf (leftover st')" "writerIndex (leftover st') = 0"
proof (cases "contents (leftover st) = []")
  case True
  with assms have "writerIndex (leftover st) = 0" by (metis diff_zero length_contents list.size(3))
  with True assms that [of st buf] show ?thesis by (simp add: ws_merge_def readable_eq_length)
next
  case False
  let ?new = "contents buf"
  have wl: "writerIndex (leftover st) = length (contents (leftover st))"
    using assms by (simp add: length_contents)
  from wl assms have "writerIndex (leftover st) + length ?new \<le> HALF" by simp
  from writeBytes_granted [OF assms(1) this assms(5)] obtain l where
    l: "writeBytes h ?new (leftover st) = Inr l" "wf_buf l" "contents l = contents (leftover st) @ ?new"
      "readerIndex l = readerIndex (leftover st)" .
  have "writerIndex (bb_clear buf) + length (contents l) \<le> HALF" using l assms by simp
  from writeBytes_granted [OF bb_clear_wf [OF assms(3)] this assms(5)] obtain b where
    b: "writeBytes h (contents l) (bb_clear buf) = Inr b" "wf_buf b"
      "contents b = contents (bb_clear buf) @ contents l" "readerIndex b = readerIndex (bb_clear buf)" .
  have s: "setReaderIndex 0 b = Inr (b\<lparr>readerIndex := 0\<rparr>)" by (simp add: setReaderIndex_def)
  have same: "b\<lparr>readerIndex := 0\<rparr> = b" using b(4) by simp
  have "readableBytes (leftover st) > 0" using False assms(1) by (simp add: readable_eq_length)
  then have "ws_merge h st buf = Inr (st\<lparr>leftover := bb_clear l\<rparr>, b)"
    using l(1) b(1) s same assms(3) mem_read_all [OF l(2)] by (simp add: ws_merge_def mem_read_all)
  then show ?thesis using that l b by (simp add: bb_clear_wf)
qed

fun ws_feed :: "heap \<Rightarrow> ws_codec \<Rightarrow> bytebuf list \<Rightarrow> ws_codec \<times> ws_frame list \<times> fault list" where
  "ws_feed h st [] = (st, [], [])"
| "ws_feed h st (b # bs) =
     (case ws_channelRead h st (Some b) of
        PassOn \<Rightarrow> ws_feed h st bs
      | Decoded st' b' out ex \<Rightarrow>
          (case ws_feed h st' bs of
             (st'', outs, exs) \<Rightarrow> (st'', out @ outs, (case ex of None \<Rightarrow> [] | Some e \<Rightarrow> [e]) @ exs)))"

lemma ws_feed_stream:
  assumes "list_all ws_wellformed fs" and "list_all (\<lambda>f. ws_opcode f \<noteq> op_CLOSE) fs"
    and "list_all wf_buf bufs" and "heap_grants h"
    and "ws_pending st fs (concat (map contents bufs))"
    and "length (concat (map ws_wire fs)) \<le> HALF"
  shows "\<exists>st'. ws_feed h st bufs = (st', map ws_received fs, []) \<and> contents (leftover st') = []"
  using assms
proof (induction bufs arbitrary: st fs)
  case Nil
  then have "fs = []"
    by (cases fs) (auto simp: ws_pending_def)
  with Nil show ?case by (simp add: ws_pending_def)
next
  case (Cons b bufs)
  let ?later = "concat (map contents bufs)"
  from Cons.prems have wb: "wf_buf b" "list_all wf_buf bufs" by simp_all
  show ?case
  proof (cases "contents b = []")
    case True
    with Cons.prems Cons.IH [of fs st] wb show ?thesis
      by (simp add: ws_channelRead_def readable_eq_length)
  next
    case False
    have p: "wf_buf (leftover st)" "readerIndex (leftover st) = 0"
      "(contents (leftover st) @ contents b) @ ?later = concat (map ws_wire fs)"
      using Cons.prems(5) by (simp_all add: ws_pending_def)
    have len: "length (contents (leftover st)) + length (contents b) \<le> HALF"
      using arg_cong [OF p(3), of length] Cons.prems(6) by simp
    obtain st1 b1 where m: "ws_merge h st b = Inr (st1, b1)"
      "contents b1 = contents (leftover st) @ contents b"
      "wf_buf (leftover st1)" "writerIndex (leftover st1) = 0"
      using ws_merge_ok [OF p(1,2) wb(1) len Cons.prems(4)] .
    obtain st2 b2 fs1 fs2 where loop:
      "ws_loop h st1 b1 (contents b1) [] = (st2, b2, [] @ map ws_received fs1, None)"
      "fs = fs1 @ fs2" "ws_pending st2 fs2 ?later"
      using ws_loop_stream [of fs "contents b1" ?later st1 h b1 "[]"] Cons.prems p m len by auto
    have rd: "ws_channelRead h st (Some b) = Decoded st2 b2 (map ws_received fs1) None"
      using False wb m loop by (simp add: ws_channelRead_def readable_eq_length)
    obtain st' where "ws_feed h st2 bufs = (st', map ws_received fs2, [])" "contents (leftover st') = []"
      using Cons.IH [of fs2 st2] Cons.prems loop wb by auto
    with rd loop show ?thesis by simp
  qed
qed

section \<open>UTF-8 against RFC 3629\<close>

text \<open>The well-formed byte sequences of RFC 3629, section 4, by ranges of code units.\<close>

definition in_range :: "nat \<Rightarrow> nat \<Rightarrow> byte \<Rightarrow> bool" where
  "in_range lo hi b \<longleftrightarrow> lo \<le> unat b \<and> unat b \<le> hi"

abbreviation utf8_tail :: "byte \<Rightarrow> bool" where
  "utf8_tail \<equiv> in_range 0x80 0xBF"

inductive utf8 :: "bytes \<Rightarrow> bool" where
  nil: "utf8 []"
| one: "in_range 0 0x7F a \<Longrightarrow> utf8 s \<Longrightarrow> utf8 (a # s)"
| two: "in_range 0xC2 0xDF a \<Longrightarrow> utf8_tail b \<Longrightarrow> utf8 s \<Longrightarrow> utf8 (a # b # s)"
| three_E0: "unat a = 0xE0 \<Longrightarrow> in_range 0xA0 0xBF b \<Longrightarrow> utf8_tail c \<Longrightarrow> utf8 s \<Longrightarrow> utf8 (a # b # c # s)"
| three: "in_range 0xE1 0xEC a \<or> in_range 0xEE 0xEF a \<Longrightarrow> utf8_tail b \<Longrightarrow> utf8_tail c \<Longrightarrow> utf8 s \<Longrightarrow>
     utf8 (a # b # c # s)"
| three_ED: "unat a = 0xED \<Longrightarrow> in_range 0x80 0x9F b \<Longrightarrow> utf8_tail c \<Longrightarrow> utf8 s \<Longrightarrow> utf8 (a # b # c # s)"
| four_F0: "unat a = 0xF0 \<Longrightarrow> in_range 0x90 0xBF b \<Longrightarrow> utf8_tail c \<Longrightarrow> utf8_tail d \<Longrightarrow> utf8 s \<Longrightarrow>
     utf8 (a # b # c # d # s)"
| four: "in_range 0xF1 0xF3 a \<Longrightarrow> utf8_tail b \<Longrightarrow> utf8_tail c \<Longrightarrow> utf8_tail d \<Longrightarrow> utf8 s \<Longrightarrow>
     utf8 (a # b # c # d # s)"
| four_F4: "unat a = 0xF4 \<Longrightarrow> in_range 0x80 0x8F b \<Longrightarrow> utf8_tail c \<Longrightarrow> utf8_tail d \<Longrightarrow> utf8 s \<Longrightarrow>
     utf8 (a # b # c # d # s)"

text \<open>The bit tests of the code are range tests: all 256 values.\<close>

lemma unat_and_high:
  "unat ((b::byte) AND NOT (mask k)) = unat b div 2 ^ k * 2 ^ k"
proof -
  have "b AND NOT (mask k) = push_bit k (drop_bit k b)"
    by (rule bit_word_eqI) (auto simp: bit_simps)
  moreover have "unat b div 2 ^ k * 2 ^ k < 2 ^ 8"
  proof -
    have "unat b div 2 ^ k * 2 ^ k \<le> unat b" by simp
    also have "unat b < 2 ^ 8" using unsigned_less [of b] by simp
    finally show ?thesis .
  qed
  moreover have "unat (push_bit k (drop_bit k b)) = take_bit 8 (push_bit k (drop_bit k (unat b)))"
    using unsigned_less [of b, where 'a = nat]
    by (simp only: unsigned_push_bit_eq unsigned_drop_bit_eq) (simp add: take_bit_nat_eq_self)
  ultimately show ?thesis
    by (simp add: push_bit_eq_mult drop_bit_eq_div take_bit_nat_eq_self)
qed

lemma and_high_iff:
  assumes "m = NOT (mask k)"
  shows "(b::byte) AND m = v \<longleftrightarrow> unat b div 2 ^ k * 2 ^ k = unat v"
  unfolding assms by (simp add: word_unat_eq_iff unat_and_high)

lemma mask_tests:
  "(b::byte) AND 0x80 = 0 \<longleftrightarrow> unat b < 0x80"
  "b AND 0xc0 = 0x80 \<longleftrightarrow> 0x80 \<le> unat b \<and> unat b < 0xc0"
  "b AND 0xe0 = 0xc0 \<longleftrightarrow> 0xc0 \<le> unat b \<and> unat b < 0xe0"
  "b AND 0xe0 = 0x80 \<longleftrightarrow> 0x80 \<le> unat b \<and> unat b < 0xa0"
  "b AND 0xe0 = 0xa0 \<longleftrightarrow> 0xa0 \<le> unat b \<and> unat b < 0xc0"
  "b AND 0xf0 = 0xe0 \<longleftrightarrow> 0xe0 \<le> unat b \<and> unat b < 0xf0"
  "b AND 0xf0 = 0x80 \<longleftrightarrow> 0x80 \<le> unat b \<and> unat b < 0x90"
  "b AND 0xf8 = 0xf0 \<longleftrightarrow> 0xf0 \<le> unat b \<and> unat b < 0xf8"
  using unsigned_less [of b, where 'a = nat]
  by (auto simp: and_high_iff [of _ 7] and_high_iff [of _ 6] and_high_iff [of _ 5] and_high_iff [of _ 4]
      and_high_iff [of _ 3] mask_eq_exp_minus_1)

lemma lead_tests:
  "(b::byte) = 0xe0 \<longleftrightarrow> unat b = 0xe0" "b = 0xed \<longleftrightarrow> unat b = 0xed" "b = 0xf0 \<longleftrightarrow> unat b = 0xf0"
  "b = 0xf4 \<longleftrightarrow> unat b = 0xf4" "0xf4 < b \<longleftrightarrow> 0xf4 < unat b" "0x8f < b \<longleftrightarrow> 0x8f < unat b"
  by (simp_all add: word_unat_eq_iff word_less_nat_alt)

lemma tail_test: "(c::byte) AND 0xc0 = 0x80 \<longleftrightarrow> utf8_tail c"
  by (auto simp: mask_tests(2) in_range_def)

lemmas utf8_tests = mask_tests(1,3,6,8) tail_test

lemma isValidUtf8_lead1: "unat b < 0x80 \<Longrightarrow> isValidUtf8 (b # s) = isValidUtf8 s"
  by (simp add: utf8_tests)

lemma isValidUtf8_bad: "0x80 \<le> unat b \<Longrightarrow> unat b < 0xc0 \<Longrightarrow> \<not> isValidUtf8 (b # s)"
  by (simp add: mask_tests)

lemma isValidUtf8_lead2:
  assumes "0xc0 \<le> unat b" "unat b < 0xe0"
  shows "isValidUtf8 (b # s) \<longleftrightarrow> (\<exists>c s'. s = c # s' \<and> utf8_tail c \<and> isValidUtf8 s')"
  using assms by (cases s) (simp_all add: utf8_tests)

lemma isValidUtf8_lead3:
  assumes "0xe0 \<le> unat b" "unat b < 0xf0"
  shows "isValidUtf8 (b # c # d # s) \<longleftrightarrow> utf8_tail c \<and> utf8_tail d
    \<and> (unat b = 0xe0 \<longrightarrow> 0xa0 \<le> unat c) \<and> (unat b = 0xed \<longrightarrow> unat c < 0xa0) \<and> isValidUtf8 s"
    "\<not> isValidUtf8 [b]" "\<not> isValidUtf8 [b, c]"
proof -
  have t: "utf8_tail c \<Longrightarrow> (c AND 0xe0 = 0x80) = (\<not> 0xa0 \<le> unat c)"
    "utf8_tail c \<Longrightarrow> (c AND 0xe0 = 0xa0) = (\<not> unat c < 0xa0)"
    unfolding mask_tests in_range_def by linarith+
  show "isValidUtf8 (b # c # d # s) \<longleftrightarrow> utf8_tail c \<and> utf8_tail d
    \<and> (unat b = 0xe0 \<longrightarrow> 0xa0 \<le> unat c) \<and> (unat b = 0xed \<longrightarrow> unat c < 0xa0) \<and> isValidUtf8 s"
    using assms t by (subst isValidUtf8.simps) (auto simp: utf8_tests lead_tests [of b] simp del: isValidUtf8.simps(2))
qed (use assms in \<open>simp_all add: utf8_tests\<close>)

lemma isValidUtf8_lead4:
  assumes "0xf0 \<le> unat b"
  shows "isValidUtf8 (b # c # d # e # s) \<longleftrightarrow> unat b < 0xf5 \<and> utf8_tail c \<and> utf8_tail d \<and> utf8_tail e
    \<and> (unat b = 0xf0 \<longrightarrow> 0x90 \<le> unat c) \<and> (unat b = 0xf4 \<longrightarrow> unat c \<le> 0x8f) \<and> isValidUtf8 s"
    "\<not> isValidUtf8 [b]" "\<not> isValidUtf8 [b, c]" "\<not> isValidUtf8 [b, c, d]"
proof -
  have t: "utf8_tail c \<Longrightarrow> (c AND 0xf0 = 0x80) = (\<not> 0x90 \<le> unat c)"
    "(unat b < 0xf5) = (\<not> 0xf4 < unat b)" "(unat c \<le> 0x8f) = (\<not> 0x8f < unat c)"
    unfolding mask_tests in_range_def by linarith+
  show "isValidUtf8 (b # c # d # e # s) \<longleftrightarrow> unat b < 0xf5 \<and> utf8_tail c \<and> utf8_tail d \<and> utf8_tail e
    \<and> (unat b = 0xf0 \<longrightarrow> 0x90 \<le> unat c) \<and> (unat b = 0xf4 \<longrightarrow> unat c \<le> 0x8f) \<and> isValidUtf8 s"
    using assms t(1) by (subst isValidUtf8.simps) 
     (auto simp: utf8_tests lead_tests [of b] lead_tests [of c] t(2,3) simp del: isValidUtf8.simps(2))
qed (use assms in \<open>simp_all add: utf8_tests\<close>)

lemmas utf8_leads = isValidUtf8_lead1 isValidUtf8_bad isValidUtf8_lead2 isValidUtf8_lead3 isValidUtf8_lead4
declare isValidUtf8.simps(2) [simp del]

lemma utf8_accepted: "utf8 s \<Longrightarrow> isValidUtf8 s"
  by (induction rule: utf8.induct) (auto simp: in_range_def utf8_leads)

lemma isValidUtf8_sound:
  "isValidUtf8 s \<Longrightarrow> \<forall>b \<in> set s. unat b \<noteq> 0xC0 \<and> unat b \<noteq> 0xC1 \<Longrightarrow> utf8 s"
proof (induction "length s" arbitrary: s rule: less_induct)
  case less
  show ?case
  proof (cases s)
    case (Cons b t)
    note IH = less.hyps and P = less.prems
    consider "unat b < 0x80" | "0x80 \<le> unat b" "unat b < 0xc0"
      | "0xc0 \<le> unat b" "unat b < 0xe0" | "0xe0 \<le> unat b" "unat b < 0xf0"
      | "0xf0 \<le> unat b" by linarith
    then show ?thesis
    proof cases
      case 1
      then show ?thesis using IH [of t] P Cons by (auto simp: utf8_leads in_range_def intro: utf8.one)
    next
      case 2
      then show ?thesis using P Cons isValidUtf8_bad [of b t] by simp
    next
      case 3
      then obtain c u where t: "t = c # u" "utf8_tail c" "isValidUtf8 u"
        using P Cons by (auto simp: isValidUtf8_lead2)
      moreover have "utf8 u" using IH [of u] t P Cons by simp
      moreover have "in_range 0xC2 0xDF b" unfolding in_range_def using P Cons 3 by auto
      ultimately show ?thesis using Cons by (simp add: utf8.two)
    next
      case 4
      obtain c d u where t: "t = c # d # u"
        using P Cons 4 by (cases t; cases "tl t") (simp_all add: isValidUtf8_lead3)
      note v = P(1) [unfolded Cons t isValidUtf8_lead3 [OF 4]]
      have "utf8 u" using IH [of u] t v P Cons by simp
      moreover have "unat b = 0xE0 \<and> in_range 0xA0 0xBF c \<or> (in_range 0xE1 0xEC b \<or> in_range 0xEE 0xEF b)
          \<or> unat b = 0xED \<and> in_range 0x80 0x9F c" using v 4 unfolding in_range_def by linarith
      ultimately show ?thesis using t v Cons by (auto intro: utf8.three utf8.three_E0 utf8.three_ED)
    next
      case 5
      obtain c d e u where t: "t = c # d # e # u"
        using P Cons 5 by (cases t; cases "tl t"; cases "tl (tl t)") (simp_all add: isValidUtf8_lead4)
      note v = P(1) [unfolded Cons t isValidUtf8_lead4 [OF 5]]
      have "utf8 u" using IH [of u] t v P Cons by simp
      moreover have "unat b = 0xF0 \<and> in_range 0x90 0xBF c \<or> in_range 0xF1 0xF3 b
          \<or> unat b = 0xF4 \<and> in_range 0x80 0x8F c" using v 5 unfolding in_range_def by linarith
      ultimately show ?thesis using t v Cons by (auto intro: utf8.four utf8.four_F0 utf8.four_F4)
    qed
  qed (simp add: utf8.nil)
qed

section \<open>Properties\<close>

text \<open>C3. The codec reassembles frames from any segmentation of the byte stream: when the reads of a
  connection, cut at arbitrary points, concatenate to the wire images of a sequence of complete,
  valid, non-CLOSE frames, then \<open>channelRead\<close> over those reads passes on exactly those frames, in
  order and unmasked, raises no exception, and keeps nothing back.\<close>

theorem ws_stream_decodes:
  assumes "list_all ws_wellformed fs" and "list_all (\<lambda>f. ws_opcode f \<noteq> op_CLOSE) fs"
    and "list_all wf_buf bufs" and "concat (map contents bufs) = concat (map ws_wire fs)"
    and "length (concat (map ws_wire fs)) \<le> HALF" and "heap_grants h"
  shows "\<exists>st'. ws_feed h ws_codec_init bufs = (st', map ws_received fs, []) \<and> contents (leftover st') = []"
proof -
  have "ws_pending ws_codec_init fs (concat (map contents bufs))"
    using assms(4) ws_wire_not_Nil by (auto simp: ws_pending_def ws_codec_init_def bb_new_def wf_buf_def contents_def)
  from ws_feed_stream [OF assms(1-3,6) this assms(5)] show ?thesis .
qed

definition demo_frame :: ws_frame where
  "demo_frame = \<lparr>ws_opcode = op_TEXT, ws_fin = True, ws_mask = True, ws_key = [1, 2, 3, 4], ws_payload = [0x48, 0x69]\<rparr>"

definition demo_buf :: "bytes \<Rightarrow> bytebuf" where
  "demo_buf bs = \<lparr>bdata = Some bs, capacity = length bs, readerIndex = 0, writerIndex = length bs\<rparr>"

lemma demo_frame_ok: "ws_wellformed demo_frame" "ws_opcode demo_frame \<noteq> op_CLOSE"
  "ws_wire demo_frame = [0x81, 0x82, 1, 2, 3, 4, 0x49, 0x6B]"
  by (simp_all add: demo_frame_def ws_wellformed_def isValidUtf8.simps ws_wire_def ws_length_bytes_def xor_key_def)

theorem ws_stream_decodes_witness:
  "let bufs = map demo_buf [[0x81], [0x82, 1, 2], [3, 4, 0x49, 0x6B, 0x81, 0x82, 1, 2, 3, 4], [0x49, 0x6B]] in
   list_all wf_buf bufs \<and> concat (map contents bufs) = concat (map ws_wire [demo_frame, demo_frame]) \<and>
   (\<exists>st'. ws_feed demo_heap ws_codec_init bufs = (st', map ws_received [demo_frame, demo_frame], [])
      \<and> contents (leftover st') = [])"
proof -
  let ?bufs = "map demo_buf [[0x81], [0x82, 1, 2], [3, 4, 0x49, 0x6B, 0x81, 0x82, 1, 2, 3, 4], [0x49, 0x6B]]"
  have b: "list_all wf_buf ?bufs" by (simp add: demo_buf_def wf_buf_def)
  have c: "concat (map contents ?bufs) = concat (map ws_wire [demo_frame, demo_frame])"
    by (simp add: demo_buf_def contents_def demo_frame_ok)
  have w: "list_all ws_wellformed [demo_frame, demo_frame]"
    "list_all (\<lambda>f. ws_opcode f \<noteq> op_CLOSE) [demo_frame, demo_frame]"
    "length (concat (map ws_wire [demo_frame, demo_frame])) \<le> HALF"
    by (simp_all add: demo_frame_ok del: One_nat_def)
  show ?thesis unfolding Let_def
    using b c ws_stream_decodes [OF w(1,2) b c w(3) demo_heap_grants] by blast
qed

text \<open>C11. Encoding then decoding gives the frame back: for every complete valid frame the encoder
  succeeds within the capacity it reserved, without reallocation, and one round of the decoder on the
  encoded bytes passes on that frame, unmasked, consuming all of them.\<close>

theorem ws_encode_decode:
  assumes "ws_wellformed f" and "ws_header_size f + length (ws_payload f) < SZ"
    and "alloc_ok h (ws_header_size f + length (ws_payload f))"
  shows "\<exists>b. encodeFrame h f = Inr b \<and> wf_buf b \<and> capacity b = ws_header_size f + length (ws_payload f)
    \<and> ws_step st (contents b) = Emit st (ws_received f) (length (contents b))"
proof -
  have "ws_mask f \<longrightarrow> length (ws_key f) = 4" using assms(1) by (simp add: ws_wellformed_def)
  from encodeFrame_wire [OF this assms(2,3)] ws_step_wire [OF assms(1), of st "[]"] show ?thesis by auto
qed

theorem ws_encode_decode_witness:
  "ws_wellformed demo_frame \<and> (\<exists>b. encodeFrame demo_heap demo_frame = Inr b \<and> wf_buf b
    \<and> capacity b = ws_header_size demo_frame + length (ws_payload demo_frame)
    \<and> ws_step ws_codec_init (contents b) = Emit ws_codec_init (ws_received demo_frame) (length (contents b)))"
proof -
  have "ws_header_size demo_frame + length (ws_payload demo_frame) < SZ"
    "alloc_ok demo_heap (ws_header_size demo_frame + length (ws_payload demo_frame))"
    by (simp_all add: ws_header_size_def demo_frame_def demo_heap_def)
  with ws_encode_decode [OF demo_frame_ok(1)] demo_frame_ok(1) show ?thesis by blast
qed


text \<open>A 14-byte frame that announces a payload of \<open>2^64 - 1\<close> bytes passes the length check, because
  header length plus payload length wraps around, and makes the handler throw.\<close>

theorem ws_huge_length_throws:
  "ws_step st [0x82, 0xFF, 0xFF, 0xFF, 0xFF, 0xFF, 0xFF, 0xFF, 0xFF, 0xFF, 0, 0, 0, 0] = Throw LengthError"
proof -
  have l: "be64 [0xFF, 0xFF, 0xFF, 0xFF, 0xFF, 0xFF, 0xFF, 0xFF] = 0xFFFFFFFFFFFFFFFF"
    by (simp add: be64_def)
  show ?thesis by (simp add: ws_step_def ws_lengths_def l add_sz_def)
qed

text \<open>C14. On byte strings without the bytes C0 and C1 the validator of text payloads accepts exactly the
  well-formed UTF-8 of RFC 3629.\<close>

theorem isValidUtf8_rfc3629:
  assumes "\<forall>b \<in> set s. unat b \<noteq> 0xC0 \<and> unat b \<noteq> 0xC1"
  shows "isValidUtf8 s \<longleftrightarrow> utf8 s"
  using assms isValidUtf8_sound utf8_accepted by blast

theorem isValidUtf8_rfc3629_witness: "isValidUtf8 [0xE2, 0x82, 0xAC] \<longleftrightarrow> utf8 [0xE2, 0x82, 0xAC]"
  by (rule isValidUtf8_rfc3629) simp

text \<open>The validator accepts the two-byte overlong encoding of U+0000, which RFC 3629 forbids.\<close>

theorem isValidUtf8_accepts_overlong: "isValidUtf8 [0xC0, 0x80] \<and> \<not> utf8 [0xC0, 0x80]"
proof
  show "isValidUtf8 [0xC0, 0x80]" by (simp add: isValidUtf8.simps)
  show "\<not> utf8 [0xC0, 0x80]" by (auto elim!: utf8.cases simp: in_range_def)
qed

text \<open>Writing a frame replaces the whole write buffer: whatever the buffer still held, afterwards it
  holds the encoding of this frame and nothing else. Bytes of earlier messages that the socket has not
  taken yet are lost.\<close>

theorem ws_write_replaces_buffer:
  assumes "ws_wellformed f" and "ws_header_size f + length (ws_payload f) \<le> HALF"
    and "heap_grants h" and "wf_buf wbuf"
  shows "\<exists>b. ws_write h (Some f) wbuf = Some (Inr b) \<and> wf_buf b \<and> contents b = ws_wire f"
proof -
  have key: "ws_mask f \<longrightarrow> length (ws_key f) = 4" using assms(1) by (simp add: ws_wellformed_def)
  have pos: "0 < ws_header_size f + length (ws_payload f)" by (simp add: ws_header_size_def Let_def)
  obtain e where e: "encodeFrame h f = Inr e" "wf_buf e" "contents e = ws_wire f"
    using encodeFrame_wire [OF key, of h] assms pos by (auto simp: heap_grants_def)
  have "writerIndex (bb_clear wbuf) + length (ws_wire f) \<le> HALF"
    using assms ws_wire_fits [OF key] by simp
  from writeBytes_granted [OF bb_clear_wf [OF assms(4)] this assms(3)] obtain b where
    "writeBytes h (ws_wire f) (bb_clear wbuf) = Inr b" "wf_buf b" "contents b = ws_wire f" by auto
  with e mem_read_all [OF e(2)] show ?thesis by (simp add: ws_write_def)
qed

theorem ws_write_replaces_buffer_witness:
  "contents (demo_buf [1, 2, 3]) = [1, 2, 3] \<and>
   (\<exists>b. ws_write demo_heap (Some demo_frame) (demo_buf [1, 2, 3]) = Some (Inr b) \<and> wf_buf b
      \<and> contents b = ws_wire demo_frame)"
proof -
  have "ws_header_size demo_frame + length (ws_payload demo_frame) \<le> HALF" "wf_buf (demo_buf [1, 2, 3])"
    by (simp_all add: ws_header_size_def demo_frame_def wf_buf_def demo_buf_def)
  with ws_write_replaces_buffer [OF demo_frame_ok(1) _ demo_heap_grants]
  show ?thesis by (simp add: contents_def demo_buf_def)
qed

end
