(* ===== verification/TimerWheel.thy ===== *)
theory TimerWheel
  imports Prelude
begin

text \<open>
  The hashed timer wheel (\<open>include/xnetty/event/timer_wheel.h\<close>, \<open>src/event/timer_wheel.cpp\<close>).

  A wheel is the record \<open>wheel\<close>, a timer the record \<open>timer_entry\<close>; a callback is a value of an
  arbitrary type, \<open>None\<close> for an empty \<open>std::function\<close>. What a callback does to the wheel it
  runs under is the parameter \<open>run\<close>: the \<open>addTimer\<close> and \<open>cancelTimer\<close> calls it makes, in order.
  \<open>uint32_t\<close> and \<open>uint64_t\<close> values are \<open>nat\<close> with explicit wrap-around; a division by zero is
  \<open>UndefinedBehaviour\<close>.

  The locale \<open>timer_service\<close> is what the clients of the wheel rely on: a timer fires in the tick it
  is due, not earlier, not later and not twice. The wheel is shown to provide it.
\<close>

section \<open>Data\<close>

record 'cb timer_entry =
  tid :: nat
  expirationTick :: nat
  callback :: "'cb option"
  canceled :: bool

record 'cb wheel =
  numSlots :: nat
  tickMs :: nat
  currentTick :: nat
  nextId :: nat
  slots :: "'cb timer_entry list list"

datatype 'cb timer_op = AddTimer nat "'cb option" | CancelTimer nat

section \<open>Operations\<close>

definition wheel_new :: "nat \<Rightarrow> nat \<Rightarrow> 'cb wheel" where
  "wheel_new n ms =
     \<lparr>numSlots = n, tickMs = ms, currentTick = 0, nextId = 0, slots = replicate n []\<rparr>"

definition nextTimerId :: "'cb wheel \<Rightarrow> 'cb wheel \<times> nat" where
  "nextTimerId w = (w\<lparr>nextId := add_sz (nextId w) 1\<rparr>, nextId w)"

definition delay_ticks :: "nat \<Rightarrow> nat \<Rightarrow> nat" where
  "delay_ticks ms delayMs = sub_sz (add_sz delayMs ms) 1 div ms"

definition addTimer :: "nat \<Rightarrow> 'cb option \<Rightarrow> 'cb wheel \<Rightarrow> ('cb wheel \<times> nat) res" where
  "addTimer delayMs cb w =
     (if tickMs w = 0 \<or> numSlots w = 0 then Inl UndefinedBehaviour
      else
        let expireTick = add_sz (currentTick w) (delay_ticks (tickMs w) delayMs);
            slot = expireTick mod numSlots w in
        if slot \<ge> length (slots w) then Inl UndefinedBehaviour
        else
          let (w, newId) = nextTimerId w;
              entry = \<lparr>tid = newId, expirationTick = expireTick, callback = cb, canceled = False\<rparr>
          in Inr (w\<lparr>slots := (slots w)[slot := slots w ! slot @ [entry]]\<rparr>, newId))"

text \<open>\<open>cancelTimer\<close> marks the first entry with this identifier, slot by slot.\<close>

fun cancel_slot :: "nat \<Rightarrow> 'cb timer_entry list \<Rightarrow> 'cb timer_entry list option" where
  "cancel_slot timerId [] = None"
| "cancel_slot timerId (e # es) =
     (if tid e = timerId then Some (e\<lparr>canceled := True\<rparr> # es)
      else map_option ((#) e) (cancel_slot timerId es))"

fun cancel_slots :: "nat \<Rightarrow> 'cb timer_entry list list \<Rightarrow> 'cb timer_entry list list" where
  "cancel_slots timerId [] = []"
| "cancel_slots timerId (s # ss) =
     (case cancel_slot timerId s of
        Some s' \<Rightarrow> s' # ss
      | None \<Rightarrow> s # cancel_slots timerId ss)"

definition cancelTimer :: "nat \<Rightarrow> 'cb wheel \<Rightarrow> 'cb wheel" where
  "cancelTimer timerId w = w\<lparr>slots := cancel_slots timerId (slots w)\<rparr>"

definition do_timer_op :: "'cb timer_op \<Rightarrow> 'cb wheel \<Rightarrow> 'cb wheel res" where
  "do_timer_op op w =
     (case op of
        AddTimer d cb \<Rightarrow> rbind (addTimer d cb w) (\<lambda>(w', i). Inr w')
      | CancelTimer i \<Rightarrow> Inr (cancelTimer i w))"

fun timer_ops :: "'cb timer_op list \<Rightarrow> 'cb wheel \<Rightarrow> 'cb wheel res" where
  "timer_ops [] w = Inr w"
| "timer_ops (op # ops) w = rbind (do_timer_op op w) (timer_ops ops)"

text \<open>The callbacks of the entries in \<open>toFire\<close>, run in order.\<close>

fun fire_all :: "('cb \<Rightarrow> 'cb timer_op list) \<Rightarrow> 'cb timer_entry list \<Rightarrow> 'cb wheel \<Rightarrow> 'cb wheel res" where
  "fire_all run [] w = Inr w"
| "fire_all run (e # es) w =
     rbind (case callback e of None \<Rightarrow> Inr w | Some cb \<Rightarrow> timer_ops (run cb) w) (fire_all run es)"

definition tick :: "('cb \<Rightarrow> 'cb timer_op list) \<Rightarrow> 'cb wheel \<Rightarrow> ('cb wheel \<times> 'cb timer_entry list) res" where
  "tick run w =
     (if numSlots w = 0 then Inl UndefinedBehaviour
      else
        let slot = currentTick w mod numSlots w in
        if slot \<ge> length (slots w) then Inl UndefinedBehaviour
        else
          let live = filter (\<lambda>e. \<not> canceled e) (slots w ! slot);
              toFire = filter (\<lambda>e. expirationTick e \<le> currentTick w) live;
              keep = filter (\<lambda>e. \<not> expirationTick e \<le> currentTick w) live
          in rbind (fire_all run toFire (w\<lparr>slots := (slots w)[slot := keep]\<rparr>)) (\<lambda>w.
             Inr (w\<lparr>currentTick := add_sz (currentTick w) 1\<rparr>, toFire)))"

section \<open>The interface of a timer service\<close>

text \<open>
  \<open>limit\<close> is the last tick the service promises anything about, \<open>stable e\<close> says that nobody cancels
  \<open>e\<close>. \<open>ticks n\<close> runs the service for \<open>n\<close> ticks and collects what fires in each.
\<close>

fun run_ticks :: "('w \<Rightarrow> ('w \<times> 'e list) res) \<Rightarrow> nat \<Rightarrow> 'w \<Rightarrow> ('w \<times> 'e list list) res" where
  "run_ticks step 0 w = Inr (w, [])"
| "run_ticks step (Suc n) w =
     rbind (step w) (\<lambda>(w', es). rbind (run_ticks step n w') (\<lambda>(w'', fs). Inr (w'', es # fs)))"

locale timer_service =
  fixes inv :: "'w \<Rightarrow> bool" and now :: "'w \<Rightarrow> nat" and pending :: "'w \<Rightarrow> 'e set"
    and due_at :: "'e \<Rightarrow> nat" and stable :: "'e \<Rightarrow> bool"
    and step :: "'w \<Rightarrow> ('w \<times> 'e list) res" and limit :: nat
  assumes not_overdue: "inv w \<Longrightarrow> e \<in> pending w \<Longrightarrow> now w \<le> due_at e"
    and step_total: "inv w \<Longrightarrow> now w < limit \<Longrightarrow> \<exists>w' es. step w = Inr (w', es)"
    and step_inv: "inv w \<Longrightarrow> now w < limit \<Longrightarrow> step w = Inr (w', es) \<Longrightarrow> inv w' \<and> now w' = Suc (now w)"
    and step_fires: "inv w \<Longrightarrow> now w < limit \<Longrightarrow> step w = Inr (w', es) \<Longrightarrow>
      set es = {e \<in> pending w. due_at e = now w}"
    and step_keeps: "inv w \<Longrightarrow> now w < limit \<Longrightarrow> step w = Inr (w', es) \<Longrightarrow>
      e \<in> pending w \<Longrightarrow> stable e \<Longrightarrow> due_at e \<noteq> now w \<Longrightarrow> e \<in> pending w'"
begin

lemma run_total:
  "inv w \<Longrightarrow> now w + n \<le> limit \<Longrightarrow>
     \<exists>w' fs. run_ticks step n w = Inr (w', fs) \<and> inv w' \<and> now w' = now w + n \<and> length fs = n"
proof (induction n arbitrary: w)
  case (Suc n)
  then have l: "now w < limit" by simp
  obtain w1 es where s: "step w = Inr (w1, es)" using step_total [OF Suc.prems(1) l] by blast
  have i: "inv w1" "now w1 = Suc (now w)" using step_inv [OF Suc.prems(1) l s] by auto
  with Suc.IH [of w1] Suc.prems s show ?case by auto
qed simp

lemma fires_when_due:
  assumes "inv w" and "now w + n \<le> limit" and "run_ticks step n w = Inr (w', fs)" and "j < n"
    and "e \<in> set (fs ! j)"
  shows "due_at e = now w + j"
  using assms
proof (induction n arbitrary: w fs j)
  case (Suc n)
  then have l: "now w < limit" by simp
  from Suc.prems obtain w1 es fs' where s: "step w = Inr (w1, es)"
    and r: "run_ticks step n w1 = Inr (w', fs')" and fs: "fs = es # fs'" by auto
  have i: "inv w1" "now w1 = Suc (now w)" using step_inv [OF Suc.prems(1) l s] by auto
  show ?case
  proof (cases j)
    case 0
    with Suc.prems fs step_fires [OF Suc.prems(1) l s] show ?thesis by auto
  next
    case (Suc k)
    with Suc.IH [OF i(1) _ r, of k] Suc.prems fs i show ?thesis by simp
  qed
qed simp

lemma fires_if_due:
  assumes "inv w" and "now w + n \<le> limit" and "run_ticks step n w = Inr (w', fs)" and "j < n"
    and "e \<in> pending w" and "stable e" and "due_at e = now w + j"
  shows "e \<in> set (fs ! j)"
  using assms
proof (induction n arbitrary: w fs j)
  case (Suc n)
  then have l: "now w < limit" by simp
  from Suc.prems obtain w1 es fs' where s: "step w = Inr (w1, es)"
    and r: "run_ticks step n w1 = Inr (w', fs')" and fs: "fs = es # fs'" by auto
  have i: "inv w1" "now w1 = Suc (now w)" using step_inv [OF Suc.prems(1) l s] by auto
  show ?case
  proof (cases j)
    case 0
    with Suc.prems fs step_fires [OF Suc.prems(1) l s] show ?thesis by auto
  next
    case (Suc k)
    have "e \<in> pending w1" using step_keeps [OF Suc.prems(1) l s] Suc.prems Suc by simp
    with Suc.IH [OF i(1) _ r, of k] Suc.prems fs i Suc show ?thesis by simp
  qed
qed simp

lemma fires_exactly:
  assumes "inv w" and "now w + n \<le> limit" and "e \<in> pending w" and "stable e"
  obtains w' fs where "run_ticks step n w = Inr (w', fs)" "length fs = n"
    "\<forall>j<n. e \<in> set (fs ! j) \<longleftrightarrow> due_at e = now w + j"
  using run_total [OF assms(1,2)] fires_when_due [OF assms(1,2)] fires_if_due [OF assms(1,2)] assms(3,4)
  by metis

end

section \<open>The wheel keeps its invariant\<close>

definition wf_wheel :: "'cb wheel \<Rightarrow> bool" where
  "wf_wheel w \<longleftrightarrow> 0 < numSlots w \<and> 0 < tickMs w \<and> tickMs w < 2 ^ 32 \<and> length (slots w) = numSlots w
     \<and> (\<forall>i < numSlots w. \<forall>e \<in> set (slots w ! i). expirationTick e mod numSlots w = i)"

definition pending :: "'cb wheel \<Rightarrow> 'cb timer_entry set" where
  "pending w = {e. \<not> canceled e \<and> (\<exists>s \<in> set (slots w). e \<in> set s)}"

text \<open>No live timer is overdue.\<close>

definition on_time :: "'cb wheel \<Rightarrow> bool" where
  "on_time w \<longleftrightarrow> (\<forall>e \<in> pending w. currentTick w \<le> expirationTick e)"

abbreviation TICK_LIMIT :: nat where
  "TICK_LIMIT \<equiv> 4611686018427387904"

text \<open>Callbacks that set timers of a positive delay (and below 146 million years).\<close>

definition sane_delays :: "('cb \<Rightarrow> 'cb timer_op list) \<Rightarrow> bool" where
  "sane_delays run \<longleftrightarrow> (\<forall>cb d c. AddTimer d c \<in> set (run cb) \<longrightarrow> 0 < d \<and> d \<le> TICK_LIMIT)"

lemma wheel_new_wf: "0 < n \<Longrightarrow> 0 < ms \<Longrightarrow> ms < 2 ^ 32 \<Longrightarrow> wf_wheel (wheel_new n ms)"
  by (simp add: wf_wheel_def wheel_new_def)

lemma delay_ticks_exact:
  assumes "0 < ms" and "d + ms < SZ"
  shows "delay_ticks ms d = (d + ms - 1) div ms"
  using assms by (simp add: delay_ticks_def add_sz_exact sub_sz_exact)

lemma delay_ticks_bounds:
  assumes "0 < ms" and "ms < 2 ^ 32" and "0 < d" and "d \<le> TICK_LIMIT"
  shows "0 < delay_ticks ms d" and "delay_ticks ms d \<le> d"
proof -
  have eq: "delay_ticks ms d = (d + ms - 1) div ms" using assms by (intro delay_ticks_exact) simp_all
  have "ms \<le> d + ms - 1" using assms by simp
  then show "0 < delay_ticks ms d" unfolding eq using assms by (simp add: div_greater_zero_iff)
  have "(d + ms - 1) div ms \<le> d"
  proof (rule ccontr)
    assume "\<not> (d + ms - 1) div ms \<le> d"
    then have "(d + 1) * ms \<le> d + ms - 1"
      using assms(1) by (metis Suc_eq_plus1 less_eq_div_iff_mult_less_eq not_less_eq_eq)
    moreover have "d * 1 \<le> d * ms" using assms(1) by (intro mult_le_mono2) simp
    ultimately show False using assms(1) unfolding add_mult_distrib by linarith
  qed
  then show "delay_ticks ms d \<le> d" unfolding eq .
qed

lemma pending_nth:
  "pending w = {e. \<not> canceled e \<and> (\<exists>j < length (slots w). e \<in> set (slots w ! j))}"
  by (auto simp: pending_def in_set_conv_nth Bex_def) 

lemma addTimer_ok:
  assumes "wf_wheel w"
  obtains w' where "addTimer d cb w = Inr (w', nextId w)" "wf_wheel w'"
    "pending w' = insert \<lparr>tid = nextId w, expirationTick = add_sz (currentTick w) (delay_ticks (tickMs w) d),
        callback = cb, canceled = False\<rparr> (pending w)"
    "currentTick w' = currentTick w" "numSlots w' = numSlots w" "tickMs w' = tickMs w"
proof -
  define x where "x = add_sz (currentTick w) (delay_ticks (tickMs w) d)"
  define i where "i = x mod numSlots w"
  define e where "e = \<lparr>tid = nextId w, expirationTick = x, callback = cb, canceled = False\<rparr>"
  have i: "i < length (slots w)" using assms by (simp add: wf_wheel_def i_def)
  define w' where "w' = w\<lparr>nextId := add_sz (nextId w) 1, slots := (slots w)[i := slots w ! i @ [e]]\<rparr>"
  have "addTimer d cb w = Inr (w', nextId w)"
    using assms i unfolding addTimer_def Let_def
    by (simp add: wf_wheel_def nextTimerId_def w'_def e_def flip: x_def i_def)
  moreover have "wf_wheel w'" using assms i
    by (auto simp: wf_wheel_def w'_def e_def i_def nth_list_update)
  moreover have "pending w' = insert e (pending w)"
    using i by (auto simp: pending_nth w'_def nth_list_update e_def)
  ultimately show ?thesis using that by (simp add: w'_def e_def x_def)
qed


lemma cancel_slot_set:
  "cancel_slot i es = Some es' \<Longrightarrow> e \<in> set es' \<Longrightarrow> \<not> canceled e \<Longrightarrow> e \<in> set es"
  "cancel_slot i es = Some es' \<Longrightarrow> e \<in> set es \<Longrightarrow> tid e \<noteq> i \<Longrightarrow> e \<in> set es'"
  "cancel_slot i es = Some es' \<Longrightarrow> map expirationTick es' = map expirationTick es"
  "cancel_slot i es = None \<Longrightarrow> e \<in> set es \<Longrightarrow> tid e \<noteq> i"
  by (induction es arbitrary: es' rule: cancel_slot.induct) (auto split: if_splits)

lemma cancel_slots_length [simp]: "length (cancel_slots i ss) = length ss"
  by (induction ss) (simp_all split: option.split)

lemma cancel_slots_nth:
  "j < length ss \<Longrightarrow> cancel_slots i ss ! j = ss ! j \<or> cancel_slot i (ss ! j) = Some (cancel_slots i ss ! j)"
proof (induction ss arbitrary: j)
  case (Cons s ss)
  from Cons.IH [of "j - 1"] Cons.prems show ?case by (cases j) (simp_all split: option.split)
qed simp

lemma cancelTimer_ok:
  assumes "wf_wheel w"
  shows "wf_wheel (cancelTimer i w)" "pending (cancelTimer i w) \<subseteq> pending w"
    "{e \<in> pending w. tid e \<noteq> i} \<subseteq> pending (cancelTimer i w)"
    "currentTick (cancelTimer i w) = currentTick w" "tickMs (cancelTimer i w) = tickMs w"
proof -
  note n = cancel_slots_nth [where i = i and ss = "slots w"]
  have ex: "\<forall>e \<in> set (cancel_slots i (slots w) ! j). expirationTick e mod numSlots w = j"
    if "j < length (slots w)" for j
  proof -
    have "map expirationTick (cancel_slots i (slots w) ! j) = map expirationTick (slots w ! j)"
      using n [OF that] cancel_slot_set(3) by auto
    then have "expirationTick ` set (cancel_slots i (slots w) ! j) = expirationTick ` set (slots w ! j)"
      by (metis list.set_map)
    moreover have "\<forall>x \<in> expirationTick ` set (slots w ! j). x mod numSlots w = j"
      using assms that by (auto simp: wf_wheel_def)
    ultimately show ?thesis by (metis imageI)
  qed
  then show "wf_wheel (cancelTimer i w)"
    using assms by (simp add: wf_wheel_def cancelTimer_def)
  have "e \<in> set (slots w ! j)"
    if "j < length (slots w)" "e \<in> set (cancel_slots i (slots w) ! j)" "\<not> canceled e" for e j
    using n [OF that(1)] cancel_slot_set(1) [OF _ that(2,3)] that(2) by auto
  then show "pending (cancelTimer i w) \<subseteq> pending w"
    unfolding pending_nth cancelTimer_def by auto
  have "e \<in> set (cancel_slots i (slots w) ! j)"
    if "j < length (slots w)" "e \<in> set (slots w ! j)" "tid e \<noteq> i" for e j
    using n [OF that(1)] cancel_slot_set(2) [OF _ that(2,3)] that(2) by auto
  then show "{e \<in> pending w. tid e \<noteq> i} \<subseteq> pending (cancelTimer i w)"
    unfolding pending_nth cancelTimer_def by auto
qed (simp_all add: cancelTimer_def)

text \<open>
  What the calls of a callback do to the wheel: they always succeed, keep the invariant, add only
  timers that are still to come, and drop only timers they cancel.
\<close>

definition advances :: "nat set \<Rightarrow> 'cb wheel \<Rightarrow> 'cb wheel \<Rightarrow> bool" where
  "advances gone w w' \<longleftrightarrow> wf_wheel w' \<and> currentTick w' = currentTick w \<and> tickMs w' = tickMs w
     \<and> (\<forall>e \<in> pending w'. e \<in> pending w \<or> currentTick w < expirationTick e)
     \<and> (\<forall>e \<in> pending w. tid e \<notin> gone \<longrightarrow> e \<in> pending w')"

definition cancels :: "'cb timer_op list \<Rightarrow> nat set" where
  "cancels ops = {i. CancelTimer i \<in> set ops}"

lemma advances_refl: "wf_wheel w \<Longrightarrow> advances g w w"
  by (simp add: advances_def)

lemma advances_trans: "advances g w w' \<Longrightarrow> advances g' w' w'' \<Longrightarrow> advances (g \<union> g') w w''"
  by (auto simp: advances_def)

lemma timer_op_advances:
  assumes "wf_wheel w" and "currentTick w < TICK_LIMIT" and "\<forall>d c. op = AddTimer d c \<longrightarrow> 0 < d \<and> d \<le> TICK_LIMIT"
  obtains w' where "do_timer_op op w = Inr w'" "advances (cancels [op]) w w'"
proof (cases op)
  case (AddTimer d cb)
  have ms: "0 < tickMs w" "tickMs w < 2 ^ 32" using assms(1) by (simp_all add: wf_wheel_def)
  have d: "0 < d" "d \<le> TICK_LIMIT" using assms(3) AddTimer by simp_all
  note b = delay_ticks_bounds [OF ms d]
  have "add_sz (currentTick w) (delay_ticks (tickMs w) d) = currentTick w + delay_ticks (tickMs w) d"
    using assms(2) b d by (intro add_sz_exact) simp
  then show ?thesis using addTimer_ok [OF assms(1), of d cb] AddTimer that b
    by (force simp: do_timer_op_def advances_def)
next
  case (CancelTimer i)
  with that cancelTimer_ok [OF assms(1), of i] show ?thesis
    by (auto simp: do_timer_op_def advances_def cancels_def)
qed

lemma timer_ops_advances:
  assumes "wf_wheel w" and "currentTick w < TICK_LIMIT"
    and "\<forall>d c. AddTimer d c \<in> set ops \<longrightarrow> 0 < d \<and> d \<le> TICK_LIMIT"
  shows "\<exists>w'. timer_ops ops w = Inr w' \<and> advances (cancels ops) w w'"
  using assms
proof (induction ops arbitrary: w)
  case Nil
  then show ?case by (simp add: advances_refl)
next
  case (Cons op ops)
  have op: "\<forall>d c. op = AddTimer d c \<longrightarrow> 0 < d \<and> d \<le> TICK_LIMIT" using Cons.prems(3) by simp
  obtain w1 where w1: "do_timer_op op w = Inr w1" "advances (cancels [op]) w w1"
    using timer_op_advances [OF Cons.prems(1,2) op] .
  then obtain w2 where "timer_ops ops w1 = Inr w2" "advances (cancels ops) w1 w2"
    using Cons.IH [of w1] Cons.prems by (auto simp: advances_def)
  moreover have "cancels [op] \<union> cancels ops = cancels (op # ops)" by (auto simp: cancels_def)
  ultimately show ?case using w1 advances_trans [of "cancels [op]" w w1] by fastforce
qed

lemma fire_all_advances:
  assumes "wf_wheel w" and "currentTick w < TICK_LIMIT" and "sane_delays run"
  shows "\<exists>w'. fire_all run es w = Inr w' \<and> advances (\<Union>cb. cancels (run cb)) w w'"
  using assms
proof (induction es arbitrary: w)
  case Nil
  then show ?case by (simp add: advances_refl)
next
  case (Cons e es)
  let ?g = "\<Union>cb. cancels (run cb)"
  obtain w1 where w1: "(case callback e of None \<Rightarrow> Inr w | Some cb \<Rightarrow> timer_ops (run cb) w) = Inr w1"
    "advances ?g w w1"
  proof (cases "callback e")
    case None
    with that [of w] Cons.prems show ?thesis by (simp add: advances_refl)
  next
    case (Some cb)
    with timer_ops_advances [OF Cons.prems(1,2), of "run cb"] Cons.prems(3) that show ?thesis
      by (fastforce simp: sane_delays_def advances_def)
  qed
  then obtain w2 where "fire_all run es w1 = Inr w2" "advances ?g w1 w2"
    using Cons.IH [of w1] Cons.prems by (auto simp: advances_def)
  with w1 advances_trans [of ?g w w1 ?g w2] show ?case by auto
qed

section \<open>The wheel is a timer service\<close>

definition wheel_inv :: "'cb wheel \<Rightarrow> bool" where
  "wheel_inv w \<longleftrightarrow> wf_wheel w \<and> on_time w"

definition never_cancelled :: "('cb \<Rightarrow> 'cb timer_op list) \<Rightarrow> 'cb timer_entry \<Rightarrow> bool" where
  "never_cancelled run e \<longleftrightarrow> (\<forall>cb. CancelTimer (tid e) \<notin> set (run cb))"

lemma tick_ok:
  assumes inv: "wheel_inv w" and lim: "currentTick w < TICK_LIMIT" and run: "sane_delays run"
  obtains w' es where "tick run w = Inr (w', es)" "wheel_inv w'" "currentTick w' = Suc (currentTick w)"
    "tickMs w' = tickMs w"
    "set es = {e \<in> pending w. expirationTick e = currentTick w}"
    "\<And>e. e \<in> pending w \<Longrightarrow> never_cancelled run e \<Longrightarrow> expirationTick e \<noteq> currentTick w \<Longrightarrow> e \<in> pending w'"
proof -
  define i where "i = currentTick w mod numSlots w"
  define live where "live = filter (\<lambda>e. \<not> canceled e) (slots w ! i)"
  define es where "es = filter (\<lambda>e. expirationTick e \<le> currentTick w) live"
  define keep where "keep = filter (\<lambda>e. \<not> expirationTick e \<le> currentTick w) live"
  define w0 where "w0 = w\<lparr>slots := (slots w)[i := keep]\<rparr>"
  have wf: "wf_wheel w" and ot: "\<And>e. e \<in> pending w \<Longrightarrow> currentTick w \<le> expirationTick e"
    using inv by (auto simp: wheel_inv_def on_time_def)
  have i: "i < length (slots w)" "0 < numSlots w" using wf by (simp_all add: wf_wheel_def i_def)
  have home: "\<And>j e. j < length (slots w) \<Longrightarrow> e \<in> set (slots w ! j) \<Longrightarrow> expirationTick e mod numSlots w = j"
    using wf by (auto simp: wf_wheel_def)
  have wf0: "wf_wheel w0"
    using wf i by (auto simp: wf_wheel_def w0_def keep_def live_def nth_list_update)
  have pend0: "pending w0 = {e \<in> pending w. expirationTick e \<noteq> currentTick w}"
  proof -
    have "expirationTick e \<noteq> currentTick w" if "j < length (slots w)" "j \<noteq> i" "e \<in> set (slots w ! j)" for e j
      using home [OF that(1,3)] that(2) by (auto simp: i_def)
    then show ?thesis using i ot
      by (auto simp: pending_nth w0_def nth_list_update keep_def live_def split: if_splits) fastforce+
  qed
  have fires: "set es = {e \<in> pending w. expirationTick e = currentTick w}"
  proof -
    have "e \<in> set (slots w ! i)" if "j < length (slots w)" "e \<in> set (slots w ! j)" "expirationTick e = currentTick w" for e j
      using home [OF that(1,2)] that by (simp add: i_def)
    then show ?thesis using i ot by (fastforce simp: es_def live_def pending_nth)
  qed
  from fire_all_advances [OF wf0 _ run, of es] lim obtain w1 where
    f: "fire_all run es w0 = Inr w1" "advances (\<Union>cb. cancels (run cb)) w0 w1" by (auto simp: w0_def)
  define w' where "w' = w1\<lparr>currentTick := Suc (currentTick w)\<rparr>"
  have c: "currentTick w1 = currentTick w" "tickMs w1 = tickMs w" "wf_wheel w1"
    using f(2) by (simp_all add: advances_def w0_def)
  have p': "pending w' = pending w1" by (simp add: w'_def pending_def)
  have t: "tick run w = Inr (w', es)"
    using i f c lim unfolding tick_def Let_def
    by (simp add: add_sz_exact w'_def flip: i_def live_def es_def keep_def w0_def)
  have "currentTick w < expirationTick e" if "e \<in> pending w1" for e
    using f(2) that pend0 ot [of e] by (fastforce simp: advances_def w0_def)
  then have "wheel_inv w'"
    using c p' by (simp add: wheel_inv_def on_time_def w'_def wf_wheel_def Suc_le_eq)
  moreover have "e \<in> pending w'" if "e \<in> pending w" "never_cancelled run e" "expirationTick e \<noteq> currentTick w" for e
    using f(2) that pend0 unfolding p' by (auto simp: advances_def cancels_def never_cancelled_def)
  ultimately show ?thesis using that t fires c by (simp add: w'_def)
qed

interpretation tw: timer_service "\<lambda>w. sane_delays run \<and> wheel_inv w" currentTick pending expirationTick
    "never_cancelled run" "tick run" TICK_LIMIT
  for run :: "'cb \<Rightarrow> 'cb timer_op list"
proof
  fix w :: "'cb wheel" and e assume "sane_delays run \<and> wheel_inv w" "e \<in> pending w"
  then show "currentTick w \<le> expirationTick e" by (simp add: wheel_inv_def on_time_def)
next
  fix w :: "'cb wheel" assume "sane_delays run \<and> wheel_inv w" and l: "currentTick w < TICK_LIMIT"
  then have a: "wheel_inv w" "sane_delays run" by simp_all
  note t = tick_ok [OF a(1) l a(2)]
  show "\<exists>w' es. tick run w = Inr (w', es)" using t by metis
  fix w' es assume s: "tick run w = Inr (w', es)"
  show "(sane_delays run \<and> wheel_inv w') \<and> currentTick w' = Suc (currentTick w)"
    using t s a(2) by (metis Inr_inject prod.inject)
  show "set es = {e \<in> pending w. expirationTick e = currentTick w}"
    using t s by (metis (no_types, lifting) Inr_inject prod.inject)
  fix e assume "e \<in> pending w" "never_cancelled run e" "expirationTick e \<noteq> currentTick w"
  then show "e \<in> pending w'" using t s by (metis Inr_inject prod.inject)
qed

lemma addTimer_on_time:
  assumes "wheel_inv w" and "currentTick w \<le> TICK_LIMIT" and "0 < d" and "d \<le> TICK_LIMIT"
    and "addTimer d cb w = Inr (w', i)"
  shows "wheel_inv w'" "currentTick w' = currentTick w"
    "\<lparr>tid = i, expirationTick = currentTick w + (d + tickMs w - 1) div tickMs w, callback = cb, canceled = False\<rparr>
      \<in> pending w'"
proof -
  have wf: "wf_wheel w" and ms: "0 < tickMs w" "tickMs w < 2 ^ 32"
    using assms(1) by (simp_all add: wheel_inv_def wf_wheel_def)
  note b = delay_ticks_bounds [OF ms assms(3,4)]
  have d: "delay_ticks (tickMs w) d = (d + tickMs w - 1) div tickMs w"
    using assms ms by (intro delay_ticks_exact) simp_all
  have x: "add_sz (currentTick w) (delay_ticks (tickMs w) d) = currentTick w + (d + tickMs w - 1) div tickMs w"
    using assms b d by (subst add_sz_exact) simp_all
  obtain w1 where w1: "addTimer d cb w = Inr (w1, nextId w)" "wf_wheel w1" "currentTick w1 = currentTick w"
    "pending w1 = insert \<lparr>tid = nextId w, expirationTick = currentTick w + (d + tickMs w - 1) div tickMs w,
        callback = cb, canceled = False\<rparr> (pending w)"
    using addTimer_ok [OF wf, of d cb] x by metis
  with assms show "wheel_inv w'" "currentTick w' = currentTick w"
    "\<lparr>tid = i, expirationTick = currentTick w + (d + tickMs w - 1) div tickMs w, callback = cb, canceled = False\<rparr>
      \<in> pending w'"
    by (auto simp: wheel_inv_def on_time_def)
qed

lemma run_ticks_wheel:
  assumes "wheel_inv w" and "sane_delays run" and "currentTick w + n \<le> TICK_LIMIT"
  shows "\<exists>w' fs. run_ticks (tick run) n w = Inr (w', fs) \<and> wheel_inv w' \<and> currentTick w' = currentTick w + n
    \<and> tickMs w' = tickMs w"
  using assms
proof (induction n arbitrary: w)
  case (Suc n)
  then have "currentTick w < TICK_LIMIT" by simp
  from tick_ok [OF Suc.prems(1) this Suc.prems(2)] obtain w1 es where
    "tick run w = Inr (w1, es)" "wheel_inv w1" "currentTick w1 = Suc (currentTick w)" "tickMs w1 = tickMs w" .
  with Suc.IH [of w1] Suc.prems show ?case by auto
qed simp

text \<open>Identifiers are unique as long as the 64-bit counter has not wrapped.\<close>

definition ids_ok :: "'cb wheel \<Rightarrow> bool" where
  "ids_ok w \<longleftrightarrow> (\<forall>i < length (slots w). distinct (map tid (slots w ! i)) \<and> (\<forall>e \<in> set (slots w ! i). tid e < nextId w))
     \<and> (\<forall>i < length (slots w). \<forall>j < length (slots w). i \<noteq> j \<longrightarrow>
          tid ` set (slots w ! i) \<inter> tid ` set (slots w ! j) = {})"

lemma wheel_new_ids: "ids_ok (wheel_new n ms)"
  by (simp add: ids_ok_def wheel_new_def)

lemma addTimer_ids:
  assumes "ids_ok w" and "Suc (nextId w) < SZ" and "addTimer d cb w = Inr (w', i)"
  shows "ids_ok w'" "i = nextId w"
proof -
  define x where "x = add_sz (currentTick w) (delay_ticks (tickMs w) d)"
  define k where "k = x mod numSlots w"
  define e where "e = \<lparr>tid = nextId w, expirationTick = x, callback = cb, canceled = False\<rparr>"
  have k: "k < length (slots w)" "tid e = nextId w" "i = nextId w"
    and w': "w' = w\<lparr>nextId := Suc (nextId w), slots := (slots w)[k := slots w ! k @ [e]]\<rparr>"
    using assms(2,3) unfolding addTimer_def Let_def x_def [symmetric] k_def [symmetric]
    by (auto simp: nextTimerId_def add_sz_exact e_def split: if_splits)
  show "i = nextId w" by (fact k)
  have less: "\<And>j x. j < length (slots w) \<Longrightarrow> x \<in> set (slots w ! j) \<Longrightarrow> tid x < nextId w"
    using assms(1) by (simp add: ids_ok_def)
  have "nextId w \<notin> tid ` set (slots w ! j)" if "j < length (slots w)" for j
    using less [OF that] by fastforce
  with assms(1) k less show "ids_ok w'"
    unfolding ids_ok_def w' by (auto simp: nth_list_update less_Suc_eq)
qed

lemma cancel_slot_mem: "cancel_slot i es = Some es' \<Longrightarrow> i \<in> tid ` set es"
  by (induction es arbitrary: es') (auto split: if_splits)

lemma cancel_slot_removes:
  "cancel_slot i es = Some es' \<Longrightarrow> distinct (map tid es) \<Longrightarrow> e \<in> set es' \<Longrightarrow> tid e = i \<Longrightarrow> canceled e"
  by (induction es arbitrary: es' rule: cancel_slot.induct) (auto split: if_splits)

lemma cancel_slots_removes:
  "j < length ss \<Longrightarrow> \<forall>s \<in> set ss. distinct (map tid s) \<Longrightarrow>
   \<forall>j < length ss. \<forall>k < length ss. j \<noteq> k \<longrightarrow> tid ` set (ss ! j) \<inter> tid ` set (ss ! k) = {} \<Longrightarrow>
   e \<in> set (cancel_slots i ss ! j) \<Longrightarrow> tid e = i \<Longrightarrow> canceled e"
proof (induction ss arbitrary: j)
  case (Cons s ss)
  have disj: "tid ` set s \<inter> tid ` set (ss ! k) = {}" if "k < length ss" for k
    using Cons.prems(3) [rule_format, of 0 "Suc k"] that by simp
  have sub: "\<forall>j < length ss. \<forall>k < length ss. j \<noteq> k \<longrightarrow> tid ` set (ss ! j) \<inter> tid ` set (ss ! k) = {}"
  proof (intro allI impI)
    fix j k assume "j < length ss" "k < length ss" "j \<noteq> k"
    then show "tid ` set (ss ! j) \<inter> tid ` set (ss ! k) = {}"
      using Cons.prems(3) [rule_format, of "Suc j" "Suc k"] by simp
  qed
  show ?case
  proof (cases "cancel_slot i s")
    case None
    with Cons.prems Cons.IH [of "j - 1"] sub cancel_slot_set(4) [OF None] show ?thesis by (cases j) auto
  next
    case (Some s')
    then have "i \<in> tid ` set s" using cancel_slot_mem by blast
    show ?thesis
    proof (cases j)
      case 0
      with Some Cons.prems show ?thesis using cancel_slot_removes [OF Some] by simp
    next
      case (Suc k)
      with Some Cons.prems disj [of k] \<open>i \<in> tid ` set s\<close> show ?thesis by auto
    qed
  qed
qed simp

section \<open>Properties\<close>

text \<open>C8. A timer fires exactly once, in exactly the tick it is due: a timer of delay \<open>d > 0\<close> added to a
  wheel without overdue timers is fired by the tick number \<open>ceiling (d / tickMs)\<close> after the addition,
  counted from 0, and by no other, whatever timers the callbacks of the wheel add (with positive
  delays) or cancel (other than this one) in the meantime.\<close>

theorem timer_fires_exactly_when_due:
  assumes "wheel_inv w" and "sane_delays run" and "currentTick w + n \<le> TICK_LIMIT"
    and "0 < d" and "d \<le> TICK_LIMIT" and "addTimer d cb w = Inr (w1, i)"
    and "\<forall>c. CancelTimer i \<notin> set (run c)"
  shows "\<exists>w' fs. run_ticks (tick run) n w1 = Inr (w', fs) \<and> length fs = n \<and>
    (\<forall>j < n. \<lparr>tid = i, expirationTick = currentTick w + (d + tickMs w - 1) div tickMs w,
               callback = cb, canceled = False\<rparr> \<in> set (fs ! j)
       \<longleftrightarrow> j = (d + tickMs w - 1) div tickMs w)"
proof -
  have "currentTick w \<le> TICK_LIMIT" using assms(3) by simp
  note a = addTimer_on_time [OF assms(1) this assms(4,5,6)]
  let ?e = "\<lparr>tid = i, expirationTick = currentTick w + (d + tickMs w - 1) div tickMs w,
               callback = cb, canceled = False\<rparr>"
  have h: "sane_delays run \<and> wheel_inv w1" "currentTick w1 + n \<le> TICK_LIMIT" "never_cancelled run ?e"
    using a assms(2,3,7) by (simp_all add: never_cancelled_def)
  obtain w' fs where "run_ticks (tick run) n w1 = Inr (w', fs)" "length fs = n"
    and f: "\<forall>j<n. ?e \<in> set (fs ! j) \<longleftrightarrow> expirationTick ?e = currentTick w1 + j"
    using tw.fires_exactly [OF h(1,2) a(3) h(3)] .
  moreover have "\<forall>j<n. ?e \<in> set (fs ! j) \<longleftrightarrow> j = (d + tickMs w - 1) div tickMs w"
    using f a(2) by auto
  ultimately show ?thesis by blast
qed

theorem timer_fires_exactly_when_due_witness:
  "\<exists>w' fs. run_ticks (tick (\<lambda>_::nat. [AddTimer 500 (Some 7)])) 4
       (fst (projr (addTimer 1500 (Some 3) (wheel_new 8 1000)))) = Inr (w', fs) \<and> length fs = 4 \<and>
    (\<forall>j < 4. \<lparr>tid = 0, expirationTick = 2, callback = Some 3, canceled = False\<rparr> \<in> set (fs ! j) \<longleftrightarrow> j = 2)"
proof -
  let ?w = "wheel_new 8 1000 :: nat wheel"
  have w: "wheel_inv ?w" by (simp add: wheel_inv_def wheel_new_wf on_time_def pending_def wheel_new_def wf_wheel_def)
  have s: "sane_delays (\<lambda>_::nat. [AddTimer 500 (Some 7)])" by (simp add: sane_delays_def)
  obtain w1 where a: "addTimer 1500 (Some 3) ?w = Inr (w1, 0)"
    by (simp add: addTimer_def wheel_new_def delay_ticks_def add_sz_def sub_sz_def nextTimerId_def)
  have "currentTick ?w = 0" "tickMs ?w = 1000" by (simp_all add: wheel_new_def)
  then have "\<exists>w' fs. run_ticks (tick (\<lambda>_::nat. [AddTimer 500 (Some 7)])) 4 w1 = Inr (w', fs) \<and> length fs = 4 \<and>
    (\<forall>j < 4. \<lparr>tid = 0, expirationTick = 0 + (1500 + 1000 - 1) div 1000, callback = Some 3, canceled = False\<rparr>
       \<in> set (fs ! j) \<longleftrightarrow> j = (1500 + 1000 - 1) div 1000)"
    using timer_fires_exactly_when_due [OF w s _ _ _ a, of 4] by simp
  moreover have "0 + (1500 + 1000 - 1) div 1000 = (2::nat)" "(1500 + 1000 - 1) div 1000 = (2::nat)" by simp_all
  ultimately show ?thesis unfolding a sum.sel fst_conv by (simp only:)
qed

text \<open>Cancelling a timer removes it and nothing else: while identifiers are unique, the timers still
  to fire after \<open>cancelTimer i\<close> are those before it less the one with identifier \<open>i\<close>.\<close>

theorem cancelTimer_removes_exactly:
  assumes "wf_wheel w" and "ids_ok w"
  shows "pending (cancelTimer i w) = {e \<in> pending w. tid e \<noteq> i}"
proof -
  note c = cancelTimer_ok [OF assms(1), of i]
  have "\<forall>s \<in> set (slots w). distinct (map tid s)"
    using assms(2) by (auto simp: ids_ok_def in_set_conv_nth)
  then have "tid e \<noteq> i" if "e \<in> pending (cancelTimer i w)" for e
    using that assms(2) cancel_slots_removes [where ss = "slots w" and i = i and e = e]
    by (auto simp: pending_nth cancelTimer_def ids_ok_def)
  with c(2,3) show ?thesis by blast
qed

theorem cancelTimer_removes_exactly_witness:
  "let w = fst (projr (addTimer 1500 (Some 3) (wheel_new 8 1000 :: nat wheel))) in
   pending w \<noteq> {} \<and> pending (cancelTimer 0 w) = {e \<in> pending w. tid e \<noteq> 0}"
proof -
  let ?w0 = "wheel_new 8 1000 :: nat wheel"
  have wf: "wf_wheel ?w0" by (simp add: wheel_new_wf)
  obtain w where w: "addTimer 1500 (Some 3) ?w0 = Inr (w, nextId ?w0)" "wf_wheel w" "pending w \<noteq> {}"
    by (rule addTimer_ok [OF wf, of 1500 "Some 3"]) simp
  have "ids_ok w" using addTimer_ids(1) [OF wheel_new_ids _ w(1)] by (simp add: wheel_new_def)
  from cancelTimer_removes_exactly [OF w(2) this, of 0] w(3) show ?thesis
    unfolding w(1) Let_def sum.sel fst_conv by blast
qed

text \<open>A timer of delay 0 that a callback adds during a tick is late by a whole revolution: on a wheel of
  four slots it fires four ticks after the one that added it.\<close>

theorem zero_delay_in_callback_late:
  "map_sum id (map (map callback) \<circ> snd)
     (run_ticks (tick (\<lambda>cb. if cb = (1::nat) then [AddTimer 0 (Some 2)] else [])) 5
        (fst (projr (addTimer 0 (Some 1) (wheel_new 4 1000)))))
   = Inr [[Some 1], [], [], [], [Some 2]]"
proof -
  have w: "wheel_new 4 1000 =
      \<lparr>numSlots = 4, tickMs = 1000, currentTick = 0, nextId = 0, slots = [[], [], [], []]\<rparr>"
    by (simp add: wheel_new_def) (simp add: numeral_eq_Suc)
  have d: "delay_ticks 1000 0 = 0" by (simp add: delay_ticks_def add_sz_def sub_sz_def)
  have five: "(5::nat) = Suc (Suc (Suc (Suc (Suc 0))))" by simp
  show ?thesis unfolding w five
    by (simp add: addTimer_def d add_sz_def nextTimerId_def tick_def do_timer_op_def)
qed

end
