(* ===== verification/SpscQueue.thy ===== *)
theory SpscQueue
  imports Prelude
begin

text \<open>
  The single-producer single-consumer ring of \<open>include/xnetty/event/event_loop.h\<close> (\<open>SpscQueue\<close>).

  The element type is \<open>'a option\<close>: \<open>None\<close> is the default-constructed or moved-from element (an empty
  \<open>std::function\<close>). \<open>spsc_push\<close> and \<open>spsc_popAll\<close> are the operations run without interference. For
  the concurrent use, \<open>spsc_step\<close> is an interleaving step relation: one step per access to \<open>tail_\<close>,
  \<open>head_\<close> or an element of the buffer, the two threads' local variables being the program counters
  \<open>producer\<close> and \<open>consumer\<close>. Interleaving is sequentially consistent; the values a thread has loaded
  stay in its locals and may be stale when it uses them.

  The locale \<open>task_fifo\<close> is what the event loop relies on.
\<close>

section \<open>Construction\<close>

partial_function (option) npot_loop :: "nat \<Rightarrow> nat \<Rightarrow> nat option" where
  "npot_loop n p = (if p < n then npot_loop n (mul_sz p 2) else Some p)"

definition nextPowerOfTwo :: "nat \<Rightarrow> nat option" where
  "nextPowerOfTwo n = (if n = 0 then Some 1 else npot_loop n 1)"

record 'a spsc =
  sbuf :: "'a option list"
  sizeMask :: nat
  head :: nat
  tail :: nat

definition spsc_new :: "nat \<Rightarrow> 'a spsc option" where
  "spsc_new n =
     map_option (\<lambda>p. \<lparr>sbuf = replicate p None, sizeMask = p - 1, head = 0, tail = 0\<rparr>) (nextPowerOfTwo n)"

text \<open>Move construction and assignment: the source is left empty with a null buffer.\<close>

definition spsc_empty :: "'a spsc" where
  "spsc_empty = \<lparr>sbuf = [], sizeMask = 0, head = 0, tail = 0\<rparr>"

definition spsc_move :: "'a spsc \<Rightarrow> 'a spsc \<times> 'a spsc" where
  "spsc_move other = (other, spsc_empty)"

definition spsc_move_assign :: "bool \<Rightarrow> 'a spsc \<Rightarrow> 'a spsc \<Rightarrow> 'a spsc \<times> 'a spsc" where
  "spsc_move_assign same self other = (if same then (self, self) else (other, spsc_empty))"

section \<open>Operations without interference\<close>

definition next_index :: "'a spsc \<Rightarrow> nat \<Rightarrow> nat" where
  "next_index q i = add_sz i 1 AND sizeMask q"

definition spsc_push :: "'a option \<Rightarrow> 'a spsc \<Rightarrow> ('a spsc \<times> bool) res" where
  "spsc_push item q =
     (let t = tail q; h = head q; nt = next_index q t in
      if nt = h then Inr (q, False)
      else if t \<ge> length (sbuf q) then Inl UndefinedBehaviour
      else Inr (q\<lparr>sbuf := (sbuf q)[t := item], tail := nt\<rparr>, True))"

partial_function (option) pop_loop ::
  "nat \<Rightarrow> 'a option list \<Rightarrow> nat \<Rightarrow> nat \<Rightarrow> 'a option list \<Rightarrow> ('a option list \<times> nat \<times> 'a option list) res option" where
  "pop_loop m buf h t out =
     (if h = t then Some (Inr (buf, h, out))
      else if h \<ge> length buf then Some (Inl UndefinedBehaviour)
      else pop_loop m (buf[h := None]) (add_sz h 1 AND m) t (out @ [buf ! h]))"

definition spsc_popAll :: "'a spsc \<Rightarrow> ('a spsc \<times> 'a option list) res" where
  "spsc_popAll q =
     (case pop_loop (sizeMask q) (sbuf q) (head q) (tail q) [] of
        None \<Rightarrow> Inl Diverges
      | Some r \<Rightarrow> rbind r (\<lambda>(buf, h, out). Inr (q\<lparr>sbuf := buf, head := h\<rparr>, out)))"

section \<open>Lemmas on the size\<close>

lemma npot_loop_spec:
  assumes "p = 2 ^ i" and "n \<le> 2 ^ j" and "i \<le> j" and "j \<le> 63"
  shows "\<exists>k. npot_loop n p = Some (2 ^ k) \<and> n \<le> 2 ^ k \<and> i \<le> k \<and> k \<le> j \<and> (i < k \<longrightarrow> 2 ^ (k - 1) < n)"
  using assms
proof (induction "j - i" arbitrary: i p)
  case 0
  then show ?case by (subst npot_loop.simps) auto
next
  case (Suc d)
  show ?case
  proof (cases "p < n")
    case False
    with Suc.prems show ?thesis by (subst npot_loop.simps) auto
  next
    case True
    have "i < 63" using Suc by simp
    then have "(2::nat) ^ Suc i \<le> 2 ^ 63" by (intro power_increasing) simp_all
    then have "mul_sz p 2 = 2 ^ Suc i" using Suc.prems by (simp add: mul_sz_exact)
    moreover have "d = j - Suc i" "Suc i \<le> j" using Suc.hyps(2) by simp_all
    ultimately obtain k where "npot_loop n (mul_sz p 2) = Some (2 ^ k)" "n \<le> 2 ^ k" "Suc i \<le> k" "k \<le> j"
      "Suc i < k \<longrightarrow> 2 ^ (k - 1) < n" using Suc.hyps(1) [of "Suc i" "2 ^ Suc i"] Suc.prems by metis
    with True Suc.prems show ?thesis
      by (subst npot_loop.simps) (auto intro!: exI [of _ k] simp: le_Suc_eq elim: le_SucE)
  qed
qed

lemma nextPowerOfTwo_spec:
  assumes "0 < n" and "n \<le> 2 ^ 63"
  obtains k where "nextPowerOfTwo n = Some (2 ^ k)" "n \<le> 2 ^ k" "k \<le> 63" "0 < k \<longrightarrow> 2 ^ (k - 1) < n"
  using npot_loop_spec [of 1 0 n 63] assms that by (auto simp: nextPowerOfTwo_def)

lemma and_mask_mod: "(a::nat) AND (2 ^ k - 1) = a mod 2 ^ k"
  by (metis mask_eq_exp_minus_1 take_bit_eq_mask take_bit_eq_mod)

section \<open>Sequential correctness\<close>

text \<open>
  Positions count all elements ever pushed: \<open>hd\<close> and \<open>tl\<close> positions \<open>H \<le> T\<close> differ by less than the
  size, and the index of a position is its remainder.
\<close>

definition ring_view :: "nat \<Rightarrow> nat \<Rightarrow> nat \<Rightarrow> 'a option list \<Rightarrow> 'a option list" where
  "ring_view N H T buf = map (\<lambda>i. buf ! (i mod N)) [H..<T]"

definition ring_ok :: "nat \<Rightarrow> nat \<Rightarrow> nat \<Rightarrow> 'a spsc \<Rightarrow> bool" where
  "ring_ok N H T q \<longleftrightarrow> (\<exists>k \<le> 63. N = 2 ^ k) \<and> sizeMask q = N - 1 \<and> length (sbuf q) = N
     \<and> head q = H mod N \<and> tail q = T mod N \<and> H \<le> T \<and> T - H < N"

definition wf_spsc :: "'a spsc \<Rightarrow> bool" where
  "wf_spsc q \<longleftrightarrow> (\<exists>H T. ring_ok (length (sbuf q)) H T q)"

text \<open>The queued elements, oldest first.\<close>

definition queued :: "'a spsc \<Rightarrow> 'a option list" where
  "queued q = (let N = length (sbuf q); n = (tail q + N - head q) mod N in
               map (\<lambda>i. sbuf q ! ((head q + i) mod N)) [0..<n])"

lemma queued_view: "ring_ok N H T q \<Longrightarrow> queued q = ring_view N H T (sbuf q)"
proof -
  assume r: "ring_ok N H T q"
  then have N: "0 < N" "length (sbuf q) = N" by (auto simp: ring_ok_def)
  have d: "(tail q + N - head q) mod N = T - H"
  proof -
    have "(T mod N + N - H mod N) mod N = (T - H) mod N"
    proof -
      have "int ((T mod N + N - H mod N) mod N) = (int T mod int N + int N - int H mod int N) mod int N"
        using N by (simp add: zmod_int of_nat_diff le_SucI less_imp_le trans_le_add2)
      also have "\<dots> = (int T - int H) mod int N"
        by (metis add_diff_eq mod_add_self2 mod_diff_eq add.commute diff_add_eq)
      also have "int T - int H = int (T - H)" using r by (simp add: ring_ok_def)
      also have "\<dots> mod int N = int ((T - H) mod N)" by (simp only: zmod_int)
      finally show ?thesis by (simp only: of_nat_eq_iff)
    qed
    then show ?thesis using r by (simp add: ring_ok_def)
  qed
  have "sbuf q ! ((head q + i) mod N) = sbuf q ! ((H + i) mod N)" for i
    using r by (simp add: ring_ok_def mod_add_left_eq)
  then have "queued q = map (\<lambda>i. sbuf q ! ((H + i) mod N)) [0..<T - H]"
    using N d by (simp add: queued_def Let_def)
  also have "\<dots> = ring_view N H T (sbuf q)"
    by (rule nth_equalityI) (simp_all add: ring_view_def)
  finally show ?thesis .
qed

lemma mod_ne:
  assumes "i < j" and "j - i < (N::nat)" shows "i mod N \<noteq> j mod N"
proof
  assume "i mod N = j mod N"
  then have "N dvd j - i" using assms by (metis less_imp_le mod_eq_dvd_iff_nat)
  with assms show False using nat_dvd_not_less by auto
qed

lemma next_index_pos:
  assumes "ring_ok N H T q" shows "next_index q (i mod N) = Suc i mod N"
proof -
  obtain k where k: "k \<le> 63" "N = 2 ^ k" using assms by (auto simp: ring_ok_def)
  have "(2::nat) ^ k \<le> 2 ^ 63" using k by (intro power_increasing) simp_all
  then have "N < SZ" using k by simp
  moreover have "i mod N < N" using k by simp
  ultimately have "add_sz (i mod N) 1 = Suc (i mod N)" by (simp add: add_sz_exact)
  then show ?thesis using assms k by (simp add: next_index_def ring_ok_def and_mask_mod [unfolded One_nat_def] mod_Suc_eq)
qed


lemma ring_view_update:
  assumes "T - H < N" and "H \<le> T" and "length buf = N"
  shows "ring_view N H (Suc T) (buf[T mod N := x]) = ring_view N H T buf @ [x]"
proof -
  have "0 < N" using assms by simp
  moreover have "buf[T mod N := x] ! (i mod N) = buf ! (i mod N)" if "H \<le> i" "i < T" for i
  proof -
    have "i mod N \<noteq> T mod N" using that assms by (intro mod_ne) simp_all
    then show ?thesis by simp
  qed
  ultimately show ?thesis using assms by (simp add: ring_view_def)
qed

lemma spsc_push_ok:
  assumes r: "ring_ok N H T q"
  shows "Suc (T - H) < N \<Longrightarrow> spsc_push x q = Inr (q\<lparr>sbuf := (sbuf q)[T mod N := x], tail := Suc T mod N\<rparr>, True)"
    and "Suc (T - H) = N \<Longrightarrow> spsc_push x q = Inr (q, False)"
proof -
  have n: "next_index q (T mod N) = Suc T mod N" by (rule next_index_pos [OF r])
  have t: "tail q = T mod N" "head q = H mod N" "length (sbuf q) = N" "H \<le> T" "0 < N"
    using r by (auto simp: ring_ok_def)
  show "Suc (T - H) < N \<Longrightarrow> spsc_push x q = Inr (q\<lparr>sbuf := (sbuf q)[T mod N := x], tail := Suc T mod N\<rparr>, True)"
  proof -
    assume "Suc (T - H) < N"
    then have "H mod N \<noteq> Suc T mod N" using t by (intro mod_ne) simp_all
    moreover have "T mod N < N" using t by simp
    ultimately show ?thesis using t by (simp add: spsc_push_def Let_def n not_le)
  qed
  assume "Suc (T - H) = N"
  then have "Suc T = H + N" using t by simp
  then show "spsc_push x q = Inr (q, False)" using t by (simp add: spsc_push_def Let_def n)
qed

lemma pop_loop_ok:
  assumes "0 < N" and "\<And>i. add_sz (i mod N) 1 AND m = Suc i mod N"
    and "length buf = N" and "H \<le> T" and "T - H < N"
  shows "\<exists>buf'. pop_loop m buf (H mod N) (T mod N) out = Some (Inr (buf', T mod N, out @ ring_view N H T buf))
    \<and> length buf' = N"
  using assms(3-5)
proof (induction "T - H" arbitrary: H buf out)
  case 0
  then show ?case by (subst pop_loop.simps) (simp add: ring_view_def)
next
  case (Suc d)
  have ne: "H mod N \<noteq> T mod N" using mod_ne [of H T N] Suc by simp
  have view: "ring_view N H T buf = buf ! (H mod N) # ring_view N (Suc H) T (buf[H mod N := None])"
  proof -
    have "buf[H mod N := None] ! (i mod N) = buf ! (i mod N)" if "Suc H \<le> i" "i < T" for i
      using mod_ne [of H i N] that Suc.prems by (simp add: nth_list_update)
    then show ?thesis using Suc by (simp add: ring_view_def upt_conv_Cons)
  qed
  have "H mod N < length buf" using assms(1) Suc.prems by simp
  moreover have "\<exists>buf'. pop_loop m (buf[H mod N := None]) (Suc H mod N) (T mod N) (out @ [buf ! (H mod N)])
      = Some (Inr (buf', T mod N, (out @ [buf ! (H mod N)]) @ ring_view N (Suc H) T (buf[H mod N := None])))
    \<and> length buf' = N"
    using Suc by (intro Suc.hyps(1)) auto
  ultimately show ?case using ne by (subst pop_loop.simps) (simp add: assms(2) [unfolded One_nat_def] view)
qed

lemma spsc_popAll_ok:
  assumes r: "ring_ok N H T q"
  shows "\<exists>q'. spsc_popAll q = Inr (q', ring_view N H T (sbuf q)) \<and> ring_ok N T T q'"
proof -
  have t: "tail q = T mod N" "head q = H mod N" "length (sbuf q) = N" "H \<le> T" "T - H < N" "0 < N"
    using r by (auto simp: ring_ok_def)
  have n: "add_sz (i mod N) 1 AND sizeMask q = Suc i mod N" for i
    using next_index_pos [OF r, of i] by (simp add: next_index_def)
  from pop_loop_ok [OF t(6) n t(3-5), of "[]"] obtain buf' where
    "pop_loop (sizeMask q) (sbuf q) (H mod N) (T mod N) [] = Some (Inr (buf', T mod N, ring_view N H T (sbuf q)))"
    "length buf' = N" by auto
  with t r show ?thesis by (auto simp: spsc_popAll_def ring_ok_def)
qed

section \<open>The interface of a task queue\<close>

locale task_fifo =
  fixes inv :: "'q \<Rightarrow> bool" and items :: "'q \<Rightarrow> 'a list" and room :: "'q \<Rightarrow> nat"
    and push :: "'a \<Rightarrow> 'q \<Rightarrow> ('q \<times> bool) res" and popAll :: "'q \<Rightarrow> ('q \<times> 'a list) res"
  assumes push_room: "inv q \<Longrightarrow> 0 < room q \<Longrightarrow>
      \<exists>q'. push x q = Inr (q', True) \<and> inv q' \<and> items q' = items q @ [x] \<and> Suc (room q') = room q"
    and push_full: "inv q \<Longrightarrow> room q = 0 \<Longrightarrow> push x q = Inr (q, False)"
    and popAll_all: "inv q \<Longrightarrow>
      \<exists>q'. popAll q = Inr (q', items q) \<and> inv q' \<and> items q' = [] \<and> room q' = room q + length (items q)"
begin

fun pushes :: "'a list \<Rightarrow> 'q \<Rightarrow> 'q res" where
  "pushes [] q = Inr q"
| "pushes (x # xs) q = rbind (push x q) (\<lambda>(q', ok). pushes xs q')"

lemma pushes_fit:
  "inv q \<Longrightarrow> length xs \<le> room q \<Longrightarrow>
   \<exists>q'. pushes xs q = Inr q' \<and> inv q' \<and> items q' = items q @ xs \<and> room q' + length xs = room q"
proof (induction xs arbitrary: q)
  case (Cons x xs)
  from push_room [of q x] Cons.prems obtain q1 where
    q1: "push x q = Inr (q1, True)" "inv q1" "items q1 = items q @ [x]" "Suc (room q1) = room q" by auto
  with Cons.IH [of q1] Cons.prems show ?case by auto
qed simp

text \<open>Whatever fits comes back in the order it was put in, and the queue is as roomy as before.\<close>

lemma drain_pushed:
  assumes "inv q" and "items q = []" and "length xs \<le> room q"
  obtains q1 q2 where "pushes xs q = Inr q1" "popAll q1 = Inr (q2, xs)" "inv q2" "items q2 = []" "room q2 = room q"
  using pushes_fit [OF assms(1,3)] popAll_all assms(2) by force

end

definition room :: "'a spsc \<Rightarrow> nat" where
  "room q = length (sbuf q) - 1 - length (queued q)"

lemma wf_spscE:
  assumes "wf_spsc q"
  obtains N H T where "ring_ok N H T q" "queued q = ring_view N H T (sbuf q)" "N = length (sbuf q)"
    "room q = N - 1 - (T - H)"
proof -
  obtain H T where r: "ring_ok (length (sbuf q)) H T q" using assms by (auto simp: wf_spsc_def)
  with that queued_view [OF r] show ?thesis by (simp add: room_def ring_view_def)
qed

interpretation ring: task_fifo wf_spsc queued room spsc_push spsc_popAll
proof
  fix q :: "'a spsc" and x :: "'a option"
  assume wf: "wf_spsc q"
  from wf_spscE [OF this] obtain N H T where
    r: "ring_ok N H T q" "queued q = ring_view N H T (sbuf q)" "N = length (sbuf q)" "room q = N - 1 - (T - H)" .
  have b: "T - H < N" "H \<le> T" using r(1) by (simp_all add: ring_ok_def)
  show "\<exists>q'. spsc_push x q = Inr (q', True) \<and> wf_spsc q' \<and> queued q' = queued q @ [x] \<and> Suc (room q') = room q"
    if "0 < room q"
  proof -
    let ?q = "q\<lparr>sbuf := (sbuf q)[T mod N := x], tail := Suc T mod N\<rparr>"
    have n: "Suc (T - H) < N" using that r(4) by simp
    then have r': "ring_ok N H (Suc T) ?q" using r(1) by (simp add: ring_ok_def)
    have q': "queued ?q = queued q @ [x]"
      using queued_view [OF r'] ring_view_update [OF b, of "sbuf q" x] r by simp
    moreover have "wf_spsc ?q" using r' r(3) by (auto simp: wf_spsc_def)
    moreover have "Suc (room ?q) = room q" using q' that by (simp add: room_def)
    ultimately show ?thesis using spsc_push_ok(1) [OF r(1) n, of x] by blast
  qed
  show "room q = 0 \<Longrightarrow> spsc_push x q = Inr (q, False)"
    using spsc_push_ok(2) [OF r(1)] b r(4) by simp
  show "\<exists>q'. spsc_popAll q = Inr (q', queued q) \<and> wf_spsc q' \<and> queued q' = [] \<and> room q' = room q + length (queued q)"
  proof -
    obtain q' where q': "spsc_popAll q = Inr (q', queued q)" "ring_ok N T T q'"
      using spsc_popAll_ok [OF r(1)] r(2) by auto
    have "queued q' = []" using queued_view [OF q'(2)] by (simp add: ring_view_def)
    moreover have "length (sbuf q') = N" using q'(2) by (simp add: ring_ok_def)
    moreover have "length (queued q) = T - H" using r(2) by (simp add: ring_view_def)
    ultimately show ?thesis using q' b r(3) by (auto simp: wf_spsc_def room_def)
  qed
qed

lemma spsc_new_wf:
  assumes "0 < n" and "n \<le> 2 ^ 63"
  obtains q where "spsc_new n = Some q" "wf_spsc q" "queued q = []" "n - 1 \<le> room q"
proof -
  from nextPowerOfTwo_spec [OF assms] obtain k where
    k: "nextPowerOfTwo n = Some (2 ^ k)" "n \<le> 2 ^ k" "k \<le> 63" .
  define q :: "'a spsc" where "q = \<lparr>sbuf = replicate (2 ^ k) None, sizeMask = 2 ^ k - 1, head = 0, tail = 0\<rparr>"
  have r: "ring_ok (2 ^ k) 0 0 q" using k by (auto simp: ring_ok_def q_def)
  have e: "queued q = []" using queued_view [OF r] by (simp add: ring_view_def)
  have "spsc_new n = Some q" using k by (simp add: spsc_new_def q_def)
  moreover have "length (sbuf q) = 2 ^ k" by (simp add: q_def)
  moreover from this r have "wf_spsc q" unfolding wf_spsc_def by metis
  ultimately show ?thesis using that e k by (simp add: room_def)
qed

section \<open>Concurrent use: one producer, one consumer\<close>

text \<open>
  \<open>PTail\<close>: \<open>tail_\<close> loaded; \<open>PHead\<close>: \<open>head_\<close> loaded too; \<open>PStored\<close>: the element is in the buffer and
  \<open>tail_\<close> is about to be published. \<open>CHead\<close>: \<open>head_\<close> loaded; \<open>CMove\<close>: both loaded, elements being
  moved out. The histories \<open>pushed\<close> (elements whose push has returned \<open>true\<close>) and \<open>taken\<close> (elements
  handed out by completed \<open>popAll\<close> calls) are ghost state.
\<close>

datatype 'a producer = PIdle | PTail "'a option" nat | PHead "'a option" nat nat | PStored "'a option" nat
datatype 'a consumer = CIdle | CHead nat | CMove nat nat "'a option list"

record 'a spsc_sys =
  ring :: "'a spsc"
  prod :: "'a producer"
  cons :: "'a consumer"
  pushed :: "'a option list"
  taken :: "'a option list"

definition spsc_sys_init :: "'a spsc \<Rightarrow> 'a spsc_sys" where
  "spsc_sys_init q = \<lparr>ring = q, prod = PIdle, cons = CIdle, pushed = [], taken = []\<rparr>"

inductive spsc_step :: "'a spsc_sys \<Rightarrow> 'a spsc_sys \<Rightarrow> bool" where
  push_load_tail: "prod s = PIdle \<Longrightarrow> spsc_step s (s\<lparr>prod := PTail item (tail (ring s))\<rparr>)"
| push_load_head: "prod s = PTail item t \<Longrightarrow> spsc_step s (s\<lparr>prod := PHead item t (head (ring s))\<rparr>)"
| push_full: "prod s = PHead item t h \<Longrightarrow> next_index (ring s) t = h \<Longrightarrow> spsc_step s (s\<lparr>prod := PIdle\<rparr>)"
| push_store: "prod s = PHead item t h \<Longrightarrow> next_index (ring s) t \<noteq> h \<Longrightarrow>
    spsc_step s (s\<lparr>ring := (ring s)\<lparr>sbuf := (sbuf (ring s))[t := item]\<rparr>, prod := PStored item t\<rparr>)"
| push_publish: "prod s = PStored item t \<Longrightarrow>
    spsc_step s (s\<lparr>ring := (ring s)\<lparr>tail := next_index (ring s) t\<rparr>, prod := PIdle, pushed := pushed s @ [item]\<rparr>)"
| pop_load_head: "cons s = CIdle \<Longrightarrow> spsc_step s (s\<lparr>cons := CHead (head (ring s))\<rparr>)"
| pop_load_tail: "cons s = CHead h \<Longrightarrow> spsc_step s (s\<lparr>cons := CMove h (tail (ring s)) []\<rparr>)"
| pop_move: "cons s = CMove h t out \<Longrightarrow> h \<noteq> t \<Longrightarrow>
    spsc_step s (s\<lparr>ring := (ring s)\<lparr>sbuf := (sbuf (ring s))[h := None]\<rparr>,
                   cons := CMove (next_index (ring s) h) t (out @ [sbuf (ring s) ! h])\<rparr>)"
| pop_publish: "cons s = CMove h t out \<Longrightarrow> h = t \<Longrightarrow>
    spsc_step s (s\<lparr>ring := (ring s)\<lparr>head := h\<rparr>, cons := CIdle, taken := taken s @ out\<rparr>)"

inductive_cases spsc_stepE: "spsc_step s s'"

definition spsc_reachable :: "'a spsc \<Rightarrow> 'a spsc_sys \<Rightarrow> bool" where
  "spsc_reachable q = spsc_step\<^sup>*\<^sup>* (spsc_sys_init q)"

text \<open>What a \<open>popAll\<close> in progress has moved out.\<close>

fun moving :: "'a consumer \<Rightarrow> 'a option list" where
  "moving (CMove h t out) = out"
| "moving _ = []"

text \<open>
  The invariant, by positions: \<open>H\<close> elements taken, \<open>C\<close> moved out so far, \<open>T\<close> pushed. A thread's locals
  are remainders of positions that were current when it loaded them.
\<close>

fun prod_ok :: "nat \<Rightarrow> nat \<Rightarrow> nat \<Rightarrow> 'a option list \<Rightarrow> 'a producer \<Rightarrow> bool" where
  "prod_ok N H T buf PIdle = True"
| "prod_ok N H T buf (PTail item t) = (t = T mod N)"
| "prod_ok N H T buf (PHead item t h) = (t = T mod N \<and> (\<exists>H' \<le> H. h = H' mod N \<and> T - H' < N))"
| "prod_ok N H T buf (PStored item t) = (t = T mod N \<and> Suc (T - H) < N \<and> buf ! t = item)"

fun cons_ok :: "nat \<Rightarrow> nat \<Rightarrow> nat \<Rightarrow> nat \<Rightarrow> 'a consumer \<Rightarrow> bool" where
  "cons_ok N H C T CIdle = True"
| "cons_ok N H C T (CHead h) = (h = H mod N)"
| "cons_ok N H C T (CMove h t out) = (h = C mod N \<and> (\<exists>T' \<ge> C. T' \<le> T \<and> t = T' mod N))"

definition spsc_inv :: "nat \<Rightarrow> 'a spsc_sys \<Rightarrow> bool" where
  "spsc_inv N s \<longleftrightarrow> (let H = length (taken s); C = H + length (moving (cons s)); T = length (pushed s) in
     ring_ok N H T (ring s) \<and> C \<le> T \<and> taken s @ moving (cons s) = take C (pushed s)
     \<and> ring_view N C T (sbuf (ring s)) = drop C (pushed s)
     \<and> prod_ok N H T (sbuf (ring s)) (prod s) \<and> cons_ok N H C T (cons s))"

lemma ring_ok_update: "ring_ok N H T q \<Longrightarrow> ring_ok N H T (q\<lparr>sbuf := (sbuf q)[i := x]\<rparr>)"
  by (simp add: ring_ok_def)

lemma ring_view_other:
  assumes "\<And>j. H \<le> j \<Longrightarrow> j < T \<Longrightarrow> j mod N \<noteq> i"
  shows "ring_view N H T (buf[i := x]) = ring_view N H T buf"
proof -
  have "buf[i := x] ! (j mod N) = buf ! (j mod N)" if "H \<le> j" "j < T" for j
    using assms [OF that] by simp
  then show ?thesis by (simp add: ring_view_def)
qed

lemma ring_view_nth:
  "ring_view N C T buf = drop C xs \<Longrightarrow> C < T \<Longrightarrow> T = length xs \<Longrightarrow>
   buf ! (C mod N) = xs ! C \<and> ring_view N (Suc C) T buf = drop (Suc C) xs"
  by (simp add: ring_view_def upt_conv_Cons Cons_nth_drop_Suc [symmetric])

lemma spsc_invI:
  assumes "length (taken s) = H" "H + length (moving (cons s)) = C" "length (pushed s) = T"
    "ring_ok N H T (ring s)" "C \<le> T" "taken s @ moving (cons s) = take C (pushed s)"
    "ring_view N C T (sbuf (ring s)) = drop C (pushed s)"
    "prod_ok N H T (sbuf (ring s)) (prod s)" "cons_ok N H C T (cons s)"
  shows "spsc_inv N s"
  using assms by (auto simp: spsc_inv_def Let_def)

lemma spsc_inv_init: "ring_ok N 0 0 q \<Longrightarrow> spsc_inv N (spsc_sys_init q)"
  by (simp add: spsc_inv_def spsc_sys_init_def ring_view_def Let_def)

text \<open>The invariant with its counters: \<open>H\<close> items taken, \<open>C\<close> taken or moved, \<open>T\<close> pushed.\<close>

definition spsc_at :: "nat \<Rightarrow> nat \<Rightarrow> nat \<Rightarrow> nat \<Rightarrow> 'a spsc_sys \<Rightarrow> bool" where
  "spsc_at N H C T s \<longleftrightarrow> spsc_inv N s \<and> H = length (taken s) \<and> C = H + length (moving (cons s)) \<and> T = length (pushed s)"

lemma spsc_atD:
  assumes "spsc_at N H C T s"
  shows "ring_ok N H T (ring s)" "C \<le> T" "taken s @ moving (cons s) = take C (pushed s)"
    "ring_view N C T (sbuf (ring s)) = drop C (pushed s)" "prod_ok N H T (sbuf (ring s)) (prod s)" "cons_ok N H C T (cons s)"
    "length (taken s) = H" "H + length (moving (cons s)) = C" "length (pushed s) = T" "H \<le> C"
  using assms by (simp_all add: spsc_at_def spsc_inv_def Let_def)

lemma ring_okD:
  assumes "ring_ok N H T q"
  shows "head q = H mod N" "tail q = T mod N" "H \<le> T" "T - H < N" "0 < N" "length (sbuf q) = N"
  using assms by (auto simp: ring_ok_def)

lemma push_store_inv:
  assumes at: "spsc_at N H C T s" and pc: "prod s = PHead item t h" and room: "next_index (ring s) t \<noteq> h"
  shows "spsc_inv N (s\<lparr>ring := (ring s)\<lparr>sbuf := (sbuf (ring s))[t := item]\<rparr>, prod := PStored item t\<rparr>)"
proof -
  note i = spsc_atD [OF at] and r = ring_okD [OF spsc_atD(1) [OF at]]
  obtain H' where h: "t = T mod N" "H' \<le> H" "h = H' mod N" "T - H' < N" using i(5) pc by auto
  have "Suc T mod N \<noteq> H' mod N" using room h next_index_pos [OF i(1)] by simp
  then have "Suc (T - H') \<noteq> N"
  proof (rule contrapos_nn)
    assume "Suc (T - H') = N"
    then have "Suc T = H' + N" using h(2) r(3) by linarith
    then show "Suc T mod N = H' mod N" by simp
  qed
  then have room: "Suc (T - H) < N" using h by linarith
  have "j mod N \<noteq> t" if "C \<le> j" "j < T" for j
    unfolding h(1) using that r i(10) by (intro mod_ne) linarith+
  then have v: "ring_view N C T ((sbuf (ring s))[t := item]) = drop C (pushed s)"
    using i(4) by (simp add: ring_view_other)
  have "t < length (sbuf (ring s))" using h r by simp
  then show ?thesis using i r h room ring_ok_update [OF i(1)] v by (intro spsc_invI [of _ H C T]) simp_all
qed

lemma push_publish_inv:
  assumes at: "spsc_at N H C T s" and pc: "prod s = PStored item t"
  shows "spsc_inv N (s\<lparr>ring := (ring s)\<lparr>tail := next_index (ring s) t\<rparr>, prod := PIdle, pushed := pushed s @ [item]\<rparr>)"
proof -
  note i = spsc_atD [OF at] and r = ring_okD [OF spsc_atD(1) [OF at]]
  have t: "t = T mod N" "Suc (T - H) < N" "sbuf (ring s) ! t = item" using i(5) pc by auto
  have v: "ring_view N C (Suc T) (sbuf (ring s)) = drop C (pushed s) @ [item]"
    using t i(2,4) by (simp add: ring_view_def)
  have k: "ring_ok N H (Suc T) ((ring s)\<lparr>tail := Suc T mod N\<rparr>)" using i(1) t r by (simp add: ring_ok_def)
  have c: "cons_ok N H C (Suc T) (cons s)" using i(6) by (cases "cons s") auto
  show ?thesis by (rule spsc_invI [of _ H C "Suc T"]) (use i v k c t next_index_pos [OF i(1)] in simp_all)
qed

lemma pop_move_inv:
  assumes at: "spsc_at N H C T s" and pc: "cons s = CMove h t out" and more: "h \<noteq> t"
  shows "spsc_inv N (s\<lparr>ring := (ring s)\<lparr>sbuf := (sbuf (ring s))[h := None]\<rparr>,
     cons := CMove (next_index (ring s) h) t (out @ [sbuf (ring s) ! h])\<rparr>)"
proof -
  note i = spsc_atD [OF at] and r = ring_okD [OF spsc_atD(1) [OF at]]
  obtain T' where T': "h = C mod N" "C \<le> T'" "T' \<le> T" "t = T' mod N" using i(6) pc by auto
  then have CT': "C < T'" using more by (metis le_neq_implies_less)
  then have CT: "C < T" using T' by simp
  note v = ring_view_nth [OF i(4) CT i(9) [symmetric]]
  have "j mod N \<noteq> h" if "Suc C \<le> j" "j < T" for j
    unfolding T'(1) using that r i(10) by (intro mod_ne [THEN not_sym]) linarith+
  then have w: "ring_view N (Suc C) T ((sbuf (ring s))[h := None]) = drop (Suc C) (pushed s)"
    using v by (simp add: ring_view_other)
  have p: "prod_ok N H T ((sbuf (ring s))[h := None]) (prod s)"
  proof (cases "prod s")
    case (PStored item t')
    have "C mod N \<noteq> T mod N" using CT i(10) r by (intro mod_ne) linarith+
    then show ?thesis using PStored i(5) T'(1) by auto
  qed (use i(5) in auto)
  have f: "taken s @ out @ [pushed s ! C] = take (Suc C) (pushed s)"
    using i(3,9) CT pc by (simp add: take_Suc_conv_app_nth)
  have o: "cons_ok N H (Suc C) T (CMove (Suc C mod N) t (out @ [pushed s ! C]))"
    using T' CT' by (auto intro!: exI [of _ T'])
  show ?thesis
    by (rule spsc_invI [of _ H "Suc C" T])
      (use pc i T'(1) v w p f o CT next_index_pos [OF i(1)] ring_ok_update [OF i(1), of h None] in simp_all)
qed

lemma pop_publish_inv:
  assumes at: "spsc_at N H C T s" and pc: "cons s = CMove h t out"
  shows "spsc_inv N (s\<lparr>ring := (ring s)\<lparr>head := h\<rparr>, cons := CIdle, taken := taken s @ out\<rparr>)"
proof -
  note i = spsc_atD [OF at] and r = ring_okD [OF spsc_atD(1) [OF at]]
  have h: "h = C mod N" using i(6) pc by auto
  have k: "ring_ok N C T ((ring s)\<lparr>head := h\<rparr>)" using i(1,2,10) h r by (auto simp: ring_ok_def)
  have p: "prod_ok N C T (sbuf (ring s)) (prod s)"
  proof (cases "prod s")
    case (PHead item t' h')
    with i(5,10) show ?thesis by (metis le_trans prod_ok.simps(3))
  next
    case (PStored item t')
    with i(5,10) show ?thesis by auto
  qed (use i(5) in auto)
  show ?thesis by (rule spsc_invI [of _ C C T]) (use pc k p i in simp_all)
qed

lemma spsc_inv_step:
  assumes "spsc_step s s'" and "spsc_inv N s" shows "spsc_inv N s'"
proof -
  obtain H C T where at: "spsc_at N H C T s" using assms(2) by (simp add: spsc_at_def)
  note i = spsc_atD [OF at] and r = ring_okD [OF spsc_atD(1) [OF at]]
  from assms(1) show ?thesis
  proof cases
    case (push_load_tail item)
    show ?thesis by (rule spsc_invI [of _ H C T]) (use push_load_tail i r in simp_all)
  next
    case (push_load_head item t)
    show ?thesis by (rule spsc_invI [of _ H C T]) (use push_load_head i r in auto)
  next
    case (push_full item t h)
    show ?thesis by (rule spsc_invI [of _ H C T]) (use push_full i r in simp_all)
  next
    case (push_store item t h)
    then show ?thesis using push_store_inv [OF at] by simp
  next
    case (push_publish item t)
    then show ?thesis using push_publish_inv [OF at] by simp
  next
    case pop_load_head
    show ?thesis by (rule spsc_invI [of _ H C T]) (use pop_load_head i r in simp_all)
  next
    case (pop_load_tail h)
    show ?thesis by (rule spsc_invI [of _ H C T]) (use pop_load_tail i r in auto)
  next
    case (pop_move h t out)
    then show ?thesis using pop_move_inv [OF at] by simp
  next
    case (pop_publish h t out)
    then show ?thesis using pop_publish_inv [OF at] by simp
  qed
qed

lemma spsc_reachable_inv:
  assumes "ring_ok N 0 0 q" and "spsc_reachable q s" shows "spsc_inv N s"
  using assms(2) unfolding spsc_reachable_def
  by (induction rule: rtranclp_induct) (auto intro: spsc_inv_init [OF assms(1)] spsc_inv_step)


lemma spsc_new_ring:
  assumes "0 < n" and "n \<le> 2 ^ 63" and "spsc_new n = Some q"
  obtains N where "ring_ok N 0 0 q" "n \<le> N"
proof -
  from nextPowerOfTwo_spec [OF assms(1,2)] obtain k where
    k: "nextPowerOfTwo n = Some (2 ^ k)" "n \<le> 2 ^ k" "k \<le> 63" .
  with assms(3) have "ring_ok (2 ^ k) 0 0 q" by (auto simp: spsc_new_def ring_ok_def)
  with that k show ?thesis by blast
qed

text \<open>A state with one element pushed.\<close>

definition spsc_one :: "'a spsc \<Rightarrow> 'a option \<Rightarrow> 'a spsc_sys" where
  "spsc_one q x = \<lparr>ring = q\<lparr>sbuf := (sbuf q)[tail q := x], tail := next_index q (tail q)\<rparr>,
     prod = PIdle, cons = CIdle, pushed = [x], taken = []\<rparr>"

lemma reach_one:
  assumes "ring_ok N 0 0 q" and "2 \<le> N" shows "spsc_reachable q (spsc_one q x)"
proof -
  let ?s0 = "spsc_sys_init q"
  let ?s1 = "?s0\<lparr>prod := PTail x (tail q)\<rparr>"
  let ?s2 = "?s1\<lparr>prod := PHead x (tail q) (head q)\<rparr>"
  let ?s3 = "?s2\<lparr>ring := q\<lparr>sbuf := (sbuf q)[tail q := x]\<rparr>, prod := PStored x (tail q)\<rparr>"
  have "spsc_step ?s0 ?s1" using spsc_step.push_load_tail [of ?s0] by (simp add: spsc_sys_init_def)
  moreover have "spsc_step ?s1 ?s2" using spsc_step.push_load_head [of ?s1] by (simp add: spsc_sys_init_def)
  moreover have "next_index q (tail q) \<noteq> head q"
    using next_index_pos [OF assms(1), of 0] assms by (simp add: ring_ok_def)
  then have "spsc_step ?s2 ?s3" using spsc_step.push_store [of ?s2] by (simp add: spsc_sys_init_def)
  moreover have "spsc_step ?s3 (spsc_one q x)"
    using spsc_step.push_publish [of ?s3 x "tail q"] by (simp add: spsc_sys_init_def spsc_one_def next_index_def)
  ultimately show ?thesis unfolding spsc_reachable_def
    by (meson rtranclp.rtrancl_into_rtrancl rtranclp.rtrancl_refl)
qed

section \<open>Properties\<close>

text \<open>C7. The ring is a first-in first-out channel between two threads: in every state that one producer
  and one consumer can reach by interleaving their memory accesses, what the consumer has received is
  a prefix of what the producer has successfully pushed, in the same order, with nothing lost or
  duplicated and fewer elements outstanding than the buffer holds; when both are idle the outstanding
  elements are exactly the queued ones.\<close>

theorem spsc_concurrent_fifo:
  assumes "0 < n" and "n \<le> 2 ^ 63" and "spsc_new n = Some q" and "spsc_reachable q s"
  shows "\<exists>rest. pushed s = taken s @ moving (cons s) @ rest \<and> length rest < length (sbuf (ring s))
    \<and> (prod s = PIdle \<and> cons s = CIdle \<longrightarrow> queued (ring s) = rest)"
proof -
  obtain N where r: "ring_ok N 0 0 q" using spsc_new_ring [OF assms(1-3)] .
  let ?C = "length (taken s) + length (moving (cons s))" and ?T = "length (pushed s)"
  have i: "ring_ok N (length (taken s)) ?T (ring s)" "taken s @ moving (cons s) = take ?C (pushed s)"
    "ring_view N ?C ?T (sbuf (ring s)) = drop ?C (pushed s)"
    using spsc_reachable_inv [OF r assms(4)] by (simp_all add: spsc_inv_def Let_def)
  have "pushed s = (taken s @ moving (cons s)) @ drop ?C (pushed s)" unfolding i(2) by simp
  moreover have "length (drop ?C (pushed s)) < length (sbuf (ring s))" using i(1) by (auto simp: ring_ok_def)
  moreover have "queued (ring s) = drop ?C (pushed s)" if "cons s = CIdle"
    using queued_view [OF i(1)] i(3) that by simp
  ultimately show ?thesis by (intro exI [of _ "drop ?C (pushed s)"]) simp
qed

theorem spsc_concurrent_fifo_witness:
  "\<exists>q s. spsc_new 4 = Some q \<and> spsc_reachable q s \<and> pushed s = [Some (7::nat)] \<and>
     (\<exists>rest. pushed s = taken s @ moving (cons s) @ rest \<and> length rest < length (sbuf (ring s))
       \<and> (prod s = PIdle \<and> cons s = CIdle \<longrightarrow> queued (ring s) = rest))"
proof -
  obtain q :: "nat spsc" where q: "spsc_new 4 = Some q" using spsc_new_wf [of 4] by auto
  obtain N where N: "ring_ok N 0 0 q" "4 \<le> N" using spsc_new_ring [OF _ _ q] by auto
  then have r: "spsc_reachable q (spsc_one q (Some 7))" by (intro reach_one [OF N(1)]) simp
  moreover have "pushed (spsc_one q (Some 7)) = [Some 7]" by (simp add: spsc_one_def)
  ultimately show ?thesis using q spsc_concurrent_fifo [OF _ _ q r] by auto
qed

text \<open>The two threads never touch the same element at the same time: when the producer is about to store
  an element while the consumer is about to move one out, the indices are within the buffer and differ.\<close>

theorem spsc_race_free:
  assumes "0 < n" and "n \<le> 2 ^ 63" and "spsc_new n = Some q" and "spsc_reachable q s"
    and "prod s = PHead item t h" and "next_index (ring s) t \<noteq> h"
    and "cons s = CMove h' t' out" and "h' \<noteq> t'"
  shows "t < length (sbuf (ring s)) \<and> h' < length (sbuf (ring s)) \<and> t \<noteq> h'"
proof -
  obtain N where r: "ring_ok N 0 0 q" using spsc_new_ring [OF assms(1-3)] .
  let ?H = "length (taken s)" and ?T = "length (pushed s)"
  let ?C = "?H + length out"
  have i: "ring_ok N ?H ?T (ring s)" "?C \<le> ?T" "prod_ok N ?H ?T (sbuf (ring s)) (prod s)" "cons_ok N ?H ?C ?T (cons s)"
    using spsc_reachable_inv [OF r assms(4)] assms(7) by (simp_all add: spsc_inv_def Let_def)
  have N: "length (sbuf (ring s)) = N" "?T - ?H < N" "0 < N" using i(1) by (auto simp: ring_ok_def)
  have t: "t = ?T mod N" using i(3) assms(5) by simp
  obtain T' where c: "h' = ?C mod N" "?C \<le> T'" "T' \<le> ?T" "t' = T' mod N" using i(4) assms(7) by auto
  have "?C < ?T" using c assms(8) by (metis le_neq_implies_less le_trans order.strict_trans1)
  then have "?C mod N \<noteq> ?T mod N" using N by (intro mod_ne) linarith+
  with t c N show ?thesis by simp
qed

theorem spsc_race_free_witness:
  "\<exists>q s t h h' t' out. spsc_new 4 = Some q \<and> spsc_reachable q s \<and> prod s = PHead (Some (8::nat)) t h
     \<and> cons s = CMove h' t' out \<and> t < length (sbuf (ring s)) \<and> h' < length (sbuf (ring s)) \<and> t \<noteq> h'"
proof -
  obtain q :: "nat spsc" where q: "spsc_new 4 = Some q" using spsc_new_wf [of 4] by auto
  obtain N where N: "ring_ok N 0 0 q" "4 \<le> N" using spsc_new_ring [OF _ _ q] by auto
  let ?s1 = "spsc_one q (Some 7)" and ?t = "tail (ring (spsc_one q (Some 7)))"
  let ?s2 = "?s1\<lparr>prod := PTail (Some 8) ?t\<rparr>"
  let ?s3 = "?s2\<lparr>prod := PHead (Some 8) ?t (head q)\<rparr>"
  let ?s4 = "?s3\<lparr>cons := CHead (head q)\<rparr>"
  let ?s5 = "?s4\<lparr>cons := CMove (head q) ?t []\<rparr>"
  have n: "next_index q (i mod N) = Suc i mod N" for i by (rule next_index_pos [OF N(1)])
  have i: "tail q = 0" "head q = 0" "?t = 1" "next_index q 1 = 2 mod N"
    using N n [of 0] n [of 1] by (simp_all add: ring_ok_def spsc_one_def numeral_2_eq_2)
  have "spsc_reachable q ?s1" using N by (intro reach_one [OF N(1)]) simp
  moreover have "spsc_step ?s1 ?s2" using spsc_step.push_load_tail [of ?s1] by (simp add: spsc_one_def)
  moreover have "spsc_step ?s2 ?s3" using spsc_step.push_load_head [of ?s2] by (simp add: spsc_one_def)
  moreover have "spsc_step ?s3 ?s4" using spsc_step.pop_load_head [of ?s3] by (simp add: spsc_one_def)
  moreover have "spsc_step ?s4 ?s5" using spsc_step.pop_load_tail [of ?s4] by (simp add: spsc_one_def)
  ultimately have r: "spsc_reachable q ?s5" unfolding spsc_reachable_def
    by (meson rtranclp.rtrancl_into_rtrancl)
  have p: "prod ?s5 = PHead (Some 8) 1 0" "cons ?s5 = CMove 0 1 []" using i by simp_all
  moreover have "next_index (ring ?s5) 1 \<noteq> 0"
    using i N by (simp add: spsc_one_def next_index_def)
  ultimately show ?thesis using spsc_race_free [OF _ _ q r p(1) _ p(2)] q r by auto
qed

end
