(* ===== verification/EventLoop.thy ===== *)
theory EventLoop
  imports SpscQueue TimerWheel
begin

text \<open>
  The event loop (\<open>include/xnetty/event/event_loop.h\<close>, \<open>src/event/event_loop.cpp\<close>): the task queue with
  its overflow list and wakeup pipe, the timer catch-up, and one turn of \<open>loop()\<close>.

  A functor is a value of an arbitrary type \<open>'f\<close>, \<open>None\<close> when empty or moved from. What running one does
  to the loop is the parameter \<open>run\<close>: the functors it passes to \<open>queueInLoop\<close>, in order, and the
  exception it ends with, if any. Threads are numbers and every call that depends on
  \<open>std::this_thread\<close> takes the caller's. Time is in nanoseconds. The wakeup pipe is the number of
  8-byte tokens in it; the results of \<open>poll\<close> are inputs. \<open>onTimerTick\<close> acts on the state of a derived
  loop: \<open>advanceTimer\<close> reports how often it is called.
\<close>

section \<open>State and operations\<close>

record 'f evloop =
  lfBuffer :: "'f spsc"
  pendingFunctors :: "'f option list"
  wakeupSent :: bool
  callingPendingFunctors :: bool
  quitFlag :: bool
  threadId :: nat
  wakeupTokens :: nat
  timerSlots :: nat
  timerTickMs :: nat
  timerWheel :: "'f wheel"
  lastTimerTick :: int
  maxEventsPerPoll :: int

definition evloop_new :: "nat \<Rightarrow> int \<Rightarrow> 'f evloop res" where
  "evloop_new self now =
     (case spsc_new 65536 of
        None \<Rightarrow> Inl Diverges
      | Some q \<Rightarrow> Inr \<lparr>lfBuffer = q, pendingFunctors = [], wakeupSent = False,
          callingPendingFunctors = False, quitFlag = False, threadId = self, wakeupTokens = 0,
          timerSlots = 256, timerTickMs = 1000, timerWheel = wheel_new 256 1000,
          lastTimerTick = now, maxEventsPerPoll = 1024\<rparr>)"

definition isInLoopThread :: "nat \<Rightarrow> 'f evloop \<Rightarrow> bool" where
  "isInLoopThread self el \<longleftrightarrow> threadId el = self"

definition wakeup :: "'f evloop \<Rightarrow> 'f evloop" where
  "wakeup el = el\<lparr>wakeupTokens := Suc (wakeupTokens el)\<rparr>"

definition handleWakeup :: "'f evloop \<Rightarrow> 'f evloop" where
  "handleWakeup el = el\<lparr>wakeupTokens := wakeupTokens el - 1\<rparr>"

definition stop :: "'f evloop \<Rightarrow> 'f evloop" where
  "stop el = wakeup (el\<lparr>quitFlag := True\<rparr>)"

definition signal :: "nat \<Rightarrow> 'f evloop \<Rightarrow> 'f evloop" where
  "signal self el =
     (if \<not> isInLoopThread self el \<or> callingPendingFunctors el
      then if wakeupSent el then el else wakeup (el\<lparr>wakeupSent := True\<rparr>)
      else el)"

text \<open>
  \<open>queueInLoop\<close> moves \<open>cb\<close> into the by-value parameter of \<open>push\<close>; when the ring is full, what it then
  appends to the overflow list is the moved-from, empty functor.
\<close>

definition queueInLoop :: "nat \<Rightarrow> 'f option \<Rightarrow> 'f evloop \<Rightarrow> 'f evloop res" where
  "queueInLoop self cb el =
     rbind (spsc_push cb (lfBuffer el)) (\<lambda>(q, ok).
     let el = el\<lparr>lfBuffer := q\<rparr>;
         el = (if ok then el else el\<lparr>pendingFunctors := pendingFunctors el @ [None]\<rparr>)
     in Inr (signal self el))"

fun queue_each :: "nat \<Rightarrow> 'f option list \<Rightarrow> 'f evloop \<Rightarrow> 'f evloop res" where
  "queue_each self [] el = Inr el"
| "queue_each self (c # cs) el = rbind (queueInLoop self c el) (queue_each self cs)"

type_synonym 'f effects = "'f \<Rightarrow> 'f option list \<times> fault option"

text \<open>Calling a functor: the calls it makes, then its exception; an empty one throws.\<close>

definition call :: "'f effects \<Rightarrow> nat \<Rightarrow> 'f option \<Rightarrow> 'f evloop \<Rightarrow> 'f evloop \<times> fault option" where
  "call run self cb el =
     (case cb of
        None \<Rightarrow> (el, Some BadFunctionCall)
      | Some f \<Rightarrow>
          (case queue_each self (fst (run f)) el of
             Inl e \<Rightarrow> (el, Some e)
           | Inr el' \<Rightarrow> (el', snd (run f))))"

definition runInLoop :: "'f effects \<Rightarrow> nat \<Rightarrow> 'f option \<Rightarrow> 'f evloop \<Rightarrow> 'f evloop \<times> fault option" where
  "runInLoop run self cb el =
     (if isInLoopThread self el then call run self cb el
      else case queueInLoop self cb el of Inl e \<Rightarrow> (el, Some e) | Inr el' \<Rightarrow> (el', None))"

text \<open>Runs functors in order; the second component lists those that were started.\<close>

fun call_all :: "'f effects \<Rightarrow> nat \<Rightarrow> 'f option list \<Rightarrow> 'f evloop \<Rightarrow> 'f evloop \<times> 'f option list \<times> fault option" where
  "call_all run self [] el = (el, [], None)"
| "call_all run self (f # fs) el =
     (case call run self f el of
        (el', Some e) \<Rightarrow> (el', [f], Some e)
      | (el', None) \<Rightarrow> (case call_all run self fs el' of (el'', done, ex) \<Rightarrow> (el'', f # done, ex)))"

definition doPendingFunctors ::
  "'f effects \<Rightarrow> nat \<Rightarrow> 'f evloop \<Rightarrow> 'f evloop \<times> 'f option list \<times> fault option" where
  "doPendingFunctors run self el =
     (let el = el\<lparr>wakeupSent := False\<rparr> in
      case spsc_popAll (lfBuffer el) of
        Inl e \<Rightarrow> (el, [], Some e)
      | Inr (q, functors) \<Rightarrow>
          let functors = functors @ pendingFunctors el;
              el = el\<lparr>lfBuffer := q, pendingFunctors := [], callingPendingFunctors := True\<rparr> in
          (case call_all run self functors el of
             (el, done, Some e) \<Rightarrow> (el, done, Some e)
           | (el, done, None) \<Rightarrow> (el\<lparr>callingPendingFunctors := False\<rparr>, done, None)))"

subsection \<open>Timers\<close>

definition runAfter :: "nat \<Rightarrow> 'f option \<Rightarrow> 'f evloop \<Rightarrow> ('f evloop \<times> nat) res" where
  "runAfter delayMs cb el =
     rbind (addTimer delayMs cb (timerWheel el)) (\<lambda>(w, i). Inr (el\<lparr>timerWheel := w\<rparr>, i))"

definition loop_cancelTimer :: "nat \<Rightarrow> 'f evloop \<Rightarrow> 'f evloop" where
  "loop_cancelTimer timerId el = el\<lparr>timerWheel := cancelTimer timerId (timerWheel el)\<rparr>"

text \<open>The elapsed time in whole milliseconds decides how many ticks are due.\<close>

definition catch_up :: "int \<Rightarrow> 'f evloop \<Rightarrow> nat" where
  "catch_up now el =
     (let elapsed = (now - lastTimerTick el) div 1000000; ms = int (tickMs (timerWheel el)) in
      if elapsed \<ge> ms then nat (elapsed div ms) else 0)"

definition advanceTimer ::
  "('f \<Rightarrow> 'f timer_op list) \<Rightarrow> int \<Rightarrow> 'f evloop \<Rightarrow> ('f evloop \<times> 'f timer_entry list list) res" where
  "advanceTimer trun now el =
     (if tickMs (timerWheel el) = 0 \<and> now \<ge> lastTimerTick el then Inl UndefinedBehaviour
      else
        let n = catch_up now el; ms = int (tickMs (timerWheel el)) in
        rbind (run_ticks (tick trun) n (timerWheel el)) (\<lambda>(w, fired).
        Inr (el\<lparr>timerWheel := w, lastTimerTick := lastTimerTick el + int n * ms * 1000000\<rparr>, fired)))"

subsection \<open>Configuration\<close>

definition setEventQueueSize :: "nat \<Rightarrow> 'f evloop \<Rightarrow> 'f evloop res" where
  "setEventQueueSize n el =
     (case spsc_new (if n < 64 then 64 else n) of
        None \<Rightarrow> Inl Diverges
      | Some q \<Rightarrow> Inr (el\<lparr>lfBuffer := q\<rparr>))"

definition setTimerSlots :: "nat \<Rightarrow> 'f evloop \<Rightarrow> 'f evloop" where
  "setTimerSlots n el = el\<lparr>timerSlots := n, timerWheel := wheel_new n (timerTickMs el)\<rparr>"

definition setTimerTickMs :: "nat \<Rightarrow> 'f evloop \<Rightarrow> 'f evloop" where
  "setTimerTickMs ms el = el\<lparr>timerTickMs := ms, timerWheel := wheel_new (timerSlots el) ms\<rparr>"

definition setMaxEventsPerPoll :: "int \<Rightarrow> 'f evloop \<Rightarrow> 'f evloop" where
  "setMaxEventsPerPoll n el = el\<lparr>maxEventsPerPoll := (if n > 0 then n else 1024)\<rparr>"

subsection \<open>The loop\<close>

text \<open>
  One entry of the array \<open>poll\<close> fills: a null pointer, the wakeup channel or another channel, whose
  \<open>handleEvent\<close> is the parameter \<open>handle\<close>.
\<close>

datatype 'c ready = NullReady | WakeupReady | ChannelReady 'c

fun dispatch :: "('c \<Rightarrow> 'f evloop \<Rightarrow> 'f evloop \<times> fault option) \<Rightarrow> 'c ready list \<Rightarrow> 'f evloop \<Rightarrow>
    'f evloop \<times> fault option" where
  "dispatch handle [] el = (el, None)"
| "dispatch handle (NullReady # es) el = dispatch handle es el"
| "dispatch handle (WakeupReady # es) el = dispatch handle es (handleWakeup el)"
| "dispatch handle (ChannelReady c # es) el =
     (case handle c el of
        (el', Some e) \<Rightarrow> (el', Some e)
      | (el', None) \<Rightarrow> dispatch handle es el')"

record 'c turn =
  polled :: "'c ready list option"   \<comment> \<open>\<open>None\<close>: \<open>poll\<close> failed\<close>
  clock :: int

text \<open>One turn: \<open>None\<close> when the loop is left, otherwise the state, the functors run and what was caught.\<close>

definition loop_turn :: "('c \<Rightarrow> 'f evloop \<Rightarrow> 'f evloop \<times> fault option) \<Rightarrow> 'f effects \<Rightarrow>
    ('f \<Rightarrow> 'f timer_op list) \<Rightarrow> nat \<Rightarrow> 'c turn \<Rightarrow> 'f evloop \<Rightarrow>
    ('f evloop \<times> 'f option list \<times> fault option) option" where
  "loop_turn handle run trun self t el =
     (if quitFlag el then None
      else case polled t of
        None \<Rightarrow> None
      | Some evs \<Rightarrow>
          (case dispatch handle evs el of
             (el, Some e) \<Rightarrow> Some (el, [], Some e)
           | (el, None) \<Rightarrow>
               (case advanceTimer trun (clock t) el of
                  Inl e \<Rightarrow> Some (el, [], Some e)
                | Inr (el, fired) \<Rightarrow> Some (doPendingFunctors run self el))))"

fun loop :: "('c \<Rightarrow> 'f evloop \<Rightarrow> 'f evloop \<times> fault option) \<Rightarrow> 'f effects \<Rightarrow>
    ('f \<Rightarrow> 'f timer_op list) \<Rightarrow> nat \<Rightarrow> 'c turn list \<Rightarrow> 'f evloop \<Rightarrow> 'f evloop \<times> 'f option list" where
  "loop handle run trun self [] el = (el, [])"
| "loop handle run trun self (t # ts) el =
     (case loop_turn handle run trun self t el of
        None \<Rightarrow> (el, [])
      | Some (el', done, ex) \<Rightarrow>
          (case loop handle run trun self ts el' of (el'', done') \<Rightarrow> (el'', done @ done')))"

section \<open>Tasks\<close>

text \<open>What an accepted \<open>queueInLoop\<close> does, and what it does when the ring is full.\<close>

lemma signal_frame [simp]:
  "lfBuffer (signal self el) = lfBuffer el" "pendingFunctors (signal self el) = pendingFunctors el"
  "callingPendingFunctors (signal self el) = callingPendingFunctors el"
  by (simp_all add: signal_def wakeup_def)

lemma queueInLoop_room:
  assumes "wf_spsc (lfBuffer el)" and "0 < room (lfBuffer el)"
  obtains el' where "queueInLoop self c el = Inr el'" "wf_spsc (lfBuffer el')"
    "queued (lfBuffer el') = queued (lfBuffer el) @ [c]" "Suc (room (lfBuffer el')) = room (lfBuffer el)"
    "pendingFunctors el' = pendingFunctors el" "callingPendingFunctors el' = callingPendingFunctors el"
  using ring.push_room [OF assms, of c] that by (force simp: queueInLoop_def)

lemma queueInLoop_full:
  assumes "wf_spsc (lfBuffer el)" and "room (lfBuffer el) = 0"
  obtains el' where "queueInLoop self c el = Inr el'" "lfBuffer el' = lfBuffer el"
    "pendingFunctors el' = pendingFunctors el @ [None]" "callingPendingFunctors el' = callingPendingFunctors el"
  using ring.push_full [OF assms, of c] that by (force simp: queueInLoop_def)

lemma queue_each_room:
  assumes "wf_spsc (lfBuffer el)" and "length cs \<le> room (lfBuffer el)"
  shows "\<exists>el'. queue_each self cs el = Inr el' \<and> wf_spsc (lfBuffer el')
    \<and> queued (lfBuffer el') = queued (lfBuffer el) @ cs \<and> room (lfBuffer el') + length cs = room (lfBuffer el)
    \<and> pendingFunctors el' = pendingFunctors el \<and> callingPendingFunctors el' = callingPendingFunctors el"
  using assms
proof (induction cs arbitrary: el)
  case (Cons c cs)
  obtain e1 where e1: "queueInLoop self c el = Inr e1" "wf_spsc (lfBuffer e1)"
    "queued (lfBuffer e1) = queued (lfBuffer el) @ [c]" "Suc (room (lfBuffer e1)) = room (lfBuffer el)"
    "pendingFunctors e1 = pendingFunctors el" "callingPendingFunctors e1 = callingPendingFunctors el"
    using queueInLoop_room [OF Cons.prems(1)] Cons.prems(2) by (metis length_Cons less_le_trans zero_less_Suc)
  with Cons.IH [of e1] Cons.prems show ?case by auto
qed simp

text \<open>Tasks that do not throw run in order, and what they queue is queued in order.\<close>

definition spawned :: "'f effects \<Rightarrow> 'f list \<Rightarrow> 'f option list" where
  "spawned run fs = concat (map (\<lambda>f. fst (run f)) fs)"

lemma call_all_prefix:
  assumes "wf_spsc (lfBuffer el)" and "\<forall>f \<in> set fs. snd (run f) = None"
    and "length (spawned run fs) \<le> room (lfBuffer el)"
  shows "\<exists>el'. call_all run self (map Some fs @ gs) el =
       (case call_all run self gs el' of (el'', done, ex) \<Rightarrow> (el'', map Some fs @ done, ex))
     \<and> wf_spsc (lfBuffer el') \<and> queued (lfBuffer el') = queued (lfBuffer el) @ spawned run fs
     \<and> pendingFunctors el' = pendingFunctors el \<and> callingPendingFunctors el' = callingPendingFunctors el"
  using assms
proof (induction fs arbitrary: el)
  case Nil
  then show ?case by (auto simp: spawned_def split: prod.splits)
next
  case (Cons f fs)
  from queue_each_room [OF Cons.prems(1), of "fst (run f)" self] Cons.prems(3) obtain e1 where
    e1: "queue_each self (fst (run f)) el = Inr e1" "wf_spsc (lfBuffer e1)"
      "queued (lfBuffer e1) = queued (lfBuffer el) @ fst (run f)"
      "room (lfBuffer e1) + length (fst (run f)) = room (lfBuffer el)"
      "pendingFunctors e1 = pendingFunctors el" "callingPendingFunctors e1 = callingPendingFunctors el"
    by (auto simp: spawned_def)
  have "length (spawned run fs) \<le> room (lfBuffer e1)" using e1(4) Cons.prems(3) by (simp add: spawned_def)
  with Cons.IH [OF e1(2)] Cons.prems(2) obtain e2 where e2: "call_all run self (map Some fs @ gs) e1 =
       (case call_all run self gs e2 of (el'', done, ex) \<Rightarrow> (el'', map Some fs @ done, ex))"
     "wf_spsc (lfBuffer e2)" "queued (lfBuffer e2) = queued (lfBuffer e1) @ spawned run fs"
     "pendingFunctors e2 = pendingFunctors e1" "callingPendingFunctors e2 = callingPendingFunctors e1" by auto
  have c: "call run self (Some f) el = (e1, None)" using e1(1) Cons.prems(2) by (simp add: call_def)
  show ?case
    by (rule exI [of _ e2]) (use c e1 e2 in \<open>auto simp: spawned_def split: prod.splits\<close>)
qed

lemma doPendingFunctors_prefix:
  assumes "wf_spsc (lfBuffer el)" and "queued (lfBuffer el) = map Some fs"
    and "\<forall>f \<in> set fs. snd (run f) = None"
    and "length (spawned run fs) \<le> room (lfBuffer el) + length fs"
  shows "\<exists>el'. wf_spsc (lfBuffer el') \<and> queued (lfBuffer el') = spawned run fs \<and> pendingFunctors el' = []
    \<and> callingPendingFunctors el'
    \<and> doPendingFunctors run self el =
       (case call_all run self (pendingFunctors el) el' of
          (e, done, Some x) \<Rightarrow> (e, map Some fs @ done, Some x)
        | (e, done, None) \<Rightarrow> (e\<lparr>callingPendingFunctors := False\<rparr>, map Some fs @ done, None))"
proof -
  from ring.popAll_all [OF assms(1)] obtain q where q: "spsc_popAll (lfBuffer el) = Inr (q, map Some fs)"
    "wf_spsc q" "queued q = []" "room q = room (lfBuffer el) + length fs" using assms(2) by auto
  define e0 where "e0 = el\<lparr>wakeupSent := False, lfBuffer := q, pendingFunctors := [], callingPendingFunctors := True\<rparr>"
  have "wf_spsc (lfBuffer e0)" "length (spawned run fs) \<le> room (lfBuffer e0)"
    using q assms(4) by (simp_all add: e0_def)
  from call_all_prefix [OF this(1) assms(3) this(2), of self "pendingFunctors el"] obtain e1 where e1:
    "call_all run self (map Some fs @ pendingFunctors el) e0 =
       (case call_all run self (pendingFunctors el) e1 of (el'', done, ex) \<Rightarrow> (el'', map Some fs @ done, ex))"
    "wf_spsc (lfBuffer e1)" "queued (lfBuffer e1) = spawned run fs"
    "pendingFunctors e1 = []" "callingPendingFunctors e1"
    using q by (auto simp: e0_def)
  have "doPendingFunctors run self el =
      (case call_all run self (map Some fs @ pendingFunctors el) e0 of
         (el, done, Some e) \<Rightarrow> (el, done, Some e)
       | (el, done, None) \<Rightarrow> (el\<lparr>callingPendingFunctors := False\<rparr>, done, None))"
    using q by (simp add: doPendingFunctors_def Let_def e0_def)
  also have "\<dots> = (case call_all run self (pendingFunctors el) e1 of
          (e, done, Some x) \<Rightarrow> (e, map Some fs @ done, Some x)
        | (e, done, None) \<Rightarrow> (e\<lparr>callingPendingFunctors := False\<rparr>, map Some fs @ done, None))"
    unfolding e1(1) by (simp split: prod.splits option.splits)
  finally show ?thesis using e1 by blast
qed

text \<open>C10. Tasks run in the order they were queued: while the overflow list is empty and no task throws,
  a turn of \<open>doPendingFunctors\<close> runs exactly the queued functors, in order, and leaves in the queue, in
  order, exactly the functors they queued themselves.\<close>

theorem tasks_run_in_order:
  assumes "wf_spsc (lfBuffer el)" and "queued (lfBuffer el) = map Some fs" and "pendingFunctors el = []"
    and "\<forall>f \<in> set fs. snd (run f) = None"
    and "length (spawned run fs) \<le> room (lfBuffer el) + length fs"
  shows "\<exists>el'. doPendingFunctors run self el = (el', map Some fs, None) \<and> wf_spsc (lfBuffer el')
    \<and> queued (lfBuffer el') = spawned run fs \<and> pendingFunctors el' = [] \<and> \<not> callingPendingFunctors el'"
proof -
  from doPendingFunctors_prefix [OF assms(1,2,4,5), of self] assms(3) obtain e1 where
    "wf_spsc (lfBuffer e1)" "queued (lfBuffer e1) = spawned run fs" "pendingFunctors e1 = []"
    "doPendingFunctors run self el = (e1\<lparr>callingPendingFunctors := False\<rparr>, map Some fs, None)" by auto
  then show ?thesis by (intro exI [of _ "e1\<lparr>callingPendingFunctors := False\<rparr>"]) simp
qed


lemma evloop_new_ok:
  obtains el where "evloop_new self now = Inr el" "wf_spsc (lfBuffer el)" "queued (lfBuffer el) = []"
    "65535 \<le> room (lfBuffer el)" "pendingFunctors el = []" "wheel_inv (timerWheel el)"
    "lastTimerTick el = now" "tickMs (timerWheel el) = 1000" "currentTick (timerWheel el) = 0"
proof -
  obtain q :: "'a spsc" where "spsc_new 65536 = Some q" "wf_spsc q" "queued q = []" "65536 - 1 \<le> room q"
    by (rule spsc_new_wf [of 65536]) simp_all
  moreover have "wheel_inv (wheel_new 256 1000 :: 'a wheel)"
    using wheel_new_wf [of 256 1000] by (simp add: wheel_inv_def on_time_def pending_def wheel_new_def)
  ultimately show ?thesis
    by (intro that [of "\<lparr>lfBuffer = q, pendingFunctors = [], wakeupSent = False,
          callingPendingFunctors = False, quitFlag = False, threadId = self, wakeupTokens = 0,
          timerSlots = 256, timerTickMs = 1000, timerWheel = wheel_new 256 1000,
          lastTimerTick = now, maxEventsPerPoll = 1024\<rparr>"])
      (simp_all add: evloop_new_def wheel_new_def)
qed

theorem tasks_run_in_order_witness:
  "\<exists>el0 el el'. evloop_new 1 0 = Inr el0 \<and> queueInLoop 2 (Some (5::nat)) el0 = Inr el
     \<and> doPendingFunctors (\<lambda>f. ([Some (f + 1)], None)) 1 el = (el', [Some 5], None)
     \<and> queued (lfBuffer el') = [Some 6]"
proof -
  obtain el0 :: "nat evloop" where el0: "evloop_new 1 0 = Inr el0" "wf_spsc (lfBuffer el0)"
    "queued (lfBuffer el0) = []" "65535 \<le> room (lfBuffer el0)" "pendingFunctors el0 = []"
    by (rule evloop_new_ok)
  then have "0 < room (lfBuffer el0)" by simp
  from queueInLoop_room [OF el0(2) this] obtain el where el: "queueInLoop 2 (Some 5) el0 = Inr el"
    "wf_spsc (lfBuffer el)" "queued (lfBuffer el) = queued (lfBuffer el0) @ [Some 5]"
    "pendingFunctors el = pendingFunctors el0" by metis
  have "queued (lfBuffer el) = map Some [5]" "pendingFunctors el = []" using el el0 by simp_all
  from tasks_run_in_order [OF el(2) this, of "\<lambda>f. ([Some (f + 1)], None)" 1]
  show ?thesis using el0(1) el(1) by (auto simp: spawned_def)
qed

text \<open>A task queued while the ring is full is lost: \<open>queueInLoop\<close> succeeds, but \<open>doPendingFunctors\<close>
  then runs the tasks queued before it, throws \<open>std::bad_function_call\<close> in its place, and leaves
  \<open>callingPendingFunctors_\<close> set.\<close>

theorem queueInLoop_full_loses_task:
  assumes "wf_spsc (lfBuffer el)" and "room (lfBuffer el) = 0" and "pendingFunctors el = []"
    and "queued (lfBuffer el) = map Some fs" and "\<forall>f \<in> set fs. snd (run f) = None"
    and "length (spawned run fs) \<le> length fs"
  shows "\<exists>el1 el2. queueInLoop other (Some task) el = Inr el1
    \<and> doPendingFunctors run self el1 = (el2, map Some fs @ [None], Some BadFunctionCall)
    \<and> callingPendingFunctors el2 \<and> queued (lfBuffer el2) = spawned run fs"
proof -
  obtain el1 where e1: "queueInLoop other (Some task) el = Inr el1" "lfBuffer el1 = lfBuffer el"
    "pendingFunctors el1 = pendingFunctors el @ [None]"
    using queueInLoop_full [OF assms(1,2)] by metis
  have "wf_spsc (lfBuffer el1)" "queued (lfBuffer el1) = map Some fs"
    "length (spawned run fs) \<le> room (lfBuffer el1) + length fs" using e1 assms by simp_all
  from doPendingFunctors_prefix [OF this(1,2) assms(5) this(3), of self] obtain e2 where
    "queued (lfBuffer e2) = spawned run fs" "callingPendingFunctors e2"
    "doPendingFunctors run self el1 = (e2, map Some fs @ [None], Some BadFunctionCall)"
    using e1 assms(3) by (auto simp: call_def)
  with e1 show ?thesis by blast
qed

theorem queueInLoop_full_loses_task_witness:
  "\<exists>el el1 el2 fs. wf_spsc (lfBuffer el) \<and> queueInLoop 2 (Some (5::nat)) el = Inr el1
     \<and> doPendingFunctors (\<lambda>_. ([], None)) 1 el1 = (el2, map Some fs @ [None], Some BadFunctionCall)
     \<and> callingPendingFunctors el2"
proof -
  obtain el0 :: "nat evloop" where el0: "wf_spsc (lfBuffer el0)" "queued (lfBuffer el0) = []"
    "pendingFunctors el0 = []" using evloop_new_ok by metis
  define fs :: "nat list" where "fs = replicate (room (lfBuffer el0)) 3"
  have "length (map Some fs) \<le> room (lfBuffer el0)" by (simp add: fs_def)
  from queue_each_room [OF el0(1) this, of 1] obtain el :: "nat evloop" where e:
    "wf_spsc (lfBuffer el)" "queued (lfBuffer el) = queued (lfBuffer el0) @ map Some fs"
    "room (lfBuffer el) + length (map Some fs) = room (lfBuffer el0)" "pendingFunctors el = pendingFunctors el0" by blast
  then have el: "wf_spsc (lfBuffer el)" "queued (lfBuffer el) = map Some fs"
    "room (lfBuffer el) + length fs = room (lfBuffer el0)" "pendingFunctors el = []" using el0 by simp_all
  have r: "room (lfBuffer el) = 0" using el(3) by (simp add: fs_def)
  have "\<forall>f \<in> set fs. snd (([], None) :: nat option list \<times> fault option) = None"
    "length (spawned (\<lambda>_. ([], None)) fs) \<le> length fs" by (simp_all add: spawned_def length_concat comp_def)
  from queueInLoop_full_loses_task [OF el(1) r el(4,2) this, of 2 5 1]
  show ?thesis using el(1) by blast
qed

section \<open>Wakeups\<close>

text \<open>
  The handshake between a queueing thread and the loop, one step per access to the ring, the flag
  \<open>wakeupSent_\<close> or the pipe. The queueing thread pushes, exchanges the flag, and writes a token if the
  flag was clear; the loop blocks in \<open>poll\<close>, reads one token when the pipe was ready, clears the flag
  and empties the ring.
\<close>

datatype qpc = QIdle | QPushed | QWake
datatype lpc = LPoll | LRead | LTimers | LDrain

record wake_sys =
  waiting :: nat
  flag :: bool
  tokens :: nat
  qthread :: qpc
  lthread :: lpc

definition wake_init :: wake_sys where
  "wake_init = \<lparr>waiting = 0, flag = False, tokens = 0, qthread = QIdle, lthread = LPoll\<rparr>"

inductive wake_step :: "wake_sys \<Rightarrow> wake_sys \<Rightarrow> bool" where
  q_push: "qthread s = QIdle \<Longrightarrow> wake_step s (s\<lparr>waiting := Suc (waiting s), qthread := QPushed\<rparr>)"
| q_sent: "qthread s = QPushed \<Longrightarrow> flag s \<Longrightarrow> wake_step s (s\<lparr>qthread := QIdle\<rparr>)"
| q_exchange: "qthread s = QPushed \<Longrightarrow> \<not> flag s \<Longrightarrow> wake_step s (s\<lparr>flag := True, qthread := QWake\<rparr>)"
| q_write: "qthread s = QWake \<Longrightarrow> wake_step s (s\<lparr>tokens := Suc (tokens s), qthread := QIdle\<rparr>)"
| l_ready: "lthread s = LPoll \<Longrightarrow> 0 < tokens s \<Longrightarrow> wake_step s (s\<lparr>lthread := LRead\<rparr>)"
| l_timeout: "lthread s = LPoll \<Longrightarrow> wake_step s (s\<lparr>lthread := LTimers\<rparr>)"
| l_read: "lthread s = LRead \<Longrightarrow> wake_step s (s\<lparr>tokens := tokens s - 1, lthread := LTimers\<rparr>)"
| l_clear: "lthread s = LTimers \<Longrightarrow> wake_step s (s\<lparr>flag := False, lthread := LDrain\<rparr>)"
| l_drain: "lthread s = LDrain \<Longrightarrow> wake_step s (s\<lparr>waiting := 0, lthread := LPoll\<rparr>)"

inductive_cases wake_stepE: "wake_step s s'"

definition wake_inv :: "wake_sys \<Rightarrow> bool" where
  "wake_inv s \<longleftrightarrow> (flag s \<longrightarrow> 0 < tokens s \<or> qthread s = QWake \<or> lthread s = LTimers)
     \<and> (0 < waiting s \<longrightarrow> qthread s = QPushed \<or> flag s \<or> lthread s = LDrain)"

lemma wake_inv_step: "wake_step s s' \<Longrightarrow> wake_inv s \<Longrightarrow> wake_inv s'"
  by (erule wake_stepE) (auto simp: wake_inv_def)



section \<open>Timer catch-up\<close>

lemma catch_up_eq:
  assumes "0 < tickMs (timerWheel el)" and "lastTimerTick el \<le> now"
  shows "int (catch_up now el) = (now - lastTimerTick el) div (int (tickMs (timerWheel el)) * 1000000)"
proof -
  let ?d = "now - lastTimerTick el" and ?m = "int (tickMs (timerWheel el))"
  have q: "?d div (?m * 1000000) = (?d div 1000000) div ?m"
    by (subst mult.commute) (simp add: zdiv_zmult2_eq)
  show ?thesis
  proof (cases "?d div 1000000 \<ge> ?m")
    case True
    then show ?thesis using assms unfolding q by (simp add: catch_up_def pos_imp_zdiv_nonneg_iff)
  next
    case False
    moreover have "0 \<le> ?d div 1000000" using assms by simp
    ultimately show ?thesis unfolding q by (simp add: catch_up_def div_pos_pos_trivial)
  qed
qed

fun advance_each :: "('f \<Rightarrow> 'f timer_op list) \<Rightarrow> int list \<Rightarrow> 'f evloop \<Rightarrow> 'f evloop res" where
  "advance_each trun [] el = Inr el"
| "advance_each trun (now # ts) el = rbind (advanceTimer trun now el) (\<lambda>(el', fired). advance_each trun ts el')"

lemma advanceTimer_ok:
  assumes "wheel_inv (timerWheel el)" and "sane_delays trun" and "lastTimerTick el \<le> now"
    and "currentTick (timerWheel el) + catch_up now el \<le> TICK_LIMIT"
  obtains el' fired where "advanceTimer trun now el = Inr (el', fired)" "wheel_inv (timerWheel el')"
    "currentTick (timerWheel el') = currentTick (timerWheel el) + catch_up now el"
    "tickMs (timerWheel el') = tickMs (timerWheel el)"
    "lastTimerTick el' = lastTimerTick el + int (catch_up now el) * (int (tickMs (timerWheel el)) * 1000000)"
proof -
  have "0 < tickMs (timerWheel el)" using assms(1) by (simp add: wheel_inv_def wf_wheel_def)
  then show ?thesis using run_ticks_wheel [OF assms(1,2,4)] that
    by (fastforce simp: advanceTimer_def Let_def algebra_simps)
qed

lemma catch_up_bounds:
  assumes "0 < tickMs (timerWheel el)" and "lastTimerTick el \<le> now"
  shows "lastTimerTick el + int (catch_up now el) * (int (tickMs (timerWheel el)) * 1000000) \<le> now"
    and "now < lastTimerTick el + (int (catch_up now el) + 1) * (int (tickMs (timerWheel el)) * 1000000)"
proof -
  let ?d = "now - lastTimerTick el" and ?p = "int (tickMs (timerWheel el)) * 1000000"
  have p: "0 < ?p" using assms by simp
  have "?d = ?p * (?d div ?p) + ?d mod ?p" by simp
  moreover have "0 \<le> ?d mod ?p" "?d mod ?p < ?p" using p by simp_all
  ultimately show "lastTimerTick el + int (catch_up now el) * ?p \<le> now"
    and "now < lastTimerTick el + (int (catch_up now el) + 1) * ?p"
    unfolding catch_up_eq [OF assms] by (simp_all add: algebra_simps)
qed

text \<open>The timer wheel keeps pace with the clock without drift: over any sequence of turns at times that
  do not decrease, the wheel advances by exactly the number of whole tick periods that have passed
  since the last tick, however the turns fall, and every call succeeds.\<close>

theorem timers_keep_pace:
  assumes "wheel_inv (timerWheel el)" and "sane_delays trun" and "sorted (lastTimerTick el # ts)"
    and "int (currentTick (timerWheel el)) +
      (last (lastTimerTick el # ts) - lastTimerTick el) div (int (tickMs (timerWheel el)) * 1000000) \<le> int TICK_LIMIT"
  shows "\<exists>el'. advance_each trun ts el = Inr el' \<and> wheel_inv (timerWheel el')
    \<and> int (currentTick (timerWheel el')) = int (currentTick (timerWheel el)) +
      (last (lastTimerTick el # ts) - lastTimerTick el) div (int (tickMs (timerWheel el)) * 1000000)"
  using assms
proof (induction ts arbitrary: el)
  case (Cons now ts)
  let ?p = "int (tickMs (timerWheel el)) * 1000000"
  define n where "n = catch_up now el"
  define final where "final = last (now # ts)"
  have ms: "0 < tickMs (timerWheel el)" using Cons.prems(1) by (simp add: wheel_inv_def wf_wheel_def)
  then have p: "0 < ?p" by simp
  have le: "lastTimerTick el \<le> now" "now \<le> final" using Cons.prems(3) by (auto simp: final_def)
  note c = catch_up_bounds [OF ms le(1), folded n_def]
  have eq: "(final - (lastTimerTick el + int n * ?p)) div ?p = (final - lastTimerTick el) div ?p - int n"
  proof -
    have "final - lastTimerTick el = (final - (lastTimerTick el + int n * ?p)) + int n * ?p" by simp
    then show ?thesis using div_mult_self1 [of ?p "final - (lastTimerTick el + int n * ?p)" "int n"] p by simp
  qed
  have "int n \<le> (final - lastTimerTick el) div ?p"
    using c(1) le(2) p eq pos_imp_zdiv_nonneg_iff [OF p, of "final - (lastTimerTick el + int n * ?p)"] by linarith
  then have "currentTick (timerWheel el) + n \<le> TICK_LIMIT" using Cons.prems(4) by (simp add: final_def)
  from advanceTimer_ok [OF Cons.prems(1,2) le(1) this [unfolded n_def]] obtain el1 fired where
    a: "advanceTimer trun now el = Inr (el1, fired)" "wheel_inv (timerWheel el1)"
      "currentTick (timerWheel el1) = currentTick (timerWheel el) + n"
      "tickMs (timerWheel el1) = tickMs (timerWheel el)"
      "lastTimerTick el1 = lastTimerTick el + int n * ?p" unfolding n_def by blast
  have l: "last (lastTimerTick el1 # ts) - lastTimerTick el1 = (if ts = [] then 0 else final - lastTimerTick el1)"
    by (simp add: final_def)
  have z: "(now - lastTimerTick el1) div ?p = 0" using c a(5) by (intro div_pos_pos_trivial) (simp_all add: algebra_simps)
  have d: "(last (lastTimerTick el1 # ts) - lastTimerTick el1) div ?p = (final - lastTimerTick el) div ?p - int n"
    using eq z unfolding l by (cases "ts = []") (simp_all add: a(5) final_def)
  have "sorted (lastTimerTick el1 # ts)" using Cons.prems(3) c(1) a(5) by auto
  with Cons.IH [OF a(2) Cons.prems(2)] Cons.prems(4) a d show ?case by (simp add: final_def)
qed simp

theorem timers_keep_pace_witness:
  "\<exists>el el'. evloop_new 1 0 = Inr el
     \<and> advance_each (\<lambda>_::nat. []) [400000000, 1999999999, 2500000000, 7000000000] el = Inr el'
     \<and> currentTick (timerWheel el') = 7"
proof -
  obtain el :: "nat evloop" where el: "evloop_new 1 0 = Inr el" "wheel_inv (timerWheel el)" "lastTimerTick el = 0"
    "tickMs (timerWheel el) = 1000" "currentTick (timerWheel el) = 0" by (rule evloop_new_ok)
  have s: "sane_delays (\<lambda>_::nat. [])" by (simp add: sane_delays_def)
  show ?thesis using timers_keep_pace [OF el(2) s, of "[400000000, 1999999999, 2500000000, 7000000000]"] el by auto
qed

end
