(* ===== verification/HttpRequest.thy ===== *)
theory HttpRequest
  imports Prelude
begin

text \<open>
  The request object (\<open>include/xnetty/http/http_request.h\<close>, \<open>src/http/http_request.cpp\<close>).

  Strings are \<open>string\<close>; \<open>rawData_\<close> with \<open>rawDataLen_\<close> is the block of bytes the request was parsed
  from, \<open>None\<close> for a null pointer, and a read outside it is \<open>UndefinedBehaviour\<close>. The lazily filled
  caches are part of the record, so the accessors return the updated request. \<open>std::unordered_map\<close> is
  a map. Character classification is that of the "C" locale.
\<close>

section \<open>Data\<close>

datatype http_method = M_GET | M_POST | M_PUT | M_DELETE | M_HEAD | M_OPTIONS | M_PATCH | M_UNKNOWN

datatype http_version = HTTP_1_0 | HTTP_1_1 | HTTP_2_0 | V_UNKNOWN

record header_entry =
  he_offset :: nat
  he_keyLen :: nat
  he_valueLen :: nat

record http_request =
  rq_method :: http_method
  rq_version :: http_version
  rq_uri :: string
  rq_path :: string
  rawData :: "string option"
  headerOffsets :: "header_entry list"
  headerEnd :: nat
  headersParsed :: bool
  queryParsed :: bool
  bodyParsed :: bool
  rq_headers :: "(string \<times> string) list"
  queries :: "string \<rightharpoonup> string"
  rq_body :: string
  rq_params :: "string \<rightharpoonup> string"
  contentLength :: nat

definition http_request_new :: http_request where
  "http_request_new = \<lparr>rq_method = M_UNKNOWN, rq_version = HTTP_1_1, rq_uri = [], rq_path = [],
     rawData = None, headerOffsets = [], headerEnd = 0, headersParsed = False, queryParsed = False,
     bodyParsed = False, rq_headers = [], queries = Map.empty, rq_body = [], rq_params = Map.empty,
     contentLength = 0\<rparr>"

section \<open>Characters and searches\<close>

definition tolower :: "char \<Rightarrow> char" where
  "tolower c = (let n = of_char c :: nat in if 65 \<le> n \<and> n \<le> 90 then char_of (n + 32) else c)"

definition or32 :: "char \<Rightarrow> byte" where
  "or32 c = of_char c OR 32"

text \<open>\<open>std::string::find(c)\<close>: \<open>None\<close> is \<open>npos\<close>.\<close>

fun find_char :: "char \<Rightarrow> string \<Rightarrow> nat option" where
  "find_char c [] = None"
| "find_char c (x # s) = (if x = c then Some 0 else map_option Suc (find_char c s))"

definition str_at :: "string option \<Rightarrow> nat \<Rightarrow> nat \<Rightarrow> string res" where
  "str_at raw off len =
     (if len = 0 then Inr []
      else case raw of
             None \<Rightarrow> Inl UndefinedBehaviour
           | Some s \<Rightarrow> if off + len \<le> length s then Inr (take len (drop off s)) else Inl UndefinedBehaviour)"

section \<open>Operations\<close>

definition parsePath :: "http_request \<Rightarrow> http_request" where
  "parsePath r = r\<lparr>rq_path := (case find_char (CHR ''?'') (rq_uri r) of
                                 Some qpos \<Rightarrow> take qpos (rq_uri r) | None \<Rightarrow> rq_uri r)\<rparr>"

definition setUri :: "string \<Rightarrow> http_request \<Rightarrow> http_request" where
  "setUri u r = parsePath (r\<lparr>rq_uri := u\<rparr>)"

definition setRawData :: "string option \<Rightarrow> header_entry list \<Rightarrow> nat \<Rightarrow> http_request \<Rightarrow> http_request" where
  "setRawData data offsets hend r =
     r\<lparr>rawData := data, headerOffsets := offsets, headerEnd := hend, headersParsed := False,
       queryParsed := False, bodyParsed := False\<rparr>"

fun parse_entries :: "string option \<Rightarrow> header_entry list \<Rightarrow> (string \<times> string) list res" where
  "parse_entries raw [] = Inr []"
| "parse_entries raw (e # es) =
     rbind (str_at raw (he_offset e) (he_keyLen e)) (\<lambda>key.
     rbind (str_at raw (he_offset e + he_keyLen e + 2) (he_valueLen e)) (\<lambda>value.
     rbind (parse_entries raw es) (\<lambda>hs. Inr ((key, value) # hs))))"

definition ensureHeadersParsed :: "http_request \<Rightarrow> http_request res" where
  "ensureHeadersParsed r =
     (if headersParsed r then Inr r
      else
        let r = r\<lparr>headersParsed := True\<rparr> in
        if rawData r = None \<or> headerOffsets r = [] then Inr r
        else rbind (parse_entries (rawData r) (headerOffsets r)) (\<lambda>hs.
             Inr (r\<lparr>rq_headers := rq_headers r @ hs\<rparr>)))"

definition same_ignoring_case :: "string \<Rightarrow> string \<Rightarrow> bool" where
  "same_ignoring_case k key \<longleftrightarrow> length k = length key \<and> map tolower k = map tolower key"

definition find_header :: "string \<Rightarrow> (string \<times> string) list \<Rightarrow> string option" where
  "find_header key hs =
     (case List.find (\<lambda>(k, v). k = key) hs of
        Some (k, v) \<Rightarrow> Some v
      | None \<Rightarrow>
          (case List.find (\<lambda>(k, v). same_ignoring_case k key) hs of
             Some (k, v) \<Rightarrow> Some v
           | None \<Rightarrow> None))"

definition header :: "string \<Rightarrow> http_request \<Rightarrow> (string \<times> http_request) res" where
  "header key r =
     rbind (ensureHeadersParsed r) (\<lambda>r.
     Inr (case find_header key (rq_headers r) of Some v \<Rightarrow> v | None \<Rightarrow> [], r))"

definition hasHeader :: "string \<Rightarrow> http_request \<Rightarrow> (bool \<times> http_request) res" where
  "hasHeader key r =
     rbind (ensureHeadersParsed r) (\<lambda>r. Inr (find_header key (rq_headers r) \<noteq> None, r))"

definition setHeader :: "string \<Rightarrow> string \<Rightarrow> http_request \<Rightarrow> http_request" where
  "setHeader key value r =
     (if \<exists>kv \<in> set (rq_headers r). fst kv = key
      then r\<lparr>rq_headers := (let pre = takeWhile (\<lambda>kv. fst kv \<noteq> key) (rq_headers r)
                             in pre @ (key, value) # drop (Suc (length pre)) (rq_headers r))\<rparr>
      else r\<lparr>rq_headers := rq_headers r @ [(key, value)], headersParsed := True\<rparr>)"

text \<open>The two branches of \<open>hasConnectionClose\<close>: the parsed headers and the raw bytes.\<close>

definition parsed_close :: "string \<times> string \<Rightarrow> bool" where
  "parsed_close kv = (case kv of (k, v) \<Rightarrow>
     length k = 10 \<and> or32 (k ! 0) = of_char CHR ''c'' \<and> length v \<ge> 4
     \<and> or32 (v ! 0) = of_char CHR ''c'' \<and> or32 (v ! 1) = of_char CHR ''l'')"

fun raw_close :: "string option \<Rightarrow> header_entry list \<Rightarrow> bool res" where
  "raw_close raw [] = Inr False"
| "raw_close raw (e # es) =
     (if he_keyLen e = 10
      then rbind (str_at raw (he_offset e) 10) (\<lambda>k.
           if map or32 k \<noteq> map of_char ''connection'' then raw_close raw es
           else if he_valueLen e \<ge> 4
           then rbind (str_at raw (he_offset e + 12) 4) (\<lambda>v. Inr (map or32 v = map of_char ''clos''))
           else Inr False)
      else raw_close raw es)"

definition hasConnectionClose :: "http_request \<Rightarrow> bool res" where
  "hasConnectionClose r =
     (if headersParsed r then Inr (list_ex parsed_close (rq_headers r))
      else raw_close (rawData r) (headerOffsets r))"

text \<open>The loop of \<open>ensureQueryParsed\<close>, on what is left of the query string.\<close>

function parse_query :: "string \<Rightarrow> (string \<rightharpoonup> string) \<Rightarrow> (string \<rightharpoonup> string)" where
  "parse_query qs m =
     (if qs = [] then m
      else
        let amp = (case find_char (CHR ''&'') qs of Some i \<Rightarrow> i | None \<Rightarrow> length qs);
            m = (case find_char (CHR ''='') qs of
                   Some eq \<Rightarrow> if eq < amp
                               then m(take eq qs \<mapsto> take (amp - eq - 1) (drop (eq + 1) qs)) else m
                 | None \<Rightarrow> m)
        in parse_query (drop (amp + 1) qs) m)"
  by pat_completeness auto
termination
  by (relation "measure (\<lambda>(qs, m). length qs)") auto

declare parse_query.simps [simp del]

definition ensureQueryParsed :: "http_request \<Rightarrow> http_request" where
  "ensureQueryParsed r =
     (if queryParsed r then r
      else
        let r = r\<lparr>queryParsed := True\<rparr> in
        case find_char (CHR ''?'') (rq_uri r) of
          None \<Rightarrow> r
        | Some qpos \<Rightarrow> r\<lparr>queries := parse_query (drop (qpos + 1) (rq_uri r)) (queries r)\<rparr>)"

definition query :: "string \<Rightarrow> http_request \<Rightarrow> string \<times> http_request" where
  "query key r = (let r = ensureQueryParsed r in (case queries r key of Some v \<Rightarrow> v | None \<Rightarrow> [], r))"

definition hasQuery :: "string \<Rightarrow> http_request \<Rightarrow> bool \<times> http_request" where
  "hasQuery key r = (let r = ensureQueryParsed r in (queries r key \<noteq> None, r))"

definition ensureBodyParsed :: "http_request \<Rightarrow> http_request res" where
  "ensureBodyParsed r =
     (if bodyParsed r then Inr r
      else
        let r = r\<lparr>bodyParsed := True\<rparr>;
            rawLen = (case rawData r of Some s \<Rightarrow> length s | None \<Rightarrow> 0) in
        if rawData r = None \<or> headerEnd r = 0 then Inr r
        else if contentLength r > 0 \<and> add_sz (headerEnd r) (contentLength r) \<le> rawLen
        then rbind (str_at (rawData r) (headerEnd r) (contentLength r)) (\<lambda>b. Inr (r\<lparr>rq_body := b\<rparr>))
        else if headerEnd r < rawLen
        then rbind (str_at (rawData r) (headerEnd r) (rawLen - headerEnd r)) (\<lambda>b. Inr (r\<lparr>rq_body := b\<rparr>))
        else Inr r)"

definition body :: "http_request \<Rightarrow> (string \<times> http_request) res" where
  "body r = rbind (ensureBodyParsed r) (\<lambda>r. Inr (rq_body r, r))"

definition setBody :: "string \<Rightarrow> http_request \<Rightarrow> http_request res" where
  "setBody b r =
     rbind (ensureBodyParsed r) (\<lambda>r. Inr (r\<lparr>rq_body := b, bodyParsed := True, contentLength := length b\<rparr>))"

definition param :: "string \<Rightarrow> http_request \<Rightarrow> string" where
  "param key r = (case rq_params r key of Some v \<Rightarrow> v | None \<Rightarrow> [])"

definition setParams :: "(string \<rightharpoonup> string) \<Rightarrow> http_request \<Rightarrow> http_request" where
  "setParams p r = r\<lparr>rq_params := p\<rparr>"

section \<open>Searches\<close>

lemma find_char_None: "find_char c s = None \<longleftrightarrow> c \<notin> set s"
  by (induction s) auto

lemma find_char_app: "c \<notin> set xs \<Longrightarrow> find_char c (xs @ c # ys) = Some (length xs)"
  by (induction xs) auto

section \<open>Query strings\<close>

fun render_query :: "(string \<times> string) list \<Rightarrow> string" where
  "render_query [] = []"
| "render_query [(k, v)] = k @ CHR ''='' # v"
| "render_query ((k, v) # ps) = k @ CHR ''='' # v @ CHR ''&'' # render_query ps"

definition plain_pair :: "string \<times> string \<Rightarrow> bool" where
  "plain_pair kv \<longleftrightarrow> CHR ''='' \<notin> set (fst kv) \<and> CHR ''&'' \<notin> set (fst kv) \<and> CHR ''&'' \<notin> set (snd kv)"

lemma parse_query_first:
  assumes "plain_pair (k, v)"
  shows "parse_query (k @ CHR ''='' # v @ CHR ''&'' # qs) m = parse_query qs (m(k \<mapsto> v))"
    and "parse_query (k @ CHR ''='' # v) m = m(k \<mapsto> v)"
proof -
  have amp: "find_char CHR ''&'' (k @ CHR ''='' # v @ CHR ''&'' # qs) = Some (Suc (length k + length v))"
    using find_char_app [of "CHR ''&''" "k @ CHR ''='' # v" qs] assms by (simp add: plain_pair_def)
  have eq: "find_char CHR ''='' (k @ CHR ''='' # t) = Some (length k)" for t
    using assms by (simp add: plain_pair_def find_char_app)
  show "parse_query (k @ CHR ''='' # v @ CHR ''&'' # qs) m = parse_query qs (m(k \<mapsto> v))"
    by (subst parse_query.simps) (simp add: amp eq)
  have none: "find_char CHR ''&'' (k @ CHR ''='' # v) = None"
    using assms by (auto simp: plain_pair_def find_char_None)
  have nil: "parse_query [] m' = m'" for m' by (simp add: parse_query.simps)
  show "parse_query (k @ CHR ''='' # v) m = m(k \<mapsto> v)"
    by (subst parse_query.simps) (simp add: none eq nil)
qed

lemma parse_render_query:
  "list_all plain_pair ps \<Longrightarrow> parse_query (render_query ps) m = m ++ map_of (rev ps)"
proof (induction ps arbitrary: m rule: render_query.induct)
  case 1
  then show ?case by (simp add: parse_query.simps)
next
  case (2 k v)
  then show ?case by (simp add: parse_query_first map_add_def fun_eq_iff)
next
  case (3 k v p ps)
  have "parse_query (render_query ((k, v) # p # ps)) m = m(k \<mapsto> v) ++ map_of (rev (p # ps))"
    using 3 by (simp add: parse_query_first)
  also have "\<dots> = m ++ ([k \<mapsto> v] ++ map_of (rev (p # ps)))" by (simp only: map_add_assoc map_add_upd map_add_empty)
  also have "[k \<mapsto> v] ++ map_of (rev (p # ps)) = map_of (rev ((k, v) # p # ps))"
    by (simp only: rev.simps(2) [of "(k, v)"] map_of_append map_of.simps fst_conv snd_conv)
  finally show ?case .
qed

section \<open>Headers laid out as \<open>key: value\<close> lines\<close>

abbreviation CRLF :: string where
  "CRLF \<equiv> [CHR 0x0D, CHR 0x0A]"

definition render_header :: "string \<times> string \<Rightarrow> string" where
  "render_header kv = fst kv @ '': '' @ snd kv @ CRLF"

definition render_headers :: "(string \<times> string) list \<Rightarrow> string" where
  "render_headers hs = concat (map render_header hs)"

fun header_layout :: "nat \<Rightarrow> (string \<times> string) list \<Rightarrow> header_entry list" where
  "header_layout off [] = []"
| "header_layout off (kv # hs) =
     \<lparr>he_offset = off, he_keyLen = length (fst kv), he_valueLen = length (snd kv)\<rparr>
     # header_layout (off + length (render_header kv)) hs"

lemma str_at_app: "str_at (Some (xs @ ys @ zs)) (length xs) (length ys) = Inr ys"
  by (simp add: str_at_def)

lemma parse_entries_layout:
  "parse_entries (Some (pre @ render_headers hs @ rest)) (header_layout (length pre) hs) = Inr hs"
proof (induction hs arbitrary: pre)
  case (Cons kv hs)
  obtain k v where kv: "kv = (k, v)" by (cases kv)
  define raw where "raw = pre @ render_headers (kv # hs) @ rest"
  have r: "raw = pre @ k @ '': '' @ v @ CRLF @ render_headers hs @ rest"
    by (simp add: raw_def render_headers_def render_header_def kv)
  have k: "str_at (Some raw) (length pre) (length k) = Inr k"
    unfolding r by (rule str_at_app)
  have v: "str_at (Some raw) (length pre + length k + 2) (length v) = Inr v"
    using str_at_app [of "pre @ k @ '': ''" v "CRLF @ render_headers hs @ rest"] by (simp add: r)
  have "raw = (pre @ render_header kv) @ render_headers hs @ rest"
    by (simp add: raw_def render_headers_def)
  with Cons.IH [of "pre @ render_header kv"]
  have "parse_entries (Some raw) (header_layout (length pre + length (render_header kv)) hs) = Inr hs" by simp
  with k v show ?case unfolding raw_def [symmetric] by (simp add: kv)
qed simp

lemma header_layout_Nil [simp]: "header_layout off hs = [] \<longleftrightarrow> hs = []"
  by (cases hs) simp_all

lemma same_ignoring_case_refl [simp]: "same_ignoring_case k k"
  by (simp add: same_ignoring_case_def)

lemma find_header_iff: "find_header key hs \<noteq> None \<longleftrightarrow> (\<exists>(k, v) \<in> set hs. same_ignoring_case k key)"
  by (induction hs) (auto simp: find_header_def split: option.splits prod.splits if_splits)

section \<open>Properties\<close>

text \<open>C26. Query parameters round-trip: for a fresh request whose URI is a path, a question mark and the
  rendering of a list of parameters (keys without \<open>=\<close> and \<open>&\<close>, values without \<open>&\<close>), the path is the part
  before the question mark and \<open>query\<close> returns for every key the value of its last occurrence, and the
  empty string for other keys.\<close>

theorem query_roundtrip:
  assumes "CHR ''?'' \<notin> set p" and "list_all plain_pair ps"
  shows "let r = setUri (p @ CHR ''?'' # render_query ps) http_request_new in
    rq_path r = p \<and> fst (query key r) = (case map_of (rev ps) key of Some v \<Rightarrow> v | None \<Rightarrow> [])
    \<and> fst (hasQuery key r) = (map_of (rev ps) key \<noteq> None)"
proof -
  have "find_char CHR ''?'' (p @ CHR ''?'' # render_query ps) = Some (length p)"
    using assms(1) by (rule find_char_app)
  then show ?thesis using parse_render_query [OF assms(2), of Map.empty]
    by (simp add: setUri_def parsePath_def query_def hasQuery_def ensureQueryParsed_def http_request_new_def Let_def)
qed

theorem query_roundtrip_witness:
  "let r = setUri (''/s'' @ CHR ''?'' # render_query [(''a'', ''1''), (''b'', ''x=y''), (''a'', ''2'')]) http_request_new in
    rq_path r = ''/s'' \<and> fst (query ''a'' r) = ''2'' \<and> fst (hasQuery ''a'' r)"
  using query_roundtrip [of "''/s''" "[(''a'', ''1''), (''b'', ''x=y''), (''a'', ''2'')]" "''a''"]
  by (simp add: plain_pair_def Let_def)

text \<open>Header lookup: on a request whose raw bytes hold its headers as \<open>key: value\<close> lines at the recorded
  offsets, the lazy parser recovers exactly these headers, \<open>hasHeader\<close> holds exactly for the keys that occur
  up to case, and \<open>header\<close> returns a value of such a header; no read leaves the raw block.\<close>

theorem header_lookup_raw:
  assumes "rawData r = Some (pre @ render_headers hs @ rest)" and "headerOffsets r = header_layout (length pre) hs"
    and "\<not> headersParsed r" and "rq_headers r = []"
  shows "\<exists>r'. hasHeader key r = Inr (\<exists>(k, v) \<in> set hs. same_ignoring_case k key, r') \<and> rq_headers r' = hs
    \<and> header key r = Inr (case find_header key hs of Some v \<Rightarrow> v | None \<Rightarrow> [], r')"
proof -
  define r' where "r' = r\<lparr>headersParsed := True, rq_headers := hs\<rparr>"
  have "ensureHeadersParsed r = Inr r'"
    using assms parse_entries_layout [of pre hs rest] by (auto simp: ensureHeadersParsed_def Let_def r'_def)
  then show ?thesis
    using find_header_iff [of key hs] by (intro exI [of _ r']) (simp add: hasHeader_def header_def r'_def)
qed

definition demo_request :: http_request where
  "demo_request = http_request_new\<lparr>rawData := Some (''GET / HTTP/1.1'' @ CRLF @ render_headers [(''Host'', ''a'')] @ CRLF),
     headerOffsets := header_layout 16 [(''Host'', ''a'')]\<rparr>"

theorem header_lookup_raw_witness:
  "\<exists>r'. hasHeader ''host'' demo_request = Inr (True, r') \<and> rq_headers r' = [(''Host'', ''a'')]
    \<and> header ''host'' demo_request = Inr (''a'', r')"
proof -
  have "rawData demo_request = Some ((''GET / HTTP/1.1'' @ CRLF) @ render_headers [(''Host'', ''a'')] @ CRLF)"
    "headerOffsets demo_request = header_layout (length (''GET / HTTP/1.1'' @ CRLF)) [(''Host'', ''a'')]"
    "\<not> headersParsed demo_request" "rq_headers demo_request = []"
    by (simp_all add: demo_request_def http_request_new_def)
  moreover have "char_of (104::nat) = CHR ''h''" by code_simp
  ultimately show ?thesis using header_lookup_raw [of demo_request _ _ _ "''host''"]
    by (fastforce simp: find_header_def same_ignoring_case_def tolower_def)
qed

text \<open>The value of a header is read two bytes after its name whatever the separator was: for \<open>Host:ab\<close>,
  which has no space after the colon, the lookup returns the value shifted by one character.\<close>

theorem header_value_shifted:
  "rbind (header ''Host'' (http_request_new\<lparr>rawData := Some (''Host:ab'' @ CRLF),
      headerOffsets := [\<lparr>he_offset = 0, he_keyLen = 4, he_valueLen = 2\<rparr>]\<rparr>)) (\<lambda>(v, r). Inr v)
   = Inr [CHR ''b'', CHR 0x0D]"
  by (simp add: header_def ensureHeadersParsed_def http_request_new_def str_at_def find_header_def)

end
