(* ===== verification/Router.thy ===== *)
theory Router
  imports HttpRequest
begin

text \<open>
  The HTTP router (\<open>include/xnetty/http/router.h\<close>, \<open>src/http/router.cpp\<close>): static routes in a hash map,
  parameterised routes in a tree of segments.

  A handler is a value of an arbitrary type \<open>'h\<close>, \<open>None\<close> for an empty \<open>std::function\<close>; the array
  \<open>handlers[5]\<close> is a list of five. The effect of \<open>onRequest\<close> is the value it decides on: the handler
  it calls with the request it passes, or the response it writes, or nothing.
\<close>

section \<open>Data\<close>

datatype 'h node =
  Node (segment: string) (isParam: bool) (paramName: string) (handlers: "'h option list") (children: "'h node list")

definition no_handlers :: "'h option list" where
  "no_handlers = [None, None, None, None, None]"

definition root_node :: "'h node" where
  "root_node = Node [] False [] no_handlers []"

record 'h router =
  staticRoutes :: "string \<rightharpoonup> 'h option list"
  rt_root :: "'h node"

definition router_new :: "'h router" where
  "router_new = \<lparr>staticRoutes = Map.empty, rt_root = root_node\<rparr>"

datatype 'h decision =
    Invoke 'h http_request
  | Respond nat string      \<comment> \<open>a \<open>text/plain\<close> response with this status and body\<close>
  | Silent                  \<comment> \<open>no handler is called and nothing is written\<close>

section \<open>Paths and methods\<close>

definition methodToMask :: "http_method \<Rightarrow> byte" where
  "methodToMask m =
     (case m of M_GET \<Rightarrow> 1 | M_POST \<Rightarrow> 2 | M_PUT \<Rightarrow> 4 | M_PATCH \<Rightarrow> 8 | M_DELETE \<Rightarrow> 16 | _ \<Rightarrow> 0)"

text \<open>The index into \<open>handlers\<close>; methods without a slot of their own fall through to 0.\<close>

definition method_index :: "http_method \<Rightarrow> nat" where
  "method_index m =
     (case m of M_GET \<Rightarrow> 0 | M_POST \<Rightarrow> 1 | M_PUT \<Rightarrow> 2 | M_PATCH \<Rightarrow> 3 | M_DELETE \<Rightarrow> 4 | _ \<Rightarrow> 0)"

definition isParamName :: "char \<Rightarrow> bool" where
  "isParamName c = (let n = of_char c :: nat in
     (48 \<le> n \<and> n \<le> 57) \<or> (65 \<le> n \<and> n \<le> 90) \<or> (97 \<le> n \<and> n \<le> 122) \<or> c = CHR ''_'' \<or> c = CHR ''-'')"

fun squeeze :: "bool \<Rightarrow> string \<Rightarrow> string" where
  "squeeze lastSlash [] = []"
| "squeeze lastSlash (c # s) =
     (if c = CHR ''/'' then (if lastSlash then squeeze True s else c # squeeze True s)
      else c # squeeze False s)"

definition normalizePath :: "string \<Rightarrow> string" where
  "normalizePath path =
     (let out = squeeze False path in
      if length out > 1 \<and> last out = CHR ''/'' then butlast out else out)"

function splitPath :: "string \<Rightarrow> string list" where
  "splitPath [] = []"
| "splitPath (c # s) =
     (if c = CHR ''/'' then splitPath s
      else takeWhile (\<lambda>x. x \<noteq> CHR ''/'') (c # s) # splitPath (dropWhile (\<lambda>x. x \<noteq> CHR ''/'') (c # s)))"
  by pat_completeness auto
termination
  by (relation "measure length") (auto simp: length_dropWhile_le le_imp_less_Suc)

section \<open>The segment tree\<close>

definition findChild :: "string \<Rightarrow> bool \<Rightarrow> 'h node \<Rightarrow> 'h node option" where
  "findChild seg p n = List.find (\<lambda>c. isParam c = p \<and> segment c = seg) (children n)"

definition fresh_node :: "string \<Rightarrow> bool \<Rightarrow> 'h node" where
  "fresh_node seg p = Node seg p (if p then seg else []) no_handlers []"

definition methodMask :: "'h node \<Rightarrow> byte" where
  "methodMask n = fold (\<lambda>i m. if handlers n ! i \<noteq> None then m OR push_bit i 1 else m) [0..<5] 0"

definition handlerFor :: "byte \<Rightarrow> 'h node \<Rightarrow> 'h option" where
  "handlerFor mm n =
     (case List.find (\<lambda>i. handlers n ! i \<noteq> None \<and> mm AND push_bit i 1 \<noteq> 0) [0..<5] of
        Some i \<Rightarrow> handlers n ! i
      | None \<Rightarrow> None)"

text \<open>The key of a segment of a route: a parameter when it starts with a colon and the rest is a name.\<close>

definition route_key :: "string \<Rightarrow> string \<times> bool" where
  "route_key seg =
     (if seg \<noteq> [] \<and> hd seg = CHR '':''
      then if list_all isParamName (tl seg) then (tl seg, True) else (seg, False)
      else (seg, False))"

text \<open>
  Descent with \<open>findOrCreate\<close>: the first child with this key is updated, or a new one is appended; at
  the end of the path the handler is stored. \<open>map_first\<close> updates the first element that satisfies a
  predicate.
\<close>

fun map_first :: "('a \<Rightarrow> bool) \<Rightarrow> ('a \<Rightarrow> 'a) \<Rightarrow> 'a list \<Rightarrow> 'a list" where
  "map_first P f [] = []"
| "map_first P f (x # xs) = (if P x then f x # xs else x # map_first P f xs)"

definition name_param :: "bool \<Rightarrow> string \<Rightarrow> 'h node \<Rightarrow> 'h node" where
  "name_param p key n =
     (if p then Node (segment n) (isParam n) key (handlers n) (children n) else n)"

fun insert_route :: "(string \<times> bool) list \<Rightarrow> nat \<Rightarrow> 'h option \<Rightarrow> 'h node \<Rightarrow> 'h node" where
  "insert_route [] idx h n =
     Node (segment n) (isParam n) (paramName n) ((handlers n)[idx := h]) (children n)"
| "insert_route ((key, p) # ks) idx h n =
     Node (segment n) (isParam n) (paramName n) (handlers n)
       (case findChild key p n of
          Some _ \<Rightarrow> map_first (\<lambda>c. isParam c = p \<and> segment c = key)
                       (\<lambda>c. insert_route ks idx h (name_param p key c)) (children n)
        | None \<Rightarrow> children n @ [insert_route ks idx h (name_param p key (fresh_node key p))])"

definition addRoute :: "http_method \<Rightarrow> string \<Rightarrow> 'h option \<Rightarrow> 'h router \<Rightarrow> 'h router" where
  "addRoute m path h r =
     (let norm = normalizePath path;
          segs = splitPath norm;
          hasParam = list_ex (\<lambda>seg. seg \<noteq> [] \<and> hd seg = CHR '':'') segs;
          idx = method_index m in
      if \<not> hasParam \<and> segs \<noteq> []
      then let hs = (case staticRoutes r norm of Some hs \<Rightarrow> hs | None \<Rightarrow> no_handlers)
           in r\<lparr>staticRoutes := (staticRoutes r)(norm \<mapsto> hs[idx := h])\<rparr>
      else r\<lparr>rt_root := insert_route (map route_key segs) idx h (rt_root r)\<rparr>)"

definition rt_get :: "string \<Rightarrow> 'h option \<Rightarrow> 'h router \<Rightarrow> 'h router" where "rt_get = addRoute M_GET"
definition rt_post :: "string \<Rightarrow> 'h option \<Rightarrow> 'h router \<Rightarrow> 'h router" where "rt_post = addRoute M_POST"
definition rt_put :: "string \<Rightarrow> 'h option \<Rightarrow> 'h router \<Rightarrow> 'h router" where "rt_put = addRoute M_PUT"
definition rt_patch :: "string \<Rightarrow> 'h option \<Rightarrow> 'h router \<Rightarrow> 'h router" where "rt_patch = addRoute M_PATCH"
definition rt_del :: "string \<Rightarrow> 'h option \<Rightarrow> 'h router \<Rightarrow> 'h router" where "rt_del = addRoute M_DELETE"

section \<open>Matching\<close>

type_synonym params = "string \<rightharpoonup> string"

text \<open>The two loops over the children: static ones first, then parameters, with backtracking.\<close>

fun try_static :: "('h node \<Rightarrow> params \<Rightarrow> bool \<times> params) \<Rightarrow> string \<Rightarrow> 'h node list \<Rightarrow> params \<Rightarrow> bool \<times> params" where
  "try_static rec seg [] ps = (False, ps)"
| "try_static rec seg (c # cs) ps =
     (if \<not> isParam c \<and> segment c = seg
      then case rec c ps of (True, ps') \<Rightarrow> (True, ps') | (False, ps') \<Rightarrow> try_static rec seg cs ps'
      else try_static rec seg cs ps)"

fun try_param :: "('h node \<Rightarrow> params \<Rightarrow> bool \<times> params) \<Rightarrow> string \<Rightarrow> 'h node list \<Rightarrow> params \<Rightarrow> bool \<times> params" where
  "try_param rec seg [] ps = (False, ps)"
| "try_param rec seg (c # cs) ps =
     (if isParam c
      then case rec c (ps(paramName c \<mapsto> seg)) of
             (True, ps') \<Rightarrow> (True, ps')
           | (False, ps') \<Rightarrow> try_param rec seg cs (ps'(paramName c := None))
      else try_param rec seg cs ps)"

fun matchNode :: "byte \<Rightarrow> string list \<Rightarrow> 'h node \<Rightarrow> params \<Rightarrow> bool \<times> params" where
  "matchNode mm [] n ps = (handlerFor mm n \<noteq> None, ps)"
| "matchNode mm (seg # segs) n ps =
     (case try_static (\<lambda>c ps. matchNode mm segs c ps) seg (children n) ps of
        (True, ps') \<Rightarrow> (True, ps')
      | (False, ps') \<Rightarrow> try_param (\<lambda>c ps. matchNode mm segs c ps) seg (children n) ps')"

text \<open>
  The second walk down the tree, which is greedy: the first static child with this segment, else the
  first parameter child. The result is the node it ends at and whether it consumed all segments.
\<close>

fun greedy :: "string list \<Rightarrow> 'h node \<Rightarrow> 'h node \<times> bool" where
  "greedy [] n = (n, True)"
| "greedy (s # ss) n =
     (case List.find (\<lambda>c. \<not> isParam c \<and> segment c = s) (children n) of
        Some c \<Rightarrow> greedy ss c
      | None \<Rightarrow>
          (case List.find isParam (children n) of
             Some c \<Rightarrow> greedy ss c
           | None \<Rightarrow> (n, False)))"

definition onRequest :: "http_request \<Rightarrow> 'h router \<Rightarrow> 'h decision" where
  "onRequest req r =
     (let mm = methodToMask (rq_method req);
          notAllowed = Respond 405 ''Method Not Allowed''; notFound = Respond 404 ''Not Found'' in
      if mm = 0 then notAllowed
      else
        let uri = (case find_char (CHR ''?'') (rq_uri req) of Some q \<Rightarrow> take q (rq_uri req) | None \<Rightarrow> rq_uri req);
            norm = normalizePath uri in
        case staticRoutes r norm of
          Some hs \<Rightarrow>
            (case hs ! method_index (rq_method req) of
               Some h \<Rightarrow> Invoke h req
             | None \<Rightarrow> if list_ex (\<lambda>i. hs ! i \<noteq> None) [0..<5] then notAllowed else notFound)
        | None \<Rightarrow>
            let segs = splitPath norm in
            (case matchNode mm segs (rt_root r) Map.empty of
               (True, ps) \<Rightarrow>
                 (case handlerFor mm (fst (greedy segs (rt_root r))) of
                    Some h \<Rightarrow> Invoke h (setParams ps req)
                  | None \<Rightarrow> Silent)
             | (False, ps) \<Rightarrow>
                 (case greedy segs (rt_root r) of
                    (n, pathExists) \<Rightarrow> if pathExists \<and> methodMask n \<noteq> 0 then notAllowed else notFound)))"

section \<open>Paths\<close>

declare splitPath.simps(2) [simp del]

abbreviation slash :: char where "slash \<equiv> CHR ''/''"

lemma splitPath_slash [simp]: "splitPath (slash # s) = splitPath s"
  by (simp add: splitPath.simps)

lemma splitPath_word:
  assumes "w \<noteq> []" and "slash \<notin> set w" and "s = [] \<or> hd s = slash"
  shows "splitPath (w @ s) = w # splitPath s"
proof -
  obtain c w' where w: "w = c # w'" using assms(1) by (cases w) auto
  have t: "takeWhile (\<lambda>x. x \<noteq> slash) (w @ s) = w" "dropWhile (\<lambda>x. x \<noteq> slash) (w @ s) = s"
  proof -
    have w: "\<And>x. x \<in> set w \<Longrightarrow> x \<noteq> slash" using assms(2) by auto
    have "takeWhile (\<lambda>x. x \<noteq> slash) s = []" "dropWhile (\<lambda>x. x \<noteq> slash) s = s"
      using assms(3) by (cases s, simp_all)+
    then show "takeWhile (\<lambda>x. x \<noteq> slash) (w @ s) = w" "dropWhile (\<lambda>x. x \<noteq> slash) (w @ s) = s"
      using takeWhile_append2 [of w "\<lambda>x. x \<noteq> slash" s] dropWhile_append2 [of w "\<lambda>x. x \<noteq> slash" s] w
      by simp_all
  qed
  have "splitPath (w @ s) = takeWhile (\<lambda>x. x \<noteq> slash) (w @ s) # splitPath (dropWhile (\<lambda>x. x \<noteq> slash) (w @ s))"
    using assms(2) unfolding w by (auto simp: splitPath.simps(2))
  then show ?thesis unfolding t .
qed

text \<open>Words and separators: a string that does not start with a slash is a word followed by the rest.\<close>

lemma path_cases [case_names Nil slash word]:
  assumes "s = [] \<Longrightarrow> P" and "\<And>t. s = slash # t \<Longrightarrow> P"
    and "\<And>w t. s = w @ t \<Longrightarrow> w \<noteq> [] \<Longrightarrow> slash \<notin> set w \<Longrightarrow> t = [] \<or> hd t = slash \<Longrightarrow> P"
  shows P
proof (cases s)
  case (Cons c t)
  show ?thesis
  proof (cases "c = slash")
    case False
    let ?w = "takeWhile (\<lambda>x. x \<noteq> slash) s" and ?t = "dropWhile (\<lambda>x. x \<noteq> slash) s"
    have "s = ?w @ ?t" by simp
    moreover have "?w \<noteq> []" using Cons False by simp
    moreover have "slash \<notin> set ?w" by (auto dest: set_takeWhileD)
    moreover have "?t = [] \<or> hd ?t = slash" using hd_dropWhile [of "\<lambda>x. x \<noteq> slash" s] by auto
    ultimately show ?thesis by (rule assms(3))
  qed (use Cons assms(2) in simp)
qed (use assms(1) in simp)

lemma squeeze_word: "slash \<notin> set w \<Longrightarrow> w \<noteq> [] \<Longrightarrow> squeeze b (w @ t) = w @ squeeze False t"
proof (induction w arbitrary: b)
  case (Cons c w)
  then show ?case by (cases "w = []") auto
qed simp

lemma splitPath_squeeze: "splitPath (squeeze b s) = splitPath s"
proof (induction "length s" arbitrary: b s rule: less_induct)
  case less
  show ?case
  proof (cases s rule: path_cases)
    case (slash t)
    with less.hyps [of t] show ?thesis by simp
  next
    case (word w t)
    have t: "squeeze False t = [] \<or> hd (squeeze False t) = slash" using word(4) by (cases t) auto
    have "length t < length s" using word by simp
    with less.hyps [of t False] show ?thesis
      unfolding word(1) squeeze_word [OF word(3,2)] splitPath_word [OF word(2,3) t] splitPath_word [OF word(2,3,4)]
      by simp
  qed simp
qed

lemma splitPath_trailing: "splitPath (s @ [slash]) = splitPath s"
proof (induction "length s" arbitrary: s rule: less_induct)
  case less
  show ?case
  proof (cases s rule: path_cases)
    case Nil
    then show ?thesis by (simp add: splitPath.simps)
  next
    case (slash t)
    with less.hyps [of t] show ?thesis by simp
  next
    case (word w t)
    have t: "t @ [slash] = [] \<or> hd (t @ [slash]) = slash" using word(4) by (cases t) auto
    have "length t < length s" using word by simp
    with less.hyps [of t] show ?thesis
      unfolding word(1) append_assoc splitPath_word [OF word(2,3) t] splitPath_word [OF word(2,3,4)] by simp
  qed
qed

lemma splitPath_normalizePath: "splitPath (normalizePath s) = splitPath s"
proof -
  let ?out = "squeeze False s"
  have "splitPath ?out = splitPath (butlast ?out)" if "length ?out > 1" "last ?out = slash"
    using splitPath_trailing [of "butlast ?out"] that append_butlast_last_id [of ?out] by fastforce
  then show ?thesis using splitPath_squeeze [of False s] by (auto simp: normalizePath_def Let_def)
qed

lemma splitPath_segments: "seg \<in> set (splitPath s) \<Longrightarrow> seg \<noteq> [] \<and> slash \<notin> set seg"
proof (induction "length s" arbitrary: s rule: less_induct)
  case less
  show ?case
  proof (cases s rule: path_cases)
    case (word w t)
    have "length t < length s" using word by simp
    with less.hyps [of t] less.prems show ?thesis
      unfolding word(1) splitPath_word [OF word(2,3,4)] using word by auto
  next
    case (slash t)
    with less.hyps [of t] less.prems show ?thesis by simp
  qed (use less.prems in simp)
qed

lemma no_handlers_nth [simp]: "no_handlers ! method_index m = None"
  by (cases m) (simp_all add: no_handlers_def method_index_def)

section \<open>The interface of a route table\<close>

text \<open>
  A table of handler arrays: what the static map and the segment tree have in common. \<open>last_handler\<close>
  is the handler that the registrations so far assign to a key and a method index.
\<close>

fun last_handler :: "('k \<times> nat \<times> 'h option) list \<Rightarrow> 'k \<Rightarrow> nat \<Rightarrow> 'h option" where
  "last_handler [] k i = None"
| "last_handler ((k', i', h) # es) k i =
     (if (\<exists>h'. (k, i, h') \<in> set es) then last_handler es k i else if k = k' \<and> i = i' then h else None)"

locale route_table =
  fixes inv :: "'t \<Rightarrow> bool" and empty :: 't and lookup :: "'k \<Rightarrow> 't \<Rightarrow> 'h option list"
    and insert :: "'k \<Rightarrow> nat \<Rightarrow> 'h option \<Rightarrow> 't \<Rightarrow> 't"
  assumes inv_empty: "inv empty"
    and lookup_empty: "lookup k empty = no_handlers"
    and inv_insert: "inv t \<Longrightarrow> inv (insert k i h t)"
    and lookup_insert: "inv t \<Longrightarrow> lookup k' (insert k i h t) = (if k' = k then (lookup k t)[i := h] else lookup k' t)"
begin

fun build :: "('k \<times> nat \<times> 'h option) list \<Rightarrow> 't \<Rightarrow> 't" where
  "build [] t = t"
| "build ((k, i, h) # es) t = build es (insert k i h t)"

lemma build_inv: "inv t \<Longrightarrow> inv (build es t)"
  by (induction es t rule: build.induct) (simp_all add: inv_insert)

lemma build_length: "inv t \<Longrightarrow> \<forall>k. length (lookup k t) = 5 \<Longrightarrow> length (lookup k (build es t)) = 5"
  by (induction es t rule: build.induct) (simp_all add: inv_insert lookup_insert)

lemma lookup_build:
  assumes "inv t" and "\<forall>k. length (lookup k t) = 5" and "\<forall>(k, i, h) \<in> set es. i < 5" and "i < 5"
  shows "lookup k (build es t) ! i =
    (if \<exists>h. (k, i, h) \<in> set es then last_handler es k i else lookup k t ! i)"
  using assms(1-3)
proof (induction es t rule: build.induct)
  case (2 k' i' h es t)
  have "inv (insert k' i' h t)" "\<forall>k. length (lookup k (insert k' i' h t)) = 5"
    using 2 by (simp_all add: inv_insert lookup_insert)
  from 2(1) [OF this] 2(2-) assms(4) show ?case by (auto simp: lookup_insert nth_list_update)
qed simp

text \<open>From the empty table, each key and method has the handler registered last.\<close>

lemma lookup_registered:
  assumes "\<forall>(k, i, h) \<in> set es. i < 5" and "i < 5"
  shows "lookup k (build es empty) ! i = last_handler es k i"
proof -
  have "no_handlers ! i = None" using assms(2) by (auto simp: no_handlers_def less_Suc_eq numeral_eq_Suc)
  moreover have "last_handler es k i = None" if "\<not> (\<exists>h. (k, i, h) \<in> set es)"
    using that by (induction es k i rule: last_handler.induct) auto
  ultimately show ?thesis
    using lookup_build [OF inv_empty _ assms, of k] by (auto simp: lookup_empty no_handlers_def)
qed

end

section \<open>The static routes are a route table\<close>

definition static_lookup :: "string \<Rightarrow> (string \<rightharpoonup> 'h option list) \<Rightarrow> 'h option list" where
  "static_lookup k t = (case t k of Some hs \<Rightarrow> hs | None \<Rightarrow> no_handlers)"

definition static_insert :: "string \<Rightarrow> nat \<Rightarrow> 'h option \<Rightarrow> (string \<rightharpoonup> 'h option list) \<Rightarrow> (string \<rightharpoonup> 'h option list)" where
  "static_insert k i h t = t(k \<mapsto> (static_lookup k t)[i := h])"

interpretation st: route_table "\<lambda>_. True" Map.empty static_lookup static_insert
  by unfold_locales (auto simp: static_lookup_def static_insert_def)

section \<open>The segment tree is a route table\<close>

abbreviation node_key :: "'h node \<Rightarrow> string \<times> bool" where
  "node_key n \<equiv> (segment n, isParam n)"

fun wf_node :: "'h node \<Rightarrow> bool" where
  "wf_node (Node s p nm hs cs) \<longleftrightarrow> length hs = 5 \<and> distinct (map node_key cs) \<and> (p \<longrightarrow> nm = s) \<and> (\<forall>c \<in> set cs. wf_node c)"

fun lookup_route :: "(string \<times> bool) list \<Rightarrow> 'h node \<Rightarrow> 'h option list" where
  "lookup_route [] n = handlers n"
| "lookup_route ((key, p) # ks) n =
     (case findChild key p n of Some c \<Rightarrow> lookup_route ks c | None \<Rightarrow> no_handlers)"

lemma findChild_Some: "findChild key p n = Some c \<Longrightarrow> c \<in> set (children n) \<and> node_key c = (key, p)"
  by (auto simp: findChild_def find_Some_iff)

lemma findChild_None: "findChild key p n = None \<longleftrightarrow> (\<forall>c \<in> set (children n). node_key c \<noteq> (key, p))"
  by (auto simp: findChild_def find_None_iff)

lemma findChild_child:
  "wf_node n \<Longrightarrow> c \<in> set (children n) \<Longrightarrow> findChild (segment c) (isParam c) n = Some c"
proof (cases n)
  case (Node s p nm hs cs)
  assume "wf_node n" "c \<in> set (children n)"
  with Node have d: "distinct (map node_key cs)" "c \<in> set cs" by simp_all
  have "findChild (segment c) (isParam c) n \<noteq> None" using d Node by (auto simp: findChild_None)
  then obtain c' where c': "findChild (segment c) (isParam c) n = Some c'" by blast
  with findChild_Some [OF c'] d Node have "c' = c" by (auto simp: distinct_map dest: inj_onD)
  with c' show ?thesis by simp
qed

lemma wf_children: "wf_node n \<Longrightarrow> c \<in> set (children n) \<Longrightarrow> wf_node c"
  by (cases n) simp

lemma segment_insert [simp]: "segment (insert_route ks i h n) = segment n" "isParam (insert_route ks i h n) = isParam n"
  by (cases ks; auto)+

lemma name_param_simps [simp]:
  "segment (name_param p k n) = segment n" "isParam (name_param p k n) = isParam n"
  "handlers (name_param p k n) = handlers n" "children (name_param p k n) = children n"
  by (simp_all add: name_param_def)

lemma map_first_keys: "(\<And>x. g (f x) = g x) \<Longrightarrow> map g (map_first P f xs) = map g xs"
  by (induction xs) auto

lemma map_first_set: "x \<in> set (map_first P f xs) \<Longrightarrow> x \<in> set xs \<or> (\<exists>y \<in> set xs. P y \<and> x = f y)"
  by (induction xs) (auto split: if_splits)

lemma find_map_first:
  "(\<And>x. P (f x) = P x) \<Longrightarrow> List.find P (map_first P f xs) = map_option f (List.find P xs)"
  by (induction xs) auto

lemma find_map_first_other:
  "(\<And>x. Q (f x) = Q x) \<Longrightarrow> (\<And>x. \<not> (P x \<and> Q x)) \<Longrightarrow> List.find Q (map_first P f xs) = List.find Q xs"
  by (induction xs) auto

lemma wf_name_param: "wf_node c \<Longrightarrow> segment c = key \<Longrightarrow> wf_node (name_param p key c)"
  by (cases c) (auto simp: name_param_def)

lemma wf_fresh [simp]: "wf_node (fresh_node key p)"
  by (simp add: fresh_node_def no_handlers_def)

lemma wf_insert_route: "wf_node n \<Longrightarrow> wf_node (insert_route ks i h n)"
proof (induction ks arbitrary: n)
  case Nil
  then show ?case by (cases n) simp
next
  case (Cons kp ks)
  obtain key p where kp: "kp = (key, p)" by (cases kp)
  obtain s q nm hs cs where n: "n = Node s q nm hs cs" by (cases n)
  show ?case
  proof (cases "findChild key p n")
    case None
    let ?c = "insert_route ks i h (name_param p key (fresh_node key p))"
    have "wf_node ?c" by (intro Cons.IH wf_name_param wf_fresh) (simp add: fresh_node_def)
    moreover have "node_key ?c = (key, p)" by (simp add: fresh_node_def)
    moreover have "(key, p) \<notin> node_key ` set cs" using None n by (auto simp: findChild_None)
    moreover have "insert_route (kp # ks) i h n = Node s q nm hs (cs @ [?c])" using None n kp by simp
    ultimately show ?thesis using Cons.prems n by auto
  next
    case (Some c0)
    let ?f = "\<lambda>c. insert_route ks i h (name_param p key c)"
    let ?P = "\<lambda>c. isParam c = p \<and> segment c = key"
    have "map node_key (map_first ?P ?f cs) = map node_key cs" by (rule map_first_keys) simp
    moreover have "wf_node x" if "x \<in> set (map_first ?P ?f cs)" for x
      using map_first_set [OF that] Cons.prems n by (auto intro!: Cons.IH wf_name_param)
    ultimately show ?thesis using Cons.prems n kp Some by simp
  qed
qed

lemma lookup_fresh [simp]: "lookup_route ks (fresh_node key p) = no_handlers"
  by (cases ks) (auto simp: fresh_node_def findChild_def)

lemma lookup_name_param [simp]: "lookup_route ks (name_param p key c) = lookup_route ks c"
  by (cases ks) (auto simp: findChild_def split: option.splits)

lemma find_append: "List.find P (xs @ ys) = (case List.find P xs of Some x \<Rightarrow> Some x | None \<Rightarrow> List.find P ys)"
  by (induction xs) auto

lemma findChild_insert:
  "findChild key' p' (insert_route ((key, p) # ks) i h n) =
     (if (key', p') = (key, p)
      then Some (insert_route ks i h (name_param p key
             (case findChild key p n of Some c \<Rightarrow> c | None \<Rightarrow> fresh_node key p)))
      else findChild key' p' n)"
proof (cases "findChild key p n")
  case None
  let ?c = "insert_route ks i h (name_param p key (fresh_node key p))"
  have "node_key ?c = (key, p)" by (simp add: fresh_node_def)
  with None show ?thesis by (auto simp: findChild_def find_append split: option.splits)
next
  case (Some c)
  let ?f = "\<lambda>c. insert_route ks i h (name_param p key c)"
  have same: "List.find (\<lambda>c. isParam c = p \<and> segment c = key)
      (map_first (\<lambda>c. isParam c = p \<and> segment c = key) ?f (children n)) = Some (?f c)"
    using Some by (subst find_map_first) (simp_all add: findChild_def)
  have other: "List.find (\<lambda>c. isParam c = p' \<and> segment c = key')
      (map_first (\<lambda>c. isParam c = p \<and> segment c = key) ?f (children n))
    = List.find (\<lambda>c. isParam c = p' \<and> segment c = key') (children n)" if "(key', p') \<noteq> (key, p)"
    using that by (intro find_map_first_other) auto
  show ?thesis using Some same other by (auto simp: findChild_def)
qed

lemma lookup_insert_route:
  "wf_node n \<Longrightarrow> lookup_route ks' (insert_route ks i h n) =
     (if ks' = ks then (lookup_route ks n)[i := h] else lookup_route ks' n)"
proof (induction ks arbitrary: n ks')
  case Nil
  then show ?case by (cases ks') (auto simp: findChild_def split: option.splits)
next
  case (Cons kp ks)
  note IH = Cons.IH and wf = Cons.prems
  obtain key p where kp: "kp = (key, p)" by (cases kp)
  show ?case
  proof (cases ks')
    case Nil
    then show ?thesis using kp by simp
  next
    case (Cons kp' ks'')
    obtain key' p' where kp': "kp' = (key', p')" by (cases kp')
    define c where "c = (case findChild key p n of Some c \<Rightarrow> c | None \<Rightarrow> fresh_node key p)"
    have f: "segment (fresh_node key p) = key" by (simp add: fresh_node_def)
    have c: "wf_node c" "segment c = key" "lookup_route ks'' c = lookup_route ((key, p) # ks'') n"
      "lookup_route ks c = lookup_route ((key, p) # ks) n"
      using wf_children [OF wf] findChild_Some [of key p n]
      by (auto simp: c_def f split: option.splits)
    show ?thesis
      using IH [OF wf_name_param [OF c(1,2), of p], of ks''] c(3,4)
      unfolding kp kp' Cons lookup_route.simps(2) [of key' p'] findChild_insert by (auto simp: c_def)
  qed
qed

interpretation tree: route_table wf_node root_node lookup_route insert_route
proof
  show "wf_node (root_node :: 'a node)" by (simp add: root_node_def no_handlers_def)
  fix k show "lookup_route k (root_node :: 'a node) = no_handlers"
    by (cases k) (auto simp: root_node_def findChild_def)
qed (simp_all add: wf_insert_route lookup_insert_route)

section \<open>Matching\<close>

text \<open>A pattern matches a request segment by segment: parameters match anything.\<close>

definition pattern_matches :: "(string \<times> bool) list \<Rightarrow> string list \<Rightarrow> bool" where
  "pattern_matches ks segs = list_all2 (\<lambda>(key, p) seg. p \<or> key = seg) ks segs"

fun accepts :: "byte \<Rightarrow> string list \<Rightarrow> 'h node \<Rightarrow> bool" where
  "accepts mm [] n \<longleftrightarrow> handlerFor mm n \<noteq> None"
| "accepts mm (seg # segs) n \<longleftrightarrow> (\<exists>c \<in> set (children n). (isParam c \<or> segment c = seg) \<and> accepts mm segs c)"

lemma try_static_fst:
  "fst (try_static f seg cs ps) \<longleftrightarrow> (\<exists>c \<in> set cs. \<not> isParam c \<and> segment c = seg \<and> A c)"
  if "\<And>c ps. fst (f c ps) = A c"
  using that by (induction cs arbitrary: ps) (auto split: prod.splits bool.splits, (metis fst_conv)+)

lemma try_param_fst:
  "fst (try_param f seg cs ps) \<longleftrightarrow> (\<exists>c \<in> set cs. isParam c \<and> A c)"
  if "\<And>c ps. fst (f c ps) = A c"
  using that by (induction cs arbitrary: ps) (auto split: prod.splits bool.splits, (metis fst_conv)+)

lemma matchNode_accepts: "fst (matchNode mm segs n ps) = accepts mm segs n"
proof (induction segs arbitrary: n ps)
  case (Cons seg segs)
  note t = try_static_fst [of "\<lambda>c ps. matchNode mm segs c ps", OF Cons.IH]
    try_param_fst [of "\<lambda>c ps. matchNode mm segs c ps", OF Cons.IH]
  show ?case
  proof (cases "try_static (\<lambda>c ps. matchNode mm segs c ps) seg (children n) ps")
    case (Pair b ps')
    with t(1) [of seg "children n" ps] t(2) [of seg "children n" ps'] show ?thesis by (cases b) auto
  qed
qed simp

lemma handlerFor_method:
  assumes "length (handlers n) = 5" and "methodToMask m \<noteq> 0"
  shows "handlerFor (methodToMask m) n = handlers n ! method_index m"
proof -
  have u: "[0..<5] = [0, 1, 2, 3, 4 :: nat]" by (simp add: upt_rec)
  show ?thesis using assms(2)
    by (cases m) (auto simp: handlerFor_def methodToMask_def method_index_def u split: if_splits)
qed

lemma accepts_iff_pattern:
  assumes "wf_node n" and "methodToMask m \<noteq> 0"
  shows "accepts (methodToMask m) segs n \<longleftrightarrow>
    (\<exists>ks. pattern_matches ks segs \<and> lookup_route ks n ! method_index m \<noteq> None)"
  using assms(1)
proof (induction segs arbitrary: n)
  case Nil
  then have "length (handlers n) = 5" by (cases n) simp
  then show ?case by (simp add: handlerFor_method [OF _ assms(2)] pattern_matches_def)
next
  case (Cons seg segs)
  show ?case
  proof
    assume "accepts (methodToMask m) (seg # segs) n"
    then obtain c where c: "c \<in> set (children n)" "isParam c \<or> segment c = seg" "accepts (methodToMask m) segs c" by auto
    then obtain ks where "pattern_matches ks segs" "lookup_route ks c ! method_index m \<noteq> None"
      using Cons.IH [OF wf_children [OF Cons.prems c(1)]] by blast
    with findChild_child [OF Cons.prems c(1)] c(2)
    show "\<exists>ks. pattern_matches ks (seg # segs) \<and> lookup_route ks n ! method_index m \<noteq> None"
      by (intro exI [of _ "node_key c # ks"]) (auto simp: pattern_matches_def)
  next
    assume "\<exists>ks. pattern_matches ks (seg # segs) \<and> lookup_route ks n ! method_index m \<noteq> None"
    then obtain ks0 where k0: "pattern_matches ks0 (seg # segs)" "lookup_route ks0 n ! method_index m \<noteq> None" by blast
    obtain key p ks where ks0: "ks0 = (key, p) # ks" using k0(1) by (cases ks0) (auto simp: pattern_matches_def)
    have k: "p \<or> key = seg" "pattern_matches ks segs" "lookup_route ((key, p) # ks) n ! method_index m \<noteq> None"
      using k0 unfolding ks0 by (simp_all add: pattern_matches_def)
    then obtain c where c: "findChild key p n = Some c" "lookup_route ks c ! method_index m \<noteq> None"
      by (auto split: option.splits)
    note f = findChild_Some [OF c(1)]
    then have "accepts (methodToMask m) segs c"
      using Cons.IH [OF wf_children [OF Cons.prems]] k(2) c(2) by blast
    with f k(1) show "accepts (methodToMask m) (seg # segs) n" by auto
  qed
qed

section \<open>Registered routes\<close>

type_synonym 'h route = "http_method \<times> string \<times> 'h option"

fun add_routes :: "'h route list \<Rightarrow> 'h router \<Rightarrow> 'h router" where
  "add_routes [] r = r"
| "add_routes ((m, path, h) # rs) r = add_routes rs (addRoute m path h r)"

definition is_static :: "string \<Rightarrow> bool" where
  "is_static path \<longleftrightarrow> splitPath path \<noteq> [] \<and> \<not> list_ex (\<lambda>seg. seg \<noteq> [] \<and> hd seg = CHR '':'') (splitPath path)"

definition static_entries :: "'h route list \<Rightarrow> (string \<times> nat \<times> 'h option) list" where
  "static_entries rs = [(normalizePath path, method_index m, h). (m, path, h) \<leftarrow> rs, is_static path]"

definition tree_entries :: "'h route list \<Rightarrow> ((string \<times> bool) list \<times> nat \<times> 'h option) list" where
  "tree_entries rs = [(map route_key (splitPath path), method_index m, h). (m, path, h) \<leftarrow> rs, \<not> is_static path]"

lemma add_routes_tables:
  "staticRoutes (add_routes rs r) = st.build (static_entries rs) (staticRoutes r)"
  "rt_root (add_routes rs r) = tree.build (tree_entries rs) (rt_root r)"
  by (induction rs r rule: add_routes.induct)
    (auto simp: static_entries_def tree_entries_def addRoute_def Let_def splitPath_normalizePath is_static_def
      static_insert_def static_lookup_def)

lemma method_index_less: "method_index m < 5"
  by (cases m) (simp_all add: method_index_def)

lemma entries_less:
  "\<forall>(k, i, h) \<in> set (static_entries rs). i < 5" "\<forall>(k, i, h) \<in> set (tree_entries rs). i < 5"
  by (auto simp: static_entries_def tree_entries_def method_index_less)

text \<open>
  Trees in which no node offers a choice: a parameter child is an only child. On them the backtracking
  match and the greedy walk agree.
\<close>

fun unambiguous :: "'h node \<Rightarrow> bool" where
  "unambiguous (Node s p nm hs cs) \<longleftrightarrow>
     (\<forall>c \<in> set cs. isParam c \<longrightarrow> cs = [c]) \<and> (\<forall>c \<in> set cs. unambiguous c)"

fun bind_params :: "(string \<times> bool) list \<Rightarrow> string list \<Rightarrow> params \<Rightarrow> params" where
  "bind_params ((key, p) # ks) (seg # segs) ps = bind_params ks segs (if p then ps(key \<mapsto> seg) else ps)"
| "bind_params _ _ ps = ps"

lemma try_static_distinct:
  assumes "distinct (map node_key cs)" and "c \<in> set cs" and "\<not> isParam c"
    and "f c ps = (True, ps')"
  shows "try_static f (segment c) cs ps = (True, ps')"
  using assms by (induction cs) (auto simp: image_iff)

lemma find_distinct:
  assumes "distinct (map node_key cs)" and "c \<in> set cs" and "\<not> isParam c"
  shows "List.find (\<lambda>x. \<not> isParam x \<and> segment x = segment c) cs = Some c"
  using assms by (induction cs) (auto simp: image_iff)

lemma unambiguous_match:
  assumes "unambiguous n" and "wf_node n" and "pattern_matches ks segs" and "methodToMask m \<noteq> 0"
    and "lookup_route ks n ! method_index m = Some h"
  shows "matchNode (methodToMask m) segs n ps = (True, bind_params ks segs ps)
    \<and> handlerFor (methodToMask m) (fst (greedy segs n)) = Some h"
  using assms(1-3,5)
proof (induction segs arbitrary: n ks ps)
  case Nil
  then have "ks = []" "length (handlers n) = 5" by (auto simp: pattern_matches_def) (cases n, simp)
  with Nil show ?case by (simp add: handlerFor_method [OF _ assms(4)])
next
  case (Cons seg segs)
  obtain key p ks' where ks: "ks = (key, p) # ks'" "p \<or> key = seg" "pattern_matches ks' segs"
    using Cons.prems(3) by (cases ks) (auto simp: pattern_matches_def)
  obtain s q nm hs cs where n: "n = Node s q nm hs cs" by (cases n)
  obtain c where c: "findChild key p n = Some c" "lookup_route ks' c ! method_index m = Some h"
    using Cons.prems(4) ks by (auto split: option.splits)
  have cc: "c \<in> set cs" "segment c = key" "isParam c = p" using findChild_Some [OF c(1)] n by auto
  have u: "unambiguous c" "wf_node c" "distinct (map node_key cs)" using Cons.prems cc n by auto
  note IH = Cons.IH [OF u(1,2) ks(3) c(2)]
  show ?case
  proof (cases p)
    case True
    have one: "cs = [c]" using Cons.prems(1) cc True n by auto
    have "paramName c = key" using u(2) cc True by (cases c) auto
    then show ?thesis using IH one cc True ks n by (simp add: fun_upd_def)
  next
    case False
    then have seg: "segment c = seg" using ks cc by simp
    from try_static_distinct [OF u(3) cc(1), of "\<lambda>c ps. matchNode (methodToMask m) segs c ps" ps] find_distinct [OF u(3) cc(1)]
    show ?thesis using IH cc False ks n seg by simp
  qed
qed

section \<open>Properties\<close>

lemma tree_lookup:
  "lookup_route ks (rt_root (add_routes rs router_new)) ! method_index m = last_handler (tree_entries rs) ks (method_index m)"
  "wf_node (rt_root (add_routes rs router_new))"
  using tree.lookup_registered [OF entries_less(2) [of rs] method_index_less, of ks m]
    tree.build_inv [OF tree.inv_empty, of "tree_entries rs"]
  by (simp_all add: add_routes_tables router_new_def)

lemma static_lookup_routes:
  "static_lookup k (staticRoutes (add_routes rs router_new)) ! method_index m
     = last_handler (static_entries rs) k (method_index m)"
  using st.lookup_registered [OF entries_less(1) [of rs] method_index_less, of k m]
  by (simp add: add_routes_tables router_new_def)

text \<open>Normalising a path never changes its segments: double and trailing slashes do not matter to routing,
  and every segment is non-empty and free of slashes.\<close>

theorem normalizePath_keeps_segments:
  "splitPath (normalizePath path) = splitPath path \<and> (\<forall>seg \<in> set (splitPath path). seg \<noteq> [] \<and> slash \<notin> set seg)"
  using splitPath_normalizePath splitPath_segments by blast

theorem normalizePath_keeps_segments_witness:
  "splitPath (normalizePath ''//a///b/'') = splitPath ''//a///b/'' \<and> splitPath ''//a///b/'' = [''a'', ''b'']"
  using normalizePath_keeps_segments [of "''//a///b/''"] by (simp add: splitPath.simps)

text \<open>A static route is dispatched to: after any sequence of registrations, a request whose path
  normalises to a static route is handed, unchanged, to the handler registered last for that path and
  method.\<close>

theorem static_route_dispatch:
  assumes "methodToMask (rq_method req) \<noteq> 0"
    and "find_char (CHR ''?'') (rq_uri req) = None"
    and "last_handler (static_entries rs) (normalizePath (rq_uri req)) (method_index (rq_method req)) = Some h"
  shows "onRequest req (add_routes rs router_new) = Invoke h req"
proof -
  let ?t = "staticRoutes (add_routes rs router_new)" and ?k = "normalizePath (rq_uri req)"
  have l: "static_lookup ?k ?t ! method_index (rq_method req) = Some h"
    using assms(3) by (simp add: static_lookup_routes)
  then obtain hs where "?t ?k = Some hs" "hs ! method_index (rq_method req) = Some h"
    by (auto simp: static_lookup_def split: option.splits)
  with assms show ?thesis by (simp add: onRequest_def Let_def)
qed

theorem static_route_dispatch_witness:
  "onRequest (http_request_new\<lparr>rq_method := M_GET, rq_uri := ''/a//b/''\<rparr>)
     (add_routes [(M_GET, ''/a/b'', Some (1::nat)), (M_POST, ''/a/b'', Some 2), (M_GET, ''/a/b/'', Some 3)] router_new)
   = Invoke 3 (http_request_new\<lparr>rq_method := M_GET, rq_uri := ''/a//b/''\<rparr>)"
  by (rule static_route_dispatch)
    (simp_all add: methodToMask_def http_request_new_def static_entries_def is_static_def splitPath.simps
      normalizePath_def method_index_def)

text \<open>C24. Matching is exact: after any sequence of registrations, the tree search succeeds on a request path
  exactly when some registered pattern matches it segment by segment and the handler registered last for
  that pattern and the method is not empty.\<close>

theorem matchNode_exact:
  assumes "methodToMask m \<noteq> 0"
  shows "fst (matchNode (methodToMask m) segs (rt_root (add_routes rs router_new)) ps) \<longleftrightarrow>
    (\<exists>ks. pattern_matches ks segs \<and> last_handler (tree_entries rs) ks (method_index m) \<noteq> None)"
  using accepts_iff_pattern [OF tree_lookup(2) assms] by (simp add: matchNode_accepts tree_lookup(1))

theorem matchNode_exact_witness:
  "fst (matchNode (methodToMask M_GET) [''u'', ''7''] (rt_root (add_routes [(M_GET, ''/u/:id'', Some (1::nat))] router_new)) Map.empty)
   \<longleftrightarrow> (\<exists>ks. pattern_matches ks [''u'', ''7''] \<and>
        last_handler (tree_entries [(M_GET, ''/u/:id'', Some (1::nat))]) ks (method_index M_GET) \<noteq> None)"
  by (rule matchNode_exact) (simp add: methodToMask_def)

text \<open>On an unambiguous tree a parameterised route is dispatched to: a request that matches a registered
  pattern is handed to that pattern's handler, with every parameter bound to its segment.\<close>

theorem param_route_dispatch:
  assumes "methodToMask (rq_method req) \<noteq> 0" and "find_char (CHR ''?'') (rq_uri req) = None"
    and "unambiguous (rt_root (add_routes rs router_new))"
    and "staticRoutes (add_routes rs router_new) (normalizePath (rq_uri req)) = None"
    and "pattern_matches ks (splitPath (rq_uri req))"
    and "last_handler (tree_entries rs) ks (method_index (rq_method req)) = Some h"
  shows "onRequest req (add_routes rs router_new) =
    Invoke h (setParams (bind_params ks (splitPath (rq_uri req)) Map.empty) req)"
  using unambiguous_match [OF assms(3) tree_lookup(2) assms(5,1), of h Map.empty] assms
  by (simp add: onRequest_def Let_def splitPath_normalizePath tree_lookup(1))

theorem param_route_dispatch_witness:
  "onRequest (http_request_new\<lparr>rq_method := M_GET, rq_uri := ''/u/7''\<rparr>)
     (add_routes [(M_GET, ''/u/:id'', Some (1::nat))] router_new)
   = Invoke 1 (setParams [''id'' \<mapsto> ''7''] (http_request_new\<lparr>rq_method := M_GET, rq_uri := ''/u/7''\<rparr>))"
proof -
  let ?rs = "[(M_GET, ''/u/:id'', Some (1::nat))]"
  have k: "map route_key (splitPath (normalizePath ''/u/:id'')) = [(''u'', False), (''id'', True)]"
    by (simp add: splitPath.simps normalizePath_def route_key_def isParamName_def)
  have r: "add_routes ?rs router_new = \<lparr>staticRoutes = Map.empty,
     rt_root = insert_route [(''u'', False), (''id'', True)] 0 (Some 1) root_node\<rparr>"
    using k by (simp add: addRoute_def Let_def splitPath_normalizePath router_new_def method_index_def)
      (simp add: splitPath.simps)
  have u: "unambiguous (rt_root (add_routes ?rs router_new))"
    unfolding r by (simp add: root_node_def findChild_def fresh_node_def name_param_def)
  define req where "req = http_request_new\<lparr>rq_method := M_GET, rq_uri := ''/u/7''\<rparr>"
  have q: "rq_method req = M_GET" "rq_uri req = ''/u/7''" by (simp_all add: req_def http_request_new_def)
  have s: "splitPath (rq_uri req) = [''u'', ''7'']" unfolding q by (simp add: splitPath.simps)
  have m: "methodToMask (rq_method req) \<noteq> 0" "find_char (CHR ''?'') (rq_uri req) = None"
    unfolding q by (simp_all add: methodToMask_def)
  have t: "staticRoutes (add_routes ?rs router_new) (normalizePath (rq_uri req)) = None" unfolding r by simp
  have p: "pattern_matches [(''u'', False), (''id'', True)] (splitPath (rq_uri req))"
    unfolding s by (simp add: pattern_matches_def)
  have "\<not> is_static ''/u/:id''" by (simp add: is_static_def splitPath.simps)
  then have "tree_entries ?rs = [([(''u'', False), (''id'', True)], 0, Some 1)]"
    using k by (simp add: tree_entries_def splitPath_normalizePath method_index_def)
  then have h: "last_handler (tree_entries ?rs) [(''u'', False), (''id'', True)] (method_index (rq_method req)) = Some 1"
    unfolding q by (simp add: method_index_def)
  show ?thesis using param_route_dispatch [OF m u t p h] unfolding s req_def [symmetric] by simp
qed

text \<open>With the routes \<open>/a/b/:y/d\<close> and \<open>/a/:x/c\<close> a request for \<open>/a/b/c\<close> matches the second, but the walk that
  looks the handler up does not backtrack and ends at a node without one: no handler is called and no
  response is written.\<close>

theorem greedy_walk_drops_request:
  "let r = add_routes [(M_GET, ''/a/b/:y/d'', Some (1::nat)), (M_GET, ''/a/:x/c'', Some 2)] router_new in
   fst (matchNode (methodToMask M_GET) [''a'', ''b'', ''c''] (rt_root r) Map.empty)
   \<and> onRequest (http_request_new\<lparr>rq_method := M_GET, rq_uri := ''/a/b/c''\<rparr>) r = Silent"
proof -
  let ?r = "add_routes [(M_GET, ''/a/b/:y/d'', Some (1::nat)), (M_GET, ''/a/:x/c'', Some 2)] router_new"
  have m: "fst (matchNode (methodToMask M_GET) [''a'', ''b'', ''c''] (rt_root ?r) Map.empty)" by code_simp
  have "case onRequest (http_request_new\<lparr>rq_method := M_GET, rq_uri := ''/a/b/c''\<rparr>) ?r of
      Silent \<Rightarrow> True | _ \<Rightarrow> False" by code_simp
  with m show ?thesis unfolding Let_def by (simp split: decision.splits)
qed

end
