(* ===== verification/HttpResponse.thy ===== *)
theory HttpResponse
  imports ByteBuf HttpRequest
begin

text \<open>
  Status codes and responses (\<open>include/xnetty/http/http_status.h\<close>, \<open>src/http/http_status.cpp\<close>,
  \<open>include/xnetty/http/http_response.h\<close>, \<open>src/http/http_response.cpp\<close>).

  Text is \<open>string\<close> and becomes bytes when it is copied into a buffer. Serialisation is modelled at the
  level of the code: the size is computed first, room is made, and the pieces are copied one by one to
  \<open>p + off\<close>, each copy checked against the block. \<open>response_text\<close> is the text that should appear.
\<close>

section \<open>Status codes\<close>

datatype http_status =
    ST_CONTINUE
  | ST_SWITCHING_PROTOCOLS
  | ST_OK
  | ST_CREATED
  | ST_ACCEPTED
  | ST_NO_CONTENT
  | ST_PARTIAL_CONTENT
  | ST_MOVED_PERMANENTLY
  | ST_FOUND
  | ST_NOT_MODIFIED
  | ST_TEMPORARY_REDIRECT
  | ST_PERMANENT_REDIRECT
  | ST_BAD_REQUEST
  | ST_UNAUTHORIZED
  | ST_FORBIDDEN
  | ST_NOT_FOUND
  | ST_METHOD_NOT_ALLOWED
  | ST_NOT_ACCEPTABLE
  | ST_REQUEST_TIMEOUT
  | ST_CONFLICT
  | ST_GONE
  | ST_LENGTH_REQUIRED
  | ST_PRECONDITION_FAILED
  | ST_PAYLOAD_TOO_LARGE
  | ST_URI_TOO_LONG
  | ST_UNSUPPORTED_MEDIA_TYPE
  | ST_UNPROCESSABLE_ENTITY
  | ST_TOO_EARLY
  | ST_UPGRADE_REQUIRED
  | ST_PRECONDITION_REQUIRED
  | ST_TOO_MANY_REQUESTS
  | ST_REQUEST_HEADER_FIELDS_TOO_LARGE
  | ST_UNAVAILABLE_FOR_LEGAL_REASONS
  | ST_INTERNAL_SERVER_ERROR
  | ST_NOT_IMPLEMENTED
  | ST_BAD_GATEWAY
  | ST_SERVICE_UNAVAILABLE
  | ST_GATEWAY_TIMEOUT
  | ST_HTTP_VERSION_NOT_SUPPORTED

fun status_code :: "http_status \<Rightarrow> nat" where
  "status_code ST_CONTINUE = 100"
| "status_code ST_SWITCHING_PROTOCOLS = 101"
| "status_code ST_OK = 200"
| "status_code ST_CREATED = 201"
| "status_code ST_ACCEPTED = 202"
| "status_code ST_NO_CONTENT = 204"
| "status_code ST_PARTIAL_CONTENT = 206"
| "status_code ST_MOVED_PERMANENTLY = 301"
| "status_code ST_FOUND = 302"
| "status_code ST_NOT_MODIFIED = 304"
| "status_code ST_TEMPORARY_REDIRECT = 307"
| "status_code ST_PERMANENT_REDIRECT = 308"
| "status_code ST_BAD_REQUEST = 400"
| "status_code ST_UNAUTHORIZED = 401"
| "status_code ST_FORBIDDEN = 403"
| "status_code ST_NOT_FOUND = 404"
| "status_code ST_METHOD_NOT_ALLOWED = 405"
| "status_code ST_NOT_ACCEPTABLE = 406"
| "status_code ST_REQUEST_TIMEOUT = 408"
| "status_code ST_CONFLICT = 409"
| "status_code ST_GONE = 410"
| "status_code ST_LENGTH_REQUIRED = 411"
| "status_code ST_PRECONDITION_FAILED = 412"
| "status_code ST_PAYLOAD_TOO_LARGE = 413"
| "status_code ST_URI_TOO_LONG = 414"
| "status_code ST_UNSUPPORTED_MEDIA_TYPE = 415"
| "status_code ST_UNPROCESSABLE_ENTITY = 422"
| "status_code ST_TOO_EARLY = 425"
| "status_code ST_UPGRADE_REQUIRED = 426"
| "status_code ST_PRECONDITION_REQUIRED = 428"
| "status_code ST_TOO_MANY_REQUESTS = 429"
| "status_code ST_REQUEST_HEADER_FIELDS_TOO_LARGE = 431"
| "status_code ST_UNAVAILABLE_FOR_LEGAL_REASONS = 451"
| "status_code ST_INTERNAL_SERVER_ERROR = 500"
| "status_code ST_NOT_IMPLEMENTED = 501"
| "status_code ST_BAD_GATEWAY = 502"
| "status_code ST_SERVICE_UNAVAILABLE = 503"
| "status_code ST_GATEWAY_TIMEOUT = 504"
| "status_code ST_HTTP_VERSION_NOT_SUPPORTED = 505"

fun status_reason :: "http_status \<Rightarrow> string" where
  "status_reason ST_CONTINUE = ''Continue''"
| "status_reason ST_SWITCHING_PROTOCOLS = ''Switching Protocols''"
| "status_reason ST_OK = ''OK''"
| "status_reason ST_CREATED = ''Created''"
| "status_reason ST_ACCEPTED = ''Accepted''"
| "status_reason ST_NO_CONTENT = ''No Content''"
| "status_reason ST_PARTIAL_CONTENT = ''Partial Content''"
| "status_reason ST_MOVED_PERMANENTLY = ''Moved Permanently''"
| "status_reason ST_FOUND = ''Found''"
| "status_reason ST_NOT_MODIFIED = ''Not Modified''"
| "status_reason ST_TEMPORARY_REDIRECT = ''Temporary Redirect''"
| "status_reason ST_PERMANENT_REDIRECT = ''Permanent Redirect''"
| "status_reason ST_BAD_REQUEST = ''Bad Request''"
| "status_reason ST_UNAUTHORIZED = ''Unauthorized''"
| "status_reason ST_FORBIDDEN = ''Forbidden''"
| "status_reason ST_NOT_FOUND = ''Not Found''"
| "status_reason ST_METHOD_NOT_ALLOWED = ''Method Not Allowed''"
| "status_reason ST_NOT_ACCEPTABLE = ''Not Acceptable''"
| "status_reason ST_REQUEST_TIMEOUT = ''Request Timeout''"
| "status_reason ST_CONFLICT = ''Conflict''"
| "status_reason ST_GONE = ''Gone''"
| "status_reason ST_LENGTH_REQUIRED = ''Length Required''"
| "status_reason ST_PRECONDITION_FAILED = ''Precondition Failed''"
| "status_reason ST_PAYLOAD_TOO_LARGE = ''Payload Too Large''"
| "status_reason ST_URI_TOO_LONG = ''URI Too Long''"
| "status_reason ST_UNSUPPORTED_MEDIA_TYPE = ''Unsupported Media Type''"
| "status_reason ST_UNPROCESSABLE_ENTITY = ''Unprocessable Entity''"
| "status_reason ST_TOO_EARLY = ''Too Early''"
| "status_reason ST_UPGRADE_REQUIRED = ''Upgrade Required''"
| "status_reason ST_PRECONDITION_REQUIRED = ''Precondition Required''"
| "status_reason ST_TOO_MANY_REQUESTS = ''Too Many Requests''"
| "status_reason ST_REQUEST_HEADER_FIELDS_TOO_LARGE = ''Request Header Fields Too Large''"
| "status_reason ST_UNAVAILABLE_FOR_LEGAL_REASONS = ''Unavailable For Legal Reasons''"
| "status_reason ST_INTERNAL_SERVER_ERROR = ''Internal Server Error''"
| "status_reason ST_NOT_IMPLEMENTED = ''Not Implemented''"
| "status_reason ST_BAD_GATEWAY = ''Bad Gateway''"
| "status_reason ST_SERVICE_UNAVAILABLE = ''Service Unavailable''"
| "status_reason ST_GATEWAY_TIMEOUT = ''Gateway Timeout''"
| "status_reason ST_HTTP_VERSION_NOT_SUPPORTED = ''HTTP Version Not Supported''"

definition status_eq :: "http_status \<Rightarrow> http_status \<Rightarrow> bool" where
  "status_eq a b \<longleftrightarrow> status_code a = status_code b"

section \<open>Decimal numbers\<close>

text \<open>\<open>std::to_string\<close> and \<open>std::to_chars\<close>, and the loop that counts the digits.\<close>

definition digit :: "nat \<Rightarrow> char" where
  "digit n = char_of (48 + n)"

fun decimal :: "nat \<Rightarrow> string" where
  "decimal n = (if n < 10 then [digit n] else decimal (n div 10) @ [digit (n mod 10)])"

fun count_digits :: "nat \<Rightarrow> nat" where
  "count_digits n = (if n div 10 > 0 then 1 + count_digits (n div 10) else 1)"

declare decimal.simps [simp del] count_digits.simps [simp del]

section \<open>Responses\<close>

record http_response =
  rs_status :: http_status
  rs_headers :: "(string \<times> string) list"
  rs_body :: string
  statusLine :: string
  keepAlive :: bool
  contentLengthSet :: bool
  contentTypeSet :: bool
  connectionSet :: bool

definition http_response_new :: http_response where
  "http_response_new = \<lparr>rs_status = ST_OK, rs_headers = [], rs_body = [],
     statusLine = ''HTTP/1.1 200 OK'' @ CRLF, keepAlive = True, contentLengthSet = False,
     contentTypeSet = False, connectionSet = False\<rparr>"

definition setStatus :: "http_status \<Rightarrow> http_response \<Rightarrow> http_response" where
  "setStatus st r = r\<lparr>rs_status := st,
     statusLine := ''HTTP/1.1 '' @ decimal (status_code st) @ '' '' @ status_reason st @ CRLF\<rparr>"

text \<open>The loop shared by the setters: overwrite the first header with this key, or append one.\<close>

fun upsert :: "string \<Rightarrow> string \<Rightarrow> (string \<times> string) list \<Rightarrow> (string \<times> string) list" where
  "upsert key value [] = [(key, value)]"
| "upsert key value ((k, v) # hs) = (if k = key then (k, value) # hs else (k, v) # upsert key value hs)"

definition rs_setHeader :: "string \<Rightarrow> string \<Rightarrow> http_response \<Rightarrow> http_response" where
  "rs_setHeader key value r =
     (let r = (if key = ''Connection'' then r\<lparr>connectionSet := True\<rparr> else r)
      in r\<lparr>rs_headers := upsert key value (rs_headers r)\<rparr>)"

definition rs_hasHeader :: "string \<Rightarrow> http_response \<Rightarrow> bool" where
  "rs_hasHeader key r = list_ex (\<lambda>(k, v). k = key) (rs_headers r)"

definition setContentType :: "string \<Rightarrow> http_response \<Rightarrow> http_response" where
  "setContentType type r = r\<lparr>contentTypeSet := True, rs_headers := upsert ''Content-Type'' type (rs_headers r)\<rparr>"

definition setContentLength :: "nat \<Rightarrow> http_response \<Rightarrow> http_response" where
  "setContentLength len r =
     r\<lparr>contentLengthSet := True, rs_headers := upsert ''Content-Length'' (decimal len) (rs_headers r)\<rparr>"

definition setContent :: "string \<Rightarrow> http_response \<Rightarrow> http_response" where
  "setContent b r = r\<lparr>rs_body := b\<rparr>"

definition setKeepAlive :: "bool \<Rightarrow> http_response \<Rightarrow> http_response" where
  "setKeepAlive ka r = r\<lparr>keepAlive := ka\<rparr>"

section \<open>Serialisation\<close>

definition bytes_of :: "string \<Rightarrow> bytes" where
  "bytes_of s = map of_char s"

definition head_total :: "http_response \<Rightarrow> nat" where
  "head_total r =
     (let bodyLen = length (rs_body r);
          tot = length (statusLine r);
          tot = foldl (\<lambda>t (k, v). t + (length k + 4 + length v)) tot (rs_headers r);
          tot = (if \<not> contentLengthSet r \<and> bodyLen > 0 then tot + 16 + count_digits bodyLen + 2 else tot);
          tot = (if \<not> contentTypeSet r \<and> bodyLen > 0 then tot + 26 else tot)
      in (tot + (if connectionSet r then 2 else if keepAlive r then 26 else 21)) mod SZ)"

datatype piece = Copy string | Digits nat

text \<open>
  The pieces in the order of the \<open>memcpy\<close> calls; \<open>Digits\<close> is the call of \<open>std::to_chars\<close>, which writes
  nothing usable and reports the end of its range when the number does not fit before \<open>total\<close>.
\<close>

definition head_pieces :: "http_response \<Rightarrow> piece list" where
  "head_pieces r =
     (let bodyLen = length (rs_body r) in
      [Copy (statusLine r)]
      @ concat (map (\<lambda>(k, v). [Copy k, Copy '': '', Copy v, Copy CRLF]) (rs_headers r))
      @ (if \<not> contentLengthSet r \<and> bodyLen > 0 then [Copy ''Content-Length: '', Digits bodyLen, Copy CRLF] else [])
      @ (if \<not> contentTypeSet r \<and> bodyLen > 0 then [Copy (''Content-Type: text/plain'' @ CRLF)] else [])
      @ (if \<not> connectionSet r
         then if keepAlive r then [Copy (''Connection: keep-alive'' @ CRLF @ CRLF)]
              else [Copy (''Connection: close'' @ CRLF @ CRLF)]
         else [Copy CRLF]))"

fun copy_pieces :: "nat \<Rightarrow> nat \<Rightarrow> piece list \<Rightarrow> bytes option \<Rightarrow> nat \<Rightarrow> (bytes option \<times> nat) res" where
  "copy_pieces base tot [] d off = Inr (d, off)"
| "copy_pieces base tot (Copy s # ps) d off =
     rbind (mem_write d (base + off) (bytes_of s)) (\<lambda>d. copy_pieces base tot ps d (off + length s))"
| "copy_pieces base tot (Digits n # ps) d off =
     (if off + length (decimal n) \<le> tot
      then rbind (mem_write d (base + off) (bytes_of (decimal n))) (\<lambda>d.
           copy_pieces base tot ps d (off + length (decimal n)))
      else copy_pieces base tot ps d tot)"

definition serializeHeaders :: "heap \<Rightarrow> http_response \<Rightarrow> bytebuf \<Rightarrow> (bytebuf \<times> nat) res" where
  "serializeHeaders h r buf =
     (let tot = head_total r in
      rbind (ensureWritable h tot buf) (\<lambda>buf.
      rbind (copy_pieces (writerIndex buf) tot (head_pieces r) (bdata buf) 0) (\<lambda>(d, off).
      rbind (setWriterIndex (add_sz (writerIndex buf) off) (buf\<lparr>bdata := d\<rparr>)) (\<lambda>buf. Inr (buf, tot)))))"

definition serialize :: "heap \<Rightarrow> http_response \<Rightarrow> bytebuf \<Rightarrow> bytebuf res" where
  "serialize h r buf =
     (let bodyLen = length (rs_body r); tot = add_sz (head_total r) bodyLen in
      rbind (ensureWritable h tot buf) (\<lambda>buf.
      rbind (copy_pieces (writerIndex buf) tot
               (head_pieces r @ (if bodyLen > 0 then [Copy (rs_body r)] else [])) (bdata buf) 0) (\<lambda>(d, off).
      setWriterIndex (add_sz (writerIndex buf) off) (buf\<lparr>bdata := d\<rparr>))))"

definition toByteBuf :: "heap \<Rightarrow> http_response \<Rightarrow> bytebuf res" where
  "toByteBuf h r = serialize h r (bb_with_capacity h 512)"

section \<open>The text of a response\<close>

definition response_head :: "http_response \<Rightarrow> string" where
  "response_head r = statusLine r @ render_headers (rs_headers r)
     @ (if \<not> contentLengthSet r \<and> rs_body r \<noteq> [] then render_header (''Content-Length'', decimal (length (rs_body r))) else [])
     @ (if \<not> contentTypeSet r \<and> rs_body r \<noteq> [] then render_header (''Content-Type'', ''text/plain'') else [])
     @ (if connectionSet r then [] else render_header (''Connection'', if keepAlive r then ''keep-alive'' else ''close''))
     @ CRLF"

definition response_text :: "http_response \<Rightarrow> string" where
  "response_text r = response_head r @ rs_body r"

section \<open>Sizes\<close>

lemma count_digits_decimal: "count_digits n = length (decimal n)"
proof (induction n rule: decimal.induct)
  case (1 n)
  then show ?case by (subst count_digits.simps, subst decimal.simps) (auto simp: div_greater_zero_iff)
qed

fun piece_text :: "piece \<Rightarrow> string" where
  "piece_text (Copy s) = s"
| "piece_text (Digits n) = decimal n"

definition pieces_text :: "piece list \<Rightarrow> string" where
  "pieces_text ps = concat (map piece_text ps)"

lemma pieces_text_append: "pieces_text (ps @ qs) = pieces_text ps @ pieces_text qs"
  by (simp add: pieces_text_def)

lemma head_pieces_text: "pieces_text (head_pieces r) = response_head r"
proof -
  have "concat (map piece_text (concat (map (\<lambda>(k, v). [Copy k, Copy '': '', Copy v, Copy CRLF]) hs))) = render_headers hs" for hs
    by (induction hs) (auto simp: render_headers_def render_header_def)
  then show ?thesis by (simp add: pieces_text_def head_pieces_def response_head_def Let_def render_header_def)
qed

lemma headers_size:
  "foldl (\<lambda>t (k, v). t + (length k + 4 + length v)) t hs = t + length (render_headers hs)"
  by (induction hs arbitrary: t) (auto simp: render_headers_def render_header_def)

lemma head_total_eq: "length (response_head r) < SZ \<Longrightarrow> head_total r = length (response_head r)"
  unfolding head_total_def Let_def headers_size
  by (auto simp: response_head_def render_header_def count_digits_decimal)

lemma length_bytes_of [simp]: "length (bytes_of s) = length s"
  by (simp add: bytes_of_def)

lemma bytes_of_append: "bytes_of (s @ t) = bytes_of s @ bytes_of t"
  by (simp add: bytes_of_def)

lemma splice_empty: "splice_at i [] d = d"
  by (simp add: splice_at_def)

text \<open>When the pieces fit, copying them is one write of their text.\<close>

lemma copy_pieces_ok:
  assumes "off + length (pieces_text ps) \<le> tot" and "base + tot \<le> length (blk d)"
  shows "\<exists>d'. copy_pieces base tot ps d off = Inr (d', off + length (pieces_text ps))
    \<and> blk d' = splice_at (base + off) (bytes_of (pieces_text ps)) (blk d)"
  using assms
proof (induction ps arbitrary: d off)
  case Nil
  then show ?case by (simp add: pieces_text_def bytes_of_def splice_empty)
next
  case (Cons p ps)
  let ?s = "piece_text p"
  have t: "pieces_text (p # ps) = ?s @ pieces_text ps" by (simp add: pieces_text_def)
  have fit: "base + off + length (bytes_of ?s) \<le> length (blk d)" using Cons.prems t by simp
  obtain d1 where d1: "mem_write d (base + off) (bytes_of ?s) = Inr d1"
    "blk d1 = splice_at (base + off) (bytes_of ?s) (blk d)" using mem_write_blk [OF fit] .
  have l: "length (blk d1) = length (blk d)" using d1(2) fit by simp
  obtain d2 where d2: "copy_pieces base tot ps d1 (off + length ?s) = Inr (d2, off + length ?s + length (pieces_text ps))"
    "blk d2 = splice_at (base + (off + length ?s)) (bytes_of (pieces_text ps)) (blk d1)"
    using Cons.IH [of "off + length ?s" d1] Cons.prems t l by auto
  have "splice_at (base + off + length (bytes_of ?s)) (bytes_of (pieces_text ps)) (splice_at (base + off) (bytes_of ?s) (blk d))
      = splice_at (base + off) (bytes_of ?s @ bytes_of (pieces_text ps)) (blk d)"
    using Cons.prems t by (intro splice_at_append) simp
  then have "blk d2 = splice_at (base + off) (bytes_of (pieces_text (p # ps))) (blk d)"
    using d1 d2 by (simp add: t bytes_of_append add.assoc)
  then show ?case using d1 d2 Cons.prems t by (cases p) (auto simp: add.assoc)
qed

text \<open>Making room and copying pieces of the announced size appends their text to the buffer.\<close>

lemma append_pieces:
  assumes "wf_buf buf" and "writerIndex buf + length (pieces_text ps) \<le> HALF" and "heap_grants h"
    and "n = length (pieces_text ps)"
  obtains b where "\<And>k. rbind (ensureWritable h n buf) (\<lambda>buf.
       rbind (copy_pieces (writerIndex buf) n ps (bdata buf) 0) (\<lambda>(d, off).
       rbind (setWriterIndex (add_sz (writerIndex buf) off) (buf\<lparr>bdata := d\<rparr>)) k)) = k b"
    "wf_buf b" "contents b = contents buf @ bytes_of (pieces_text ps)"
proof -
  have le: "writerIndex buf + n \<le> HALF" using assms(2,4) by simp
  obtain b1 where e: "ensureWritable h n buf = Inr b1" using ensureWritable_granted [OF assms(1) le assms(3)] by blast
  have b1: "wf_buf b1" "contents b1 = contents buf" "writerIndex buf + n \<le> capacity b1"
    "writerIndex b1 = writerIndex buf" using ensureWritable_Inr [OF assms(1) le e] by auto
  note wf = wf_bufD [OF b1(1)]
  have "0 + length (pieces_text ps) \<le> n" "writerIndex b1 + n \<le> length (blk (bdata b1))" using b1 wf assms(4) by simp_all
  from copy_pieces_ok [OF this] obtain d where d: "copy_pieces (writerIndex b1) n ps (bdata b1) 0 = Inr (d, n)"
    "blk d = splice_at (writerIndex b1) (bytes_of (pieces_text ps)) (blk (bdata b1))" using assms(4) by auto
  have cap: "writerIndex b1 + n \<le> capacity b1" "add_sz (writerIndex b1) n = writerIndex b1 + n"
    using b1 wf by (simp_all add: add_sz_exact)
  let ?b = "b1\<lparr>bdata := d, writerIndex := writerIndex b1 + n\<rparr>"
  have fit: "writerIndex b1 + length (bytes_of (pieces_text ps)) \<le> length (blk (bdata b1))"
    using cap wf assms(4) by simp
  have "wf_buf ?b" using wf cap d(2) length_splice_at [OF fit] by (simp add: wf_buf_def)
  moreover have "contents ?b = contents buf @ bytes_of (pieces_text ps)"
    using splice_at_window [OF wf(1) fit] d(2) b1(2) assms(4) by (simp add: contents_def)
  ultimately show ?thesis using that [of ?b] e d cap by (simp add: setWriterIndex_def)
qed

lemma rbind_Inr_right: "rbind m Inr = m"
  by (cases m) simp_all

lemma serialize_ok:
  assumes "wf_buf buf" and "writerIndex buf + length (response_text r) \<le> HALF" and "heap_grants h"
  shows "\<exists>b. serialize h r buf = Inr b \<and> wf_buf b \<and> contents b = contents buf @ bytes_of (response_text r)"
proof -
  let ?ps = "head_pieces r @ (if length (rs_body r) > 0 then [Copy (rs_body r)] else [])"
  have t: "pieces_text ?ps = response_text r"
    by (auto simp: pieces_text_append head_pieces_text response_text_def) (auto simp: pieces_text_def)
  have n: "add_sz (head_total r) (length (rs_body r)) = length (response_text r)"
    using assms(2) head_total_eq [of r] by (simp add: response_text_def add_sz_exact)
  have "writerIndex buf + length (pieces_text ?ps) \<le> HALF" using assms(2) t by simp
  from append_pieces [OF assms(1) this assms(3), of "length (response_text r)"] obtain b where b:
    "\<And>k :: bytebuf \<Rightarrow> bytebuf res. rbind (ensureWritable h (length (response_text r)) buf) (\<lambda>buf.
       rbind (copy_pieces (writerIndex buf) (length (response_text r)) ?ps (bdata buf) 0) (\<lambda>(d, off).
       rbind (setWriterIndex (add_sz (writerIndex buf) off) (buf\<lparr>bdata := d\<rparr>)) k)) = k b"
    "wf_buf b" "contents b = contents buf @ bytes_of (response_text r)" unfolding t by metis
  have "serialize h r buf = Inr b"
    using b(1) [of Inr] unfolding serialize_def Let_def n rbind_Inr_right .
  with b show ?thesis by blast
qed

lemma toByteBuf_ok:
  assumes "length (response_text r) \<le> HALF" and "heap_grants h"
  shows "\<exists>b. toByteBuf h r = Inr b \<and> wf_buf b \<and> contents b = bytes_of (response_text r)"
proof -
  have "0 < (512::nat) \<longrightarrow> alloc_ok h 512" "512 < SZ" using assms(2) by (simp_all add: heap_grants_def)
  note c = bb_with_capacity_wf [OF this(2,1)]
  show ?thesis using serialize_ok [OF c(1) _ assms(2), of r] assms(1) c(2,4) by (simp add: toByteBuf_def)
qed

section \<open>Properties\<close>

text \<open>C25. Serialising a response appends exactly its text: status line, headers, the generated
  \<open>Content-Length\<close>, \<open>Content-Type\<close> and \<open>Connection\<close> lines and the body. The size computed beforehand is
  the number of bytes written, so no copy leaves the buffer, whatever the headers are.\<close>

theorem serialize_exact:
  assumes "wf_buf buf" and "writerIndex buf + length (response_text r) \<le> HALF" and "heap_grants h"
  shows "\<exists>b. serialize h r buf = Inr b \<and> wf_buf b \<and> contents b = contents buf @ bytes_of (response_text r)"
  by (rule serialize_ok [OF assms])

theorem serialize_exact_witness:
  "\<exists>b. serialize demo_heap (setContent ''hi'' http_response_new) bb_new = Inr b \<and> wf_buf b
     \<and> contents b = bytes_of (response_text (setContent ''hi'' http_response_new))"
proof -
  have "length (response_text (setContent ''hi'' http_response_new)) \<le> HALF"
    by (simp add: response_text_def response_head_def setContent_def http_response_new_def render_header_def
        render_headers_def decimal.simps)
  then show ?thesis
    using serialize_exact [OF wf_bb_new _ demo_heap_grants, of "setContent ''hi'' http_response_new"]
    by (simp add: bb_new_def contents_def)
qed

text \<open>Serialising only the head appends exactly the head and returns its size.\<close>

theorem serializeHeaders_exact:
  assumes "wf_buf buf" and "writerIndex buf + length (response_head r) \<le> HALF" and "heap_grants h"
  shows "\<exists>b. serializeHeaders h r buf = Inr (b, length (response_head r)) \<and> wf_buf b
    \<and> contents b = contents buf @ bytes_of (response_head r)"
proof -
  have n: "head_total r = length (response_head r)" using assms(2) by (intro head_total_eq) simp
  have "writerIndex buf + length (pieces_text (head_pieces r)) \<le> HALF" using assms(2) by (simp add: head_pieces_text)
  from append_pieces [OF assms(1) this assms(3), of "length (response_head r)"] obtain b where b:
    "\<And>k :: bytebuf \<Rightarrow> (bytebuf \<times> nat) res. rbind (ensureWritable h (length (response_head r)) buf) (\<lambda>buf.
       rbind (copy_pieces (writerIndex buf) (length (response_head r)) (head_pieces r) (bdata buf) 0) (\<lambda>(d, off).
       rbind (setWriterIndex (add_sz (writerIndex buf) off) (buf\<lparr>bdata := d\<rparr>)) k)) = k b"
    "wf_buf b" "contents b = contents buf @ bytes_of (response_head r)" unfolding head_pieces_text by metis
  have "serializeHeaders h r buf = Inr (b, length (response_head r))"
    using b(1) [of "\<lambda>b. Inr (b, length (response_head r))"] unfolding serializeHeaders_def Let_def n .
  with b show ?thesis by blast
qed

theorem serializeHeaders_exact_witness:
  "\<exists>b. serializeHeaders demo_heap http_response_new bb_new = Inr (b, length (response_head http_response_new)) \<and> wf_buf b
     \<and> contents b = bytes_of (response_head http_response_new)"
proof -
  have "length (response_head http_response_new) \<le> HALF"
    by (simp add: response_head_def http_response_new_def render_header_def render_headers_def)
  then show ?thesis
    using serializeHeaders_exact [OF wf_bb_new _ demo_heap_grants, of http_response_new]
    by (simp add: bb_new_def contents_def)
qed

text \<open>Two statuses are equal exactly when their codes are: no two of the predefined statuses share one.\<close>

theorem status_eq_iff: "status_eq a b \<longleftrightarrow> a = b"
  by (cases a; cases b; simp add: status_eq_def)

text \<open>A response without body carries no \<open>Content-Length\<close> line although it asks to keep the connection
  open.\<close>

theorem empty_body_no_length:
  "keepAlive http_response_new
   \<and> response_text http_response_new = ''HTTP/1.1 200 OK'' @ CRLF @ ''Connection: keep-alive'' @ CRLF @ CRLF"
  by (simp add: response_text_def response_head_def http_response_new_def render_header_def render_headers_def)

end
