(* ===== verification/HttpCodec.thy ===== *)
theory HttpCodec
  imports HttpResponse
begin

text \<open>
  The HTTP server codec (\<open>include/xnetty/http/http_codec.h\<close>, \<open>src/http/http_codec.cpp\<close>).

  The third-party parser llhttp is a parameter: a function from the bytes given to \<open>llhttp_execute\<close> to the
  callbacks it makes, with spans as positions and lengths, and the error position it reports once a
  callback has paused it. The callbacks, the reassembly of partial requests, the handling of pipelined
  requests and the limits are the code's own. The memory a chunk lives in matters: after a partial
  request has been completed, the rest of the input lies in the leftover buffer itself, and copying it to
  the front of that buffer with \<open>memcpy\<close> is undefined when the ranges overlap.
\<close>

section \<open>The parser and its callbacks\<close>

datatype ll_method = LL_GET | LL_POST | LL_PUT | LL_DELETE | LL_PATCH | LL_HEAD | LL_OPTIONS | LL_OTHER

datatype ll_event =
    OnUrl nat nat
  | OnHeaderField nat nat
  | OnHeaderValue nat nat
  | OnHeadersComplete ll_method nat nat
  | OnMessageComplete

type_synonym llhttp = "string \<Rightarrow> ll_event list \<times> nat option"

record parse_ctx =
  headerEndOffset :: nat
  pc_offsets :: "header_entry list"
  msgComplete :: bool
  headerTooLarge :: bool
  maxHeaderSize :: nat
  maxOffset :: nat

definition parse_ctx_new :: "nat \<Rightarrow> parse_ctx" where
  "parse_ctx_new maxH = \<lparr>headerEndOffset = 0, pc_offsets = [], msgComplete = False,
     headerTooLarge = False, maxHeaderSize = maxH, maxOffset = 0\<rparr>"

definition bump :: "nat \<Rightarrow> parse_ctx \<Rightarrow> parse_ctx" where
  "bump end pc = (if end > maxOffset pc then pc\<lparr>maxOffset := end\<rparr> else pc)"

definition on_url :: "string \<Rightarrow> nat \<Rightarrow> nat \<Rightarrow> http_request \<Rightarrow> parse_ctx \<Rightarrow> (http_request \<times> parse_ctx) res" where
  "on_url raw at len req pc =
     rbind (str_at (Some raw) at len) (\<lambda>u. Inr (setUri u req, bump (at + len) pc))"

definition on_hf :: "nat \<Rightarrow> nat \<Rightarrow> parse_ctx \<Rightarrow> parse_ctx" where
  "on_hf at len pc =
     bump (at + len) (pc\<lparr>pc_offsets := pc_offsets pc @ [\<lparr>he_offset = at, he_keyLen = len, he_valueLen = 0\<rparr>]\<rparr>)"

definition on_hv :: "nat \<Rightarrow> nat \<Rightarrow> parse_ctx \<Rightarrow> parse_ctx" where
  "on_hv at len pc =
     (if pc_offsets pc = [] then pc
      else bump (at + len)
             (pc\<lparr>pc_offsets := butlast (pc_offsets pc) @ [(last (pc_offsets pc))\<lparr>he_valueLen := len\<rparr>]\<rparr>))"

definition set_method :: "ll_method \<Rightarrow> http_request \<Rightarrow> http_request" where
  "set_method m req =
     (case m of
        LL_GET \<Rightarrow> req\<lparr>rq_method := M_GET\<rparr> | LL_POST \<Rightarrow> req\<lparr>rq_method := M_POST\<rparr>
      | LL_PUT \<Rightarrow> req\<lparr>rq_method := M_PUT\<rparr> | LL_DELETE \<Rightarrow> req\<lparr>rq_method := M_DELETE\<rparr>
      | LL_PATCH \<Rightarrow> req\<lparr>rq_method := M_PATCH\<rparr> | LL_HEAD \<Rightarrow> req\<lparr>rq_method := M_HEAD\<rparr>
      | LL_OPTIONS \<Rightarrow> req\<lparr>rq_method := M_OPTIONS\<rparr> | LL_OTHER \<Rightarrow> req)"

text \<open>\<open>on_hc\<close>: the last component says whether the callback pauses the parser.\<close>

definition on_hc :: "ll_method \<Rightarrow> nat \<Rightarrow> nat \<Rightarrow> http_request \<Rightarrow> parse_ctx \<Rightarrow> http_request \<times> parse_ctx \<times> bool" where
  "on_hc m major minor req pc =
     (let pc = pc\<lparr>headerEndOffset := maxOffset pc\<rparr> in
      if maxHeaderSize pc > 0 \<and> maxOffset pc > maxHeaderSize pc
      then (req, pc\<lparr>headerTooLarge := True\<rparr>, True)
      else ((set_method m req)\<lparr>rq_version := if major = 1 \<and> minor = 1 then HTTP_1_1 else HTTP_1_0\<rparr>, pc, False))"

definition on_msg_cmpl :: "parse_ctx \<Rightarrow> parse_ctx" where
  "on_msg_cmpl pc = pc\<lparr>msgComplete := True\<rparr>"

fun run_events :: "string \<Rightarrow> ll_event list \<Rightarrow> http_request \<Rightarrow> parse_ctx \<Rightarrow> (http_request \<times> parse_ctx) res" where
  "run_events raw [] req pc = Inr (req, pc)"
| "run_events raw (OnUrl at len # es) req pc =
     rbind (on_url raw at len req pc) (\<lambda>(req, pc). run_events raw es req pc)"
| "run_events raw (OnHeaderField at len # es) req pc = run_events raw es req (on_hf at len pc)"
| "run_events raw (OnHeaderValue at len # es) req pc = run_events raw es req (on_hv at len pc)"
| "run_events raw (OnHeadersComplete m major minor # es) req pc =
     (case on_hc m major minor req pc of
        (req, pc, paused) \<Rightarrow> if paused then Inr (req, pc) else run_events raw es req pc)"
| "run_events raw (OnMessageComplete # es) req pc = Inr (req, on_msg_cmpl pc)"

section \<open>Numbers\<close>

definition is_space :: "char \<Rightarrow> bool" where
  "is_space c = (let n = of_char c :: nat in n = 32 \<or> (9 \<le> n \<and> n \<le> 13))"

definition is_digit :: "char \<Rightarrow> bool" where
  "is_digit c = (let n = of_char c :: nat in 48 \<le> n \<and> n \<le> 57)"

definition digits_value :: "string \<Rightarrow> nat" where
  "digits_value s = foldl (\<lambda>v c. 10 * v + (of_char c - 48)) 0 s"

text \<open>\<open>std::stoul\<close>: \<open>None\<close> when it throws.\<close>

definition stoul :: "string \<Rightarrow> nat option" where
  "stoul s =
     (let s = dropWhile is_space s;
          neg = (s \<noteq> [] \<and> hd s = CHR ''-'');
          s = (if s \<noteq> [] \<and> (hd s = CHR ''-'' \<or> hd s = CHR ''+'') then tl s else s);
          ds = takeWhile is_digit s in
      if ds = [] then None
      else let v = digits_value ds in
           if v \<ge> SZ then None else Some (if neg then (SZ - v) mod SZ else v))"

section \<open>The codec\<close>

record http_codec =
  hc_leftover :: bytebuf
  hc_request :: http_request

definition http_codec_new :: http_codec where
  "http_codec_new = \<lparr>hc_leftover = bb_new, hc_request = http_request_new\<rparr>"

datatype codec_effect =
    FireRaw                      \<comment> \<open>the message is passed on unchanged\<close>
  | FireRead http_request
  | Reply http_status string
  | ConnKeepAlive bool
  | SignalActivity

datatype source = FromBuf | FromLeftover nat

definition chars_of :: "bytes \<Rightarrow> string" where
  "chars_of bs = map (\<lambda>b. char_of (unat b)) bs"

definition clear_leftover :: "http_codec \<Rightarrow> http_codec" where
  "clear_leftover st = st\<lparr>hc_leftover := bb_clear (hc_leftover st)\<rparr>"

text \<open>Copying the unparsed rest into the (empty) leftover buffer.\<close>

definition stash :: "heap \<Rightarrow> source \<Rightarrow> bytes \<Rightarrow> http_codec \<Rightarrow> http_codec res" where
  "stash h src raw st =
     (case src of
        FromBuf \<Rightarrow> rbind (writeBytes h raw (hc_leftover st)) (\<lambda>l. Inr (st\<lparr>hc_leftover := l\<rparr>))
      | FromLeftover off \<Rightarrow>
          if off < length raw then Inl UndefinedBehaviour
          else rbind (writeBytes h raw (hc_leftover st)) (\<lambda>l. Inr (st\<lparr>hc_leftover := l\<rparr>)))"

definition advance :: "nat \<Rightarrow> source \<Rightarrow> source" where
  "advance n src = (case src of FromBuf \<Rightarrow> FromBuf | FromLeftover off \<Rightarrow> FromLeftover (off + n))"

type_synonym codec_result = "http_codec \<times> codec_effect list \<times> fault option"

function codec_loop :: "llhttp \<Rightarrow> nat \<Rightarrow> nat \<Rightarrow> bool \<Rightarrow> heap \<Rightarrow> http_codec \<Rightarrow> source \<Rightarrow> bytes \<Rightarrow> codec_effect list \<Rightarrow>
    codec_result" where
  "codec_loop ll maxH maxB hasCtx h st src raw out =
     (let text = chars_of raw; len = length raw in
      case run_events text (fst (ll text)) (hc_request st) (parse_ctx_new maxH) of
        Inl e \<Rightarrow> (st, out, Some e)
      | Inr (req, pc) \<Rightarrow>
          let st = st\<lparr>hc_request := req\<rparr> in
          if headerTooLarge pc
          then (clear_leftover st,
                out @ (if hasCtx then [Reply ST_REQUEST_HEADER_FIELDS_TOO_LARGE ''Header Too Large''] else []), None)
          else if \<not> msgComplete pc
          then if readableBytes (hc_leftover st) = 0
               then (case stash h src raw st of Inl e \<Rightarrow> (st, out, Some e) | Inr st \<Rightarrow> (st, out, None))
               else (st, out, None)
          else
            let stop = (case snd (ll text) of Some p \<Rightarrow> p | None \<Rightarrow> len);
                consumed = (if stop = 0 then len else stop);
                req = (if pc_offsets pc \<noteq> [] \<or> headerEndOffset pc > 0
                       then setRawData (Some (take (min consumed stop) text)) (pc_offsets pc) (headerEndOffset pc) req
                       else req) in
            case (if hasCtx then hasConnectionClose req else Inr False) of
              Inl e \<Rightarrow> (st, out, Some e)
            | Inr close \<Rightarrow>
                let out = out @ (if hasCtx then [ConnKeepAlive (\<not> close), SignalActivity] else []) in
                case header ''Content-Length'' req of
                  Inl e \<Rightarrow> (st, out, Some e)
                | Inr (cl, req) \<Rightarrow>
                    if maxB > 0 \<and> cl \<noteq> [] \<and> (case stoul cl of Some n \<Rightarrow> n | None \<Rightarrow> 0) > maxB
                    then (clear_leftover (st\<lparr>hc_request := req\<rparr>),
                          out @ (if hasCtx then [Reply ST_PAYLOAD_TOO_LARGE ''Body Too Large''] else []), None)
                    else
                      let out = out @ [FireRead req]; st = st\<lparr>hc_request := http_request_new\<rparr> in
                      if consumed \<ge> len then (clear_leftover st, out, None)
                      else codec_loop ll maxH maxB hasCtx h (clear_leftover st) (advance consumed src) (drop consumed raw) out)"
  by pat_completeness auto
termination
  by (relation "measure (\<lambda>(ll, maxH, maxB, hasCtx, h, st, src, raw, out). length raw)")
    (auto split: option.splits if_splits)

declare codec_loop.simps [simp del]

definition codec_channelRead :: "llhttp \<Rightarrow> nat \<Rightarrow> nat \<Rightarrow> bool \<Rightarrow> heap \<Rightarrow> http_codec \<Rightarrow> bytebuf option \<Rightarrow> codec_result" where
  "codec_channelRead ll maxH maxB hasCtx h st msg =
     (case msg of
        None \<Rightarrow> (st, [FireRaw], None)
      | Some buf \<Rightarrow>
          if readableBytes buf = 0 then (st, [FireRaw], None)
          else
            case mem_read (bdata buf) (readerIndex buf) (readableBytes buf) of
              Inl e \<Rightarrow> (st, [], Some e)
            | Inr raw \<Rightarrow>
                if readableBytes (hc_leftover st) = 0 \<and> (unat (hd raw) < 65 \<or> unat (hd raw) > 90)
                then (st, [FireRaw], None)
                else if readableBytes (hc_leftover st) > 0
                then (case writeBytes h raw (hc_leftover st) of
                        Inl e \<Rightarrow> (st, [], Some e)
                      | Inr l \<Rightarrow>
                          (case mem_read (bdata l) (readerIndex l) (readableBytes l) of
                             Inl e \<Rightarrow> (st\<lparr>hc_leftover := l\<rparr>, [], Some e)
                           | Inr raw \<Rightarrow> codec_loop ll maxH maxB hasCtx h (st\<lparr>hc_leftover := l\<rparr>)
                                          (FromLeftover (readerIndex l)) raw []))
                else codec_loop ll maxH maxB hasCtx h st FromBuf raw [])"

text \<open>
  The outbound side: a response is serialised and the buffer passed on (\<open>Some\<close>); other messages are
  forwarded as they are (\<open>None\<close>).
\<close>

definition http_encode :: "heap \<Rightarrow> http_response \<Rightarrow> bytebuf res" where
  "http_encode h r = toByteBuf h r"

definition codec_write :: "heap \<Rightarrow> bool \<Rightarrow> http_response option \<Rightarrow> bytebuf res option" where
  "codec_write h hasCtx msg =
     (case msg of
        Some r \<Rightarrow> if hasCtx then Some (http_encode h r) else None
      | None \<Rightarrow> None)"

section \<open>Requests on the wire\<close>

text \<open>
  A request in canonical form: one space after the colon of each header and no other freedom. The
  method is given with its text.
\<close>

record wire_request =
  w_method :: ll_method
  w_name :: string
  w_uri :: string
  w_headers :: "(string \<times> string) list"
  w_body :: string

definition wire_prefix :: "wire_request \<Rightarrow> string" where
  "wire_prefix w = w_name w @ '' '' @ w_uri w @ '' HTTP/1.1'' @ CRLF"

definition wire_text :: "wire_request \<Rightarrow> string" where
  "wire_text w = wire_prefix w @ render_headers (w_headers w) @ CRLF @ w_body w"

fun header_events :: "nat \<Rightarrow> (string \<times> string) list \<Rightarrow> ll_event list" where
  "header_events off [] = []"
| "header_events off (kv # hs) =
     OnHeaderField off (length (fst kv)) # OnHeaderValue (off + length (fst kv) + 2) (length (snd kv))
     # header_events (off + length (render_header kv)) hs"

definition wire_events :: "wire_request \<Rightarrow> ll_event list" where
  "wire_events w = OnUrl (length (w_name w) + 1) (length (w_uri w))
     # header_events (length (wire_prefix w)) (w_headers w) @ [OnHeadersComplete (w_method w) 1 1, OnMessageComplete]"

text \<open>
  What the codec relies on of llhttp, for a set of requests: on a complete request, whatever follows it,
  it reports the URL, each header's name and value, the end of the headers and the end of the message,
  in this order, and the position after the message when it is paused there; on a proper prefix it
  reports no end of message, and every URL it reports lies in the input.
\<close>

definition llhttp_parses :: "llhttp \<Rightarrow> wire_request set \<Rightarrow> bool" where
  "llhttp_parses ll R \<longleftrightarrow>
     (\<forall>w \<in> R. \<forall>rest. ll (wire_text w @ rest) = (wire_events w, Some (length (wire_text w)))) \<and>
     (\<forall>w \<in> R. \<forall>k < length (wire_text w). \<forall>e \<in> set (fst (ll (take k (wire_text w)))).
        e \<noteq> OnMessageComplete \<and> (\<forall>at len. e = OnUrl at len \<longrightarrow> at + len \<le> k))"

text \<open>The request object the codec passes on.\<close>

definition last_end :: "wire_request \<Rightarrow> nat" where
  "last_end w = (if w_headers w = [] then length (w_name w) + 1 + length (w_uri w)
                 else length (wire_prefix w) + length (render_headers (w_headers w)) - 2)"

definition wire_request_of :: "wire_request \<Rightarrow> http_request" where
  "wire_request_of w =
     (setRawData (Some (wire_text w)) (header_layout (length (wire_prefix w)) (w_headers w)) (last_end w)
       ((set_method (w_method w) (setUri (w_uri w) http_request_new))\<lparr>rq_version := HTTP_1_1\<rparr>))
     \<lparr>headersParsed := True, rq_headers := w_headers w\<rparr>"

fun wants_close :: "(string \<times> string) list \<Rightarrow> bool" where
  "wants_close [] = False"
| "wants_close ((k, v) # hs) =
     (if length k = 10 \<and> map or32 k = map of_char ''connection''
      then length v \<ge> 4 \<and> map or32 (take 4 v) = map of_char ''clos''
      else wants_close hs)"

definition wire_effects :: "bool \<Rightarrow> wire_request \<Rightarrow> codec_effect list" where
  "wire_effects hasCtx w =
     (if hasCtx then [ConnKeepAlive (\<not> wants_close (w_headers w)), SignalActivity] else []) @ [FireRead (wire_request_of w)]"

section \<open>Callbacks on canonical requests\<close>

lemma bump_simps [simp]:
  "pc_offsets (bump e pc) = pc_offsets pc" "maxHeaderSize (bump e pc) = maxHeaderSize pc"
  "msgComplete (bump e pc) = msgComplete pc" "headerTooLarge (bump e pc) = headerTooLarge pc"
  "headerEndOffset (bump e pc) = headerEndOffset pc" "maxOffset (bump e pc) = max (maxOffset pc) e"
  by (simp_all add: bump_def)

lemma run_header_events:
  assumes "maxOffset pc \<le> off"
  shows "run_events raw (header_events off hs @ es) req pc =
    run_events raw es req (pc\<lparr>pc_offsets := pc_offsets pc @ header_layout off hs,
      maxOffset := (if hs = [] then maxOffset pc else off + length (render_headers hs) - 2)\<rparr>)"
  using assms
proof (induction hs arbitrary: off pc)
  case (Cons kv hs)
  let ?off = "off + length (render_header kv)"
  define pc1 where "pc1 = on_hv (off + length (fst kv) + 2) (length (snd kv)) (on_hf off (length (fst kv)) pc)"
  have pc1: "pc1 = pc\<lparr>pc_offsets := pc_offsets pc @ [\<lparr>he_offset = off, he_keyLen = length (fst kv), he_valueLen = length (snd kv)\<rparr>],
      maxOffset := ?off - 2\<rparr>"
    using Cons.prems by (simp add: pc1_def on_hv_def on_hf_def bump_def render_header_def max_def)
  have "maxOffset pc1 \<le> ?off" by (simp add: pc1)
  have "run_events raw (header_events off (kv # hs) @ es) req pc = run_events raw (header_events ?off hs @ es) req pc1"
    by (simp add: pc1_def)
  also have "\<dots> = run_events raw es req (pc1\<lparr>pc_offsets := pc_offsets pc1 @ header_layout ?off hs,
      maxOffset := (if hs = [] then maxOffset pc1 else ?off + length (render_headers hs) - 2)\<rparr>)"
    using Cons.IH \<open>maxOffset pc1 \<le> ?off\<close> by blast
  also have "pc1\<lparr>pc_offsets := pc_offsets pc1 @ header_layout ?off hs,
      maxOffset := (if hs = [] then maxOffset pc1 else ?off + length (render_headers hs) - 2)\<rparr>
    = pc\<lparr>pc_offsets := pc_offsets pc @ header_layout off (kv # hs),
        maxOffset := off + length (render_headers (kv # hs)) - 2\<rparr>"
    by (simp add: pc1 render_headers_def)
  finally show ?case by simp
qed simp

lemma unat_of_char: "unat (of_char c :: byte) = of_char c"
proof -
  have "(of_char c :: byte) = of_nat (of_char c)" by (simp add: of_nat_of_char)
  moreover have "of_char c < (256::nat)" by (rule nat_of_char_less_256)
  ultimately show ?thesis by (simp only: unat_of_nat) simp
qed

lemma bytes_chars [simp]: "bytes_of (chars_of b) = b"
proof -
  have "(of_char (char_of (unat x)) :: byte) = x" for x :: byte
  proof -
    have "unat x < 256" using unsigned_less [of x] by simp
    then have "(of_char (char_of (unat x)) :: nat) = unat x" by simp
    then have "of_nat (of_char (char_of (unat x)) :: nat) = x" by simp
    then show ?thesis by (simp only: of_nat_of_char)
  qed
  then show ?thesis by (simp add: bytes_of_def chars_of_def comp_def)
qed

lemma chars_bytes [simp]: "chars_of (bytes_of s) = s"
  by (simp add: chars_of_def bytes_of_def comp_def unat_of_char)


lemma length_chars_of [simp]: "length (chars_of bs) = length bs"
  by (simp add: chars_of_def)

lemma chars_of_append: "chars_of (a @ b) = chars_of a @ chars_of b"
  by (simp add: chars_of_def)

lemma chars_of_take: "chars_of (take n b) = take n (chars_of b)"
  by (simp add: chars_of_def take_map)

lemma run_wire_events:
  fixes w :: wire_request
  defines "txt \<equiv> wire_text w"
  shows "run_events (txt @ rest) (wire_events w) req (parse_ctx_new 0) =
    Inr ((set_method (w_method w) (setUri (w_uri w) req))\<lparr>rq_version := HTTP_1_1\<rparr>,
      \<lparr>headerEndOffset = last_end w, pc_offsets = header_layout (length (wire_prefix w)) (w_headers w),
       msgComplete = True, headerTooLarge = False, maxHeaderSize = 0, maxOffset = last_end w\<rparr>)"
proof -
  have t: "txt @ rest = (w_name w @ '' '') @ w_uri w @ (drop (length (w_name w @ '' '' @ w_uri w)) (txt @ rest))"
    by (simp add: txt_def wire_text_def wire_prefix_def)
  have url: "str_at (Some (txt @ rest)) (length (w_name w) + 1) (length (w_uri w)) = Inr (w_uri w)"
    by (subst t) (use str_at_app [of "w_name w @ '' ''" "w_uri w"] in simp)
  define pc where "pc = bump (length (w_name w) + 1 + length (w_uri w)) (parse_ctx_new 0)"
  have pc: "pc = (parse_ctx_new 0)\<lparr>maxOffset := length (w_name w) + 1 + length (w_uri w)\<rparr>"
    by (simp add: pc_def bump_def parse_ctx_new_def)
  have "maxOffset pc \<le> length (wire_prefix w)" by (simp add: pc wire_prefix_def)
  note h = run_header_events [OF this]
  show ?thesis
    unfolding wire_events_def append_Cons run_events.simps(2) on_url_def url rbind_Inr case_prod_conv
    unfolding pc_def [symmetric] h
    by (simp add: pc parse_ctx_new_def on_hc_def on_msg_cmpl_def last_end_def)
qed

lemma raw_close_layout:
  "raw_close (Some (pre @ render_headers hs @ rest)) (header_layout (length pre) hs) = Inr (wants_close hs)"
proof (induction hs arbitrary: pre)
  case (Cons kv hs)
  obtain k v where kv: "kv = (k, v)" by (cases kv)
  define raw where "raw = pre @ render_headers (kv # hs) @ rest"
  have r: "raw = pre @ k @ '': '' @ v @ CRLF @ render_headers hs @ rest"
    by (simp add: raw_def render_headers_def render_header_def kv)
  have k: "str_at (Some raw) (length pre) (length k) = Inr k"
    unfolding r by (rule str_at_app)
  have v: "str_at (Some raw) (length pre + (length k + 2)) 4 = Inr (take 4 v)" if "4 \<le> length v"
  proof -
    have "raw = (pre @ k @ '': '') @ take 4 v @ drop 4 v @ CRLF @ render_headers hs @ rest"
      unfolding r by (simp flip: append_assoc)
    then show ?thesis
      using that str_at_app [of "pre @ k @ '': ''" "take 4 v" "drop 4 v @ CRLF @ render_headers hs @ rest"]
      by simp
  qed
  have "raw = (pre @ render_header kv) @ render_headers hs @ rest"
    by (simp add: raw_def render_headers_def)
  with Cons.IH [of "pre @ render_header kv"]
  have "raw_close (Some raw) (header_layout (length pre + length (render_header kv)) hs) = Inr (wants_close hs)" by simp
  note IH = this
  show ?case
  proof (cases "length k = 10")
    case False
    with IH show ?thesis unfolding raw_def [symmetric] by (simp add: kv)
  next
    case True
    have k10: "str_at (Some raw) (length pre) 10 = Inr k" using k True by simp
    have v12: "str_at (Some raw) (length pre + 12) 4 = Inr (take 4 v)" if "4 \<le> length v" using v [OF that] True by simp
    show ?thesis
      unfolding raw_def [symmetric] unfolding kv header_layout.simps raw_close.simps wants_close.simps
      by (cases "map or32 k = map of_char ''connection''"; cases "4 \<le> length v")
        (simp_all only: header_entry.simps fst_conv snd_conv True k10 v12 rbind_Inr IH [unfolded kv] if_True if_False simp_thms)
  qed
qed simp

lemma wire_close: "hasConnectionClose (setRawData (Some (wire_text w)) (header_layout (length (wire_prefix w)) (w_headers w)) e r)
    = Inr (wants_close (w_headers w))"
  using raw_close_layout [of "wire_prefix w" "w_headers w" "CRLF @ w_body w"]
  by (simp add: hasConnectionClose_def setRawData_def wire_text_def)

lemma set_method_frame [simp]:
  "rq_headers (set_method m r) = rq_headers r" "headersParsed (set_method m r) = headersParsed r"
  by (cases m; simp add: set_method_def)+

lemma wire_header:
  "\<exists>v. header key (setRawData (Some (wire_text w)) (header_layout (length (wire_prefix w)) (w_headers w)) (last_end w)
       ((set_method (w_method w) (setUri (w_uri w) http_request_new))\<lparr>rq_version := HTTP_1_1\<rparr>)) = Inr (v, wire_request_of w)"
proof -
  let ?r = "setRawData (Some (wire_text w)) (header_layout (length (wire_prefix w)) (w_headers w)) (last_end w)
       ((set_method (w_method w) (setUri (w_uri w) http_request_new))\<lparr>rq_version := HTTP_1_1\<rparr>)"
  have "rq_headers ?r = []" by (simp add: setRawData_def setUri_def parsePath_def http_request_new_def)
  then have "ensureHeadersParsed ?r = Inr (wire_request_of w)"
    using parse_entries_layout [of "wire_prefix w" "w_headers w" "CRLF @ w_body w"]
    by (auto simp: ensureHeadersParsed_def setRawData_def wire_text_def wire_request_of_def Let_def)
  then show ?thesis by (simp add: header_def)
qed

section \<open>The loop on canonical requests\<close>

text \<open>A request object that a partial parse may have touched: only URI, method and version differ.\<close>

definition pristine :: "http_request \<Rightarrow> bool" where
  "pristine r \<longleftrightarrow> r\<lparr>rq_method := M_UNKNOWN, rq_version := HTTP_1_1, rq_uri := [], rq_path := []\<rparr> = http_request_new"

lemma pristine_new [simp]: "pristine http_request_new"
  by (simp add: pristine_def http_request_new_def)

lemma pristine_steps:
  "pristine r \<Longrightarrow> pristine (setUri u r)"
  "pristine r \<Longrightarrow> pristine ((set_method m r)\<lparr>rq_version := v\<rparr>)"
  by (simp add: pristine_def setUri_def parsePath_def)
    (cases m; simp add: pristine_def set_method_def)

lemma pristine_final:
  assumes "pristine r" and "m \<noteq> LL_OTHER"
  shows "(set_method m (setUri u r))\<lparr>rq_version := v\<rparr> = (set_method m (setUri u http_request_new))\<lparr>rq_version := v\<rparr>"
  using assms by (cases r, cases m) (auto simp: pristine_def set_method_def setUri_def parsePath_def http_request_new_def split: option.split)

lemma run_prefix:
  assumes "\<forall>e \<in> set es. e \<noteq> OnMessageComplete \<and> (\<forall>at len. e = OnUrl at len \<longrightarrow> at + len \<le> length raw)"
    and "maxHeaderSize pc = 0" and "\<not> msgComplete pc" and "\<not> headerTooLarge pc" and "pristine req"
  shows "\<exists>req' pc'. run_events raw es req pc = Inr (req', pc') \<and> pristine req' \<and> \<not> msgComplete pc' \<and> \<not> headerTooLarge pc'"
  using assms
proof (induction raw es req pc rule: run_events.induct)
  case (2 raw at len es req pc)
  then have "at + len \<le> length raw" by simp
  then have "str_at (Some raw) at len = Inr (take len (drop at raw))" by (simp add: str_at_def)
  with 2 show ?case by (simp add: on_url_def pristine_steps)
next
  case (5 raw m major minor es req pc)
  then show ?case by (auto simp: on_hc_def pristine_steps)
qed (simp_all add: on_hf_def on_hv_def)

definition good_request :: "wire_request set \<Rightarrow> wire_request \<Rightarrow> bool" where
  "good_request R w \<longleftrightarrow> w \<in> R \<and> w_method w \<noteq> LL_OTHER \<and> w_name w \<noteq> []
     \<and> 65 \<le> (of_char (hd (w_name w)) :: nat) \<and> (of_char (hd (w_name w)) :: nat) \<le> 90"

lemma good_text:
  assumes "good_request R w"
  shows "wire_text w \<noteq> []" "hd (wire_text w) = hd (w_name w)"
  using assms by (simp_all add: good_request_def wire_text_def wire_prefix_def)

lemma loop_request:
  assumes "llhttp_parses ll R" and "good_request R w" and "pristine (hc_request st)"
  shows "codec_loop ll 0 0 hasCtx h st src (bytes_of (wire_text w) @ rest) out =
    (let st' = clear_leftover (st\<lparr>hc_request := http_request_new\<rparr>) in
     if rest = [] then (st', out @ wire_effects hasCtx w, None)
     else codec_loop ll 0 0 hasCtx h st' (advance (length (wire_text w)) src) rest (out @ wire_effects hasCtx w))"
proof -
  let ?t = "wire_text w"
  have w: "w \<in> R" "w_method w \<noteq> LL_OTHER" using assms(2) by (simp_all add: good_request_def)
  have ll: "ll (?t @ chars_of rest) = (wire_events w, Some (length ?t))"
    using assms(1) w by (simp add: llhttp_parses_def)
  have tx: "chars_of (bytes_of ?t @ rest) = ?t @ chars_of rest" by (simp add: chars_of_append)
  have n: "0 < length ?t" using good_text(1) [OF assms(2)] by simp
  have le: "0 < last_end w" by (simp add: last_end_def wire_prefix_def)
  obtain v where v: "header ''Content-Length'' (setRawData (Some ?t) (header_layout (length (wire_prefix w)) (w_headers w)) (last_end w)
       ((set_method (w_method w) (setUri (w_uri w) http_request_new))\<lparr>rq_version := HTTP_1_1\<rparr>)) = Inr (v, wire_request_of w)"
    using wire_header by blast
  have run: "run_events (?t @ chars_of rest) (wire_events w) (hc_request st) (parse_ctx_new 0) =
    Inr ((set_method (w_method w) (setUri (w_uri w) http_request_new))\<lparr>rq_version := HTTP_1_1\<rparr>,
      \<lparr>headerEndOffset = last_end w, pc_offsets = header_layout (length (wire_prefix w)) (w_headers w),
       msgComplete = True, headerTooLarge = False, maxHeaderSize = 0, maxOffset = last_end w\<rparr>)"
    using run_wire_events [of w "chars_of rest" "hc_request st"] pristine_final [OF assms(3) w(2)] by simp
  show ?thesis
    using n le by (subst codec_loop.simps)
      (simp add: tx ll run v wire_close wire_effects_def Let_def clear_leftover_def)
qed

lemma loop_prefix:
  assumes "llhttp_parses ll R" and "w \<in> R" and "k < length (wire_text w)" and "pristine (hc_request st)"
  shows "\<exists>req. pristine req \<and> codec_loop ll 0 0 hasCtx h st src (bytes_of (take k (wire_text w))) out =
    (let st = st\<lparr>hc_request := req\<rparr> in
     if readableBytes (hc_leftover st) = 0
     then (case stash h src (bytes_of (take k (wire_text w))) st of Inl e \<Rightarrow> (st, out, Some e) | Inr st \<Rightarrow> (st, out, None))
     else (st, out, None))"
proof -
  let ?t = "take k (wire_text w)"
  have "length ?t = k" using assms(3) by simp
  then have "\<forall>e \<in> set (fst (ll ?t)). e \<noteq> OnMessageComplete \<and> (\<forall>at len. e = OnUrl at len \<longrightarrow> at + len \<le> length ?t)"
    using assms(1-3) by (auto simp: llhttp_parses_def)
  from run_prefix [OF this, of "parse_ctx_new 0" "hc_request st"] assms(4) obtain req pc where
    "run_events ?t (fst (ll ?t)) (hc_request st) (parse_ctx_new 0) = Inr (req, pc)" "pristine req"
    "\<not> msgComplete pc" "\<not> headerTooLarge pc" by (auto simp: parse_ctx_new_def)
  then show ?thesis by (intro exI [of _ req], subst codec_loop.simps) (simp add: Let_def)
qed

lemma bytes_of_Nil [simp]: "bytes_of s = [] \<longleftrightarrow> s = []" "bytes_of [] = []"
  by (simp_all add: bytes_of_def)

lemma readable_clear: "readableBytes (bb_clear b) = 0"
  by (simp add: readableBytes_def bb_clear_def sub_sz_def)

lemma bb_writer_clear: "writerIndex (bb_clear b) = 0"
  by (simp add: bb_clear_def)

lemma clear_leftover_simps [simp]:
  "hc_request (clear_leftover st) = hc_request st" "hc_leftover (clear_leftover st) = bb_clear (hc_leftover st)"
  by (simp_all add: clear_leftover_def)

lemma unat_hd_bytes: "s \<noteq> [] \<Longrightarrow> unat (hd (bytes_of s)) = of_char (hd s)"
  by (simp add: bytes_of_def hd_map unat_of_char)

text \<open>The state between reads: an empty or partial request in the leftover buffer.\<close>

definition codec_holds :: "http_codec \<Rightarrow> string \<Rightarrow> bool" where
  "codec_holds st p \<longleftrightarrow> wf_buf (hc_leftover st) \<and> readerIndex (hc_leftover st) = 0 \<and> pristine (hc_request st)
     \<and> contents (hc_leftover st) = bytes_of p"

lemma codec_holds_readable: "codec_holds st p \<Longrightarrow> readableBytes (hc_leftover st) = length p"
  by (simp add: codec_holds_def readable_eq_length)

lemma codec_holds_new: "codec_holds http_codec_new []"
  by (simp add: codec_holds_def http_codec_new_def bb_new_def wf_buf_def contents_def bytes_of_def)

lemma read_more:
  assumes "codec_holds st p" and "p \<noteq> []" and "wf_buf buf" and "contents buf = bytes_of q" and "q \<noteq> []"
    and "length p + length q \<le> HALF" and "heap_grants h"
  obtains l where "wf_buf l" "readerIndex l = 0" "contents l = bytes_of (p @ q)"
    "codec_channelRead ll maxH maxB hasCtx h st (Some buf) =
       codec_loop ll maxH maxB hasCtx h (st\<lparr>hc_leftover := l\<rparr>) (FromLeftover 0) (bytes_of (p @ q)) []"
proof -
  have st: "wf_buf (hc_leftover st)" "readerIndex (hc_leftover st) = 0" "contents (hc_leftover st) = bytes_of p"
    using assms(1) by (simp_all add: codec_holds_def)
  have "writerIndex (hc_leftover st) = length p" using st length_contents [OF st(1)] by simp
  then have "writerIndex (hc_leftover st) + length (bytes_of q) \<le> HALF" using assms(6) by simp
  from writeBytes_granted [OF st(1) this assms(7)] obtain l where
    l: "writeBytes h (bytes_of q) (hc_leftover st) = Inr l" "wf_buf l"
      "contents l = contents (hc_leftover st) @ bytes_of q" "readerIndex l = readerIndex (hc_leftover st)" by blast
  have c: "contents l = bytes_of (p @ q)" using l(3) st(3) by (simp add: bytes_of_append)
  have "0 < readableBytes (hc_leftover st)" "readableBytes buf \<noteq> 0"
    using codec_holds_readable [OF assms(1)] assms by (simp_all add: readable_eq_length)
  then have "codec_channelRead ll maxH maxB hasCtx h st (Some buf) =
       codec_loop ll maxH maxB hasCtx h (st\<lparr>hc_leftover := l\<rparr>) (FromLeftover 0) (bytes_of (p @ q)) []"
    using l c st(2) mem_read_all [OF l(2)] mem_read_all [OF assms(3)] assms(4)
    by (simp add: codec_channelRead_def)
  with that l c st(2) show ?thesis by simp
qed

text \<open>A piece of a request takes the codec into its loop with all of the request that has arrived.\<close>

lemma read_enters_loop:
  assumes "good_request R w" and "codec_holds st p" and "wire_text w = p @ q @ rest" and "q \<noteq> []" and "wf_buf b"
    and "contents b = bytes_of q" and "length p + length q \<le> HALF" and "heap_grants h"
  shows "\<exists>st1 src. codec_channelRead ll 0 0 hasCtx h st (Some b) = codec_loop ll 0 0 hasCtx h st1 src (bytes_of (p @ q)) []
      \<and> pristine (hc_request st1) \<and> wf_buf (hc_leftover st1)
      \<and> (if p = [] then src = FromBuf \<and> readableBytes (hc_leftover st1) = 0 \<and> writerIndex (hc_leftover st1) = 0
         else codec_holds st1 (p @ q))"
proof (cases "p = []")
  case True
  have st: "wf_buf (hc_leftover st)" "readerIndex (hc_leftover st) = 0" "contents (hc_leftover st) = []" "pristine (hc_request st)"
    using assms(2) True by (simp_all add: codec_holds_def)
  have "writerIndex (hc_leftover st) = 0" using st length_contents [OF st(1)] by simp
  moreover have r: "readableBytes (hc_leftover st) = 0" using codec_holds_readable [OF assms(2)] True by simp
  moreover have "unat (hd (bytes_of q)) = of_char (hd (w_name w))"
    using unat_hd_bytes [OF assms(4)] good_text [OF assms(1)] assms(3,4) True by simp
  then have "codec_channelRead ll 0 0 hasCtx h st (Some b) = codec_loop ll 0 0 hasCtx h st FromBuf (bytes_of (p @ q)) []"
    using r True assms(1,4-6) mem_read_all [OF assms(5)]
    by (simp add: codec_channelRead_def readable_eq_length good_request_def)
  ultimately show ?thesis using st True by (intro exI [of _ st] exI [of _ FromBuf]) simp
next
  case False
  from read_more [OF assms(2) False assms(5,6,4,7,8), of ll 0 0 hasCtx] obtain l where
    "wf_buf l" "readerIndex l = 0" "contents l = bytes_of (p @ q)"
    "codec_channelRead ll 0 0 hasCtx h st (Some b) =
       codec_loop ll 0 0 hasCtx h (st\<lparr>hc_leftover := l\<rparr>) (FromLeftover 0) (bytes_of (p @ q)) []" .
  then show ?thesis using False assms(2)
    by (intro exI [of _ "st\<lparr>hc_leftover := l\<rparr>"] exI [of _ "FromLeftover 0"]) (simp add: codec_holds_def)
qed

text \<open>A piece that does not complete the request is kept.\<close>

lemma loop_keeps_piece:
  assumes "llhttp_parses ll R" and "w \<in> R" and "wire_text w = t @ rest" and "rest \<noteq> []" and "length t \<le> HALF" and "heap_grants h"
    and st: "pristine (hc_request st)" "wf_buf (hc_leftover st)"
    and src: "(src = FromBuf \<and> readableBytes (hc_leftover st) = 0 \<and> writerIndex (hc_leftover st) = 0) \<or> (codec_holds st t \<and> t \<noteq> [])"
  shows "\<exists>st'. codec_loop ll 0 0 hasCtx h st src (bytes_of t) out = (st', out, None) \<and> codec_holds st' t"
proof -
  have k: "length t < length (wire_text w)" "take (length t) (wire_text w) = t" using assms(3,4) by simp_all
  from loop_prefix [OF assms(1,2) k(1) st(1), of hasCtx h src out, unfolded k(2)] obtain req where
    req: "pristine req" "codec_loop ll 0 0 hasCtx h st src (bytes_of t) out =
      (let st = st\<lparr>hc_request := req\<rparr> in
       if readableBytes (hc_leftover st) = 0
       then (case stash h src (bytes_of t) st of Inl e \<Rightarrow> (st, out, Some e) | Inr st \<Rightarrow> (st, out, None))
       else (st, out, None))" by blast
  show ?thesis using src
  proof
    assume e: "src = FromBuf \<and> readableBytes (hc_leftover st) = 0 \<and> writerIndex (hc_leftover st) = 0"
    then have z: "contents (hc_leftover st) = []" "readerIndex (hc_leftover st) = 0"
      using wf_bufD(1) [OF st(2)] by (simp_all add: contents_def)
    have "writerIndex (hc_leftover st) + length (bytes_of t) \<le> HALF" using e assms(5) by simp
    from writeBytes_granted [OF st(2) this assms(6)] obtain l where
      "writeBytes h (bytes_of t) (hc_leftover st) = Inr l" "wf_buf l"
      "contents l = contents (hc_leftover st) @ bytes_of t" "readerIndex l = readerIndex (hc_leftover st)" by blast
    then show ?thesis using req e z by (simp add: stash_def Let_def codec_holds_def)
  next
    assume "codec_holds st t \<and> t \<noteq> []"
    then show ?thesis using req codec_holds_readable [of st t] by (simp add: Let_def codec_holds_def)
  qed
qed

text \<open>Complete requests followed by a proper prefix of the next, all in the read buffer.\<close>

lemma loop_pipelined:
  assumes "llhttp_parses ll R" and "list_all (good_request R) ws" and "good_request R w" and "k < length (wire_text w)"
    and "pristine (hc_request st)" and "wf_buf (hc_leftover st)" and "readableBytes (hc_leftover st) = 0"
    and "writerIndex (hc_leftover st) = 0" and "k \<le> HALF" and "heap_grants h"
    and "bytes_of (concat (map wire_text ws) @ take k (wire_text w)) \<noteq> []"
  shows "\<exists>st'. codec_loop ll 0 0 hasCtx h st FromBuf (bytes_of (concat (map wire_text ws) @ take k (wire_text w))) out
      = (st', out @ concat (map (wire_effects hasCtx) ws), None)
    \<and> wf_buf (hc_leftover st') \<and> readerIndex (hc_leftover st') = 0 \<and> pristine (hc_request st')
    \<and> contents (hc_leftover st') = bytes_of (take k (wire_text w))"
  using assms(2,5-8,11)
proof (induction ws arbitrary: st out)
  case Nil
  have "w \<in> R" "wire_text w = take k (wire_text w) @ drop k (wire_text w)" "drop k (wire_text w) \<noteq> []" "length (take k (wire_text w)) \<le> HALF"
    using assms(3,4,9) by (simp_all add: good_request_def)
  from loop_keeps_piece [OF assms(1) this assms(10) Nil(2,3), of FromBuf hasCtx out] Nil(4,5) show ?case
    by (auto simp: codec_holds_def)
next
  case (Cons v ws)
  let ?rest = "bytes_of (concat (map wire_text ws) @ take k (wire_text w))"
  let ?st = "clear_leftover (st\<lparr>hc_request := http_request_new\<rparr>)"
  have v: "good_request R v" using Cons.prems(1) by simp
  have eq: "bytes_of (concat (map wire_text (v # ws)) @ take k (wire_text w)) = bytes_of (wire_text v) @ ?rest"
    by (simp add: bytes_of_append)
  note step = loop_request [OF assms(1) v Cons.prems(2), of hasCtx h FromBuf ?rest out]
  have wf: "wf_buf (bb_clear (hc_leftover st))" by (rule bb_clear_wf [OF Cons.prems(3)])
  show ?case
  proof (cases "?rest = []")
    case True
    then have "ws = []" "k = 0 \<or> wire_text w = []"
      using Cons.prems(1) good_text(1) by (cases ws; auto)+
    with True step eq wf show ?thesis by (auto simp: Let_def contents_def bb_clear_def)
  next
    case False
    have "\<exists>st'. codec_loop ll 0 0 hasCtx h ?st FromBuf ?rest (out @ wire_effects hasCtx v)
        = (st', (out @ wire_effects hasCtx v) @ concat (map (wire_effects hasCtx) ws), None)
      \<and> wf_buf (hc_leftover st') \<and> readerIndex (hc_leftover st') = 0 \<and> pristine (hc_request st')
      \<and> contents (hc_leftover st') = bytes_of (take k (wire_text w))"
      using Cons.prems(1) wf False
      by (intro Cons.IH) (auto simp: readable_clear bb_writer_clear)
    moreover have "codec_loop ll 0 0 hasCtx h st FromBuf (bytes_of (wire_text v) @ ?rest) out
        = codec_loop ll 0 0 hasCtx h ?st FromBuf ?rest (out @ wire_effects hasCtx v)"
      using step False unfolding Let_def if_not_P [OF False] by (simp only: advance_def source.case)
    ultimately show ?thesis unfolding eq by simp
  qed
qed

lemma read_piece:
  assumes "llhttp_parses ll R" and "good_request R w" and "length (wire_text w) \<le> HALF" and "heap_grants h"
    and "codec_holds st p" and "wire_text w = p @ q @ rest" and "q \<noteq> []" and "wf_buf b" and "contents b = bytes_of q"
  shows "\<exists>st'. codec_channelRead ll 0 0 hasCtx h st (Some b) = (st', if rest = [] then wire_effects hasCtx w else [], None) \<and>
     codec_holds st' (if rest = [] then [] else p @ q)"
proof -
  have len: "length p + length q \<le> HALF" using assms(3,6) by simp
  from read_enters_loop [OF assms(2,5-9) len assms(4), of ll hasCtx] obtain st1 src where
    st1: "codec_channelRead ll 0 0 hasCtx h st (Some b) = codec_loop ll 0 0 hasCtx h st1 src (bytes_of (p @ q)) []"
    "pristine (hc_request st1)" "wf_buf (hc_leftover st1)"
    "if p = [] then src = FromBuf \<and> readableBytes (hc_leftover st1) = 0 \<and> writerIndex (hc_leftover st1) = 0
         else codec_holds st1 (p @ q)" by blast
  show ?thesis
  proof (cases "rest = []")
    case True
    then show ?thesis
      using st1 assms(6) loop_request [OF assms(1,2) st1(2), of hasCtx h src "[]" "[]"] bb_clear_wf [OF st1(3)]
      by (simp add: Let_def codec_holds_def)
  next
    case False
    have w: "w \<in> R" "wire_text w = (p @ q) @ rest" using assms(2,6) by (simp_all add: good_request_def)
    have "length (p @ q) \<le> HALF" using len by simp
    from loop_keeps_piece [OF assms(1) w False this assms(4) st1(2,3), of src hasCtx "[]"] st1(1,4) assms(7) False
    show ?thesis by (auto split: if_splits)
  qed
qed

fun codec_feed :: "llhttp \<Rightarrow> bool \<Rightarrow> heap \<Rightarrow> http_codec \<Rightarrow> bytebuf list \<Rightarrow> http_codec \<times> codec_effect list \<times> fault list" where
  "codec_feed ll hasCtx h st [] = (st, [], [])"
| "codec_feed ll hasCtx h st (b # bs) =
     (case codec_channelRead ll 0 0 hasCtx h st (Some b) of
        (st', out, ex) \<Rightarrow>
          (case codec_feed ll hasCtx h st' bs of
             (st'', outs, exs) \<Rightarrow> (st'', out @ outs, (case ex of None \<Rightarrow> [] | Some e \<Rightarrow> [e]) @ exs)))"

lemma feed_partial:
  assumes "llhttp_parses ll R" and "good_request R w" and "length (wire_text w) \<le> HALF" and "heap_grants h"
  shows "codec_holds st p \<Longrightarrow> wire_text w = p @ concat qs \<Longrightarrow> map contents bufs = map bytes_of qs \<Longrightarrow>
    list_all wf_buf bufs \<Longrightarrow> [] \<notin> set qs \<Longrightarrow> qs \<noteq> [] \<Longrightarrow>
    \<exists>st'. codec_feed ll hasCtx h st bufs = (st', wire_effects hasCtx w, []) \<and> codec_holds st' []"
proof (induction qs arbitrary: st p bufs)
  case (Cons q qs)
  obtain b bs where bufs: "bufs = b # bs" "contents b = bytes_of q" "map contents bs = map bytes_of qs" "wf_buf b" "list_all wf_buf bs"
    using Cons.prems(3,4) by (cases bufs) auto
  have q: "wire_text w = p @ q @ concat qs" "q \<noteq> []" using Cons.prems(2,5) by auto
  from read_piece [OF assms Cons.prems(1) q bufs(4,2), of hasCtx] obtain st1 where
    st1: "codec_channelRead ll 0 0 hasCtx h st (Some b) = (st1, if concat qs = [] then wire_effects hasCtx w else [], None)"
      "codec_holds st1 (if concat qs = [] then [] else p @ q)" by blast
  show ?case
  proof (cases "qs = []")
    case True
    then show ?thesis using st1 bufs(1,3) by simp
  next
    case False
    then have ne: "concat qs \<noteq> []" using Cons.prems(5) by (cases qs) auto
    then have s1: "codec_channelRead ll 0 0 hasCtx h st (Some b) = (st1, [], None)" "codec_holds st1 (p @ q)" using st1 by presburger+
    have "\<exists>st'. codec_feed ll hasCtx h st1 bs = (st', wire_effects hasCtx w, []) \<and> codec_holds st' []"
      using Cons.prems(5) bufs(3,5) False q(1) by (intro Cons.IH [OF s1(2)]) auto
    with s1(1) bufs(1) show ?thesis by auto
  qed
qed simp

section \<open>Properties\<close>

text \<open>A request is decoded from any segmentation: whatever non-empty reads a canonical request arrives in,
  the codec passes on exactly that request, once, when the last read has come, with its method, URI and
  headers, and keeps nothing back.\<close>

theorem codec_reassembles_request:
  assumes "llhttp_parses ll R" and "good_request R w" and "length (wire_text w) \<le> HALF" and "heap_grants h"
    and "wire_text w = concat qs" and "[] \<notin> set qs" and "map contents bufs = map bytes_of qs" and "list_all wf_buf bufs"
  shows "\<exists>st'. codec_feed ll hasCtx h http_codec_new bufs = (st', wire_effects hasCtx w, []) \<and> codec_holds st' []"
proof -
  have "qs \<noteq> []" using assms(5) good_text(1) [OF assms(2)] by auto
  with feed_partial [OF assms(1-4) codec_holds_new, of qs bufs hasCtx] assms(5-8) show ?thesis by simp
qed

definition demo_wire :: wire_request where
  "demo_wire = \<lparr>w_method = LL_GET, w_name = ''GET'', w_uri = ''/a'', w_headers = [(''Host'', ''h'')], w_body = []\<rparr>"

definition demo_llhttp :: llhttp where
  "demo_llhttp s = (if take (length (wire_text demo_wire)) s = wire_text demo_wire
     then (wire_events demo_wire, Some (length (wire_text demo_wire))) else ([], None))"

lemma demo_llhttp_parses: "llhttp_parses demo_llhttp {demo_wire}"
proof -
  have "take (length (wire_text demo_wire)) (take k (wire_text demo_wire)) \<noteq> wire_text demo_wire"
    if "k < length (wire_text demo_wire)" for k
  proof
    assume "take (length (wire_text demo_wire)) (take k (wire_text demo_wire)) = wire_text demo_wire"
    from arg_cong [OF this, of length] that show False by simp
  qed
  then show ?thesis by (simp add: llhttp_parses_def demo_llhttp_def)
qed

lemma demo_wire_good: "good_request {demo_wire} demo_wire"
  by (simp add: good_request_def demo_wire_def)

lemma demo_wire_text: "wire_text demo_wire = ''GET /a HTTP/1.1'' @ CRLF @ ''Host: h'' @ CRLF @ CRLF"
  by (simp add: wire_text_def wire_prefix_def demo_wire_def render_headers_def render_header_def)

definition full_buf :: "bytes \<Rightarrow> bytebuf" where
  "full_buf bs = \<lparr>bdata = Some bs, capacity = length bs, readerIndex = 0, writerIndex = length bs\<rparr>"

lemma full_buf_ok: "length bs < SZ \<Longrightarrow> wf_buf (full_buf bs)" "contents (full_buf bs) = bs"
  by (simp_all add: full_buf_def wf_buf_def contents_def)

theorem codec_reassembles_request_witness:
  "\<exists>st'. codec_feed demo_llhttp True demo_heap http_codec_new
       (map (full_buf \<circ> bytes_of) [''GET /a HT'', ''TP/1.1'' @ CRLF @ ''Hos'', ''t: h'' @ CRLF @ CRLF])
     = (st', wire_effects True demo_wire, []) \<and> codec_holds st' []"
proof -
  let ?qs = "[''GET /a HT'', ''TP/1.1'' @ CRLF @ ''Hos'', ''t: h'' @ CRLF @ CRLF]"
  have "length (wire_text demo_wire) \<le> HALF" "wire_text demo_wire = concat ?qs" by (simp_all add: demo_wire_text)
  moreover have "[] \<notin> set ?qs" "list_all wf_buf (map (full_buf \<circ> bytes_of) ?qs)" by (simp_all add: full_buf_ok)
  moreover have "map contents (map (full_buf \<circ> bytes_of) ?qs) = map bytes_of ?qs" by (simp add: full_buf_ok)
  ultimately show ?thesis
    using codec_reassembles_request [OF demo_llhttp_parses demo_wire_good _ demo_heap_grants, of ?qs _ True] by blast
qed

text \<open>Pipelined requests in one read are all decoded, in order, and a partial request after them is kept for
  the next read.\<close>

theorem codec_pipelined_requests:
  assumes "llhttp_parses ll R" and "list_all (good_request R) ws" and "good_request R w" and "k < length (wire_text w)"
    and "ws \<noteq> []" and "codec_holds st []" and "k \<le> HALF" and "heap_grants h" and "wf_buf buf"
    and "contents buf = bytes_of (concat (map wire_text ws) @ take k (wire_text w))"
  shows "\<exists>st'. codec_channelRead ll 0 0 hasCtx h st (Some buf) = (st', concat (map (wire_effects hasCtx) ws), None)
    \<and> codec_holds st' (take k (wire_text w))"
proof -
  let ?t = "concat (map wire_text ws) @ take k (wire_text w)"
  obtain v vs where ws: "ws = v # vs" using assms(5) by (cases ws) auto
  have v: "good_request R v" using assms(2) ws by simp
  have t: "?t \<noteq> []" "hd ?t = hd (w_name v)" using good_text [OF v] ws by simp_all
  have st: "wf_buf (hc_leftover st)" "contents (hc_leftover st) = []" "pristine (hc_request st)"
    "readerIndex (hc_leftover st) = 0" using assms(6) by (simp_all add: codec_holds_def)
  have e: "readableBytes (hc_leftover st) = 0" "writerIndex (hc_leftover st) = 0"
    using codec_holds_readable [OF assms(6)] st length_contents [OF st(1)] by simp_all
  have "unat (hd (bytes_of ?t)) = of_char (hd (w_name v))" using unat_hd_bytes [OF t(1)] t(2) by simp
  moreover have "readableBytes buf \<noteq> 0" using assms(9,10) t(1) by (simp only: readable_eq_length length_bytes_of length_0_conv) simp
  ultimately have "codec_channelRead ll 0 0 hasCtx h st (Some buf) = codec_loop ll 0 0 hasCtx h st FromBuf (bytes_of ?t) []"
    using e v mem_read_all [OF assms(9)] assms(10) by (simp add: codec_channelRead_def good_request_def)
  with loop_pipelined [OF assms(1-4) st(3,1) e assms(7,8), of hasCtx "[]"] t(1) show ?thesis
    by (auto simp: codec_holds_def)
qed

theorem codec_pipelined_requests_witness:
  "\<exists>st'. codec_channelRead demo_llhttp 0 0 True demo_heap http_codec_new
       (Some (full_buf (bytes_of (wire_text demo_wire @ wire_text demo_wire @ ''GET /a''))))
     = (st', wire_effects True demo_wire @ wire_effects True demo_wire, None) \<and> codec_holds st' ''GET /a''"
proof -
  let ?b = "full_buf (bytes_of (wire_text demo_wire @ wire_text demo_wire @ ''GET /a''))"
  have p: "take 6 (wire_text demo_wire) = ''GET /a''" "6 < length (wire_text demo_wire)" by (simp_all add: demo_wire_text)
  have "wf_buf ?b" by (rule full_buf_ok) (simp add: demo_wire_text)
  moreover have "contents ?b = bytes_of (concat (map wire_text [demo_wire, demo_wire]) @ take 6 (wire_text demo_wire))"
    using p by (simp add: full_buf_ok)
  ultimately show ?thesis
    using codec_pipelined_requests [OF demo_llhttp_parses _ demo_wire_good p(2) _ codec_holds_new _ demo_heap_grants,
      of "[demo_wire, demo_wire]" ?b True] demo_wire_good p(1) by simp
qed

text \<open>When a read completes a request that had been split and brings a longer part of the next one, the
  unparsed rest is copied within the leftover buffer with overlapping source and destination, which is
  undefined behaviour.\<close>

theorem codec_overlapping_copy:
  assumes "llhttp_parses ll R" and "good_request R w" and "good_request R w'"
    and "codec_holds st p" and "p \<noteq> []" and "wire_text w = p @ q"
    and "length (wire_text w) < k" and "k < length (wire_text w')"
    and "wf_buf buf" and "contents buf = bytes_of (q @ take k (wire_text w'))"
    and "length p + length (q @ take k (wire_text w')) \<le> HALF" and "heap_grants h"
  shows "\<exists>st'. codec_channelRead ll 0 0 hasCtx h st (Some buf) = (st', wire_effects hasCtx w, Some UndefinedBehaviour)"
proof -
  let ?q = "q @ take k (wire_text w')"
  have ne: "?q \<noteq> []" using assms(7,8) by auto
  from read_more [OF assms(4,5,9,10) ne assms(11,12), of ll 0 0 hasCtx] obtain l where
    l: "wf_buf l" "codec_channelRead ll 0 0 hasCtx h st (Some buf) =
       codec_loop ll 0 0 hasCtx h (st\<lparr>hc_leftover := l\<rparr>) (FromLeftover 0) (bytes_of (p @ ?q)) []" .
  let ?st1 = "st\<lparr>hc_leftover := l\<rparr>" and ?rest = "bytes_of (take k (wire_text w'))"
  have pr: "pristine (hc_request ?st1)" using assms(4) by (simp add: codec_holds_def)
  have "bytes_of (p @ ?q) = bytes_of (wire_text w) @ ?rest" using assms(6) by (simp add: bytes_of_append)
  moreover have "?rest \<noteq> []" using assms(7,8) by (auto simp: bytes_of_def)
  ultimately have "codec_channelRead ll 0 0 hasCtx h st (Some buf) =
      codec_loop ll 0 0 hasCtx h (clear_leftover (?st1\<lparr>hc_request := http_request_new\<rparr>))
        (FromLeftover (length (wire_text w))) ?rest (wire_effects hasCtx w)"
    using l loop_request [OF assms(1,2) pr, of hasCtx h "FromLeftover 0" ?rest "[]"] by (simp add: Let_def advance_def)
  moreover have "w' \<in> R" using assms(3) by (simp add: good_request_def)
  ultimately show ?thesis
    using loop_prefix [OF assms(1) _ assms(8), of "clear_leftover (?st1\<lparr>hc_request := http_request_new\<rparr>)" hasCtx h
        "FromLeftover (length (wire_text w))" "wire_effects hasCtx w"] assms(7,8)
    by (auto simp: Let_def readable_clear stash_def)
qed

text \<open>The body of a decoded request starts with the blank line that separates it from the headers: the codec
  records the end of the last header value, not the end of the header block, as the start of the body,
  and never sets the content length.\<close>

theorem request_body_has_separator:
  assumes "w_headers w \<noteq> []"
  shows "\<exists>r. body (wire_request_of w) = Inr (CRLF @ CRLF @ w_body w, r)"
proof -
  obtain hs kv where hs: "w_headers w = hs @ [kv]" using assms by (cases "w_headers w" rule: rev_cases) auto
  define init where "init = wire_prefix w @ render_headers hs @ fst kv @ '': '' @ snd kv"
  have t: "wire_text w = init @ CRLF @ CRLF @ w_body w"
    by (simp add: wire_text_def init_def hs render_headers_def render_header_def)
  have e: "last_end w = length init"
    by (simp add: last_end_def init_def hs render_headers_def render_header_def)
  have "ensureBodyParsed (wire_request_of w) =
      Inr ((wire_request_of w)\<lparr>bodyParsed := True, rq_body := CRLF @ CRLF @ w_body w\<rparr>)"
  proof -
    have f: "rawData (wire_request_of w) = Some (wire_text w)" "headerEnd (wire_request_of w) = length init"
      "contentLength (wire_request_of w) = 0" "\<not> bodyParsed (wire_request_of w)"
      by (cases "w_method w"; simp add: wire_request_of_def setRawData_def set_method_def setUri_def parsePath_def
          http_request_new_def e)+
    have "0 < length init" by (simp add: init_def wire_prefix_def)
    then show ?thesis using f by (simp add: ensureBodyParsed_def str_at_def t)
  qed
  then show ?thesis by (simp add: body_def)
qed

end
