(* ===== verification/Pipeline.thy ===== *)
theory Pipeline
  imports Prelude
begin

text \<open>
  The channel pipeline (\<open>include/xnetty/channel/channel_pipeline.h\<close>, \<open>channel_handler_context.h\<close>,
  \<open>handler.h\<close>, \<open>src/channel/channel_pipeline.cpp\<close>).

  A pipeline is a vector of entries; an entry holds a handler, the results of its two dynamic
  casts, and a \<open>shared_ptr\<close> to a context object. Contexts outlive their entry when a handler keeps
  the pointer, so they live in a heap (\<open>ctxs\<close>) and the entry holds an address. Handlers are user
  code: \<open>inbound_h\<close> and \<open>outbound_h\<close> say which interfaces a handler implements, and \<open>react\<close> gives, for each
  event, the calls the handler makes on its context, in order, and whether it then throws.

  The first half models the management of the vector and shows that it refines plain list
  operations while every context keeps the index of its entry. The second half models the
  dispatch of events, which follows those indices, and shows that a message travels through
  the inbound handlers front to back and through the outbound handlers back to front.
\<close>

section \<open>State\<close>

record hctx =
  pipelineLife :: bool
  ctx_index :: nat
  conn_ctx :: "nat option"
  ctx_handler :: nat
  ctx_name :: string
  removed :: bool

record entry =
  e_name :: string
  e_handler :: nat
  e_inbound :: bool
  e_outbound :: bool
  e_ctx :: nat

record pipeline =
  entries :: "entry list"
  ctxs :: "nat \<Rightarrow> hctx option"
  next_ctx :: nat

record classes =
  inbound_h :: "nat \<Rightarrow> bool"
  outbound_h :: "nat \<Rightarrow> bool"

datatype lifecycle = Attached nat | Added nat nat | Removed nat nat

definition pipeline_new :: pipeline where
  "pipeline_new = \<lparr>entries = [], ctxs = (\<lambda>_. None), next_ctx = 0\<rparr>"

definition upd_ctx :: "nat \<Rightarrow> (hctx \<Rightarrow> hctx) \<Rightarrow> pipeline \<Rightarrow> pipeline" where
  "upd_ctx c f p = p\<lparr>ctxs := (ctxs p)(c := map_option f (ctxs p c))\<rparr>"

section \<open>Management of the handlers\<close>

text \<open>The loop that renumbers the contexts of the entries from position \<open>i\<close> on.\<close>

fun renumber :: "nat \<Rightarrow> entry list \<Rightarrow> pipeline \<Rightarrow> pipeline" where
  "renumber i [] p = p"
| "renumber i (e # es) p = renumber (i + 1) es (upd_ctx (e_ctx e) (\<lambda>c. c\<lparr>ctx_index := i\<rparr>) p)"

definition addEntry :: "classes \<Rightarrow> nat \<Rightarrow> string \<Rightarrow> nat \<Rightarrow> pipeline \<Rightarrow> pipeline" where
  "addEntry cl i name h p =
     (let c = next_ctx p;
          x = \<lparr>pipelineLife = True, ctx_index = i, conn_ctx = None, ctx_handler = h, ctx_name = name, removed = False\<rparr>;
          e = \<lparr>e_name = name, e_handler = h, e_inbound = inbound_h cl h, e_outbound = outbound_h cl h, e_ctx = c\<rparr>;
          es = take i (entries p) @ e # drop i (entries p)
      in renumber (i + 1) (drop (i + 1) es) \<lparr>entries = es, ctxs = (ctxs p)(c := Some x), next_ctx = c + 1\<rparr>)"

definition callHandlerAdded :: "nat \<Rightarrow> pipeline \<Rightarrow> lifecycle list" where
  "callHandlerAdded i p =
     (if i < length (entries p) then [Added (e_handler (entries p ! i)) (e_ctx (entries p ! i))] else [])"

definition addFirst :: "classes \<Rightarrow> string \<Rightarrow> nat \<Rightarrow> pipeline \<Rightarrow> lifecycle list \<times> pipeline" where
  "addFirst cl name h p =
     (let p1 = addEntry cl 0 name h p
      in (Attached (e_handler (hd (entries p1))) # callHandlerAdded 0 p1, p1))"

definition addLast :: "classes \<Rightarrow> string \<Rightarrow> nat \<Rightarrow> pipeline \<Rightarrow> lifecycle list \<times> pipeline" where
  "addLast cl name h p =
     (let p1 = addEntry cl (length (entries p)) name h p
      in (Attached (e_handler (last (entries p1))) # callHandlerAdded (length (entries p1) - 1) p1, p1))"

definition addLast_unnamed :: "classes \<Rightarrow> nat \<Rightarrow> pipeline \<Rightarrow> lifecycle list \<times> pipeline" where
  "addLast_unnamed cl h p = addLast cl ''unnamed'' h p"

text \<open>The search by name shared by the loops of \<open>addBefore\<close>, \<open>addAfter\<close>, \<open>replace\<close> and \<open>remove\<close>.\<close>

fun find_name :: "string \<Rightarrow> entry list \<Rightarrow> nat option" where
  "find_name n [] = None"
| "find_name n (e # es) = (if e_name e = n then Some 0 else map_option Suc (find_name n es))"

definition addBefore :: "classes \<Rightarrow> string \<Rightarrow> string \<Rightarrow> nat \<Rightarrow> pipeline \<Rightarrow> lifecycle list \<times> pipeline" where
  "addBefore cl base name h p = (case find_name base (entries p) of
     None \<Rightarrow> ([], p)
   | Some i \<Rightarrow> let p1 = addEntry cl i name h p in (callHandlerAdded i p1, p1))"

definition addAfter :: "classes \<Rightarrow> string \<Rightarrow> string \<Rightarrow> nat \<Rightarrow> pipeline \<Rightarrow> lifecycle list \<times> pipeline" where
  "addAfter cl base name h p = (case find_name base (entries p) of
     None \<Rightarrow> ([], p)
   | Some i \<Rightarrow> let p1 = addEntry cl (i + 1) name h p in (callHandlerAdded (i + 1) p1, p1))"

definition replace_at :: "classes \<Rightarrow> nat \<Rightarrow> string \<Rightarrow> nat \<Rightarrow> pipeline \<Rightarrow> lifecycle list \<times> pipeline" where
  "replace_at cl i name h p =
     (let e = entries p ! i; c = e_ctx e;
          p1 = upd_ctx c (\<lambda>x. x\<lparr>removed := True\<rparr>) p;
          e1 = e\<lparr>e_name := name, e_handler := h, e_inbound := inbound_h cl h, e_outbound := outbound_h cl h\<rparr>;
          p2 = p1\<lparr>entries := (entries p1)[i := e1]\<rparr>;
          p3 = upd_ctx c (\<lambda>x. x\<lparr>ctx_name := name, ctx_handler := h, removed := False\<rparr>) p2
      in ([Removed (e_handler e) c, Attached h, Added h c], p3))"

definition replace :: "classes \<Rightarrow> string \<Rightarrow> string \<Rightarrow> nat \<Rightarrow> pipeline \<Rightarrow> lifecycle list \<times> pipeline" where
  "replace cl old name h p = (case find_name old (entries p) of
     None \<Rightarrow> ([], p)
   | Some i \<Rightarrow> replace_at cl i name h p)"

text \<open>\<open>findHandler<T>\<close> and \<open>replace<T>\<close> search by a dynamic cast to \<open>T\<close>, the predicate \<open>is_T\<close>.\<close>

fun findHandler :: "(nat \<Rightarrow> bool) \<Rightarrow> entry list \<Rightarrow> nat option" where
  "findHandler is_T [] = None"
| "findHandler is_T (e # es) = (if is_T (e_handler e) then Some (e_handler e) else findHandler is_T es)"

fun find_type :: "(nat \<Rightarrow> bool) \<Rightarrow> entry list \<Rightarrow> nat option" where
  "find_type is_T [] = None"
| "find_type is_T (e # es) = (if is_T (e_handler e) then Some 0 else map_option Suc (find_type is_T es))"

definition replaceT :: "classes \<Rightarrow> (nat \<Rightarrow> bool) \<Rightarrow> string \<Rightarrow> nat \<Rightarrow> pipeline \<Rightarrow> lifecycle list \<times> pipeline" where
  "replaceT cl is_T name h p = (case find_type is_T (entries p) of
     None \<Rightarrow> ([], p)
   | Some i \<Rightarrow> replace cl (e_name (entries p ! i)) name h p)"

definition remove :: "string \<Rightarrow> pipeline \<Rightarrow> lifecycle list \<times> pipeline" where
  "remove name p = (case find_name name (entries p) of
     None \<Rightarrow> ([], p)
   | Some i \<Rightarrow>
       (let e = entries p ! i;
            p1 = upd_ctx (e_ctx e) (\<lambda>x. x\<lparr>removed := True\<rparr>) p;
            es = take i (entries p) @ drop (i + 1) (entries p)
        in ([Removed (e_handler e) (e_ctx e)], renumber i (drop i es) (p1\<lparr>entries := es\<rparr>))))"

fun mark_removed :: "entry list \<Rightarrow> pipeline \<Rightarrow> lifecycle list \<times> pipeline" where
  "mark_removed [] p = ([], p)"
| "mark_removed (e # es) p =
     (let (ls, p1) = mark_removed es (upd_ctx (e_ctx e) (\<lambda>x. x\<lparr>removed := True\<rparr>) p)
      in (Removed (e_handler e) (e_ctx e) # ls, p1))"

definition clear :: "pipeline \<Rightarrow> lifecycle list \<times> pipeline" where
  "clear p = (let (ls, p1) = mark_removed (entries p) p in (ls, p1\<lparr>entries := []\<rparr>))"

fun set_ctx_loop :: "nat option \<Rightarrow> entry list \<Rightarrow> pipeline \<Rightarrow> pipeline" where
  "set_ctx_loop cc [] p = p"
| "set_ctx_loop cc (e # es) p = set_ctx_loop cc es (upd_ctx (e_ctx e) (\<lambda>x. x\<lparr>conn_ctx := cc, pipelineLife := True\<rparr>) p)"

definition setContext :: "nat option \<Rightarrow> pipeline \<Rightarrow> pipeline" where
  "setContext cc p = set_ctx_loop cc (entries p) p"

definition pipeline_size :: "pipeline \<Rightarrow> nat" where
  "pipeline_size p = length (entries p)"

section \<open>Dispatch\<close>

datatype 'm event = ChannelRegistered | ChannelUnregistered | ChannelActive | ChannelInactive
  | ChannelRead 'm | ChannelReadComplete | UserEventTriggered 'm | ExceptionCaught 'm
  | Write 'm | Flush | Close | OnActive | OnInactive

text \<open>What a handler may do with its context while it handles an event.\<close>

datatype 'm action = FireChannelRegistered | FireChannelUnregistered | FireChannelActive | FireChannelInactive
  | FireRead 'm | FireChannelReadComplete | FireUserEventTriggered 'm | FireExceptionCaught 'm
  | FireWrite 'm | FireFlush | FireClose | CtxFlush | CtxClose

text \<open>
  What is observed: the handler calls, the errors \<open>callH\<close> logs, and the requests that reach the
  connection.
\<close>

datatype 'm obs = Call nat "'m event" | LogError string | WireWrite 'm | ConnFlush | ConnClose

record 'm behaviour =
  react :: "nat \<Rightarrow> 'm event \<Rightarrow> 'm action list \<times> bool"
  is_buf :: "'m \<Rightarrow> bool"

type_synonym 'm outcome = "'m obs list res option"

definition seq :: "'m outcome \<Rightarrow> 'm outcome \<Rightarrow> 'm outcome" where
  "seq a b = (case a of
     None \<Rightarrow> None
   | Some (Inl e) \<Rightarrow> Some (Inl e)
   | Some (Inr xs) \<Rightarrow> (case b of None \<Rightarrow> None | Some (Inl e) \<Rightarrow> Some (Inl e) | Some (Inr ys) \<Rightarrow> Some (Inr (xs @ ys))))"

abbreviation emit :: "'m obs list \<Rightarrow> 'm outcome" where
  "emit xs \<equiv> Some (Inr xs)"

text \<open>The scan of \<open>forNextInbound\<close> and \<open>fireReadFrom\<close>.\<close>

function next_inbound :: "entry list \<Rightarrow> nat \<Rightarrow> nat option" where
  "next_inbound es i =
     (if i < length es then if e_inbound (es ! i) then Some i else next_inbound es (i + 1) else None)"
  by pat_completeness auto
termination
  by (relation "measure (\<lambda>(es, i). length es - i)") auto

text \<open>The downward scan of \<open>forPrevOutbound\<close> and \<open>fireWriteFrom\<close>, whose index is an \<open>int64_t\<close>.\<close>

function prev_outbound :: "entry list \<Rightarrow> int \<Rightarrow> nat option res" where
  "prev_outbound es i =
     (if i < 0 then Inr None
      else if length es \<le> nat i then Inl UndefinedBehaviour
      else if e_outbound (es ! nat i) then Inr (Some (nat i)) else prev_outbound es (i - 1))"
  by pat_completeness auto
termination
  by (relation "measure (\<lambda>(es, i). nat (i + 1))") auto

declare next_inbound.simps [simp del] prev_outbound.simps [simp del]

definition forNextInbound :: "(nat \<Rightarrow> 'm event \<Rightarrow> 'm outcome) \<Rightarrow> pipeline \<Rightarrow> nat \<Rightarrow> 'm event \<Rightarrow> 'm outcome" where
  "forNextInbound rec p start ev = (case next_inbound (entries p) start of None \<Rightarrow> emit [] | Some i \<Rightarrow> rec i ev)"

definition forPrevOutbound :: "(nat \<Rightarrow> 'm event \<Rightarrow> 'm outcome) \<Rightarrow> pipeline \<Rightarrow> int \<Rightarrow> 'm event \<Rightarrow> 'm outcome" where
  "forPrevOutbound rec p start ev = (case prev_outbound (entries p) start of
     Inl e \<Rightarrow> Some (Inl e) | Inr None \<Rightarrow> emit [] | Inr (Some i) \<Rightarrow> rec i ev)"

definition forNext :: "(nat \<Rightarrow> 'm event \<Rightarrow> 'm outcome) \<Rightarrow> pipeline \<Rightarrow> nat \<Rightarrow> 'm event \<Rightarrow> 'm outcome" where
  "forNext rec p start ev = (if start < length (entries p) then rec start ev else emit [])"

definition fireReadFrom :: "(nat \<Rightarrow> 'm event \<Rightarrow> 'm outcome) \<Rightarrow> pipeline \<Rightarrow> nat \<Rightarrow> 'm \<Rightarrow> 'm outcome" where
  "fireReadFrom rec p start m = (case next_inbound (entries p) start of None \<Rightarrow> emit [] | Some i \<Rightarrow> rec i (ChannelRead m))"

definition fireWriteFrom :: "(nat \<Rightarrow> 'm event \<Rightarrow> 'm outcome) \<Rightarrow> pipeline \<Rightarrow> nat \<Rightarrow> 'm \<Rightarrow> 'm outcome" where
  "fireWriteFrom rec p start m = (case prev_outbound (entries p) (int start) of
     Inl e \<Rightarrow> Some (Inl e) | Inr None \<Rightarrow> emit [] | Inr (Some i) \<Rightarrow> rec i (Write m))"

text \<open>\<open>ChannelHandlerContext::fireWrite\<close>; the transfer to the connection is the request \<open>WireWrite\<close>.\<close>

definition ctx_fireWrite :: "(nat \<Rightarrow> 'm event \<Rightarrow> 'm outcome) \<Rightarrow> 'm behaviour \<Rightarrow> pipeline \<Rightarrow> hctx \<Rightarrow> 'm \<Rightarrow> 'm outcome" where
  "ctx_fireWrite rec b p x m =
     (if \<not> pipelineLife x then emit []
      else if ctx_index x = 0 then
        (if is_buf b m \<and> conn_ctx x \<noteq> None then emit [WireWrite m] else emit [])
      else fireWriteFrom rec p (ctx_index x - 1) m)"

definition ctx_inbound :: "(nat \<Rightarrow> 'm event \<Rightarrow> 'm outcome) \<Rightarrow> pipeline \<Rightarrow> hctx \<Rightarrow> 'm event \<Rightarrow> 'm outcome" where
  "ctx_inbound rec p x ev = (if \<not> pipelineLife x then emit [] else forNextInbound rec p (ctx_index x + 1) ev)"

definition ctx_fireRead :: "(nat \<Rightarrow> 'm event \<Rightarrow> 'm outcome) \<Rightarrow> pipeline \<Rightarrow> hctx \<Rightarrow> 'm \<Rightarrow> 'm outcome" where
  "ctx_fireRead rec p x m = (if pipelineLife x then fireReadFrom rec p (ctx_index x + 1) m else emit [])"

definition ctx_fireExceptionCaught :: "(nat \<Rightarrow> 'm event \<Rightarrow> 'm outcome) \<Rightarrow> pipeline \<Rightarrow> hctx \<Rightarrow> 'm \<Rightarrow> 'm outcome" where
  "ctx_fireExceptionCaught rec p x m =
     (if \<not> pipelineLife x then emit [] else forNext rec p (ctx_index x + 1) (ExceptionCaught m))"

definition ctx_fireFlush :: "(nat \<Rightarrow> 'm event \<Rightarrow> 'm outcome) \<Rightarrow> pipeline \<Rightarrow> hctx \<Rightarrow> 'm outcome" where
  "ctx_fireFlush rec p x = (if \<not> pipelineLife x then emit [] else forPrevOutbound rec p (int (ctx_index x)) Flush)"

definition ctx_fireClose :: "(nat \<Rightarrow> 'm event \<Rightarrow> 'm outcome) \<Rightarrow> pipeline \<Rightarrow> hctx \<Rightarrow> 'm outcome" where
  "ctx_fireClose rec p x = (if \<not> pipelineLife x then emit [] else forPrevOutbound rec p (int (ctx_index x)) Close)"

definition ctx_flush :: "hctx \<Rightarrow> 'm outcome" where
  "ctx_flush x = emit (if conn_ctx x = None then [] else [ConnFlush])"

definition ctx_close :: "hctx \<Rightarrow> 'm outcome" where
  "ctx_close x = emit (if conn_ctx x = None then [] else [ConnClose])"

fun do_action :: "(nat \<Rightarrow> 'm event \<Rightarrow> 'm outcome) \<Rightarrow> 'm behaviour \<Rightarrow> pipeline \<Rightarrow> hctx \<Rightarrow> 'm action \<Rightarrow> 'm outcome" where
  "do_action rec b p x FireChannelRegistered = ctx_inbound rec p x ChannelRegistered"
| "do_action rec b p x FireChannelUnregistered = ctx_inbound rec p x ChannelUnregistered"
| "do_action rec b p x FireChannelActive = ctx_inbound rec p x ChannelActive"
| "do_action rec b p x FireChannelInactive = ctx_inbound rec p x ChannelInactive"
| "do_action rec b p x (FireRead m) = ctx_fireRead rec p x m"
| "do_action rec b p x FireChannelReadComplete = ctx_inbound rec p x ChannelReadComplete"
| "do_action rec b p x (FireUserEventTriggered m) = ctx_inbound rec p x (UserEventTriggered m)"
| "do_action rec b p x (FireExceptionCaught m) = ctx_fireExceptionCaught rec p x m"
| "do_action rec b p x (FireWrite m) = ctx_fireWrite rec b p x m"
| "do_action rec b p x FireFlush = ctx_fireFlush rec p x"
| "do_action rec b p x FireClose = ctx_fireClose rec p x"
| "do_action rec b p x CtxFlush = ctx_flush x"
| "do_action rec b p x CtxClose = ctx_close x"

fun do_actions :: "(nat \<Rightarrow> 'm event \<Rightarrow> 'm outcome) \<Rightarrow> 'm behaviour \<Rightarrow> pipeline \<Rightarrow> hctx \<Rightarrow> 'm action list \<Rightarrow> 'm outcome" where
  "do_actions rec b p x [] = emit []"
| "do_actions rec b p x (a # as) = seq (do_action rec b p x a) (do_actions rec b p x as)"

text \<open>
  \<open>callH\<close> on the entry at position \<open>i\<close>: the handler runs with its context, and an exception is
  logged. The fuel bounds the nesting of handler calls; \<open>None\<close> is a nesting that exceeds it.
\<close>

fun callH :: "nat \<Rightarrow> 'm behaviour \<Rightarrow> pipeline \<Rightarrow> nat \<Rightarrow> 'm event \<Rightarrow> 'm outcome" where
  "callH 0 b p i ev = None"
| "callH (Suc k) b p i ev =
     (let e = entries p ! i; (acts, raised) = react b (e_handler e) ev in
      case ctxs p (e_ctx e) of
        None \<Rightarrow> Some (Inl UndefinedBehaviour)
      | Some x \<Rightarrow> seq (seq (emit [Call (e_handler e) ev]) (do_actions (callH k b p) b p x acts))
                     (emit (if raised then [LogError (e_name e)] else [])))"

fun for_each :: "(nat \<Rightarrow> 'm outcome) \<Rightarrow> nat list \<Rightarrow> 'm outcome" where
  "for_each f [] = emit []"
| "for_each f (i # is) = seq (f i) (for_each f is)"

definition forAllInbound :: "nat \<Rightarrow> 'm behaviour \<Rightarrow> pipeline \<Rightarrow> 'm event \<Rightarrow> 'm outcome" where
  "forAllInbound k b p ev =
     for_each (\<lambda>i. if e_inbound (entries p ! i) then callH k b p i ev else emit []) [0..<length (entries p)]"

definition forAll :: "nat \<Rightarrow> 'm behaviour \<Rightarrow> pipeline \<Rightarrow> 'm event \<Rightarrow> 'm outcome" where
  "forAll k b p ev = for_each (\<lambda>i. callH k b p i ev) [0..<length (entries p)]"

text \<open>One \<open>callH\<close> covers \<open>onActive\<close> and \<open>channelActive\<close>: when the first throws the second is skipped.\<close>

definition both_calls :: "nat \<Rightarrow> 'm behaviour \<Rightarrow> pipeline \<Rightarrow> 'm event \<Rightarrow> 'm event \<Rightarrow> nat \<Rightarrow> 'm outcome" where
  "both_calls k b p ev1 ev2 i =
     (let e = entries p ! i in
      seq (callH k b p i ev1)
          (if snd (react b (e_handler e) ev1) \<or> \<not> e_inbound e then emit [] else callH k b p i ev2))"

definition forAllActive :: "nat \<Rightarrow> 'm behaviour \<Rightarrow> pipeline \<Rightarrow> 'm outcome" where
  "forAllActive k b p = for_each (both_calls k b p OnActive ChannelActive) [0..<length (entries p)]"

definition forAllInactive :: "nat \<Rightarrow> 'm behaviour \<Rightarrow> pipeline \<Rightarrow> 'm outcome" where
  "forAllInactive k b p = for_each (both_calls k b p OnInactive ChannelInactive) [0..<length (entries p)]"

definition fireChannelRegistered :: "nat \<Rightarrow> 'm behaviour \<Rightarrow> pipeline \<Rightarrow> 'm outcome" where
  "fireChannelRegistered k b p = forAllInbound k b p ChannelRegistered"

definition fireChannelUnregistered :: "nat \<Rightarrow> 'm behaviour \<Rightarrow> pipeline \<Rightarrow> 'm outcome" where
  "fireChannelUnregistered k b p = forAllInbound k b p ChannelUnregistered"

definition fireActive :: "nat \<Rightarrow> 'm behaviour \<Rightarrow> pipeline \<Rightarrow> 'm outcome" where
  "fireActive k b p = forAllActive k b p"

definition fireInactive :: "nat \<Rightarrow> 'm behaviour \<Rightarrow> pipeline \<Rightarrow> 'm outcome" where
  "fireInactive k b p = forAllInactive k b p"

definition fireRead :: "nat \<Rightarrow> 'm behaviour \<Rightarrow> pipeline \<Rightarrow> 'm \<Rightarrow> 'm outcome" where
  "fireRead k b p m = fireReadFrom (callH k b p) p 0 m"

definition fireChannelReadComplete :: "nat \<Rightarrow> 'm behaviour \<Rightarrow> pipeline \<Rightarrow> 'm outcome" where
  "fireChannelReadComplete k b p = forAllInbound k b p ChannelReadComplete"

definition fireUserEventTriggered :: "nat \<Rightarrow> 'm behaviour \<Rightarrow> pipeline \<Rightarrow> 'm \<Rightarrow> 'm outcome" where
  "fireUserEventTriggered k b p m = forAllInbound k b p (UserEventTriggered m)"

definition fireExceptionCaught :: "nat \<Rightarrow> 'm behaviour \<Rightarrow> pipeline \<Rightarrow> 'm \<Rightarrow> 'm outcome" where
  "fireExceptionCaught k b p m = forAll k b p (ExceptionCaught m)"

definition fireWrite :: "nat \<Rightarrow> 'm behaviour \<Rightarrow> pipeline \<Rightarrow> 'm \<Rightarrow> 'm outcome" where
  "fireWrite k b p m =
     (if entries p = [] then emit [] else fireWriteFrom (callH k b p) p (length (entries p) - 1) m)"

definition fireChannelFlush :: "nat \<Rightarrow> 'm behaviour \<Rightarrow> pipeline \<Rightarrow> 'm outcome" where
  "fireChannelFlush k b p = forPrevOutbound (callH k b p) p (int (length (entries p)) - 1) Flush"

definition fireChannelClose :: "nat \<Rightarrow> 'm behaviour \<Rightarrow> pipeline \<Rightarrow> 'm outcome" where
  "fireChannelClose k b p = forPrevOutbound (callH k b p) p (int (length (entries p)) - 1) Close"

text \<open>The reactions a handler inherits when it does not override them.\<close>

fun default_react :: "'m event \<Rightarrow> 'm action list \<times> bool" where
  "default_react (ExceptionCaught m) = ([CtxClose], False)"
| "default_react Flush = ([CtxFlush], False)"
| "default_react Close = ([CtxClose], False)"
| "default_react ev = ([], False)"

section \<open>The index invariant\<close>

text \<open>The context of the entry at position \<open>i\<close> knows its position, its name and its handler, and is live.\<close>

definition entry_ok :: "classes \<Rightarrow> (nat \<Rightarrow> hctx option) \<Rightarrow> nat \<Rightarrow> entry \<Rightarrow> bool" where
  "entry_ok cl m i e \<longleftrightarrow>
     e_inbound e = inbound_h cl (e_handler e) \<and> e_outbound e = outbound_h cl (e_handler e) \<and>
     (case m (e_ctx e) of
        None \<Rightarrow> False
      | Some x \<Rightarrow> ctx_index x = i \<and> ctx_name x = e_name e \<and> ctx_handler x = e_handler e \<and> \<not> removed x \<and> pipelineLife x)"

fun ents_ok :: "classes \<Rightarrow> (nat \<Rightarrow> hctx option) \<Rightarrow> nat \<Rightarrow> entry list \<Rightarrow> bool" where
  "ents_ok cl m i [] = True"
| "ents_ok cl m i (e # es) = (entry_ok cl m i e \<and> ents_ok cl m (i + 1) es)"

definition pipe_wf :: "classes \<Rightarrow> pipeline \<Rightarrow> bool" where
  "pipe_wf cl p \<longleftrightarrow> distinct (map e_ctx (entries p)) \<and> ents_ok cl (ctxs p) 0 (entries p) \<and>
     (\<forall>c. next_ctx p \<le> c \<longrightarrow> ctxs p c = None)"

definition handlers_of :: "pipeline \<Rightarrow> (string \<times> nat) list" where
  "handlers_of p = map (\<lambda>e. (e_name e, e_handler e)) (entries p)"

lemma ents_ok_append: "ents_ok cl m i (xs @ ys) \<longleftrightarrow> ents_ok cl m i xs \<and> ents_ok cl m (i + length xs) ys"
  by (induction xs arbitrary: i) auto

lemma ents_ok_nth: "ents_ok cl m i es \<Longrightarrow> k < length es \<Longrightarrow> entry_ok cl m (i + k) (es ! k)"
  by (induction es arbitrary: i k) (auto simp: nth_Cons split: nat.split, fastforce)

lemma ents_ok_cong: "(\<And>e. e \<in> set es \<Longrightarrow> m (e_ctx e) = m' (e_ctx e)) \<Longrightarrow> ents_ok cl m i es = ents_ok cl m' i es"
  by (induction es arbitrary: i) (auto simp: entry_ok_def)

lemma ents_ok_avoid:
  assumes "c \<notin> e_ctx ` set es" "\<And>d. d \<noteq> c \<Longrightarrow> m d = m' d"
  shows "ents_ok cl m i es = ents_ok cl m' i es"
proof (rule ents_ok_cong)
  fix e assume "e \<in> set es"
  then have "e_ctx e \<in> e_ctx ` set es" by (rule imageI)
  then show "m (e_ctx e) = m' (e_ctx e)" using assms by (cases "e_ctx e = c") auto
qed

lemma ents_ok_live: "ents_ok cl m i es \<Longrightarrow> e \<in> set es \<Longrightarrow> m (e_ctx e) \<noteq> None"
  by (induction es arbitrary: i) (auto simp: entry_ok_def split: option.splits)

lemma ctxs_upd_ctx [simp]: "ctxs (upd_ctx c f p) d = (if d = c then map_option f (ctxs p c) else ctxs p d)"
  by (simp add: upd_ctx_def)

lemma upd_ctx_None: "ctxs p c = None \<Longrightarrow> ctxs (upd_ctx d f p) c = None"
  by auto

lemma entries_upd_ctx [simp]: "entries (upd_ctx c f p) = entries p" "next_ctx (upd_ctx c f p) = next_ctx p"
  by (simp_all add: upd_ctx_def)

lemma renumber_frame [simp]: "entries (renumber i es p) = entries p" "next_ctx (renumber i es p) = next_ctx p"
  by (induction i es p rule: renumber.induct) simp_all

lemma renumber_other: "c \<notin> e_ctx ` set es \<Longrightarrow> ctxs (renumber i es p) c = ctxs p c"
  by (induction i es p rule: renumber.induct) auto

lemma renumber_ok:
  "ents_ok cl (ctxs p) j es \<Longrightarrow> distinct (map e_ctx es) \<Longrightarrow> ents_ok cl (ctxs (renumber i es p)) i es"
proof (induction es arbitrary: i j p)
  case (Cons e es)
  let ?p = "upd_ctx (e_ctx e) (\<lambda>c. c\<lparr>ctx_index := i\<rparr>) p"
  have "ents_ok cl (ctxs ?p) (j + 1) es"
    using Cons.prems by (subst ents_ok_avoid [of "e_ctx e" es "ctxs ?p" "ctxs p"]) auto
  then have "ents_ok cl (ctxs (renumber (i + 1) es ?p)) (i + 1) es" using Cons by simp
  moreover have "ctxs (renumber (i + 1) es ?p) (e_ctx e) = ctxs ?p (e_ctx e)"
    by (rule renumber_other) (use Cons.prems in auto)
  ultimately show ?case using Cons.prems by (auto simp: entry_ok_def split: option.splits)
qed simp

lemma renumber_fresh: "ctxs p c = None \<Longrightarrow> ctxs (renumber i es p) c = None"
  by (induction es arbitrary: i p) (simp_all add: upd_ctx_None del: ctxs_upd_ctx)

text \<open>A vector split at a position, with the entries behind it renumbered.\<close>

lemma renumber_tail_ok:
  assumes "ents_ok cl (ctxs p) 0 xs" "ents_ok cl (ctxs p) j ys" "distinct (map e_ctx (xs @ ys))"
  shows "ents_ok cl (ctxs (renumber (length xs) ys p)) 0 (xs @ ys)"
proof -
  have "ents_ok cl (ctxs (renumber (length xs) ys p)) 0 xs \<longleftrightarrow> ents_ok cl (ctxs p) 0 xs"
    by (rule ents_ok_cong, rule renumber_other) (use assms(3) in force)
  then show ?thesis using assms renumber_ok [OF assms(2)] by (simp add: ents_ok_append)
qed

lemma wf_pipeline_new [wf_intros]: "pipe_wf cl pipeline_new"
  by (simp add: pipe_wf_def pipeline_new_def)

lemma wf_fresh_ctx: "pipe_wf cl p \<Longrightarrow> next_ctx p \<notin> e_ctx ` set (entries p)"
  using ents_ok_live by (fastforce simp: pipe_wf_def)

lemma addEntry_entries:
  "i \<le> length (entries p) \<Longrightarrow> entries (addEntry cl i name h p) =
     take i (entries p) @ \<lparr>e_name = name, e_handler = h, e_inbound = inbound_h cl h, e_outbound = outbound_h cl h,
       e_ctx = next_ctx p\<rparr> # drop i (entries p)"
  by (simp add: addEntry_def Let_def)

lemma addEntry_wf [wf_intros]:
  assumes wf: "pipe_wf cl p" and i: "i \<le> length (entries p)"
  shows "pipe_wf cl (addEntry cl i name h p)"
proof -
  obtain xs ys where es: "entries p = xs @ ys" "length xs = i"
    using i by (metis append_take_drop_id length_take min.absorb2)
  let ?c = "next_ctx p"
  let ?x = "\<lparr>pipelineLife = True, ctx_index = i, conn_ctx = None, ctx_handler = h, ctx_name = name, removed = False\<rparr>"
  let ?e = "\<lparr>e_name = name, e_handler = h, e_inbound = inbound_h cl h, e_outbound = outbound_h cl h, e_ctx = ?c\<rparr>"
  let ?p = "\<lparr>entries = xs @ ?e # ys, ctxs = (ctxs p)(?c := Some ?x), next_ctx = ?c + 1\<rparr>"
  have eq: "addEntry cl i name h p = renumber (length (xs @ [?e])) ys ?p" using es by (simp add: addEntry_def Let_def)
  have fresh: "?c \<notin> e_ctx ` set (xs @ ys)" using wf_fresh_ctx [OF wf] es by simp
  have old: "ents_ok cl (ctxs p) 0 xs" "ents_ok cl (ctxs p) i ys" "distinct (map e_ctx (xs @ ys))"
    using wf es by (simp_all add: pipe_wf_def ents_ok_append)
  have same: "ents_ok cl (ctxs ?p) j zs = ents_ok cl (ctxs p) j zs" if "set zs \<subseteq> set (xs @ ys)" for j zs
    by (rule ents_ok_cong) (use that fresh in force)
  have "ents_ok cl (ctxs ?p) 0 (xs @ [?e])"
    using old(1) es(2) same [of xs 0] by (simp add: ents_ok_append entry_ok_def)
  moreover have "ents_ok cl (ctxs ?p) i ys" using old(2) same [of ys i] by simp
  moreover have "distinct (map e_ctx ((xs @ [?e]) @ ys))" using old(3) fresh by auto
  ultimately have "ents_ok cl (ctxs (renumber (length (xs @ [?e])) ys ?p)) 0 ((xs @ [?e]) @ ys)"
    by (rule renumber_tail_ok)
  moreover have "\<forall>c. ?c + 1 \<le> c \<longrightarrow> ctxs (renumber (length (xs @ [?e])) ys ?p) c = None"
    using wf by (auto intro!: renumber_fresh simp: pipe_wf_def)
  ultimately show ?thesis using old(3) fresh unfolding pipe_wf_def eq by auto
qed

section \<open>Refinement of list operations\<close>

datatype pipe_op = AddFirst string nat | AddLast string nat | AddBefore string string nat | AddAfter string string nat
  | Replace string string nat | Remove string | Clear | SetContext "nat option"

fun apply_op :: "classes \<Rightarrow> pipe_op \<Rightarrow> pipeline \<Rightarrow> pipeline" where
  "apply_op cl (AddFirst n h) p = snd (addFirst cl n h p)"
| "apply_op cl (AddLast n h) p = snd (addLast cl n h p)"
| "apply_op cl (AddBefore b n h) p = snd (addBefore cl b n h p)"
| "apply_op cl (AddAfter b n h) p = snd (addAfter cl b n h p)"
| "apply_op cl (Replace old n h) p = snd (replace cl old n h p)"
| "apply_op cl (Remove n) p = snd (remove n p)"
| "apply_op cl Clear p = snd (clear p)"
| "apply_op cl (SetContext cc) p = setContext cc p"

text \<open>The same operations on a list of named handlers; the first entry of a name is meant.\<close>

fun at_first :: "string \<Rightarrow> (string \<times> nat \<Rightarrow> (string \<times> nat) list) \<Rightarrow> (string \<times> nat) list \<Rightarrow> (string \<times> nat) list" where
  "at_first n f [] = []"
| "at_first n f (y # ys) = (if fst y = n then f y @ ys else y # at_first n f ys)"

fun spec_op :: "pipe_op \<Rightarrow> (string \<times> nat) list \<Rightarrow> (string \<times> nat) list" where
  "spec_op (AddFirst n h) xs = (n, h) # xs"
| "spec_op (AddLast n h) xs = xs @ [(n, h)]"
| "spec_op (AddBefore b n h) xs = at_first b (\<lambda>y. [(n, h), y]) xs"
| "spec_op (AddAfter b n h) xs = at_first b (\<lambda>y. [y, (n, h)]) xs"
| "spec_op (Replace old n h) xs = at_first old (\<lambda>_. [(n, h)]) xs"
| "spec_op (Remove n) xs = at_first n (\<lambda>_. []) xs"
| "spec_op Clear xs = []"
| "spec_op (SetContext cc) xs = xs"

abbreviation nh :: "entry \<Rightarrow> string \<times> nat" where
  "nh e \<equiv> (e_name e, e_handler e)"

lemma find_name_less: "find_name n es = Some i \<Longrightarrow> i < length es"
  by (induction es arbitrary: i) (auto split: if_splits)

lemma at_first_found:
  "find_name n es = Some i \<Longrightarrow>
     at_first n f (map nh es) = map nh (take i es) @ f (nh (es ! i)) @ map nh (drop (i + 1) es)"
  by (induction es arbitrary: i) (auto split: if_splits)

lemma at_first_absent: "find_name n es = None \<Longrightarrow> at_first n f (map nh es) = map nh es"
  by (induction es) (auto split: if_splits)

lemma upd_ctx_ents_ok:
  assumes "\<And>x. ctx_index (f x) = ctx_index x \<and> ctx_name (f x) = ctx_name x \<and> ctx_handler (f x) = ctx_handler x \<and>
             (\<not> removed x \<longrightarrow> \<not> removed (f x)) \<and> (pipelineLife x \<longrightarrow> pipelineLife (f x))"
  shows "ents_ok cl (ctxs p) i es \<Longrightarrow> ents_ok cl (ctxs (upd_ctx c f p)) i es"
  using assms by (induction es arbitrary: i) (auto simp: entry_ok_def split: option.splits)

lemma setContext_wf [wf_intros]: "pipe_wf cl p \<Longrightarrow> pipe_wf cl (setContext cc p)"
  and setContext_entries: "entries (setContext cc p) = entries p"
proof -
  have fr: "entries (set_ctx_loop cc es p) = entries p \<and> next_ctx (set_ctx_loop cc es p) = next_ctx p" for es p
    by (induction cc es p rule: set_ctx_loop.induct) simp_all
  have ok: "ents_ok cl (ctxs p) i zs \<Longrightarrow> ents_ok cl (ctxs (set_ctx_loop cc es p)) i zs" for es p i zs
    by (induction es arbitrary: p) (simp_all add: upd_ctx_ents_ok)
  have fresh: "ctxs p c = None \<Longrightarrow> ctxs (set_ctx_loop cc es p) c = None" for es p c
    by (induction es arbitrary: p) (simp_all add: upd_ctx_None del: ctxs_upd_ctx)
  show "entries (setContext cc p) = entries p" by (simp add: setContext_def fr)
  show "pipe_wf cl p \<Longrightarrow> pipe_wf cl (setContext cc p)"
    by (auto simp: pipe_wf_def setContext_def fr intro: ok fresh)
qed

lemma clear_correct: "pipe_wf cl p \<Longrightarrow> pipe_wf cl (snd (clear p))" "entries (snd (clear p)) = []"
proof -
  have fresh: "ctxs p c = None \<Longrightarrow> ctxs (snd (mark_removed es p)) c = None" for es p c
    by (induction es arbitrary: p) (simp_all add: upd_ctx_None split_beta del: ctxs_upd_ctx)
  have nx: "next_ctx (snd (mark_removed es p)) = next_ctx p" for es p
    by (induction es arbitrary: p) (simp_all add: split_beta)
  show "entries (snd (clear p)) = []" by (simp add: clear_def split: prod.split)
  show "pipe_wf cl p \<Longrightarrow> pipe_wf cl (snd (clear p))"
    using fresh nx by (auto simp: pipe_wf_def clear_def split_beta)
qed

lemma split_at: "i < length es \<Longrightarrow> es = take i es @ es ! i # drop (i + 1) es"
  by (simp add: Cons_nth_drop_Suc)

lemma replace_at_wf:
  assumes wf: "pipe_wf cl p" and i: "i < length (entries p)"
  shows "pipe_wf cl (snd (replace_at cl i n h p))"
proof -
  let ?es = "entries p" let ?e = "?es ! i"
  let ?e1 = "?e\<lparr>e_name := n, e_handler := h, e_inbound := inbound_h cl h, e_outbound := outbound_h cl h\<rparr>"
  let ?p = "snd (replace_at cl i n h p)"
  have old: "distinct (map e_ctx ?es)" "ents_ok cl (ctxs p) 0 ?es" using wf by (simp_all add: pipe_wf_def)
  have es: "entries ?p = take i ?es @ ?e1 # drop (i + 1) ?es"
    using i by (simp add: replace_at_def Let_def upd_conv_take_nth_drop)
  have d: "distinct (map e_ctx (take i ?es @ ?e # drop (i + 1) ?es))" using old(1) split_at [OF i] by metis
  have ctx: "ctxs ?p c = (if c = e_ctx ?e then map_option (\<lambda>x. x\<lparr>ctx_name := n, ctx_handler := h, removed := False\<rparr>) (ctxs p c) else ctxs p c)" for c
    by (simp add: replace_at_def Let_def option.map_comp o_def)
  have rest: "ents_ok cl (ctxs ?p) j zs = ents_ok cl (ctxs p) j zs" if "e_ctx ?e \<notin> e_ctx ` set zs" for j zs
    by (rule ents_ok_avoid [OF that]) (simp add: ctx)
  have parts: "ents_ok cl (ctxs p) 0 (take i ?es)" "entry_ok cl (ctxs p) i ?e" "ents_ok cl (ctxs p) (i + 1) (drop (i + 1) ?es)"
    using old(2) i by (subst (asm) split_at [OF i], simp add: ents_ok_append)+
  have "entry_ok cl (ctxs ?p) i ?e1"
    using parts(2) unfolding entry_ok_def by (auto simp: ctx split: option.splits)
  then have "ents_ok cl (ctxs ?p) 0 (entries ?p)"
    unfolding es using parts(1,3) d i rest [of "take i ?es"] rest [of "drop (i + 1) ?es"] by (simp add: ents_ok_append)
  moreover have "\<forall>c. next_ctx ?p \<le> c \<longrightarrow> ctxs ?p c = None"
    using wf by (simp add: ctx pipe_wf_def) (simp add: replace_at_def Let_def)
  ultimately show ?thesis using d unfolding pipe_wf_def by (simp add: es)
qed

lemma remove_wf:
  assumes wf: "pipe_wf cl p" and i: "find_name n (entries p) = Some i"
  shows "pipe_wf cl (snd (remove n p))"
    and "entries (snd (remove n p)) = take i (entries p) @ drop (i + 1) (entries p)"
proof -
  note less = find_name_less [OF i]
  let ?es = "entries p" let ?e = "?es ! i"
  let ?xs = "take i ?es" and ?ys = "drop (i + 1) ?es"
  let ?p1 = "(upd_ctx (e_ctx ?e) (\<lambda>x. x\<lparr>removed := True\<rparr>) p)\<lparr>entries := ?xs @ ?ys\<rparr>"
  have eq: "snd (remove n p) = renumber (length ?xs) ?ys ?p1"
    using i less by (simp add: remove_def Let_def)
  have old: "distinct (map e_ctx (?xs @ ?e # ?ys))" "ents_ok cl (ctxs p) 0 (?xs @ ?e # ?ys)"
    using wf split_at [OF less] by (metis pipe_wf_def)+
  have rest: "ents_ok cl (ctxs ?p1) j zs = ents_ok cl (ctxs p) j zs" if "e_ctx ?e \<notin> e_ctx ` set zs" for j zs
    by (rule ents_ok_avoid [OF that]) simp
  have "ents_ok cl (ctxs (renumber (length ?xs) ?ys ?p1)) 0 (?xs @ ?ys)"
    by (rule renumber_tail_ok [where j = "i + 1"])
       (use old less rest [of ?xs] rest [of ?ys] in \<open>simp_all add: ents_ok_append\<close>)
  moreover have "\<forall>c. next_ctx p \<le> c \<longrightarrow> ctxs (renumber (length ?xs) ?ys ?p1) c = None"
    using wf by (auto intro!: renumber_fresh simp: pipe_wf_def)
  ultimately show "pipe_wf cl (snd (remove n p))" using old(1) unfolding pipe_wf_def eq by simp
  show "entries (snd (remove n p)) = ?xs @ ?ys" unfolding eq by simp
qed

lemma handlers_addEntry:
  "i \<le> length (entries p) \<Longrightarrow> handlers_of (addEntry cl i n h p) = map nh (take i (entries p)) @ (n, h) # map nh (drop i (entries p))"
  by (simp add: handlers_of_def addEntry_entries)

lemma nh_drop_split: "i < length es \<Longrightarrow> map nh (drop i es) = nh (es ! i) # map nh (drop (i + 1) es)"
  by (simp add: Cons_nth_drop_Suc [symmetric])

lemma nh_take_split: "i < length es \<Longrightarrow> map nh (take (i + 1) es) = map nh (take i es) @ [nh (es ! i)]"
  by (simp add: take_Suc_conv_app_nth)

lemma apply_op_refines:
  assumes wf: "pipe_wf cl p"
  shows "pipe_wf cl (apply_op cl op p) \<and> handlers_of (apply_op cl op p) = spec_op op (handlers_of p)"
proof (cases op)
  case (AddBefore b n h)
  show ?thesis
  proof (cases "find_name b (entries p)")
    case None
    then show ?thesis using wf AddBefore by (simp add: addBefore_def handlers_of_def at_first_absent)
  next
    case (Some i)
    then have "i < length (entries p)" by (rule find_name_less)
    then show ?thesis using wf AddBefore Some
      by (simp add: addBefore_def Let_def addEntry_wf handlers_addEntry nh_drop_split)
         (simp add: handlers_of_def at_first_found)
  qed
next
  case (AddAfter b n h)
  show ?thesis
  proof (cases "find_name b (entries p)")
    case None
    then show ?thesis using wf AddAfter by (simp add: addAfter_def handlers_of_def at_first_absent)
  next
    case (Some i)
    then have "i < length (entries p)" by (rule find_name_less)
    then show ?thesis using wf AddAfter Some addEntry_wf [OF wf, of "i + 1"] handlers_addEntry [of "i + 1" p]
        nh_take_split [of i "entries p"]
      by (simp add: addAfter_def Let_def) (simp add: handlers_of_def at_first_found)
  qed
next
  case (Replace old n h)
  show ?thesis
  proof (cases "find_name old (entries p)")
    case None
    then show ?thesis using wf Replace by (simp add: replace_def handlers_of_def at_first_absent)
  next
    case (Some i)
    then have i: "i < length (entries p)" by (rule find_name_less)
    then have "handlers_of (snd (replace_at cl i n h p)) = map nh (take i (entries p)) @ (n, h) # map nh (drop (i + 1) (entries p))"
      by (simp add: handlers_of_def replace_at_def Let_def upd_conv_take_nth_drop)
    then show ?thesis using Replace Some replace_at_wf [OF wf i]
      by (simp add: replace_def) (simp add: handlers_of_def at_first_found)
  qed
next
  case (Remove n)
  show ?thesis
  proof (cases "find_name n (entries p)")
    case None
    then show ?thesis using wf Remove by (simp add: remove_def handlers_of_def at_first_absent)
  next
    case (Some i)
    then show ?thesis using Remove remove_wf [OF wf Some] by (simp add: handlers_of_def at_first_found)
  qed
qed (use wf in \<open>auto simp: addFirst_def addLast_def Let_def addEntry_wf handlers_addEntry clear_correct setContext_wf
       handlers_of_def setContext_entries addEntry_entries\<close>)

text \<open>The contract a handler chain owes its users: an invariant and a list of named handlers.\<close>

locale handler_chain =
  fixes ok :: "'p \<Rightarrow> bool"
    and step :: "'op \<Rightarrow> 'p \<Rightarrow> 'p"
    and start :: 'p
    and view :: "'p \<Rightarrow> 'v"
    and spec :: "'op \<Rightarrow> 'v \<Rightarrow> 'v"
  assumes start_ok: "ok start"
    and step_ok: "ok p \<Longrightarrow> ok (step op p)"
    and step_view: "ok p \<Longrightarrow> view (step op p) = spec op (view p)"
begin

lemma run_ok: "ok (fold step ops start)"
proof -
  have "ok p \<Longrightarrow> ok (fold step ops p)" for p by (induction ops arbitrary: p) (simp_all add: step_ok)
  then show ?thesis using start_ok by simp
qed

lemma run_view: "view (fold step ops start) = fold spec ops (view start)"
proof -
  have "ok p \<Longrightarrow> view (fold step ops p) = fold spec ops (view p)" for p
    by (induction ops arbitrary: p) (simp_all add: step_ok step_view)
  then show ?thesis using start_ok by simp
qed

end

interpretation chain: handler_chain "pipe_wf cl" "apply_op cl" pipeline_new handlers_of spec_op for cl
  by unfold_locales (simp_all add: wf_pipeline_new apply_op_refines)

section \<open>Dispatch follows the chain\<close>

lemma seq_emit [simp]: "seq (emit xs) (emit ys) = emit (xs @ ys)"
  by (simp add: seq_def)

text \<open>Positions of the inbound handlers from \<open>i\<close> on, and of the outbound handlers below \<open>i\<close>, nearest first.\<close>

definition ins_from :: "pipeline \<Rightarrow> nat \<Rightarrow> nat list" where
  "ins_from p i = filter (\<lambda>k. e_inbound (entries p ! k)) [i..<length (entries p)]"

definition outs_below :: "pipeline \<Rightarrow> nat \<Rightarrow> nat list" where
  "outs_below p i = rev (filter (\<lambda>k. e_outbound (entries p ! k)) [0..<i])"

lemma next_inbound_hd:
  "next_inbound (entries p) i = (case ins_from p i of [] \<Rightarrow> None | k # _ \<Rightarrow> Some k)"
proof (induction "entries p" i rule: next_inbound.induct)
  case (1 i)
  then show ?case
    by (subst next_inbound.simps) (auto simp: ins_from_def upt_conv_Cons)
qed

lemma ins_from_Cons: "ins_from p i = k # ks \<Longrightarrow> ks = ins_from p (k + 1) \<and> i \<le> k \<and> k < length (entries p) \<and> e_inbound (entries p ! k)"
proof (induction "length (entries p) - i" arbitrary: i)
  case 0
  then show ?case by (simp add: ins_from_def)
next
  case (Suc n)
  then have "i < length (entries p)" by simp
  then have split: "[i..<length (entries p)] = i # [Suc i..<length (entries p)]" by (rule upt_conv_Cons)
  show ?case
  proof (cases "e_inbound (entries p ! i)")
    case True
    then show ?thesis using Suc.prems \<open>i < length (entries p)\<close> by (auto simp add: ins_from_def split)
  next
    case False
    then have "ins_from p (Suc i) = k # ks" using Suc.prems by (simp add: ins_from_def split)
    moreover have "n = length (entries p) - Suc i" using Suc.hyps(2) by simp
    ultimately show ?thesis using Suc.hyps(1) [of "Suc i"] by auto
  qed
qed

lemma prev_outbound_hd:
  "i \<le> length (entries p) \<Longrightarrow> prev_outbound (entries p) (int i - 1) = Inr (case outs_below p i of [] \<Rightarrow> None | k # _ \<Rightarrow> Some k)"
proof (induction i)
  case 0
  then show ?case by (subst prev_outbound.simps) (simp add: outs_below_def)
next
  case (Suc i)
  then show ?case by (subst prev_outbound.simps) (simp add: outs_below_def)
qed

lemma outs_below_Cons: "outs_below p i = k # ks \<Longrightarrow> ks = outs_below p k \<and> k < i \<and> e_outbound (entries p ! k)"
proof (induction i)
  case (Suc i)
  then show ?case by (cases "e_outbound (entries p ! i)") (auto simp: outs_below_def)
qed (simp add: outs_below_def)

lemma wf_entry_ctx:
  assumes "pipe_wf cl p" "k < length (entries p)"
  obtains x where "ctxs p (e_ctx (entries p ! k)) = Some x" "ctx_index x = k" "pipelineLife x"
  using assms ents_ok_nth [of cl "ctxs p" 0 "entries p" k] by (auto simp: pipe_wf_def entry_ok_def split: option.splits)

subsection \<open>Reads and the writes they cause\<close>

text \<open>
  The layering a server pipeline keeps: while it handles a message on its way out, a handler only
  passes messages further out; while it handles one on its way in, it passes messages on in either
  direction.
\<close>

definition layered :: "'m behaviour \<Rightarrow> bool" where
  "layered b \<longleftrightarrow>
     (\<forall>h m. \<forall>a \<in> set (fst (react b h (Write m))). \<exists>m'. a = FireWrite m') \<and>
     (\<forall>h m. \<forall>a \<in> set (fst (react b h (ChannelRead m))). \<exists>m'. a = FireRead m' \<or> a = FireWrite m')"

lemma layered_write:
  assumes "layered b" "a \<in> set (fst (react b h (Write m)))"
  obtains m' where "a = FireWrite m'"
proof -
  have "\<forall>a \<in> set (fst (react b h (Write m))). \<exists>m'. a = FireWrite m'" using assms(1) by (simp add: layered_def)
  then show thesis using assms(2) that by auto
qed

lemma layered_read:
  assumes "layered b" "a \<in> set (fst (react b h (ChannelRead m)))"
  obtains m' where "a = FireRead m' \<or> a = FireWrite m'"
proof -
  have "\<forall>a \<in> set (fst (react b h (ChannelRead m))). \<exists>m'. a = FireRead m' \<or> a = FireWrite m'"
    using assms(1) by (simp add: layered_def)
  then show thesis using assms(2) that by auto
qed

definition errors_of :: "'m behaviour \<Rightarrow> pipeline \<Rightarrow> nat \<Rightarrow> 'm event \<Rightarrow> 'm obs list" where
  "errors_of b p k ev = (if snd (react b (e_handler (entries p ! k)) ev) then [LogError (e_name (entries p ! k))] else [])"

definition connected :: "pipeline \<Rightarrow> nat \<Rightarrow> bool" where
  "connected p k = (case ctxs p (e_ctx (entries p ! k)) of None \<Rightarrow> False | Some x \<Rightarrow> conn_ctx x \<noteq> None)"

text \<open>
  The reference semantics: the message visits the listed positions one after the other, and each
  message a handler passes on visits the remaining ones. A message passed on by the handler at
  position \<open>k\<close> with no outbound handler before it reaches the connection only when \<open>k\<close> is 0.
\<close>

fun write_spec :: "'m behaviour \<Rightarrow> pipeline \<Rightarrow> nat list \<Rightarrow> nat \<Rightarrow> 'm \<Rightarrow> 'm obs list" where
  "write_spec b p [] k m = (if k = 0 \<and> is_buf b m \<and> connected p k then [WireWrite m] else [])"
| "write_spec b p (j # js) k m =
     Call (e_handler (entries p ! j)) (Write m) #
     concat (map (\<lambda>a. case a of FireWrite m' \<Rightarrow> write_spec b p js j m' | _ \<Rightarrow> [])
                 (fst (react b (e_handler (entries p ! j)) (Write m)))) @
     errors_of b p j (Write m)"

fun read_spec :: "'m behaviour \<Rightarrow> pipeline \<Rightarrow> nat list \<Rightarrow> 'm \<Rightarrow> 'm obs list" where
  "read_spec b p [] m = []"
| "read_spec b p (k # ks) m =
     Call (e_handler (entries p ! k)) (ChannelRead m) #
     concat (map (\<lambda>a. case a of FireRead m' \<Rightarrow> read_spec b p ks m'
                              | FireWrite m' \<Rightarrow> write_spec b p (outs_below p k) k m' | _ \<Rightarrow> [])
                 (fst (react b (e_handler (entries p ! k)) (ChannelRead m)))) @
     errors_of b p k (ChannelRead m)"

lemma do_actions_emit:
  "(\<And>a. a \<in> set as \<Longrightarrow> do_action rec b p x a = emit (f a)) \<Longrightarrow> do_actions rec b p x as = emit (concat (map f as))"
  by (induction as) simp_all

lemma callH_emit:
  assumes "ctxs p (e_ctx (entries p ! k)) = Some x"
    and "\<And>a. a \<in> set (fst (react b (e_handler (entries p ! k)) ev)) \<Longrightarrow> do_action (callH n b p) b p x a = emit (f a)"
  shows "callH (Suc n) b p k ev = emit (Call (e_handler (entries p ! k)) ev #
           concat (map f (fst (react b (e_handler (entries p ! k)) ev))) @ errors_of b p k ev)"
  using assms do_actions_emit [of "fst (react b (e_handler (entries p ! k)) ev)" "callH n b p" b p x f]
  by (simp add: errors_of_def Let_def split_beta)

lemma ctx_fireWrite_spec:
  assumes "pipe_wf cl p" "layered b"
  shows "k < length (entries p) \<Longrightarrow> ctxs p (e_ctx (entries p ! k)) = Some x \<Longrightarrow> length (outs_below p k) \<le> n \<Longrightarrow>
    ctx_fireWrite (callH n b p) b p x m = emit (write_spec b p (outs_below p k) k m)"
proof (induction "outs_below p k" arbitrary: k x m n)
  case Nil
  have "ctx_index x = k" "pipelineLife x" using wf_entry_ctx [OF assms(1) Nil.prems(1)] Nil.prems(2) by force+
  then show ?case using Nil prev_outbound_hd [of k p] Nil.hyps [symmetric]
    by (cases k) (auto simp: ctx_fireWrite_def connected_def fireWriteFrom_def)
next
  case (Cons j js)
  note prev = Cons.hyps(2) [symmetric]
  note step = outs_below_Cons [OF prev]
  have x: "ctx_index x = k" "pipelineLife x" using wf_entry_ctx [OF assms(1) Cons.prems(1)] Cons.prems(2) by force+
  have k: "0 < k" "j < length (entries p)" using step Cons.prems(1) by auto
  obtain y where y: "ctxs p (e_ctx (entries p ! j)) = Some y" by (rule wf_entry_ctx [OF assms(1) k(2)])
  obtain n' where n: "n = Suc n'" using Cons.prems(3) prev by (cases n) auto
  have "do_action (callH n' b p) b p y a = emit (case a of FireWrite m' \<Rightarrow> write_spec b p js j m' | _ \<Rightarrow> [])"
    if a: "a \<in> set (fst (react b (e_handler (entries p ! j)) (Write m)))" for a
  proof -
    obtain m' where "a = FireWrite m'" by (rule layered_write [OF assms(2) a])
    then show ?thesis using Cons.hyps(1) [of j y n' m'] step k y Cons.prems(3) prev n by simp
  qed
  then have "callH n b p j (Write m) = emit (write_spec b p (j # js) k m)"
    unfolding n by (subst callH_emit [OF y]) auto
  moreover have "ctx_fireWrite (callH n b p) b p x m = callH n b p j (Write m)"
    using x k prev_outbound_hd [of k p] Cons.prems(1) prev
    by (simp add: ctx_fireWrite_def fireWriteFrom_def of_nat_diff)
  ultimately show ?case using prev by simp
qed

lemma outs_below_length: "length (outs_below p k) \<le> k"
  unfolding outs_below_def using length_filter_le [of _ "[0..<k]"] by simp

lemma fireReadFrom_spec:
  assumes "pipe_wf cl p" "layered b"
  shows "length (ins_from p i) + length (entries p) \<le> n \<Longrightarrow>
    fireReadFrom (callH n b p) p i m = emit (read_spec b p (ins_from p i) m)"
proof (induction "ins_from p i" arbitrary: i m n)
  case Nil
  then show ?case using Nil.hyps [symmetric] by (simp add: fireReadFrom_def next_inbound_hd)
next
  case (Cons k ks)
  note nxt = Cons.hyps(2) [symmetric]
  note step = ins_from_Cons [OF nxt]
  have k: "k < length (entries p)" using step by simp
  obtain x where x: "ctxs p (e_ctx (entries p ! k)) = Some x" "ctx_index x = k" "pipelineLife x"
    by (rule wf_entry_ctx [OF assms(1) k])
  obtain n' where n: "n = Suc n'" using Cons.prems nxt by (cases n) auto
  have fuel: "length (outs_below p k) \<le> n'" using outs_below_length [of p k] k Cons.prems nxt n by simp
  have "do_action (callH n' b p) b p x a = emit (case a of FireRead m' \<Rightarrow> read_spec b p ks m'
          | FireWrite m' \<Rightarrow> write_spec b p (outs_below p k) k m' | _ \<Rightarrow> [])"
    if a: "a \<in> set (fst (react b (e_handler (entries p ! k)) (ChannelRead m)))" for a
  proof -
    obtain m' where "a = FireRead m' \<or> a = FireWrite m'" by (rule layered_read [OF assms(2) a])
    then show ?thesis
      using Cons.hyps(1) [of "k + 1" n' m'] step x Cons.prems nxt n ctx_fireWrite_spec [OF assms k x(1) fuel]
      by (auto simp: ctx_fireRead_def)
  qed
  then have "callH n b p k (ChannelRead m) = emit (read_spec b p (k # ks) m)"
    unfolding n by (subst callH_emit [OF x(1)]) auto
  then show ?case using nxt by (simp add: fireReadFrom_def next_inbound_hd)
qed

lemma for_each_emit:
  "(\<And>i. i \<in> set is \<Longrightarrow> g i = emit (f i)) \<Longrightarrow> for_each g is = emit (concat (map f is))"
  by (induction "is") simp_all

section \<open>A concrete pipeline\<close>

text \<open>A codec in front, both inbound and outbound, and an echo handler behind it; the echo handler also throws.\<close>

definition demo_classes :: classes where
  "demo_classes = \<lparr>inbound_h = (\<lambda>h. h \<le> 1), outbound_h = (\<lambda>h. h = 0)\<rparr>"

fun demo_react :: "nat \<Rightarrow> nat event \<Rightarrow> nat action list \<times> bool" where
  "demo_react h (ChannelRead m) = (if h = 0 then ([FireRead (m + 1)], False) else ([FireWrite m], True))"
| "demo_react h (Write m) = ([FireWrite (m * 2)], False)"
| "demo_react h Flush = ([FireFlush], False)"
| "demo_react h Close = ([FireClose], False)"
| "demo_react h ev = ([], h = 0)"

definition demo_behaviour :: "nat behaviour" where
  "demo_behaviour = \<lparr>react = demo_react, is_buf = (\<lambda>_. True)\<rparr>"

definition demo_ops :: "pipe_op list" where
  "demo_ops = [AddLast ''echo'' 1, AddBefore ''echo'' ''codec'' 0, SetContext (Some 5)]"

definition demo_pipeline :: pipeline where
  "demo_pipeline = \<lparr>entries = [\<lparr>e_name = ''codec'', e_handler = 0, e_inbound = True, e_outbound = True, e_ctx = 1\<rparr>,
     \<lparr>e_name = ''echo'', e_handler = 1, e_inbound = True, e_outbound = False, e_ctx = 0\<rparr>],
     ctxs = [0 \<mapsto> \<lparr>pipelineLife = True, ctx_index = 1, conn_ctx = Some 5, ctx_handler = 1, ctx_name = ''echo'', removed = False\<rparr>,
             1 \<mapsto> \<lparr>pipelineLife = True, ctx_index = 0, conn_ctx = Some 5, ctx_handler = 0, ctx_name = ''codec'', removed = False\<rparr>],
     next_ctx = 2\<rparr>"

lemma demo_pipeline_run: "demo_pipeline = fold (apply_op demo_classes) demo_ops pipeline_new"
  by (simp add: demo_ops_def demo_classes_def demo_pipeline_def pipeline_new_def addLast_def addBefore_def addEntry_def
      Let_def upd_ctx_def setContext_def fun_eq_iff)

lemma demo_layered: "layered demo_behaviour"
  by (simp add: layered_def demo_behaviour_def)

lemma demo_positions: "ins_from demo_pipeline 0 = [0, 1]" "outs_below demo_pipeline 0 = []" "outs_below demo_pipeline 1 = [0]"
    "outs_below demo_pipeline 2 = [0]" "length (entries demo_pipeline) = 2"
  by (simp_all add: ins_from_def outs_below_def demo_pipeline_def upt_rec numeral_2_eq_2)

section \<open>Properties\<close>

text \<open>
  C22. Every sequence of \<open>addFirst\<close>, \<open>addLast\<close>, \<open>addBefore\<close>, \<open>addAfter\<close>, \<open>replace\<close>, \<open>remove\<close>,
  \<open>clear\<close> and \<open>setContext\<close> acts on the handlers as the corresponding list operations, and
  afterwards the context of every entry holds exactly the position, name and handler of that
  entry and is not marked removed.
\<close>

theorem pipeline_refines_list:
  "handlers_of (fold (apply_op cl) ops pipeline_new) = fold spec_op ops [] \<and>
   pipe_wf cl (fold (apply_op cl) ops pipeline_new)"
  using chain.run_view [of cl ops] chain.run_ok [of cl ops] by (simp add: handlers_of_def pipeline_new_def)

text \<open>
  C21. In every pipeline built by those operations, whatever handlers it holds, reading a
  message calls the inbound handlers front to back, each with the messages its predecessor
  passed on, and every write a handler makes on the way runs the outbound handlers before it
  back to front, down to the connection: the dispatch that follows context indices does
  exactly what the reference semantics says, it returns, and a handler that throws only adds a
  line to the log. Twice the number of handlers is enough nesting.
\<close>

theorem pipeline_dispatch_order:
  assumes "layered b" "2 * length ops \<le> n" and p_def: "p = fold (apply_op cl) ops pipeline_new"
  shows "fireRead n b p m = emit (read_spec b p (ins_from p 0) m)"
proof -
  have wf: "pipe_wf cl p" unfolding p_def by (rule chain.run_ok)
  have "length (fold spec_op ops xs) \<le> length xs + length ops" for xs
  proof (induction ops arbitrary: xs)
    case (Cons op ops)
    have at: "(\<And>y. length (f y) \<le> 2) \<Longrightarrow> length (at_first n f xs) \<le> Suc (length xs)" for n f
    proof (induction xs)
      case (Cons y ys)
      then show ?case using Cons.prems [of y] by auto
    qed simp
    have "length (spec_op op xs) \<le> Suc (length xs)" by (cases op) (auto intro!: at)
    then show ?case using Cons.IH [of "spec_op op xs"] by simp
  qed simp
  then have "length (entries p) \<le> length ops"
    using chain.run_view [of cl ops] unfolding p_def by (metis add_0 handlers_of_def length_map list.size(3) list.map(1) pipeline_new_def pipeline.select_convs(1))
  moreover have "length (ins_from p 0) \<le> length (entries p)"
    unfolding ins_from_def using length_filter_le [of _ "[0..<length (entries p)]"] by simp
  ultimately show ?thesis
    unfolding fireRead_def using fireReadFrom_spec [OF wf assms(1), of 0 n m] assms(2) by linarith
qed

theorem pipeline_dispatch_order_witness:
  "layered demo_behaviour \<and> 2 * length demo_ops \<le> 6 \<and>
   fireRead 6 demo_behaviour demo_pipeline 3 =
     emit [Call 0 (ChannelRead 3), Call 1 (ChannelRead 4), Call 0 (Write 4), WireWrite 8, LogError ''echo'']"
proof -
  have "fireRead 6 demo_behaviour demo_pipeline 3 =
      emit (read_spec demo_behaviour demo_pipeline (ins_from demo_pipeline 0) 3)"
    by (rule pipeline_dispatch_order [OF demo_layered _ demo_pipeline_run]) (simp add: demo_ops_def)
  then show ?thesis using demo_layered demo_positions
    by (simp add: demo_ops_def errors_of_def) (simp add: demo_pipeline_def demo_behaviour_def connected_def errors_of_def)
qed

text \<open>
  An event broadcast to all inbound handlers reaches each of them exactly once, in pipeline
  order, also when some of them throw.
\<close>

theorem broadcast_reaches_all:
  assumes "\<And>h. fst (react b h ev) = []" "0 < n" and p_def: "p = fold (apply_op cl) ops pipeline_new"
  shows "forAllInbound n b p ev =
    emit (concat (map (\<lambda>k. Call (e_handler (entries p ! k)) ev # errors_of b p k ev) (ins_from p 0)))"
proof -
  have wf: "pipe_wf cl p" unfolding p_def by (rule chain.run_ok)
  obtain n' where n: "n = Suc n'" using assms(2) by (cases n) auto
  have one: "callH n b p k ev = emit (Call (e_handler (entries p ! k)) ev # errors_of b p k ev)"
    if "k < length (entries p)" for k
  proof -
    obtain x where x: "ctxs p (e_ctx (entries p ! k)) = Some x" using wf_entry_ctx [OF wf \<open>k < _\<close>] by metis
    show ?thesis unfolding n by (subst callH_emit [OF x]) (simp_all add: assms(1))
  qed
  have "concat (map (\<lambda>i. if Q i then F i else []) ks) = concat (map F (filter Q ks))" for Q ks and F :: "nat \<Rightarrow> 'a obs list"
    by (induction ks) simp_all
  moreover have "forAllInbound n b p ev = emit (concat (map (\<lambda>i. if e_inbound (entries p ! i)
      then Call (e_handler (entries p ! i)) ev # errors_of b p i ev else []) [0..<length (entries p)]))"
    unfolding forAllInbound_def by (rule for_each_emit) (auto simp: one)
  ultimately show ?thesis by (simp add: ins_from_def)
qed

theorem broadcast_reaches_all_witness:
  "(\<forall>h. fst (react demo_behaviour h ChannelRegistered) = []) \<and>
   forAllInbound 1 demo_behaviour demo_pipeline ChannelRegistered =
     emit [Call 0 ChannelRegistered, LogError ''codec'', Call 1 ChannelRegistered]"
proof -
  have quiet: "fst (react demo_behaviour h ChannelRegistered) = []" for h by (simp add: demo_behaviour_def)
  have "forAllInbound 1 demo_behaviour demo_pipeline ChannelRegistered =
    emit (concat (map (\<lambda>k. Call (e_handler (entries demo_pipeline ! k)) ChannelRegistered #
            errors_of demo_behaviour demo_pipeline k ChannelRegistered) (ins_from demo_pipeline 0)))"
    by (rule broadcast_reaches_all [OF quiet _ demo_pipeline_run]) simp
  then show ?thesis using quiet demo_positions
    by (simp add: errors_of_def) (simp add: demo_pipeline_def demo_behaviour_def)
qed

text \<open>
  \<open>fireFlush\<close> and \<open>fireClose\<close> start their search at the caller's own position, unlike
  \<open>fireWrite\<close>, which starts one before it. So an outbound handler that passes a flush or a close
  on calls itself: the pipeline never returns from the event, however much nesting it is given.
\<close>

theorem flush_forwarding_recurses:
  assumes "outs_below p (length (entries p)) = k # ks" "pipe_wf cl p"
    and "react b (e_handler (entries p ! k)) Flush = (FireFlush # as, r)"
    and "react b (e_handler (entries p ! k)) Close = (FireClose # as', r')"
  shows "fireChannelFlush n b p = None \<and> fireChannelClose n b p = None"
proof -
  note step = outs_below_Cons [OF assms(1)]
  have k: "k < length (entries p)" using step by simp
  obtain x where x: "ctxs p (e_ctx (entries p ! k)) = Some x" "ctx_index x = k" "pipelineLife x"
    by (rule wf_entry_ctx [OF assms(2) k])
  have own: "prev_outbound (entries p) (int k) = Inr (Some k)"
    using k step by (subst prev_outbound.simps) simp
  have "callH n b p k Flush = None \<and> callH n b p k Close = None"
    by (induction n) (use x own assms(3,4) in \<open>simp_all add: ctx_fireFlush_def ctx_fireClose_def forPrevOutbound_def seq_def\<close>)
  then show ?thesis
    using prev_outbound_hd [of "length (entries p)" p] assms(1)
    by (simp add: fireChannelFlush_def fireChannelClose_def forPrevOutbound_def)
qed

theorem flush_forwarding_recurses_witness:
  "outs_below demo_pipeline (length (entries demo_pipeline)) = [0] \<and>
   fireChannelFlush 100 demo_behaviour demo_pipeline = None"
proof -
  have "fireChannelFlush 100 demo_behaviour demo_pipeline = None \<and> fireChannelClose 100 demo_behaviour demo_pipeline = None"
  proof (rule flush_forwarding_recurses [where k = 0 and ks = "[]" and cl = demo_classes
        and as = "[]" and as' = "[]" and r = False and r' = False])
    show "outs_below demo_pipeline (length (entries demo_pipeline)) = [0]" using demo_positions by simp
    show "pipe_wf demo_classes demo_pipeline" unfolding demo_pipeline_run by (rule chain.run_ok)
  qed (simp_all add: demo_behaviour_def demo_pipeline_def)
  then show ?thesis using demo_positions by simp
qed

text \<open>
  A handler that writes to its context while no outbound handler stands before it, and which is
  not the first of the pipeline, loses the message without a trace.
\<close>

lemma write_without_outbound_lost:
  assumes "pipe_wf cl p" "k < length (entries p)" "0 < k" "outs_below p k = []" "ctxs p (e_ctx (entries p ! k)) = Some x"
  shows "ctx_fireWrite rec b p x m = emit []"
proof -
  have "ctx_index x = k" "pipelineLife x" using wf_entry_ctx [OF assms(1,2)] assms(5) by force+
  then show ?thesis using assms prev_outbound_hd [of k p]
    by (simp add: ctx_fireWrite_def fireWriteFrom_def of_nat_diff)
qed

end
