(* ===== verification/TopicTree.thy ===== *)
theory TopicTree
  imports Prelude "HOL-Library.Monad_Syntax" "HOL-Library.Multiset"
begin

text \<open>
  The publish/subscribe tree (\<open>include/xnetty/websocket/topic_tree.h\<close>,
  \<open>src/websocket/topic_tree.cpp\<close>).

  The C++ code links two kinds of heap objects by raw pointers in both directions: a
  \<open>Topic\<close> is a set of \<open>Subscriber *\<close>, a \<open>Subscriber\<close> holds a set of \<open>Topic *\<close>, and the map
  \<open>topics\<close> owns the topics by name. The model keeps both heaps explicitly (\<open>theap\<close> and
  \<open>sheap\<close>, addresses are natural numbers); following a pointer to a freed object is
  \<open>UndefinedBehaviour\<close>. Addresses of new objects are arguments, so that the allocator may
  reuse the address of a freed object. The delivery callback \<open>cb\<close> is a parameter that answers
  whether to stop; its calls are recorded as deliveries. An \<open>unordered_set\<close> iterates in an
  unspecified order, which is the parameter \<open>iter\<close> of \<open>publish\<close>.

  The subscription relation is the abstract specification: \<open>subscribe\<close>, \<open>unsubscribe\<close> and
  \<open>freeSubscriber\<close> refine insertion and removal of pairs, and \<open>publish\<close> reaches the image of a
  topic. The locale \<open>pubsub\<close> states that contract, and its interpretation \<open>tt\<close> discharges it
  for the tree.
\<close>

section \<open>State\<close>

record topic =
  t_name :: string
  t_subs :: "nat list"

record subscriber =
  prev_link :: "nat option"
  next_link :: "nat option"
  messageIndices :: "nat list"
  numMessageIndices :: nat
  s_topics :: "nat list"
  user :: "nat option"
  worker :: "nat option"

record topic_tree =
  topics :: "string \<Rightarrow> nat option"
  theap :: "nat \<Rightarrow> topic option"
  sheap :: "nat \<Rightarrow> subscriber option"
  iteratingSubscriber :: "nat option"
  drainableSubscribers :: "nat option"
  outgoingMessages :: "string list"

type_synonym delivery = "nat \<times> string \<times> nat"

abbreviation LAST :: nat where "LAST \<equiv> 1"
abbreviation FIRST :: nat where "FIRST \<equiv> 2"

definition tree_new :: topic_tree where
  "tree_new = \<lparr>topics = (\<lambda>_. None), theap = (\<lambda>_. None), sheap = (\<lambda>_. None),
     iteratingSubscriber = None, drainableSubscribers = None, outgoingMessages = []\<rparr>"

definition subscriber_new :: subscriber where
  "subscriber_new = \<lparr>prev_link = None, next_link = None, messageIndices = replicate 32 0,
     numMessageIndices = 0, s_topics = [], user = None, worker = None\<rparr>"

definition topic_at :: "topic_tree \<Rightarrow> nat \<Rightarrow> topic res" where
  "topic_at st a = (case theap st a of None \<Rightarrow> Inl UndefinedBehaviour | Some t \<Rightarrow> Inr t)"

definition sub_at :: "topic_tree \<Rightarrow> nat \<Rightarrow> subscriber res" where
  "sub_at st s = (case sheap st s of None \<Rightarrow> Inl UndefinedBehaviour | Some sb \<Rightarrow> Inr sb)"

definition put_topic :: "nat \<Rightarrow> topic \<Rightarrow> topic_tree \<Rightarrow> topic_tree" where
  "put_topic a t st = st\<lparr>theap := (theap st)(a := Some t)\<rparr>"

definition put_sub :: "nat \<Rightarrow> subscriber \<Rightarrow> topic_tree \<Rightarrow> topic_tree" where
  "put_sub s sb st = st\<lparr>sheap := (sheap st)(s := Some sb)\<rparr>"

text \<open>Erasing a name from \<open>topics\<close> destroys the \<open>unique_ptr\<close> and with it the topic.\<close>

definition erase_topic :: "string \<Rightarrow> topic_tree \<Rightarrow> topic_tree" where
  "erase_topic n st = (case topics st n of
     None \<Rightarrow> st
   | Some a \<Rightarrow> st\<lparr>topics := (topics st)(n := None), theap := (theap st)(a := None)\<rparr>)"

section \<open>Operations\<close>

definition needsDrainage :: "subscriber \<Rightarrow> bool" where
  "needsDrainage sb = (numMessageIndices sb \<noteq> 0)"

definition checkIteratingSubscriber :: "topic_tree \<Rightarrow> nat \<Rightarrow> unit res" where
  "checkIteratingSubscriber st s = (if iteratingSubscriber st = Some s then Inl Terminated else Inr ())"

definition unlinkDrainableSubscriber :: "nat \<Rightarrow> topic_tree \<Rightarrow> topic_tree res" where
  "unlinkDrainableSubscriber s st =
     rbind (sub_at st s) (\<lambda>sb.
     rbind (case prev_link sb of
              None \<Rightarrow> Inr st
            | Some p \<Rightarrow> rbind (sub_at st p) (\<lambda>pb. Inr (put_sub p (pb\<lparr>next_link := next_link sb\<rparr>) st))) (\<lambda>st1.
     rbind (case next_link sb of
              None \<Rightarrow> Inr st1
            | Some q \<Rightarrow> rbind (sub_at st1 q) (\<lambda>qb. Inr (put_sub q (qb\<lparr>prev_link := prev_link sb\<rparr>) st1))) (\<lambda>st2.
     Inr (if drainableSubscribers st2 = Some s then st2\<lparr>drainableSubscribers := next_link sb\<rparr> else st2))))"

text \<open>
  The loop over the pending indices of one subscriber: \<open>i\<close> counts up to \<open>n\<close>, and the
  callback ends it by answering true.
\<close>

fun deliver :: "(nat \<Rightarrow> string \<Rightarrow> nat \<Rightarrow> bool) \<Rightarrow> string list \<Rightarrow> nat \<Rightarrow> nat list \<Rightarrow> nat \<Rightarrow> nat \<Rightarrow> delivery list res" where
  "deliver cb out s [] i n = Inr []"
| "deliver cb out s (ix # ixs) i n =
     (if ix < length out then
        let flags = (if i + 1 = n then LAST else 0) + (if i = 0 then FIRST else 0) in
        if cb s (out ! ix) flags then Inr [(s, out ! ix, flags)]
        else rbind (deliver cb out s ixs (i + 1) n) (\<lambda>ds. Inr ((s, out ! ix, flags) # ds))
      else Inl UndefinedBehaviour)"

definition deliver_pending :: "(nat \<Rightarrow> string \<Rightarrow> nat \<Rightarrow> bool) \<Rightarrow> nat \<Rightarrow> topic_tree \<Rightarrow> (delivery list \<times> topic_tree) res" where
  "deliver_pending cb s st =
     rbind (sub_at st s) (\<lambda>sb.
     let n = numMessageIndices sb; st1 = put_sub s (sb\<lparr>numMessageIndices := 0\<rparr>) st in
     if length (messageIndices sb) < n then Inl UndefinedBehaviour
     else rbind (deliver cb (outgoingMessages st) s (take n (messageIndices sb)) 0 n) (\<lambda>ds. Inr (ds, st1)))"

definition flushSubscriberNoLock :: "(nat \<Rightarrow> string \<Rightarrow> nat \<Rightarrow> bool) \<Rightarrow> nat \<Rightarrow> topic_tree \<Rightarrow> (delivery list \<times> topic_tree) res" where
  "flushSubscriberNoLock cb s st =
     rbind (sub_at st s) (\<lambda>sb.
     if \<not> needsDrainage sb then Inr ([], st)
     else rbind (unlinkDrainableSubscriber s st) (deliver_pending cb s))"

text \<open>The walk along the \<open>next\<close> pointers of the drain list; \<open>None\<close> would be a cyclic list.\<close>

partial_function (option) drain_walk ::
    "(nat \<Rightarrow> string \<Rightarrow> nat \<Rightarrow> bool) \<Rightarrow> nat option \<Rightarrow> topic_tree \<Rightarrow> (delivery list \<times> topic_tree) res option" where
  "drain_walk cb cur st = (case cur of
     None \<Rightarrow> Some (Inr ([], st))
   | Some s \<Rightarrow> (case deliver_pending cb s st of
        Inl e \<Rightarrow> Some (Inl e)
      | Inr r \<Rightarrow> (case sub_at (snd r) s of
           Inl e \<Rightarrow> Some (Inl e)
         | Inr sb \<Rightarrow> drain_walk cb (next_link sb) (snd r) \<bind>
             (\<lambda>rest. Some (rbind rest (\<lambda>q. Inr (fst r @ fst q, snd q)))))))"

definition drainAllNoLock :: "(nat \<Rightarrow> string \<Rightarrow> nat \<Rightarrow> bool) \<Rightarrow> topic_tree \<Rightarrow> (delivery list \<times> topic_tree) res option" where
  "drainAllNoLock cb st =
     (if drainableSubscribers st = None then Some (Inr ([], st))
      else drain_walk cb (drainableSubscribers st) st \<bind>
        (\<lambda>r. Some (rbind r (\<lambda>q. Inr (fst q, (snd q)\<lparr>drainableSubscribers := None, outgoingMessages := []\<rparr>)))))"

definition drain_one :: "(nat \<Rightarrow> string \<Rightarrow> nat \<Rightarrow> bool) \<Rightarrow> nat \<Rightarrow> topic_tree \<Rightarrow> (delivery list \<times> topic_tree) res" where
  "drain_one cb s st =
     rbind (flushSubscriberNoLock cb s st) (\<lambda>r.
     Inr (fst r, if drainableSubscribers (snd r) = None then (snd r)\<lparr>outgoingMessages := []\<rparr> else snd r))"

definition drain_all :: "(nat \<Rightarrow> string \<Rightarrow> nat \<Rightarrow> bool) \<Rightarrow> topic_tree \<Rightarrow> (delivery list \<times> topic_tree) res option" where
  "drain_all cb st = drainAllNoLock cb st"

definition lookupTopic :: "string \<Rightarrow> topic_tree \<Rightarrow> nat option" where
  "lookupTopic n st = topics st n"

definition subscribe :: "nat \<Rightarrow> nat \<Rightarrow> string \<Rightarrow> topic_tree \<Rightarrow> (nat option \<times> topic_tree) res" where
  "subscribe na s n st =
     rbind (checkIteratingSubscriber st s) (\<lambda>_.
     let (a, st1) = (case topics st n of
           Some a \<Rightarrow> (a, st)
         | None \<Rightarrow> (na, (put_topic na \<lparr>t_name = n, t_subs = []\<rparr> st)\<lparr>topics := (topics st)(n := Some na)\<rparr>)) in
     rbind (sub_at st1 s) (\<lambda>sb.
     if a \<in> set (s_topics sb) then Inr (None, st1)
     else rbind (topic_at st1 a) (\<lambda>t.
       Inr (Some a, put_topic a (t\<lparr>t_subs := List.insert s (t_subs t)\<rparr>)
                      (put_sub s (sb\<lparr>s_topics := insort a (s_topics sb)\<rparr>) st1)))))"

text \<open>The cast \<open>(int) size()\<close>.\<close>

definition as_int :: "nat \<Rightarrow> int" where
  "as_int k = sint (word_of_nat k :: 32 word)"

definition unsubscribe :: "nat \<Rightarrow> string \<Rightarrow> topic_tree \<Rightarrow> ((bool \<times> bool \<times> int) \<times> topic_tree) res" where
  "unsubscribe s n st =
     rbind (checkIteratingSubscriber st s) (\<lambda>_.
     case topics st n of
       None \<Rightarrow> Inr ((False, False, -1), st)
     | Some a \<Rightarrow>
         rbind (sub_at st s) (\<lambda>sb.
         if a \<notin> set (s_topics sb) then Inr ((False, False, -1), st)
         else rbind (topic_at st a) (\<lambda>t.
           let sb1 = sb\<lparr>s_topics := remove1 a (s_topics sb)\<rparr>;
               t1 = t\<lparr>t_subs := remove1 s (t_subs t)\<rparr>;
               st1 = put_topic a t1 (put_sub s sb1 st);
               st2 = (if t_subs t1 = [] then erase_topic n st1 else st1)
           in Inr ((True, s_topics sb1 = [], as_int (length (t_subs t1))), st2))))"

definition createSubscriber :: "nat \<Rightarrow> topic_tree \<Rightarrow> nat \<times> topic_tree" where
  "createSubscriber na st = (na, put_sub na subscriber_new st)"

fun free_topics :: "nat \<Rightarrow> nat list \<Rightarrow> topic_tree \<Rightarrow> topic_tree res" where
  "free_topics s [] st = Inr st"
| "free_topics s (a # as) st =
     rbind (topic_at st a) (\<lambda>t.
     free_topics s as
       (if length (t_subs t) = 1 then erase_topic (t_name t) st
        else put_topic a (t\<lparr>t_subs := remove1 s (t_subs t)\<rparr>) st))"

text \<open>The owning pointer goes out of scope at the end, which frees the subscriber.\<close>

definition freeSubscriber :: "nat option \<Rightarrow> topic_tree \<Rightarrow> topic_tree res" where
  "freeSubscriber sp st = (case sp of
     None \<Rightarrow> Inr st
   | Some s \<Rightarrow>
       rbind (sub_at st s) (\<lambda>sb.
       rbind (free_topics s (s_topics sb) st) (\<lambda>st1.
       rbind (if needsDrainage sb then unlinkDrainableSubscriber s st1 else Inr st1) (\<lambda>st2.
       Inr (st2\<lparr>sheap := (sheap st2)(s := None)\<rparr>)))))"

fun publish_loop :: "nat option \<Rightarrow> string \<Rightarrow> nat list \<Rightarrow> topic_tree \<Rightarrow> delivery list res" where
  "publish_loop sender msg [] st = Inr []"
| "publish_loop sender msg (s # ss) st =
     (if sender \<noteq> Some s then
        rbind (sub_at st s) (\<lambda>_. rbind (publish_loop sender msg ss st) (\<lambda>ds. Inr ((s, msg, FIRST + LAST) # ds)))
      else publish_loop sender msg ss st)"

definition publish :: "(nat list \<Rightarrow> nat list) \<Rightarrow> nat option \<Rightarrow> string \<Rightarrow> string \<Rightarrow> topic_tree \<Rightarrow> (bool \<times> delivery list) res" where
  "publish iter sender n msg st = (case topics st n of
     None \<Rightarrow> Inr (False, [])
   | Some a \<Rightarrow>
       rbind (topic_at st a) (\<lambda>t.
       rbind (publish_loop sender msg (iter (t_subs t)) st) (\<lambda>ds. Inr (ds \<noteq> [], ds))))"

text \<open>\<open>publishBig\<close> hands the message to a function of the caller instead of \<open>cb\<close>.\<close>

definition publishBig :: "(nat list \<Rightarrow> nat list) \<Rightarrow> nat option \<Rightarrow> string \<Rightarrow> string \<Rightarrow> topic_tree \<Rightarrow> (bool \<times> (nat \<times> string) list) res" where
  "publishBig iter sender n msg st = (case topics st n of
     None \<Rightarrow> Inr (False, [])
   | Some a \<Rightarrow>
       rbind (topic_at st a) (\<lambda>t.
       Inr (True, map (\<lambda>s. (s, msg)) (filter (\<lambda>s. sender \<noteq> Some s) (iter (t_subs t))))))"

section \<open>The well-formedness invariant\<close>

text \<open>
  Every name in the map owns a live topic of that name and every live topic is in the map;
  the two directions of the links agree; no topic is empty; nothing waits to be drained.
\<close>

definition subs_of :: "topic_tree \<Rightarrow> nat \<Rightarrow> nat set" where
  "subs_of st a = (case theap st a of None \<Rightarrow> {} | Some t \<Rightarrow> set (t_subs t))"

definition topics_of :: "topic_tree \<Rightarrow> nat \<Rightarrow> nat set" where
  "topics_of st s = (case sheap st s of None \<Rightarrow> {} | Some sb \<Rightarrow> set (s_topics sb))"

definition topics_owned :: "topic_tree \<Rightarrow> bool" where
  "topics_owned st \<longleftrightarrow> (\<forall>n a. topics st n = Some a \<longleftrightarrow> map_option t_name (theap st a) = Some n)"

definition links_agree :: "topic_tree \<Rightarrow> bool" where
  "links_agree st \<longleftrightarrow> (\<forall>a s. s \<in> subs_of st a \<longleftrightarrow> a \<in> topics_of st s)"

definition sets_ok :: "topic_tree \<Rightarrow> bool" where
  "sets_ok st \<longleftrightarrow>
     (\<forall>a t. theap st a = Some t \<longrightarrow> t_subs t \<noteq> [] \<and> distinct (t_subs t)) \<and>
     (\<forall>s sb. sheap st s = Some sb \<longrightarrow> distinct (s_topics sb) \<and> numMessageIndices sb = 0)"

definition drained :: "topic_tree \<Rightarrow> bool" where
  "drained st \<longleftrightarrow> iteratingSubscriber st = None \<and> drainableSubscribers st = None \<and> outgoingMessages st = []"

definition tree_wf :: "topic_tree \<Rightarrow> bool" where
  "tree_wf st \<longleftrightarrow> topics_owned st \<and> links_agree st \<and> sets_ok st \<and> drained st"

text \<open>The abstract state: who is subscribed to what.\<close>

definition subscriptions :: "topic_tree \<Rightarrow> (nat \<times> string) set" where
  "subscriptions st = {(s, n). \<exists>a t. topics st n = Some a \<and> theap st a = Some t \<and> s \<in> set (t_subs t)}"

definition live_subs :: "topic_tree \<Rightarrow> nat set" where
  "live_subs st = dom (sheap st)"

lemmas tree_simps = topic_at_def sub_at_def put_topic_def put_sub_def checkIteratingSubscriber_def
lemmas tree_wf_defs = tree_wf_def topics_owned_def links_agree_def sets_ok_def drained_def

lemma wf_topic:
  assumes "tree_wf st" "topics st n = Some a"
  obtains t where "theap st a = Some t" "t_name t = n"
  using assms by (auto simp: tree_wf_def topics_owned_def)

lemma wf_owner: "tree_wf st \<Longrightarrow> theap st a = Some t \<Longrightarrow> topics st (t_name t) = Some a"
  by (simp add: tree_wf_def topics_owned_def)

lemma wf_owner_unique: "tree_wf st \<Longrightarrow> theap st a = Some t \<Longrightarrow> topics st n = Some a \<Longrightarrow> n = t_name t"
  by (simp add: tree_wf_def topics_owned_def)

lemma wf_names_unique:
  "tree_wf st \<Longrightarrow> theap st a = Some t \<Longrightarrow> theap st b = Some t' \<Longrightarrow> t_name t = t_name t' \<Longrightarrow> a = b"
  by (metis wf_owner option.inject)

lemma wf_not_live: "tree_wf st \<Longrightarrow> theap st a = None \<Longrightarrow> topics st n \<noteq> Some a"
  by (simp add: tree_wf_def topics_owned_def)

lemma wf_link: "tree_wf st \<Longrightarrow> s \<in> subs_of st a \<longleftrightarrow> a \<in> topics_of st s"
  by (simp add: tree_wf_def links_agree_def)

lemma wf_sub_topic:
  assumes "tree_wf st" "sheap st s = Some sb" "a \<in> set (s_topics sb)"
  obtains t where "theap st a = Some t" "s \<in> set (t_subs t)" "topics st (t_name t) = Some a"
  using assms wf_link [OF assms(1), of s a] wf_owner [OF assms(1)]
  by (auto simp: subs_of_def topics_of_def split: option.splits)

lemma wf_topic_sub:
  assumes "tree_wf st" "theap st a = Some t" "s \<in> set (t_subs t)"
  obtains sb where "sheap st s = Some sb" "a \<in> set (s_topics sb)"
  using assms wf_link [OF assms(1), of s a] by (auto simp: subs_of_def topics_of_def split: option.splits)

lemma wf_new [wf_intros]: "tree_wf tree_new"
  by (simp add: tree_wf_defs tree_new_def subs_of_def topics_of_def)

lemma subscriptions_new [simp]: "subscriptions tree_new = {}"
  by (simp add: subscriptions_def tree_new_def)

lemma member_subscriptions:
  assumes "tree_wf st" "theap st a = Some t"
  shows "(s, t_name t) \<in> subscriptions st \<longleftrightarrow> s \<in> set (t_subs t)"
  using assms wf_owner [OF assms] by (auto simp: subscriptions_def)

lemma sub_topic_iff:
  assumes "tree_wf st" "sheap st s = Some sb" "topics st n = Some a"
  shows "a \<in> set (s_topics sb) \<longleftrightarrow> (s, n) \<in> subscriptions st"
proof -
  obtain t where t: "theap st a = Some t" "t_name t = n" by (rule wf_topic [OF assms(1,3)])
  have "a \<in> set (s_topics sb) \<longleftrightarrow> s \<in> set (t_subs t)"
    using wf_link [OF assms(1), of s a] t(1) assms(2) by (simp add: subs_of_def topics_of_def)
  then show ?thesis using member_subscriptions [OF assms(1) t(1)] t(2) by simp
qed

section \<open>Attaching and detaching one pair\<close>

text \<open>What \<open>unsubscribe\<close> does once the pair is found, and what one round of \<open>freeSubscriber\<close> amounts to.\<close>

definition detach :: "nat \<Rightarrow> nat \<Rightarrow> topic_tree \<Rightarrow> topic_tree" where
  "detach s a st = (case (theap st a, sheap st s) of
     (Some t, Some sb) \<Rightarrow>
       (let st1 = put_sub s (sb\<lparr>s_topics := remove1 a (s_topics sb)\<rparr>) st in
        if remove1 s (t_subs t) = [] then erase_topic (t_name t) st1
        else put_topic a (t\<lparr>t_subs := remove1 s (t_subs t)\<rparr>) st1)
   | _ \<Rightarrow> st)"

lemma detach_shape:
  assumes "tree_wf st" "sheap st s = Some sb" "theap st a = Some t" "a \<in> set (s_topics sb)"
  shows "sheap (detach s a st) = (sheap st)(s \<mapsto> sb\<lparr>s_topics := remove1 a (s_topics sb)\<rparr>)"
    and "theap (detach s a st) = (theap st)(a := if remove1 s (t_subs t) = [] then None else Some (t\<lparr>t_subs := remove1 s (t_subs t)\<rparr>))"
    and "topics (detach s a st) = (if remove1 s (t_subs t) = [] then (topics st)(t_name t := None) else topics st)"
    and "iteratingSubscriber (detach s a st) = iteratingSubscriber st"
    and "drainableSubscribers (detach s a st) = drainableSubscribers st"
    and "outgoingMessages (detach s a st) = outgoingMessages st"
  using assms wf_owner [OF assms(1,3)]
  by (auto simp: detach_def erase_topic_def put_sub_def put_topic_def Let_def)

lemma remove1_Nil_single: "remove1 x xs = [] \<Longrightarrow> y \<in> set xs \<Longrightarrow> y = x"
  by (cases xs) (auto split: if_splits)

lemma detach_subs_of:
  assumes wf: "tree_wf st" and s: "sheap st s = Some sb" and a: "a \<in> set (s_topics sb)"
  shows "r \<in> subs_of (detach s a st) b \<longleftrightarrow> r \<in> subs_of st b \<and> (r, b) \<noteq> (s, a)"
proof -
  obtain t where t: "theap st a = Some t" by (rule wf_sub_topic [OF wf s a])
  have d: "distinct (t_subs t)" using wf t by (auto simp: tree_wf_def sets_ok_def)
  then have "set (remove1 s (t_subs t)) = set (t_subs t) - {s}" by (rule set_remove1_eq)
  then have "subs_of (detach s a st) a = subs_of st a - {s}"
    using t by (cases "remove1 s (t_subs t) = []") (simp_all add: subs_of_def detach_shape(2) [OF wf s t a])
  moreover have "b \<noteq> a \<Longrightarrow> subs_of (detach s a st) b = subs_of st b"
    by (simp add: subs_of_def detach_shape(2) [OF wf s t a])
  ultimately show ?thesis by (cases "b = a") auto
qed

lemma detach_wf [wf_intros]:
  assumes wf: "tree_wf st" and s: "sheap st s = Some sb" and a: "a \<in> set (s_topics sb)"
  shows "tree_wf (detach s a st)"
proof -
  obtain t where t: "theap st a = Some t" "s \<in> set (t_subs t)" "topics st (t_name t) = Some a"
    by (rule wf_sub_topic [OF wf s a])
  note sh = detach_shape [OF wf s t(1) a]
  have d: "distinct (t_subs t)" "distinct (s_topics sb)"
    using wf t(1) s by (auto simp: tree_wf_def sets_ok_def)
  have emp: "remove1 s (t_subs t) = [] \<Longrightarrow> set (t_subs t) - {s} = {}"
    using d by (metis set_remove1_eq set_empty)
  have own: "\<And>n b. topics st n = Some b \<longleftrightarrow> map_option t_name (theap st b) = Some n"
    using wf by (simp add: tree_wf_def topics_owned_def)
  have "topics_owned (detach s a st)"
    unfolding topics_owned_def
  proof (intro allI)
    fix n b
    show "topics (detach s a st) n = Some b \<longleftrightarrow> map_option t_name (theap (detach s a st) b) = Some n"
      using own [of n b] own [of "t_name t" a] own [of n a] own [of "t_name t" b] t(1)
      by (cases "b = a"; cases "n = t_name t") (simp_all add: sh)
  qed
  moreover have "links_agree (detach s a st)"
    unfolding links_agree_def
  proof (intro allI)
    fix b r
    have "r \<in> subs_of (detach s a st) b \<longleftrightarrow> r \<in> subs_of st b \<and> (r, b) \<noteq> (s, a)"
      by (rule detach_subs_of [OF wf s a])
    moreover have "b \<in> topics_of (detach s a st) r \<longleftrightarrow> b \<in> topics_of st r \<and> (r, b) \<noteq> (s, a)"
      using s d by (auto simp: topics_of_def sh set_remove1_eq)
    ultimately show "r \<in> subs_of (detach s a st) b \<longleftrightarrow> b \<in> topics_of (detach s a st) r"
      using wf_link [OF wf] by simp
  qed
  moreover have "sets_ok (detach s a st)"
    using wf d s t by (auto simp: tree_wf_def sets_ok_def sh split: if_splits)
  moreover have "drained (detach s a st)"
    using wf by (simp add: tree_wf_def drained_def sh)
  ultimately show ?thesis by (simp add: tree_wf_def)
qed

lemma subscriptions_iff: "(s, n) \<in> subscriptions st \<longleftrightarrow> (\<exists>a. topics st n = Some a \<and> s \<in> subs_of st a)"
  by (auto simp: subscriptions_def subs_of_def split: option.splits)

lemma detach_subscriptions:
  assumes wf: "tree_wf st" and s: "sheap st s = Some sb" and a: "a \<in> set (s_topics sb)" and t: "theap st a = Some t"
  shows "subscriptions (detach s a st) = subscriptions st - {(s, t_name t)}"
proof -
  have "(r, n) \<in> subscriptions (detach s a st) \<longleftrightarrow> (r, n) \<in> subscriptions st \<and> (r, n) \<noteq> (s, t_name t)" for r n
  proof -
    have own: "topics st n = Some b \<longleftrightarrow> map_option t_name (theap st b) = Some n" for n b
      using wf by (simp add: tree_wf_def topics_owned_def)
    have own': "topics (detach s a st) n = Some b \<longleftrightarrow> map_option t_name (theap (detach s a st) b) = Some n" for n b
      using detach_wf [OF wf s a] by (simp add: tree_wf_def topics_owned_def)
    have "(r, n) \<in> subscriptions (detach s a st) \<longleftrightarrow> (\<exists>b. map_option t_name (theap (detach s a st) b) = Some n \<and> r \<in> subs_of st b \<and> (r, b) \<noteq> (s, a))"
      by (simp add: subscriptions_iff detach_subs_of [OF wf s a] own')
    also have "\<dots> \<longleftrightarrow> (\<exists>b. map_option t_name (theap st b) = Some n \<and> r \<in> subs_of st b \<and> (r, b) \<noteq> (s, a))"
    proof (rule ex_cong1)
      fix b
      show "(map_option t_name (theap (detach s a st) b) = Some n \<and> r \<in> subs_of st b \<and> (r, b) \<noteq> (s, a))
        = (map_option t_name (theap st b) = Some n \<and> r \<in> subs_of st b \<and> (r, b) \<noteq> (s, a))"
      proof (cases "b = a")
        case True
        then show ?thesis using t remove1_Nil_single [of s "t_subs t" r]
          by (cases "remove1 s (t_subs t) = []") (auto simp add: detach_shape(2) [OF wf s t a] subs_of_def)
      next
        case False
        then show ?thesis by (simp add: detach_shape(2) [OF wf s t a])
      qed
    qed
    also have "\<dots> \<longleftrightarrow> (r, n) \<in> subscriptions st \<and> (r, n) \<noteq> (s, t_name t)"
      unfolding subscriptions_iff own
    proof (intro iffI conjI)
      assume "\<exists>b. map_option t_name (theap st b) = Some n \<and> r \<in> subs_of st b \<and> (r, b) \<noteq> (s, a)"
      then obtain b t' where b: "theap st b = Some t'" "t_name t' = n" "r \<in> subs_of st b" "(r, b) \<noteq> (s, a)" by auto
      show "\<exists>b. map_option t_name (theap st b) = Some n \<and> r \<in> subs_of st b" using b by auto
      show "(r, n) \<noteq> (s, t_name t)" using b wf_names_unique [OF wf t b(1)] by auto
    next
      assume "(\<exists>b. map_option t_name (theap st b) = Some n \<and> r \<in> subs_of st b) \<and> (r, n) \<noteq> (s, t_name t)"
      then show "\<exists>b. map_option t_name (theap st b) = Some n \<and> r \<in> subs_of st b \<and> (r, b) \<noteq> (s, a)" using t by auto
    qed
    finally show ?thesis .
  qed
  then show ?thesis by auto
qed

section \<open>The operations on the abstract state\<close>

lemma subscribe_known:
  assumes wf: "tree_wf st" and s: "sheap st s = Some sb" and n: "topics st n = Some a" and t: "theap st a = Some t"
  shows "subscribe na s n st =
    Inr (if (s, n) \<in> subscriptions st then (None, st)
         else (Some a, put_topic a (t\<lparr>t_subs := List.insert s (t_subs t)\<rparr>)
                         (put_sub s (sb\<lparr>s_topics := insort a (s_topics sb)\<rparr>) st)))"
  using wf s n t sub_topic_iff [OF wf s n]
  by (simp add: subscribe_def tree_simps tree_wf_def drained_def)

lemma subscribe_new:
  assumes wf: "tree_wf st" and s: "sheap st s = Some sb" and n: "topics st n = None" and na: "theap st na = None"
  shows "subscribe na s n st =
    Inr (Some na, put_topic na \<lparr>t_name = n, t_subs = [s]\<rparr>
           (put_sub s (sb\<lparr>s_topics := insort na (s_topics sb)\<rparr>) st)\<lparr>topics := (topics st)(n := Some na)\<rparr>)"
proof -
  have "na \<notin> set (s_topics sb)" using wf_link [OF wf, of s na] s na by (simp add: subs_of_def topics_of_def)
  then show ?thesis using wf s n na
    by (simp add: subscribe_def tree_simps tree_wf_def drained_def)
qed

lemma attach_wf [wf_intros]:
  assumes wf: "tree_wf st" and s: "sheap st s = Some sb" and t: "theap st a = Some t" and ns: "a \<notin> set (s_topics sb)"
  shows "tree_wf (put_topic a (t\<lparr>t_subs := List.insert s (t_subs t)\<rparr>)
                         (put_sub s (sb\<lparr>s_topics := insort a (s_topics sb)\<rparr>) st))" (is "tree_wf ?st")
proof -
  have "topics_owned ?st"
    using wf t by (auto simp: tree_wf_def topics_owned_def tree_simps)
  moreover have "links_agree ?st"
    unfolding links_agree_def
  proof (intro allI)
    fix b r
    have "r \<in> subs_of ?st b \<longleftrightarrow> r \<in> subs_of st b \<or> (r, b) = (s, a)"
      using t by (auto simp: subs_of_def tree_simps)
    moreover have "b \<in> topics_of ?st r \<longleftrightarrow> b \<in> topics_of st r \<or> (r, b) = (s, a)"
      using s by (auto simp: topics_of_def tree_simps set_insort_key)
    ultimately show "r \<in> subs_of ?st b \<longleftrightarrow> b \<in> topics_of ?st r" using wf_link [OF wf] by simp
  qed
  moreover have "sets_ok ?st"
    using wf s t ns by (auto simp: tree_wf_def sets_ok_def tree_simps distinct_insort List.insert_def)
  moreover have "drained ?st"
    using wf by (simp add: tree_wf_def drained_def tree_simps)
  ultimately show ?thesis by (simp add: tree_wf_def)
qed

lemma attach_new_wf [wf_intros]:
  assumes wf: "tree_wf st" and s: "sheap st s = Some sb" and n: "topics st n = None" and na: "theap st na = None"
  shows "tree_wf (put_topic na \<lparr>t_name = n, t_subs = [s]\<rparr>
           (put_sub s (sb\<lparr>s_topics := insort na (s_topics sb)\<rparr>) st)\<lparr>topics := (topics st)(n := Some na)\<rparr>)"
    (is "tree_wf ?st")
proof -
  have ns: "\<And>s sb. sheap st s = Some sb \<Longrightarrow> na \<notin> set (s_topics sb)" 
  proof -
    fix s sb
    assume "sheap st s = Some sb"
    then show "na \<notin> set (s_topics sb)" using wf_link [OF wf, of s na] na by (simp add: subs_of_def topics_of_def)
  qed
  have own: "\<And>m b. topics st m = Some b \<longleftrightarrow> map_option t_name (theap st b) = Some m"
    using wf by (simp add: tree_wf_def topics_owned_def)
  have "topics_owned ?st"
    unfolding topics_owned_def
  proof (intro allI)
    fix m b
    show "topics ?st m = Some b \<longleftrightarrow> map_option t_name (theap ?st b) = Some m"
      using own [of m b] own [of n b] own [of m na] n na
      by (cases "b = na"; cases "m = n") (simp_all add: tree_simps)
  qed
  moreover have "links_agree ?st"
    unfolding links_agree_def
  proof (intro allI)
    fix b r
    have "r \<in> subs_of ?st b \<longleftrightarrow> r \<in> subs_of st b \<or> (r, b) = (s, na)"
      using na by (auto simp: subs_of_def tree_simps)
    moreover have "b \<in> topics_of ?st r \<longleftrightarrow> b \<in> topics_of st r \<or> (r, b) = (s, na)"
      using s by (auto simp: topics_of_def tree_simps set_insort_key)
    ultimately show "r \<in> subs_of ?st b \<longleftrightarrow> b \<in> topics_of ?st r" using wf_link [OF wf] by simp
  qed
  moreover have "sets_ok ?st"
    using wf s ns by (auto simp: tree_wf_def sets_ok_def tree_simps distinct_insort)
  moreover have "drained ?st"
    using wf by (simp add: tree_wf_def drained_def tree_simps)
  ultimately show ?thesis by (simp add: tree_wf_def)
qed

lemma live_subs_iff: "s \<in> live_subs st \<longleftrightarrow> (\<exists>sb. sheap st s = Some sb)"
  by (auto simp: live_subs_def)

lemma subscribe_correct:
  assumes wf: "tree_wf st" and s: "s \<in> live_subs st" and na: "theap st na = None"
  shows "\<exists>r st'. subscribe na s n st = Inr (r, st') \<and> tree_wf st' \<and>
           subscriptions st' = insert (s, n) (subscriptions st) \<and>
           (r = None \<longleftrightarrow> (s, n) \<in> subscriptions st) \<and> live_subs st' = live_subs st"
proof -
  obtain sb where sb: "sheap st s = Some sb" using s by (auto simp: live_subs_iff)
  show ?thesis
  proof (cases "topics st n")
    case None
    let ?st1 = "put_topic na \<lparr>t_name = n, t_subs = [s]\<rparr>
           (put_sub s (sb\<lparr>s_topics := insort na (s_topics sb)\<rparr>) st)\<lparr>topics := (topics st)(n := Some na)\<rparr>"
    have "(r, m) \<in> subscriptions ?st1 \<longleftrightarrow> (r, m) = (s, n) \<or> (r, m) \<in> subscriptions st" for r m
      using None na wf_not_live [OF wf na, of m]
      by (cases "m = n") (auto simp: subscriptions_iff subs_of_def tree_simps)
    then have "subscriptions ?st1 = insert (s, n) (subscriptions st)" by auto
    moreover have "(s, n) \<notin> subscriptions st" using None by (simp add: subscriptions_def)
    ultimately show ?thesis using subscribe_new [OF wf sb None na] attach_new_wf [OF wf sb None na] sb
      by (auto simp: live_subs_def tree_simps)
  next
    case (Some a)
    obtain t where t: "theap st a = Some t" "t_name t = n" by (rule wf_topic [OF wf Some])
    note eq = subscribe_known [OF wf sb Some t(1), of na]
    show ?thesis
    proof (cases "(s, n) \<in> subscriptions st")
      case True
      then show ?thesis using eq wf by auto
    next
      case False
      have "subscriptions (put_topic a (t\<lparr>t_subs := List.insert s (t_subs t)\<rparr>)
                         (put_sub s (sb\<lparr>s_topics := insort a (s_topics sb)\<rparr>) st)) = insert (s, n) (subscriptions st)"
        using Some t wf_owner_unique [OF wf t(1)] by (auto simp: subscriptions_def tree_simps)
      moreover have "a \<notin> set (s_topics sb)" using False sub_topic_iff [OF wf sb Some] by simp
      ultimately show ?thesis using eq False attach_wf [OF wf sb t(1)] sb
        by (auto simp: live_subs_def tree_simps)
    qed
  qed
qed

lemma unsubscribe_known:
  assumes wf: "tree_wf st" and s: "sheap st s = Some sb" and n: "topics st n = Some a" and t: "theap st a = Some t"
    and sub: "(s, n) \<in> subscriptions st"
  shows "unsubscribe s n st =
     Inr ((True, remove1 a (s_topics sb) = [], as_int (length (remove1 s (t_subs t)))), detach s a st)"
proof -
  have a: "a \<in> set (s_topics sb)" using sub_topic_iff [OF wf s n] sub by simp
  have nm: "t_name t = n" using wf_topic [OF wf n] t by fastforce
  have "erase_topic n (put_topic a t1 (put_sub s sb1 st)) = erase_topic n (put_sub s sb1 st)" for t1 sb1
    using n by (simp add: erase_topic_def put_topic_def put_sub_def)
  then show ?thesis using wf s n t a nm
    by (simp add: unsubscribe_def tree_wf_def drained_def checkIteratingSubscriber_def sub_at_def topic_at_def detach_def
         Let_def)
qed

lemma unsubscribe_correct:
  assumes wf: "tree_wf st" and s: "s \<in> live_subs st"
  shows "\<exists>found empty cnt st'. unsubscribe s n st = Inr ((found, empty, cnt), st') \<and> tree_wf st' \<and>
           subscriptions st' = subscriptions st - {(s, n)} \<and> live_subs st' = live_subs st \<and>
           (found \<longleftrightarrow> (s, n) \<in> subscriptions st)"
proof (cases "(s, n) \<in> subscriptions st")
  case True
  obtain sb where sb: "sheap st s = Some sb" using s by (auto simp: live_subs_iff)
  obtain a where n: "topics st n = Some a" using True by (auto simp: subscriptions_iff)
  obtain t where t: "theap st a = Some t" "t_name t = n" by (rule wf_topic [OF wf n])
  have a: "a \<in> set (s_topics sb)" using sub_topic_iff [OF wf sb n] True by simp
  have "live_subs (detach s a st) = live_subs st"
    using sb by (auto simp: live_subs_def detach_shape(1) [OF wf sb t(1) a])
  then show ?thesis
    using unsubscribe_known [OF wf sb n t(1) True] True detach_wf [OF wf sb a] detach_subscriptions [OF wf sb a t(1)] t(2)
    by auto
next
  case False
  obtain sb where sb: "sheap st s = Some sb" using s by (auto simp: live_subs_iff)
  have "unsubscribe s n st = Inr ((False, False, -1), st)"
  proof (cases "topics st n")
    case None
    then show ?thesis using wf
      by (simp add: unsubscribe_def checkIteratingSubscriber_def tree_wf_def drained_def)
  next
    case (Some a)
    then have "a \<notin> set (s_topics sb)" using sub_topic_iff [OF wf sb Some] False by simp
    then show ?thesis using wf Some sb
      by (simp add: unsubscribe_def checkIteratingSubscriber_def tree_wf_def drained_def sub_at_def)
  qed
  then show ?thesis using False wf by auto
qed

lemma createSubscriber_correct:
  assumes wf: "tree_wf st" and na: "na \<notin> live_subs st"
  shows "tree_wf (snd (createSubscriber na st))"
    and "subscriptions (snd (createSubscriber na st)) = subscriptions st"
    and "live_subs (snd (createSubscriber na st)) = insert na (live_subs st)"
proof -
  let ?st = "put_sub na subscriber_new st"
  have nn: "sheap st na = None" using na by (auto simp: live_subs_def)
  have "links_agree ?st"
    unfolding links_agree_def
  proof (intro allI)
    fix a r
    show "r \<in> subs_of ?st a \<longleftrightarrow> a \<in> topics_of ?st r"
      using wf_link [OF wf, of r a] nn
      by (simp add: subs_of_def topics_of_def put_sub_def subscriber_new_def)
  qed
  then show "tree_wf (snd (createSubscriber na st))"
    using wf by (auto simp: createSubscriber_def tree_wf_def topics_owned_def sets_ok_def drained_def
                 put_sub_def subscriber_new_def)
qed (auto simp: createSubscriber_def subscriptions_def live_subs_def put_sub_def)

text \<open>
  The rounds of \<open>freeSubscriber\<close> leave the subscriber's own set alone, so that the invariant holds
  of the tree in which that set holds only the topics still to be visited.
\<close>

definition with_topics :: "nat \<Rightarrow> subscriber \<Rightarrow> nat list \<Rightarrow> topic_tree \<Rightarrow> topic_tree" where
  "with_topics s sb as st = put_sub s (sb\<lparr>s_topics := as\<rparr>) st"

lemma free_round:
  assumes wf: "tree_wf (with_topics s sb (a # as) st)" and t: "theap st a = Some t"
  shows "with_topics s sb as (if length (t_subs t) = 1 then erase_topic (t_name t) st
           else put_topic a (t\<lparr>t_subs := remove1 s (t_subs t)\<rparr>) st)
         = detach s a (with_topics s sb (a # as) st)"
proof -
  let ?st = "with_topics s sb (a # as) st"
  have sh: "sheap ?st s = Some (sb\<lparr>s_topics := a # as\<rparr>)" "theap ?st a = Some t"
    using t by (simp_all add: with_topics_def put_sub_def)
  have sin: "s \<in> set (t_subs t)"
    using wf_link [OF wf, of s a] sh by (simp add: subs_of_def topics_of_def)
  then have one: "length (t_subs t) = 1 \<longleftrightarrow> remove1 s (t_subs t) = []"
    by (cases "t_subs t") auto
  have "topics st (t_name t) = Some a"
    using wf_owner [OF wf sh(2)] by (simp add: with_topics_def put_sub_def)
  then show ?thesis using sh one
    by (simp add: detach_def with_topics_def put_sub_def put_topic_def erase_topic_def)
qed

lemma free_topics_correct:
  assumes "tree_wf (with_topics s sb as st)"
  shows "\<exists>st'. free_topics s as st = Inr st' \<and> tree_wf (with_topics s sb [] st') \<and>
           subscriptions (with_topics s sb [] st') = {(r, n) \<in> subscriptions (with_topics s sb as st). r \<noteq> s} \<and>
           sheap st' = sheap st"
  using assms
proof (induction as arbitrary: st)
  case Nil
  have "(s, n) \<notin> subscriptions (with_topics s sb [] st)" for n
    using wf_link [OF Nil, of s] by (simp add: subscriptions_iff) (simp add: topics_of_def with_topics_def put_sub_def)
  then show ?case using Nil by auto
next
  case (Cons a as)
  let ?st = "with_topics s sb (a # as) st"
  have sh: "sheap ?st s = Some (sb\<lparr>s_topics := a # as\<rparr>)"
    by (simp add: with_topics_def put_sub_def)
  obtain t where t: "theap ?st a = Some t"
    by (rule wf_sub_topic [OF Cons.prems sh, of a]) simp_all
  then have t': "theap st a = Some t" by (simp add: with_topics_def put_sub_def)
  let ?st1 = "if length (t_subs t) = 1 then erase_topic (t_name t) st
           else put_topic a (t\<lparr>t_subs := remove1 s (t_subs t)\<rparr>) st"
  have eq: "with_topics s sb as ?st1 = detach s a ?st" by (rule free_round [OF Cons.prems t'])
  have wf1: "tree_wf (with_topics s sb as ?st1)" unfolding eq by (rule detach_wf [OF Cons.prems sh]) simp
  have subs: "subscriptions (with_topics s sb as ?st1) = subscriptions ?st - {(s, t_name t)}"
    unfolding eq by (rule detach_subscriptions [OF Cons.prems sh _ t]) simp
  have hp: "sheap ?st1 = sheap st" by (simp add: erase_topic_def put_topic_def split: option.split)
  obtain st' where st': "free_topics s as ?st1 = Inr st'" "tree_wf (with_topics s sb [] st')"
      "subscriptions (with_topics s sb [] st') = {(r, n) \<in> subscriptions (with_topics s sb as ?st1). r \<noteq> s}"
      "sheap st' = sheap ?st1"
    using Cons.IH [OF wf1] by blast
  have "free_topics s (a # as) st = Inr st'" using st'(1) t' by (simp add: topic_at_def)
  moreover have "{(r, n) \<in> subscriptions (with_topics s sb as ?st1). r \<noteq> s} = {(r, n) \<in> subscriptions ?st. r \<noteq> s}"
    unfolding subs by auto
  ultimately show ?case using st' hp by metis
qed

lemma freeSubscriber_correct:
  assumes wf: "tree_wf st" and s: "s \<in> live_subs st"
  shows "\<exists>st'. freeSubscriber (Some s) st = Inr st' \<and> tree_wf st' \<and>
           subscriptions st' = {(r, n) \<in> subscriptions st. r \<noteq> s} \<and> live_subs st' = live_subs st - {s}"
proof -
  obtain sb where sb: "sheap st s = Some sb" using s by (auto simp: live_subs_iff)
  have same: "with_topics s sb (s_topics sb) st = st" using sb by (simp add: with_topics_def put_sub_def fun_upd_idem)
  obtain st1 where st1: "free_topics s (s_topics sb) st = Inr st1" "tree_wf (with_topics s sb [] st1)"
      "subscriptions (with_topics s sb [] st1) = {(r, n) \<in> subscriptions st. r \<noteq> s}" "sheap st1 = sheap st"
    using free_topics_correct [of s sb "s_topics sb" st] wf unfolding same by blast
  let ?st2 = "st1\<lparr>sheap := (sheap st1)(s := None)\<rparr>"
  have "numMessageIndices sb = 0" using wf sb by (auto simp: tree_wf_def sets_ok_def)
  then have run: "freeSubscriber (Some s) st = Inr ?st2"
    using sb st1(1) by (simp add: freeSubscriber_def sub_at_def needsDrainage_def)
  have "links_agree ?st2"
    unfolding links_agree_def
  proof (intro allI)
    fix a r
    show "r \<in> subs_of ?st2 a \<longleftrightarrow> a \<in> topics_of ?st2 r"
      using wf_link [OF st1(2), of r a] by (simp add: subs_of_def topics_of_def with_topics_def put_sub_def split: if_splits)
  qed
  then have "tree_wf ?st2"
    using st1(2) by (auto simp: tree_wf_def topics_owned_def sets_ok_def drained_def with_topics_def put_sub_def split: if_splits)
  moreover have "subscriptions ?st2 = subscriptions (with_topics s sb [] st1)"
    by (simp add: subscriptions_def with_topics_def put_sub_def)
  moreover have "live_subs ?st2 = live_subs st - {s}" using st1(4) by (auto simp: live_subs_def)
  ultimately show ?thesis using run st1(3) by auto
qed

section \<open>Publishing and draining\<close>

lemma publish_loop_live:
  assumes "\<And>s. s \<in> set ss \<Longrightarrow> s \<in> live_subs st"
  shows "publish_loop sender msg ss st = Inr (map (\<lambda>s. (s, msg, FIRST + LAST)) (filter (\<lambda>s. sender \<noteq> Some s) ss))"
  using assms
proof (induction ss)
  case (Cons s ss)
  obtain sb where "sheap st s = Some sb" using Cons.prems [of s] by (auto simp: live_subs_iff)
  then show ?case using Cons by (auto simp add: sub_at_def)
qed simp

lemma publish_correct:
  assumes wf: "tree_wf st" and iter: "\<And>xs. mset (iter xs) = mset xs"
  shows "\<exists>ds. publish iter sender n msg st = Inr (ds \<noteq> [], ds) \<and> distinct (map fst ds) \<and>
           set ds = {(s, msg, 3) | s. (s, n) \<in> subscriptions st \<and> sender \<noteq> Some s}"
proof (cases "topics st n")
  case None
  then show ?thesis by (simp add: publish_def subscriptions_iff)
next
  case (Some a)
  obtain t where t: "theap st a = Some t" "t_name t = n" by (rule wf_topic [OF wf Some])
  have set: "set (iter (t_subs t)) = set (t_subs t)" using iter by (metis set_mset_mset)
  have "distinct (iter (t_subs t))"
    using wf t(1) iter by (metis mset_eq_imp_distinct_iff tree_wf_def sets_ok_def)
  moreover have "s \<in> live_subs st" if "s \<in> set (t_subs t)" for s
    using wf_topic_sub [OF wf t(1) that] by (metis live_subs_iff)
  ultimately show ?thesis
    using Some t set publish_loop_live [of "iter (t_subs t)" st sender msg]
    by (auto simp: publish_def topic_at_def subscriptions_iff subs_of_def o_def)
qed

lemma drain_one_idle:
  assumes wf: "tree_wf st" and s: "s \<in> live_subs st"
  shows "drain_one cb s st = Inr ([], st)"
proof -
  obtain sb where sb: "sheap st s = Some sb" using s by (auto simp: live_subs_iff)
  then have "numMessageIndices sb = 0" using wf by (auto simp: tree_wf_def sets_ok_def)
  then show ?thesis using wf sb
    by (simp add: drain_one_def flushSubscriberNoLock_def sub_at_def needsDrainage_def tree_wf_def drained_def)
qed

lemma drain_all_idle: "tree_wf st \<Longrightarrow> drain_all cb st = Some (Inr ([], st))"
  by (simp add: drain_all_def drainAllNoLock_def tree_wf_def drained_def)

section \<open>Histories\<close>

datatype ('s, 'n) psop = Create 's | Sub 's 'n | Unsub 's 'n | Free 's | Drain 's

text \<open>A run, with its history latest operation first.\<close>

inductive run_of :: "('op \<Rightarrow> 'st \<Rightarrow> 'st \<Rightarrow> bool) \<Rightarrow> 'st \<Rightarrow> 'op list \<Rightarrow> 'st \<Rightarrow> bool" for step start where
  run_start: "run_of step start [] start"
| run_step: "run_of step start tr st \<Longrightarrow> step op st st' \<Longrightarrow> run_of step start (op # tr) st'"

text \<open>Whether a history leaves \<open>s\<close> subscribed to \<open>n\<close>: what counts is the latest operation on the pair.\<close>

fun subscribed :: "('s, 'n) psop list \<Rightarrow> 's \<Rightarrow> 'n \<Rightarrow> bool" where
  "subscribed [] s n \<longleftrightarrow> False"
| "subscribed (Sub r m # tr) s n \<longleftrightarrow> (r = s \<and> m = n) \<or> subscribed tr s n"
| "subscribed (Unsub r m # tr) s n \<longleftrightarrow> \<not> (r = s \<and> m = n) \<and> subscribed tr s n"
| "subscribed (Free r # tr) s n \<longleftrightarrow> r \<noteq> s \<and> subscribed tr s n"
| "subscribed (Create r # tr) s n \<longleftrightarrow> subscribed tr s n"
| "subscribed (Drain r # tr) s n \<longleftrightarrow> subscribed tr s n"

fun psop_spec :: "('s, 'n) psop \<Rightarrow> ('s \<times> 'n) set \<Rightarrow> ('s \<times> 'n) set" where
  "psop_spec (Create s) R = R"
| "psop_spec (Sub s n) R = insert (s, n) R"
| "psop_spec (Unsub s n) R = R - {(s, n)}"
| "psop_spec (Free s) R = {(r, n) \<in> R. r \<noteq> s}"
| "psop_spec (Drain s) R = R"

text \<open>The contract of a publish/subscribe service.\<close>

locale pubsub =
  fixes ok :: "'st \<Rightarrow> bool"
    and step :: "('s, 'n) psop \<Rightarrow> 'st \<Rightarrow> 'st \<Rightarrow> bool"
    and start :: 'st
    and rel :: "'st \<Rightarrow> ('s \<times> 'n) set"
  assumes start_ok: "ok start"
    and start_rel: "rel start = {}"
    and step_ok: "ok st \<Longrightarrow> step op st st' \<Longrightarrow> ok st'"
    and step_rel: "ok st \<Longrightarrow> step op st st' \<Longrightarrow> rel st' = psop_spec op (rel st)"
begin

lemma run_ok: "run_of step start tr st \<Longrightarrow> ok st"
  by (induction rule: run_of.induct) (auto intro: start_ok step_ok)

lemma run_rel: "run_of step start tr st \<Longrightarrow> (s, n) \<in> rel st \<longleftrightarrow> subscribed tr s n"
proof (induction arbitrary: s n rule: run_of.induct)
  case run_start
  then show ?case by (simp add: start_rel)
next
  case (run_step tr st op st')
  have "rel st' = psop_spec op (rel st)" using step_rel [OF run_ok [OF run_step(1)] run_step(2)] .
  then show ?case using run_step.IH by (cases op) auto
qed

end

inductive tree_step :: "(nat, string) psop \<Rightarrow> topic_tree \<Rightarrow> topic_tree \<Rightarrow> bool" where
  ts_create: "s \<notin> live_subs st \<Longrightarrow> createSubscriber s st = (s, st') \<Longrightarrow> tree_step (Create s) st st'"
| ts_sub: "s \<in> live_subs st \<Longrightarrow> theap st na = None \<Longrightarrow> subscribe na s n st = Inr (r, st') \<Longrightarrow> tree_step (Sub s n) st st'"
| ts_unsub: "s \<in> live_subs st \<Longrightarrow> unsubscribe s n st = Inr (r, st') \<Longrightarrow> tree_step (Unsub s n) st st'"
| ts_free: "s \<in> live_subs st \<Longrightarrow> freeSubscriber (Some s) st = Inr st' \<Longrightarrow> tree_step (Free s) st st'"
| ts_drain: "s \<in> live_subs st \<Longrightarrow> drain_one cb s st = Inr (ds, st') \<Longrightarrow> tree_step (Drain s) st st'"

lemma tree_step_correct:
  assumes "tree_step op st st'" "tree_wf st"
  shows "tree_wf st' \<and> subscriptions st' = psop_spec op (subscriptions st)"
  using assms
proof (induction rule: tree_step.induct)
  case (ts_create s st st')
  then show ?case using createSubscriber_correct [of st s] by simp
next
  case (ts_sub s st na n r st')
  then show ?case using subscribe_correct [of st s na n] by auto
next
  case (ts_unsub s st n r st')
  then show ?case using unsubscribe_correct [of st s n] by auto
next
  case (ts_free s st st')
  then show ?case using freeSubscriber_correct [of st s] by auto
next
  case (ts_drain s st cb ds st')
  then show ?case using drain_one_idle [of st s cb] by simp
qed

interpretation tt: pubsub tree_wf tree_step tree_new subscriptions
  by unfold_locales (auto simp: wf_new dest: tree_step_correct)

section \<open>A concrete history\<close>

text \<open>Two subscribers of one topic.\<close>

definition demo_history :: "(nat, string) psop list" where
  "demo_history = [Sub 1 ''news'', Create 1, Sub 0 ''news'', Create 0]"

definition demo_tree :: topic_tree where
  "demo_tree = \<lparr>topics = [''news'' \<mapsto> 7], theap = [7 \<mapsto> \<lparr>t_name = ''news'', t_subs = [1, 0]\<rparr>],
     sheap = [0 \<mapsto> subscriber_new\<lparr>s_topics := [7]\<rparr>, 1 \<mapsto> subscriber_new\<lparr>s_topics := [7]\<rparr>],
     iteratingSubscriber = None, drainableSubscribers = None, outgoingMessages = []\<rparr>"

lemma demo_run: "run_of tree_step tree_new demo_history demo_tree"
proof -
  define a where "a = tree_new\<lparr>sheap := [0 \<mapsto> subscriber_new]\<rparr>"
  define b where "b = a\<lparr>sheap := [0 \<mapsto> subscriber_new\<lparr>s_topics := [7]\<rparr>], topics := [''news'' \<mapsto> 7],
     theap := [7 \<mapsto> \<lparr>t_name = ''news'', t_subs = [0]\<rparr>]\<rparr>"
  define c where "c = b\<lparr>sheap := [0 \<mapsto> subscriber_new\<lparr>s_topics := [7]\<rparr>, 1 \<mapsto> subscriber_new]\<rparr>"
  note defs = a_def b_def c_def tree_new_def createSubscriber_def subscribe_def tree_simps live_subs_iff
  have "tree_step (Create 0) tree_new a" by (rule ts_create) (simp_all add: defs)
  moreover have "tree_step (Sub 0 ''news'') a b"
    by (rule ts_sub [of _ _ 7 _ "Some 7"]) (simp_all add: defs subscriber_new_def fun_upd_def fun_eq_iff)
  moreover have "tree_step (Create 1) b c" by (rule ts_create) (simp_all add: defs)
  moreover have "tree_step (Sub 1 ''news'') c demo_tree"
    by (rule ts_sub [of _ _ 8 _ "Some 7"]) (simp_all add: defs demo_tree_def subscriber_new_def fun_upd_def fun_eq_iff)
  ultimately show ?thesis unfolding demo_history_def by (meson run_start run_step)
qed

lemma demo_live: "0 \<in> live_subs demo_tree" "1 \<in> live_subs demo_tree" "theap demo_tree 8 = None"
    "run_of tree_step tree_new demo_history demo_tree"
  using demo_run by (simp_all add: demo_tree_def live_subs_def)

section \<open>Properties\<close>

text \<open>
  C23. After any history of subscriptions, unsubscriptions, created and freed subscribers, in
  which the allocator may reuse addresses, publishing to a topic delivers the message exactly
  once to every subscriber whose latest operation on the topic is a subscription, except the
  sender, and to nobody else, whatever order the set iterates in; the result says whether
  anybody received it.
\<close>

theorem publish_reaches_subscribers:
  assumes "run_of tree_step tree_new tr st" "\<And>xs. mset (iter xs) = mset xs"
  shows "\<exists>ds. publish iter sender n msg st = Inr (ds \<noteq> [], ds) \<and> distinct (map fst ds) \<and>
           set ds = {(s, msg, 3) | s. subscribed tr s n \<and> sender \<noteq> Some s}"
  using publish_correct [OF tt.run_ok [OF assms(1)] assms(2)] tt.run_rel [OF assms(1)] by simp

theorem publish_reaches_subscribers_witness:
  "run_of tree_step tree_new demo_history demo_tree \<and> (\<forall>xs. mset (rev xs) = mset (xs :: nat list)) \<and>
   (\<exists>ds. publish rev (Some 0) ''news'' ''hi'' demo_tree = Inr (ds \<noteq> [], ds) \<and> set ds = {(1, ''hi'', 3)})"
proof -
  have "\<exists>ds. publish rev (Some 0) ''news'' ''hi'' demo_tree = Inr (ds \<noteq> [], ds) \<and> distinct (map fst ds) \<and>
          set ds = {(s, ''hi'', 3) | s. subscribed demo_history s ''news'' \<and> Some 0 \<noteq> Some s}"
    by (rule publish_reaches_subscribers [OF demo_run]) simp
  then show ?thesis using demo_run by (auto simp: demo_history_def)
qed

text \<open>
  The pointer links are memory safe: in every reachable tree each operation on a live
  subscriber returns, without following a dangling pointer and without the fatal check, and
  reports what it did; a topic is in the map exactly when somebody is subscribed to it, so
  empty topics are not leaked.
\<close>

theorem topic_tree_safe:
  assumes "run_of tree_step tree_new tr st" "s \<in> live_subs st" "theap st na = None"
  shows "(\<exists>r st'. subscribe na s n st = Inr (r, st') \<and> (r = None \<longleftrightarrow> subscribed tr s n)) \<and>
         (\<exists>found empty cnt st'. unsubscribe s n st = Inr ((found, empty, cnt), st') \<and> (found \<longleftrightarrow> subscribed tr s n)) \<and>
         (\<exists>st'. freeSubscriber (Some s) st = Inr st' \<and> live_subs st' = live_subs st - {s}) \<and>
         (lookupTopic n st \<noteq> None \<longleftrightarrow> (\<exists>r. subscribed tr r n))"
proof -
  note wf = tt.run_ok [OF assms(1)]
  have "lookupTopic n st \<noteq> None \<longleftrightarrow> (\<exists>r. (r, n) \<in> subscriptions st)"
  proof (cases "topics st n")
    case (Some a)
    obtain t where "theap st a = Some t" by (rule wf_topic [OF wf Some])
    moreover from this have "t_subs t \<noteq> []" using wf by (auto simp: tree_wf_def sets_ok_def)
    ultimately show ?thesis using Some hd_in_set by (auto simp: lookupTopic_def subscriptions_iff subs_of_def)
  qed (simp add: lookupTopic_def subscriptions_iff)
  moreover have "\<exists>r st'. subscribe na s n st = Inr (r, st') \<and> (r = None \<longleftrightarrow> subscribed tr s n)"
    using subscribe_correct [OF wf assms(2,3), of n] unfolding tt.run_rel [OF assms(1)] by blast
  moreover have "\<exists>found empty cnt st'. unsubscribe s n st = Inr ((found, empty, cnt), st') \<and> (found \<longleftrightarrow> subscribed tr s n)"
    using unsubscribe_correct [OF wf assms(2), of n] unfolding tt.run_rel [OF assms(1)] by blast
  moreover have "\<exists>st'. freeSubscriber (Some s) st = Inr st' \<and> live_subs st' = live_subs st - {s}"
    using freeSubscriber_correct [OF wf assms(2)] by blast
  ultimately show ?thesis unfolding tt.run_rel [OF assms(1)] by simp
qed

theorem topic_tree_safe_witness:
  "run_of tree_step tree_new demo_history demo_tree \<and> 1 \<in> live_subs demo_tree \<and> theap demo_tree 8 = None \<and>
   (\<exists>st'. freeSubscriber (Some 1) demo_tree = Inr st' \<and> live_subs st' = live_subs demo_tree - {1})"
  using topic_tree_safe [OF demo_run, of 1 8] demo_live by blast

text \<open>
  The deferred-delivery half of the tree is idle: since \<open>publish\<close> calls back at once and
  nothing ever fills \<open>outgoingMessages\<close>, draining one subscriber or all of them delivers
  nothing, changes nothing and returns.
\<close>

theorem drain_is_idle:
  assumes "run_of tree_step tree_new tr st" "s \<in> live_subs st"
  shows "drain_one cb s st = Inr ([], st) \<and> drain_all cb st = Some (Inr ([], st))"
  using drain_one_idle drain_all_idle tt.run_ok [OF assms(1)] assms(2) by blast

theorem drain_is_idle_witness:
  "run_of tree_step tree_new demo_history demo_tree \<and> 1 \<in> live_subs demo_tree \<and>
   drain_one (\<lambda>_ _ _. False) 1 demo_tree = Inr ([], demo_tree)"
  using drain_is_idle [OF demo_run, of 1] demo_live demo_run by blast

end
