(* ===== verification/Poller.thy ===== *)
theory Poller
  imports Prelude
begin

text \<open>
  The pollers and channels (\<open>include/xnetty/event/poller.h\<close>, \<open>src/event/poller.cpp\<close>,
  \<open>include/xnetty/channel/channel.h\<close>, \<open>src/channel/channel.cpp\<close>, and the channel methods of
  \<open>src/event/event_loop.cpp\<close>).

  The three implementations of the \<open>Poller\<close> interface are modelled: \<open>EPoller\<close> on \<open>epoll_ctl\<close> and
  \<open>epoll_wait\<close>, \<open>KPoller\<close> on \<open>kevent\<close>, and \<open>WSPoller\<close>, which keeps its own vector. The system
  calls are parameters; \<open>epoll_contract\<close> states what is documented of \<open>epoll_ctl\<close>. A channel calls
  its poller through the interface, so the channel operations take the poller's \<open>add\<close> and \<open>del\<close>
  as arguments. The locale \<open>interest_registry\<close> is the contract a channel relies on, and inside it
  the registered interest of a channel is shown to follow its event mask.
\<close>

section \<open>Generic and platform event flags\<close>

abbreviation kNone :: u32 where "kNone \<equiv> 0"
abbreviation kRead :: u32 where "kRead \<equiv> 1"
abbreviation kWrite :: u32 where "kWrite \<equiv> 2"
abbreviation kEOF :: u32 where "kEOF \<equiv> 4"
abbreviation kError :: u32 where "kError \<equiv> 8"

abbreviation EPOLLIN :: u32 where "EPOLLIN \<equiv> 1"
abbreviation EPOLLOUT :: u32 where "EPOLLOUT \<equiv> 4"
abbreviation EPOLLERR :: u32 where "EPOLLERR \<equiv> 8"
abbreviation EPOLLHUP :: u32 where "EPOLLHUP \<equiv> 16"
abbreviation EPOLLRDHUP :: u32 where "EPOLLRDHUP \<equiv> 0x2000"

abbreviation POLLERR :: "16 word" where "POLLERR \<equiv> 1"
abbreviation POLLHUP :: "16 word" where "POLLHUP \<equiv> 2"
abbreviation POLLOUT :: "16 word" where "POLLOUT \<equiv> 0x10"
abbreviation POLLIN :: "16 word" where "POLLIN \<equiv> 0x300"

definition flag :: "bool \<Rightarrow> 'a::len word \<Rightarrow> 'a word" where
  "flag c f = (if c then f else 0)"

datatype errno = EINTR | EEXIST | ENOENT | EOTHER

text \<open>What a call of \<open>poll\<close> gives: an error, or the active channels with the events set on them.\<close>

datatype poll_result = PollError | PollEvents "(nat \<times> u32) option list"

section \<open>The epoll poller\<close>

definition ep_revents :: "u32 \<Rightarrow> u32" where
  "ep_revents e = flag (e AND EPOLLIN \<noteq> 0) kRead OR flag (e AND EPOLLOUT \<noteq> 0) kWrite
     OR flag (e AND EPOLLRDHUP \<noteq> 0) kEOF OR flag (e AND (EPOLLERR OR EPOLLHUP) \<noteq> 0) kError"

text \<open>The answer of \<open>epoll_wait\<close>: an error, or the pairs of \<open>data.ptr\<close> and event mask.\<close>

definition ep_poll :: "errno + (nat option \<times> u32) list \<Rightarrow> poll_result" where
  "ep_poll ans = (case ans of
     Inl e \<Rightarrow> if e = EINTR then PollEvents [] else PollError
   | Inr evs \<Rightarrow> PollEvents (map (\<lambda>(ptr, e). map_option (\<lambda>ch. (ch, ep_revents e)) ptr) evs))"

datatype ctl_op = CTL_ADD | CTL_MOD | CTL_DEL

type_synonym 'k epoll_ctl = "ctl_op \<Rightarrow> int \<Rightarrow> u32 \<times> nat \<Rightarrow> 'k \<Rightarrow> errno option \<times> 'k"

definition ep_events :: "u32 \<Rightarrow> u32" where
  "ep_events events = flag (events AND kRead \<noteq> 0) EPOLLIN OR flag (events AND kWrite \<noteq> 0) EPOLLOUT"

definition ep_add :: "'k epoll_ctl \<Rightarrow> int \<Rightarrow> nat \<Rightarrow> u32 \<Rightarrow> 'k \<Rightarrow> int \<times> 'k" where
  "ep_add ctl fd ch events k =
     (let ev = (ep_events events, ch) in
      case ctl CTL_ADD fd ev k of
        (None, k1) \<Rightarrow> (0, k1)
      | (Some e, k1) \<Rightarrow>
          if e = EEXIST then
            (case ctl CTL_MOD fd ev k1 of (None, k2) \<Rightarrow> (0, k2) | (Some _, k2) \<Rightarrow> (-1, k2))
          else (-1, k1))"

definition ep_del :: "'k epoll_ctl \<Rightarrow> int \<Rightarrow> 'k \<Rightarrow> int \<times> 'k" where
  "ep_del ctl fd k = (case ctl CTL_DEL fd (0, 0) k of (None, k1) \<Rightarrow> (0, k1) | (Some _, k1) \<Rightarrow> (-1, k1))"

section \<open>The kqueue poller\<close>

datatype kfilter = EVFILT_READ | EVFILT_WRITE | EVFILT_OTHER
datatype kflag = EV_ADD | EV_DELETE

definition kq_revents :: "kfilter \<Rightarrow> bool \<Rightarrow> bool \<Rightarrow> u32" where
  "kq_revents filt ev_eof ev_error = flag (filt = EVFILT_READ) kRead OR flag (filt = EVFILT_WRITE) kWrite
     OR flag ev_eof kEOF OR flag ev_error kError"

definition kq_poll :: "errno + (nat option \<times> kfilter \<times> bool \<times> bool) list \<Rightarrow> poll_result" where
  "kq_poll ans = (case ans of
     Inl e \<Rightarrow> if e = EINTR then PollEvents [] else PollError
   | Inr evs \<Rightarrow> PollEvents (map (\<lambda>(ptr, f, eof, err). map_option (\<lambda>ch. (ch, kq_revents f eof err)) ptr) evs))"

text \<open>The timeout argument of \<open>kevent\<close>, seconds and nanoseconds.\<close>

definition kq_timeout :: "int \<Rightarrow> (int \<times> int) option" where
  "kq_timeout ms = (if ms \<ge> 0 then Some (ms div 1000, ms mod 1000 * 1000000) else None)"

type_synonym 'k kevent = "(int \<times> kfilter \<times> kflag \<times> nat option) list \<Rightarrow> 'k \<Rightarrow> errno option \<times> 'k"

definition kq_deletes :: "int \<Rightarrow> (int \<times> kfilter \<times> kflag \<times> nat option) list" where
  "kq_deletes fd = [(fd, EVFILT_READ, EV_DELETE, None), (fd, EVFILT_WRITE, EV_DELETE, None)]"

definition kq_add :: "'k kevent \<Rightarrow> int \<Rightarrow> nat \<Rightarrow> u32 \<Rightarrow> 'k \<Rightarrow> int \<times> 'k" where
  "kq_add kevent fd ch events k =
     (let k1 = snd (kevent (kq_deletes fd) k);
          adds = (if events AND kRead \<noteq> 0 then [(fd, EVFILT_READ, EV_ADD, Some ch)] else []) @
                 (if events AND kWrite \<noteq> 0 then [(fd, EVFILT_WRITE, EV_ADD, Some ch)] else [])
      in if adds = [] then (0, k1)
         else case kevent adds k1 of (None, k2) \<Rightarrow> (0, k2) | (Some _, k2) \<Rightarrow> (-1, k2))"

definition kq_del :: "'k kevent \<Rightarrow> int \<Rightarrow> 'k \<Rightarrow> int \<times> 'k" where
  "kq_del kevent fd k = (case kevent (kq_deletes fd) k of
     (None, k1) \<Rightarrow> (0, k1)
   | (Some e, k1) \<Rightarrow> if e \<noteq> ENOENT then (-1, k1) else (0, k1))"

section \<open>The WSAPoll poller\<close>

record poll_entry =
  pe_fd :: int
  pe_ch :: nat
  pe_events :: "16 word"

definition ws_revents :: "16 word \<Rightarrow> u32" where
  "ws_revents r = flag (r AND POLLIN \<noteq> 0) kRead OR flag (r AND POLLOUT \<noteq> 0) kWrite
     OR flag (r AND POLLHUP \<noteq> 0) kEOF OR flag (r AND POLLERR \<noteq> 0) kError"

fun ws_collect :: "nat \<Rightarrow> poll_entry list \<Rightarrow> 16 word list \<Rightarrow> (nat \<times> u32) option list" where
  "ws_collect room (e # es) (r # rs) =
     (if room = 0 then []
      else if r = 0 then ws_collect room es rs
      else Some (pe_ch e, ws_revents r) # ws_collect (room - 1) es rs)"
| "ws_collect room es rs = []"

text \<open>The answer of \<open>WSAPoll\<close>: an error, or the \<open>revents\<close> of the entries in order.\<close>

definition ws_poll :: "nat \<Rightarrow> errno + 16 word list \<Rightarrow> poll_entry list \<Rightarrow> poll_result" where
  "ws_poll maxEvents ans es = (case ans of
     Inl e \<Rightarrow> if e = EINTR then PollEvents [] else PollError
   | Inr rs \<Rightarrow> PollEvents (ws_collect maxEvents es rs))"

fun ws_erase :: "int \<Rightarrow> poll_entry list \<Rightarrow> poll_entry list" where
  "ws_erase fd [] = []"
| "ws_erase fd (e # es) = (if pe_fd e = fd then es else e # ws_erase fd es)"

definition ws_events :: "u32 \<Rightarrow> 16 word" where
  "ws_events events = flag (events AND kRead \<noteq> 0) POLLIN OR flag (events AND kWrite \<noteq> 0) POLLOUT"

definition ws_add :: "int \<Rightarrow> nat \<Rightarrow> u32 \<Rightarrow> poll_entry list \<Rightarrow> int \<times> poll_entry list" where
  "ws_add fd ch events es = (0, ws_erase fd es @ [\<lparr>pe_fd = fd, pe_ch = ch, pe_events = ws_events events\<rparr>])"

definition ws_del :: "int \<Rightarrow> poll_entry list \<Rightarrow> int \<times> poll_entry list" where
  "ws_del fd es = (0, ws_erase fd es)"

section \<open>Channels\<close>

record channel =
  ch_loop :: bool
  ch_fd :: int
  ch_events :: u32
  ch_revents :: u32
  ch_index :: int
  ch_context :: "nat option"

definition channel_new :: "bool \<Rightarrow> int \<Rightarrow> channel" where
  "channel_new loop fd =
     \<lparr>ch_loop = loop, ch_fd = fd, ch_events = 0, ch_revents = 0, ch_index = -1, ch_context = None\<rparr>"

definition isNoneEvent :: "channel \<Rightarrow> bool" where
  "isNoneEvent c = (ch_events c = kNone)"

definition isWriting :: "channel \<Rightarrow> bool" where
  "isWriting c = (ch_events c AND kWrite \<noteq> 0)"

definition isReading :: "channel \<Rightarrow> bool" where
  "isReading c = (ch_events c AND kRead \<noteq> 0)"

text \<open>
  \<open>EventLoop::updateChannel\<close> and \<open>removeChannel\<close> on the channel at address \<open>me\<close>, with the virtual
  methods of the poller as arguments; the loop ignores the poller's return codes.
\<close>

type_synonym 'p adder = "int \<Rightarrow> nat \<Rightarrow> u32 \<Rightarrow> 'p \<Rightarrow> int \<times> 'p"
type_synonym 'p deleter = "int \<Rightarrow> 'p \<Rightarrow> int \<times> 'p"

definition updateChannel :: "'p adder \<Rightarrow> 'p deleter \<Rightarrow> nat \<Rightarrow> channel \<Rightarrow> 'p \<Rightarrow> 'p" where
  "updateChannel add del me c p =
     (if ch_fd c < 0 then p
      else if isNoneEvent c then snd (del (ch_fd c) p)
      else snd (add (ch_fd c) me (ch_events c) p))"

definition removeChannel :: "'p deleter \<Rightarrow> channel \<Rightarrow> 'p \<Rightarrow> 'p" where
  "removeChannel del c p = (if ch_fd c \<ge> 0 then snd (del (ch_fd c) p) else p)"

definition update :: "'p adder \<Rightarrow> 'p deleter \<Rightarrow> nat \<Rightarrow> channel \<Rightarrow> 'p \<Rightarrow> 'p" where
  "update add del me c p = (if ch_loop c then updateChannel add del me c p else p)"

definition ch_remove :: "'p deleter \<Rightarrow> channel \<Rightarrow> 'p \<Rightarrow> 'p" where
  "ch_remove del c p = (if ch_loop c then removeChannel del c p else p)"

definition enableReading :: "channel \<Rightarrow> channel" where
  "enableReading c = c\<lparr>ch_events := ch_events c OR kRead\<rparr>"

definition enableWriting :: "channel \<Rightarrow> channel" where
  "enableWriting c = c\<lparr>ch_events := ch_events c OR kWrite\<rparr>"

definition disableReading :: "channel \<Rightarrow> channel" where
  "disableReading c = c\<lparr>ch_events := ch_events c AND NOT kRead\<rparr>"

definition disableWriting :: "channel \<Rightarrow> channel" where
  "disableWriting c = c\<lparr>ch_events := ch_events c AND NOT kWrite\<rparr>"

definition disableAll :: "channel \<Rightarrow> channel" where
  "disableAll c = c\<lparr>ch_events := kNone\<rparr>"

datatype ch_op = EnableReading | EnableWriting | DisableReading | DisableWriting | DisableAll

fun ch_mask :: "ch_op \<Rightarrow> channel \<Rightarrow> channel" where
  "ch_mask EnableReading c = enableReading c"
| "ch_mask EnableWriting c = enableWriting c"
| "ch_mask DisableReading c = disableReading c"
| "ch_mask DisableWriting c = disableWriting c"
| "ch_mask DisableAll c = disableAll c"

text \<open>One call of a channel method: the mask changes, then the poller is told.\<close>

definition ch_step :: "'p adder \<Rightarrow> 'p deleter \<Rightarrow> nat \<Rightarrow> ch_op \<Rightarrow> channel \<times> 'p \<Rightarrow> channel \<times> 'p" where
  "ch_step add del me op s = (let c = ch_mask op (fst s) in (c, update add del me c (snd s)))"

lemma ch_step_pair: "ch_step add del me op (c, p) = (ch_mask op c, update add del me (ch_mask op c) p)"
  by (simp add: ch_step_def Let_def)

text \<open>The destructor gives up the interest and closes the descriptor.\<close>

definition channel_destroy :: "'p adder \<Rightarrow> 'p deleter \<Rightarrow> nat \<Rightarrow> channel \<Rightarrow> 'p \<Rightarrow> int list \<times> 'p" where
  "channel_destroy add del me c p =
     (if ch_fd c \<ge> 0 then ([ch_fd c], update add del me (disableAll c) p) else ([], p))"

text \<open>\<open>handleEvent\<close>: the loop's handlers to call, in order.\<close>

datatype loop_call = OnRead | OnWrite | OnError

definition handleEvent :: "channel \<Rightarrow> loop_call list" where
  "handleEvent c =
     (if \<not> ch_loop c then []
      else (if ch_revents c AND (kRead OR kEOF) \<noteq> 0 then [OnRead] else []) @
           (if ch_revents c AND kWrite \<noteq> 0 then [OnWrite] else []) @
           (if ch_revents c AND kError \<noteq> 0 then [OnError] else []))"

section \<open>The contract of a poller\<close>

text \<open>\<open>watch p fd\<close> is the channel registered for a descriptor and the platform mask it is watched for.\<close>

locale interest_registry =
  fixes ok :: "'p \<Rightarrow> bool"
    and add :: "'p adder"
    and del :: "'p deleter"
    and watch :: "'p \<Rightarrow> int \<Rightarrow> (nat \<times> 'e) option"
    and plat :: "u32 \<Rightarrow> 'e"
  assumes add_ok: "ok p \<Longrightarrow> ok (snd (add fd ch ev p))"
    and add_watch: "ok p \<Longrightarrow> watch (snd (add fd ch ev p)) = (watch p)(fd \<mapsto> (ch, plat ev))"
    and del_ok: "ok p \<Longrightarrow> ok (snd (del fd p))"
    and del_watch: "ok p \<Longrightarrow> watch (snd (del fd p)) = (watch p)(fd := None)"
begin

lemma update_watch:
  assumes "ok p" "ch_loop c" "0 \<le> ch_fd c"
  shows "ok (update add del me c p)"
    and "watch (update add del me c p) =
           (watch p)(ch_fd c := if ch_events c = 0 then None else Some (me, plat (ch_events c)))"
  using assms by (simp_all add: update_def updateChannel_def isNoneEvent_def add_ok add_watch del_ok del_watch)

lemma steps_watch:
  assumes "ok p" "ch_loop c" "0 \<le> ch_fd c" "ops \<noteq> []"
    and "fold (ch_step add del me) ops (c, p) = (c', p')"
  shows "ok p' \<and> c' = fold ch_mask ops c \<and>
         watch p' = (watch p)(ch_fd c := if ch_events c' = 0 then None else Some (me, plat (ch_events c')))"
  using assms
proof (induction ops arbitrary: c p)
  case (Cons op ops)
  let ?c = "ch_mask op c" let ?p = "update add del me ?c p"
  have frame: "ch_loop ?c = ch_loop c" "ch_fd ?c = ch_fd c"
    by (cases op; simp add: enableReading_def enableWriting_def disableReading_def disableWriting_def disableAll_def)+
  have u: "ok ?p" "watch ?p = (watch p)(ch_fd c := if ch_events ?c = 0 then None else Some (me, plat (ch_events ?c)))"
    using update_watch [of p ?c me] Cons.prems(1-3) frame by simp_all
  have rest: "fold (ch_step add del me) ops (?c, ?p) = (c', p')"
    using Cons.prems(5) by (simp add: ch_step_pair)
  show ?case
  proof (cases "ops = []")
    case True
    then have eq: "c' = ?c" "p' = ?p" using rest by auto
    show ?thesis unfolding eq using True u by simp
  next
    case False
    have "ok p' \<and> c' = fold ch_mask ops ?c \<and>
        watch p' = (watch ?p)(ch_fd c := if ch_events c' = 0 then None else Some (me, plat (ch_events c')))"
      using Cons.IH [OF u(1) _ _ False rest] frame Cons.prems(2,3) by metis
    then show ?thesis unfolding u(2) fun_upd_upd fold_Cons o_apply by blast
  qed
qed simp

end

text \<open>The vector of \<open>WSPoller\<close>.\<close>

definition ws_ok :: "poll_entry list \<Rightarrow> bool" where
  "ws_ok es = distinct (map pe_fd es)"

fun ws_watch :: "poll_entry list \<Rightarrow> int \<Rightarrow> (nat \<times> 16 word) option" where
  "ws_watch [] fd = None"
| "ws_watch (e # es) fd = (if pe_fd e = fd then Some (pe_ch e, pe_events e) else ws_watch es fd)"

lemma ws_watch_None: "ws_watch es fd = None \<longleftrightarrow> fd \<notin> pe_fd ` set es"
  by (induction es) auto

lemma ws_watch_append: "ws_watch (es @ fs) fd = (case ws_watch es fd of None \<Rightarrow> ws_watch fs fd | Some x \<Rightarrow> Some x)"
  by (induction es) simp_all

lemma ws_erase_fds: "ws_ok es \<Longrightarrow> ws_ok (ws_erase fd es) \<and> pe_fd ` set (ws_erase fd es) = pe_fd ` set es - {fd}"
  by (induction es) (auto simp: ws_ok_def, metis imageI)

lemma ws_erase_watch: "ws_ok es \<Longrightarrow> ws_watch (ws_erase fd es) = (ws_watch es)(fd := None)"
proof (induction es)
  case (Cons e es)
  then show ?case using ws_watch_None [of es fd] by (fastforce simp: ws_ok_def fun_eq_iff)
qed (simp add: fun_eq_iff)

interpretation ws: interest_registry ws_ok ws_add ws_del ws_watch ws_events
proof unfold_locales
  fix es fd ch ev
  assume ok: "ws_ok es"
  note er = ws_erase_fds [OF ok, of fd]
  show "ws_ok (snd (ws_add fd ch ev es))" using er by (auto simp: ws_add_def ws_ok_def)
  show "ws_watch (snd (ws_add fd ch ev es)) = (ws_watch es)(fd \<mapsto> (ch, ws_events ev))"
    using ws_erase_watch [OF ok, of fd] by (auto simp: ws_add_def ws_watch_append fun_eq_iff split: option.split)
  show "ws_ok (snd (ws_del fd es))" using er by (simp add: ws_del_def)
  show "ws_watch (snd (ws_del fd es)) = (ws_watch es)(fd := None)"
    using ws_erase_watch [OF ok] by (simp add: ws_del_def)
qed

text \<open>
  What the manual page of \<open>epoll_ctl\<close> says: adding a descriptor that is already registered fails
  with \<open>EEXIST\<close>, modifying or deleting one that is not fails with \<open>ENOENT\<close>, and nothing changes
  then; otherwise the interest list is updated.
\<close>

definition epoll_contract :: "'k epoll_ctl \<Rightarrow> ('k \<Rightarrow> int \<Rightarrow> (nat \<times> u32) option) \<Rightarrow> bool" where
  "epoll_contract ctl list \<longleftrightarrow> (\<forall>k fd ev ch.
     (list k fd = None \<longrightarrow>
        (\<exists>k'. ctl CTL_ADD fd (ev, ch) k = (None, k') \<and> list k' = (list k)(fd \<mapsto> (ch, ev))) \<and>
        (\<exists>k'. ctl CTL_DEL fd (ev, ch) k = (Some ENOENT, k') \<and> list k' = list k)) \<and>
     (list k fd \<noteq> None \<longrightarrow>
        (\<exists>k'. ctl CTL_ADD fd (ev, ch) k = (Some EEXIST, k') \<and> list k' = list k) \<and>
        (\<exists>k'. ctl CTL_MOD fd (ev, ch) k = (None, k') \<and> list k' = (list k)(fd \<mapsto> (ch, ev))) \<and>
        (\<exists>k'. ctl CTL_DEL fd (ev, ch) k = (None, k') \<and> list k' = (list k)(fd := None))))"

lemma epoll_registry:
  assumes "epoll_contract ctl list"
  shows "interest_registry (\<lambda>_. True) (ep_add ctl) (ep_del ctl) list ep_events"
proof unfold_locales
  fix k fd ch ev
  note absent = assms [unfolded epoll_contract_def, rule_format, THEN conjunct1, rule_format]
  note present = assms [unfolded epoll_contract_def, rule_format, THEN conjunct2, rule_format]
  show "list (snd (ep_add ctl fd ch ev k)) = (list k)(fd \<mapsto> (ch, ep_events ev))"
  proof (cases "list k fd")
    case None
    then show ?thesis using absent [of k fd "ep_events ev" ch] by (auto simp: ep_add_def)
  next
    case (Some x)
    then obtain k1 where k1: "ctl CTL_ADD fd (ep_events ev, ch) k = (Some EEXIST, k1)" "list k1 = list k"
      using present [of k fd "ep_events ev" ch] by auto
    obtain k2 where "ctl CTL_MOD fd (ep_events ev, ch) k1 = (None, k2)" "list k2 = (list k1)(fd \<mapsto> (ch, ep_events ev))"
      using present [of k1 fd "ep_events ev" ch] Some k1(2) by auto
    then show ?thesis using k1 by (simp add: ep_add_def)
  qed
  show "list (snd (ep_del ctl fd k)) = (list k)(fd := None)"
    using absent [of k fd 0 0] present [of k fd 0 0]
    by (cases "list k fd") (auto simp: ep_del_def fun_upd_idem)
qed simp_all

section \<open>Properties\<close>

text \<open>
  C38. After any sequence of \<open>enableReading\<close>, \<open>enableWriting\<close>, \<open>disableReading\<close>, \<open>disableWriting\<close>
  and \<open>disableAll\<close> on a channel with an open descriptor, the interest registered with the
  \<open>epoll\<close> poller for that descriptor is exactly the channel's event mask, or nothing when
  the mask is empty, and no other descriptor is touched, whatever was registered before.
\<close>

theorem epoll_interest_follows_mask:
  assumes "epoll_contract ctl list" "ch_loop c" "0 \<le> ch_fd c" "ops \<noteq> []"
    and "fold (ch_step (ep_add ctl) (ep_del ctl) me) ops (c, k) = (c', k')"
  shows "c' = fold ch_mask ops c \<and>
         list k' = (list k)(ch_fd c := if isNoneEvent c' then None else Some (me, ep_events (ch_events c')))"
  using interest_registry.steps_watch [OF epoll_registry [OF assms(1)] TrueI assms(2-5)] by (simp add: isNoneEvent_def)

definition demo_ctl :: "(int \<Rightarrow> (nat \<times> u32) option) epoll_ctl" where
  "demo_ctl op fd ev k = (case op of
     CTL_ADD \<Rightarrow> if k fd = None then (None, k(fd \<mapsto> (snd ev, fst ev))) else (Some EEXIST, k)
   | CTL_MOD \<Rightarrow> if k fd = None then (Some ENOENT, k) else (None, k(fd \<mapsto> (snd ev, fst ev)))
   | CTL_DEL \<Rightarrow> if k fd = None then (Some ENOENT, k) else (None, k(fd := None)))"

theorem epoll_interest_follows_mask_witness:
  "epoll_contract demo_ctl (\<lambda>k. k) \<and>
   snd (fold (ch_step (ep_add demo_ctl) (ep_del demo_ctl) 9) [EnableReading, EnableWriting, DisableReading]
          (channel_new True 4, \<lambda>_. None)) = [4 \<mapsto> (9, EPOLLOUT)]"
proof -
  let ?r = "fold (ch_step (ep_add demo_ctl) (ep_del demo_ctl) 9) [EnableReading, EnableWriting, DisableReading]
          (channel_new True 4, \<lambda>_. None)"
  have con: "epoll_contract demo_ctl (\<lambda>k. k)" by (simp add: epoll_contract_def demo_ctl_def)
  have "fst ?r = fold ch_mask [EnableReading, EnableWriting, DisableReading] (channel_new True 4) \<and>
        snd ?r = (\<lambda>_. None)(ch_fd (channel_new True 4) := if isNoneEvent (fst ?r) then None else Some (9, ep_events (ch_events (fst ?r))))"
    by (rule epoll_interest_follows_mask [OF con, where c = "channel_new True 4" and k = "\<lambda>_. None" and ops = "[EnableReading, EnableWriting, DisableReading]"])
       (simp_all add: channel_new_def)
  then show ?thesis using con
    by (simp add: channel_new_def enableReading_def enableWriting_def disableReading_def isNoneEvent_def ep_events_def flag_def)
qed

text \<open>The same for the poller that keeps its interests in a vector.\<close>

theorem wsapoll_interest_follows_mask:
  assumes "ws_ok p" "ch_loop c" "0 \<le> ch_fd c" "ops \<noteq> []"
    and "fold (ch_step ws_add ws_del me) ops (c, p) = (c', p')"
  shows "ws_ok p' \<and> c' = fold ch_mask ops c \<and>
         ws_watch p' = (ws_watch p)(ch_fd c := if isNoneEvent c' then None else Some (me, ws_events (ch_events c')))"
  using ws.steps_watch [OF assms] by (simp add: isNoneEvent_def)

theorem wsapoll_interest_follows_mask_witness:
  "ws_ok [] \<and> ws_watch (snd (fold (ch_step ws_add ws_del 9) [EnableReading, EnableWriting] (channel_new True 4, []))) 4 =
     Some (9, POLLIN OR POLLOUT)"
proof -
  let ?r = "fold (ch_step ws_add ws_del 9) [EnableReading, EnableWriting] (channel_new True 4, [])"
  have "ws_ok (snd ?r) \<and> fst ?r = fold ch_mask [EnableReading, EnableWriting] (channel_new True 4) \<and>
        ws_watch (snd ?r) = (ws_watch [])(ch_fd (channel_new True 4) :=
           if isNoneEvent (fst ?r) then None else Some (9, ws_events (ch_events (fst ?r))))"
    by (rule wsapoll_interest_follows_mask [where c = "channel_new True 4" and p = "[]" and ops = "[EnableReading, EnableWriting]"])
       (simp_all add: channel_new_def ws_ok_def)
  then show ?thesis
    by (simp add: channel_new_def enableReading_def enableWriting_def isNoneEvent_def ws_events_def flag_def ws_ok_def)
qed

lemma and_or_zero: "(e :: 'a::len word) AND (x OR y) = 0 \<longleftrightarrow> e AND x = 0 \<and> e AND y = 0"
  by (auto simp: bit.conj_disj_distrib or_eq_0_iff)

text \<open>
  An event mask reported by \<open>epoll_wait\<close> is handled completely: readable data, a peer that
  shut down its side, writability and errors each lead to the matching handler, reads before
  writes before errors, and to nothing else.
\<close>

theorem epoll_events_handled:
  "ch_loop c \<Longrightarrow> handleEvent (c\<lparr>ch_revents := ep_revents e\<rparr>) =
     (if e AND EPOLLIN \<noteq> 0 \<or> e AND EPOLLRDHUP \<noteq> 0 then [OnRead] else []) @
     (if e AND EPOLLOUT \<noteq> 0 then [OnWrite] else []) @
     (if e AND EPOLLERR \<noteq> 0 \<or> e AND EPOLLHUP \<noteq> 0 then [OnError] else [])"
  using and_or_zero [of e EPOLLERR EPOLLHUP] by (auto simp: handleEvent_def ep_revents_def flag_def)

theorem epoll_events_handled_witness:
  "handleEvent ((channel_new True 4)\<lparr>ch_revents := ep_revents (EPOLLIN OR EPOLLHUP)\<rparr>) = [OnRead, OnError]"
  using epoll_events_handled [of "channel_new True 4" "EPOLLIN OR EPOLLHUP"] by (simp add: channel_new_def)

end
