(* ===== verification/Worker.thy ===== *)
theory Worker
  imports ByteBuf Poller "HOL-Library.Monad_Syntax"
begin

text \<open>
  Connections and the worker loop (\<open>include/xnetty/channel/connection.h\<close>,
  \<open>include/xnetty/event/worker_loop.h\<close>, \<open>src/event/worker_loop.cpp\<close>, and the connection half of
  \<open>src/channel/context.cpp\<close>).

  A worker owns connections, each with a channel, a read and a write buffer and its flags. The
  objects live in a heap \<open>conns\<close>; \<open>connections\<close> lists the keys of the map that owns them. The
  environment \<open>env\<close> holds what is outside: the allocator, the answers of the socket calls in the
  order the calls are made (\<open>kern\<close>), the poller, and the handlers of a connection's pipeline
  (\<open>fire\<close>), which may do anything to the worker that the code lets them. \<open>sent\<close> records the
  bytes a socket accepted, \<open>closed_fds\<close> the descriptors passed to \<open>close\<close>.

  The first group of lemmas concerns the output path of a connection: whatever the socket
  answers, the bytes it accepted followed by the bytes still buffered are the bytes written, and
  what is buffered on an open connection is watched for writability. The second group concerns
  the registry of connections: timeouts, removal, and what closing a connection leaves behind.
\<close>

section \<open>State\<close>

datatype kans = Wrote nat | Again | Fail
datatype rans = Data bytes | Eof | ReadAgain | ReadFail

record conn =
  c_channel :: channel
  readBuf :: bytebuf
  writeBuf :: bytebuf
  closed :: bool
  keepAlive :: bool
  connId :: nat
  lastReadMs :: nat
  lastWriteMs :: nat
  writeBufWaterMark :: nat
  sent :: bytes

record 'p worker =
  conns :: "nat \<Rightarrow> conn option"
  connections :: "nat list"
  pendingFlush :: "nat list"
  poller :: 'p
  calls :: nat
  readTimeoutMs :: int
  writeTimeoutMs :: int
  w_waterMark :: nat
  bufPool :: "bytebuf list"
  nextConnId :: nat
  closed_fds :: "int list"

datatype pipe_event = PConfigure | PRegistered | PActive | PRead | PReadComplete | PInactive | PUnregistered | PClear

record 'p env =
  mem :: heap
  kern :: "nat \<Rightarrow> kans"
  p_add :: "'p adder"
  p_del :: "'p deleter"
  fire :: "pipe_event \<Rightarrow> nat \<Rightarrow> 'p worker \<Rightarrow> 'p worker res"

definition conn_new :: conn where
  "conn_new = \<lparr>c_channel = channel_new False (-1), readBuf = bb_new, writeBuf = bb_new, closed = False, keepAlive = True,
     connId = 0, lastReadMs = 0, lastWriteMs = 0, writeBufWaterMark = 65536, sent = []\<rparr>"

definition isWriteBufOverflow :: "conn \<Rightarrow> bool" where
  "isWriteBufOverflow c \<longleftrightarrow> writeBufWaterMark c > 0 \<and> readableBytes (writeBuf c) > writeBufWaterMark c"

text \<open>\<open>Connection::reset\<close>; the pipeline is cleared by the caller's hook.\<close>

definition conn_reset :: "heap \<Rightarrow> conn \<Rightarrow> conn res" where
  "conn_reset h c =
     rbind (trim h 1024 (readBuf c)) (\<lambda>rb.
     Inr (c\<lparr>readBuf := rb, writeBuf := bb_clear (writeBuf c), closed := False, keepAlive := True,
            lastReadMs := 0, lastWriteMs := 0\<rparr>))"

section \<open>The output path of one connection\<close>

text \<open>A connection together with its poller and the number of socket calls made so far.\<close>

type_synonym 'p cio = "conn \<times> 'p \<times> nat"

text \<open>\<open>enableWriting\<close> and the other channel methods on the connection at address \<open>me\<close>.\<close>

definition on_channel :: "'p env \<Rightarrow> nat \<Rightarrow> ch_op \<Rightarrow> conn \<times> 'p \<Rightarrow> conn \<times> 'p" where
  "on_channel env me op cp =
     (let (ch, p) = ch_step (p_add env) (p_del env) me op (c_channel (fst cp), snd cp)
      in ((fst cp)\<lparr>c_channel := ch\<rparr>, p))"

datatype write_stop = Drained | Blocked | Broken

text \<open>
  The loop around \<open>::write\<close> in \<open>onWrite\<close> and \<open>flushPending\<close>. The call number \<open>k\<close> gets the answer
  \<open>kern k\<close>; the socket never accepts more than it is offered.
\<close>

partial_function (option) write_loop ::
    "(nat \<Rightarrow> kans) \<Rightarrow> bytebuf \<Rightarrow> nat \<Rightarrow> bytes \<Rightarrow> (write_stop \<times> bytebuf \<times> nat \<times> bytes) res option" where
  "write_loop kn b k out =
     (if readableBytes b > 0 then
        (case mem_read (bdata b) (readerIndex b) (readableBytes b) of
           Inl e \<Rightarrow> Some (Inl e)
         | Inr d \<Rightarrow> (case kn k of
             Wrote n \<Rightarrow>
               if 0 < min n (length d)
               then write_loop kn (discard (min n (length d)) b) (k + 1) (out @ take n d)
               else Some (Inr (Broken, b, k + 1, out))
           | Again \<Rightarrow> Some (Inr (Blocked, b, k + 1, out))
           | Fail \<Rightarrow> Some (Inr (Broken, b, k + 1, out))))
      else Some (Inr (Drained, b, k, out)))"

definition onWrite :: "'p env \<Rightarrow> nat \<Rightarrow> nat \<Rightarrow> 'p cio \<Rightarrow> 'p cio res" where
  "onWrite env now me s =
     (let (c, p, k) = s in
      if closed c then Inr s
      else let c1 = c\<lparr>lastWriteMs := now\<rparr> in
        rbind (returned (write_loop (kern env) (writeBuf c1) k (sent c1))) (\<lambda>(stop, b, k1, out).
        let c2 = c1\<lparr>writeBuf := b, sent := out\<rparr> in
        case stop of
          Blocked \<Rightarrow> Inr (c2, p, k1)
        | Broken \<Rightarrow> Inr (c2\<lparr>closed := True\<rparr>, p, k1)
        | Drained \<Rightarrow>
            let (c3, p1) = on_channel env me DisableWriting (c2\<lparr>writeBuf := bb_clear b\<rparr>, p)
            in Inr (c3, p1, k1)))"

definition flush_one :: "'p env \<Rightarrow> nat \<Rightarrow> 'p cio \<Rightarrow> 'p cio res" where
  "flush_one env me s =
     (let (c, p, k) = s in
      if closed c then Inr s
      else
        rbind (returned (write_loop (kern env) (writeBuf c) k (sent c))) (\<lambda>(stop, b, k1, out).
        let c1 = c\<lparr>writeBuf := b, sent := out\<rparr>;
            (c2, p1) = (case stop of
               Blocked \<Rightarrow> on_channel env me EnableWriting (c1, p)
             | Broken \<Rightarrow> (c1\<lparr>closed := True\<rparr>, p)
             | Drained \<Rightarrow> (c1, p));
            c3 = (if readableBytes (writeBuf c2) = 0 then c2\<lparr>writeBuf := bb_clear (writeBuf c2)\<rparr> else c2)
        in Inr (c3, p1, k1)))"

definition flushWriteBuf :: "'p env \<Rightarrow> nat \<Rightarrow> nat \<Rightarrow> 'p cio \<Rightarrow> 'p cio res" where
  "flushWriteBuf env now me s =
     (let (c, p, k) = s; c1 = c\<lparr>lastWriteMs := now\<rparr>; hdrLen = readableBytes (writeBuf c1) in
      if hdrLen = 0 then Inr (c1, p, k)
      else
        rbind (mem_read (bdata (writeBuf c1)) (readerIndex (writeBuf c1)) hdrLen) (\<lambda>d.
        case kern env k of
          Again \<Rightarrow> let (c2, p1) = on_channel env me EnableWriting (c1, p) in Inr (c2, p1, k + 1)
        | Fail \<Rightarrow> Inr (c1\<lparr>closed := True\<rparr>, p, k + 1)
        | Wrote n \<Rightarrow>
            let written = min n (length d) in
            if written = 0 then Inr (c1\<lparr>closed := True\<rparr>, p, k + 1)
            else
              let c2 = c1\<lparr>writeBuf := discard written (writeBuf c1), sent := sent c1 @ take written d\<rparr>;
                  (c3, p1) = (if readableBytes (writeBuf c2) > 0 then on_channel env me EnableWriting (c2, p)
                              else (c2\<lparr>writeBuf := bb_clear (writeBuf c2)\<rparr>, p));
                  c4 = (if \<not> keepAlive c3 then c3\<lparr>closed := True\<rparr> else c3)
              in Inr (c4, p1, k + 1)))"

text \<open>
  The end of the outbound pipeline, \<open>ChannelHandlerContext::fireWrite\<close> at index 0. The overflow
  branch closes the connection through \<open>Context::close\<close>, whose pipeline event is left to the
  worker level.
\<close>

definition wire_write :: "'p env \<Rightarrow> nat \<Rightarrow> nat \<Rightarrow> bytes \<Rightarrow> 'p cio \<Rightarrow> 'p cio res" where
  "wire_write env now me bs s =
     (let (c, p, k) = s in
      rbind (writeBytes (mem env) bs (writeBuf c)) (\<lambda>b.
      let c1 = c\<lparr>writeBuf := b\<rparr> in
      if isWriteBufOverflow c1 then Inr (c1\<lparr>closed := True\<rparr>, p, k)
      else flushWriteBuf env now me (c1, p, k)))"

section \<open>The worker\<close>

definition with_conn :: "nat \<Rightarrow> ('p cio \<Rightarrow> 'p cio res) \<Rightarrow> 'p worker \<Rightarrow> 'p worker res" where
  "with_conn me f w = (case conns w me of
     None \<Rightarrow> Inl UndefinedBehaviour
   | Some c \<Rightarrow> rbind (f (c, poller w, calls w)) (\<lambda>(c1, p1, k1).
       Inr (w\<lparr>conns := (conns w)(me \<mapsto> c1), poller := p1, calls := k1\<rparr>)))"

definition upd_conn :: "nat \<Rightarrow> (conn \<Rightarrow> conn) \<Rightarrow> 'p worker \<Rightarrow> 'p worker" where
  "upd_conn me f w = w\<lparr>conns := (conns w)(me := map_option f (conns w me))\<rparr>"

definition is_closed :: "'p worker \<Rightarrow> nat \<Rightarrow> bool" where
  "is_closed w me = (case conns w me of None \<Rightarrow> True | Some c \<Rightarrow> closed c)"

definition addConnection :: "nat \<Rightarrow> 'p worker \<Rightarrow> 'p worker" where
  "addConnection me w = w\<lparr>connections := List.insert me (connections w)\<rparr>"

definition removeConnection :: "nat \<Rightarrow> 'p worker \<Rightarrow> 'p worker" where
  "removeConnection me w = w\<lparr>connections := removeAll me (connections w)\<rparr>"

definition findConnection :: "nat \<Rightarrow> 'p worker \<Rightarrow> nat option" where
  "findConnection me w = (if me \<in> set (connections w) then Some me else None)"

definition connectionCount :: "'p worker \<Rightarrow> nat" where
  "connectionCount w = length (connections w)"

definition clearConnections :: "'p worker \<Rightarrow> 'p worker" where
  "clearConnections w = w\<lparr>connections := []\<rparr>"

text \<open>A weak pointer in \<open>pendingFlush\<close> whose connection is gone is skipped.\<close>

fun flush_all :: "'p env \<Rightarrow> nat list \<Rightarrow> 'p worker \<Rightarrow> 'p worker res" where
  "flush_all env [] w = Inr w"
| "flush_all env (me # ms) w =
     (if is_closed w me then flush_all env ms w
      else rbind (with_conn me (flush_one env me) w) (flush_all env ms))"

definition flushPending :: "'p env \<Rightarrow> 'p worker \<Rightarrow> 'p worker res" where
  "flushPending env w = rbind (flush_all env (pendingFlush w) w) (\<lambda>w1. Inr (w1\<lparr>pendingFlush := []\<rparr>))"

definition close_fd :: "'p env \<Rightarrow> nat \<Rightarrow> 'p worker \<Rightarrow> 'p worker res" where
  "close_fd env me w = (case conns w me of
     None \<Rightarrow> Inl UndefinedBehaviour
   | Some c \<Rightarrow>
       if ch_fd (c_channel c) \<ge> 0 then
         let (c1, p1) = on_channel env me DisableAll (c, poller w);
             p2 = ch_remove (p_del env) (c_channel c1) p1;
             fd = ch_fd (c_channel c1)
         in Inr (w\<lparr>conns := (conns w)(me \<mapsto> c1\<lparr>c_channel := (c_channel c1)\<lparr>ch_fd := -1\<rparr>\<rparr>),
                   poller := p2, closed_fds := closed_fds w @ [fd]\<rparr>)
       else Inr w)"

definition removeConn :: "'p env \<Rightarrow> nat \<Rightarrow> 'p worker \<Rightarrow> 'p worker res" where
  "removeConn env me w =
     (if findConnection me w = None then Inr w
      else rbind (fire env PUnregistered me w) (\<lambda>w1.
           rbind (close_fd env me (w1\<lparr>pendingFlush := filter (\<lambda>x. x \<noteq> me) (pendingFlush w1)\<rparr>)) (\<lambda>w2.
           fire env PClear me (removeConnection me w2))))"

text \<open>The common end of a connection: mark it closed, tell the pipeline, remove it.\<close>

definition drop_conn :: "'p env \<Rightarrow> nat \<Rightarrow> 'p worker \<Rightarrow> 'p worker res" where
  "drop_conn env me w =
     rbind (fire env PInactive me (upd_conn me (\<lambda>c. c\<lparr>closed := True\<rparr>) w)) (removeConn env me)"

definition receive :: "heap \<Rightarrow> nat \<Rightarrow> bytes \<Rightarrow> conn \<Rightarrow> conn res" where
  "receive h now bs c =
     rbind (mem_write (bdata (readBuf c)) (writerIndex (readBuf c)) bs) (\<lambda>d.
     let rb = (readBuf c)\<lparr>bdata := d\<rparr> in
     rbind (setWriterIndex (add_sz (writerIndex rb) (length bs)) rb) (\<lambda>rb1.
     Inr (c\<lparr>lastReadMs := now, readBuf := rb1\<rparr>)))"

definition onRead :: "'p env \<Rightarrow> nat \<Rightarrow> (nat \<Rightarrow> rans) \<Rightarrow> nat \<Rightarrow> 'p worker \<Rightarrow> 'p worker res" where
  "onRead env now read me w =
     (if is_closed w me then Inr w
      else rbind (flushPending env w) (\<lambda>w1.
        case conns w1 me of
          None \<Rightarrow> Inl UndefinedBehaviour
        | Some c \<Rightarrow>
            rbind (ensureWritable (mem env) 1024 (readBuf c)) (\<lambda>rb.
            let w2 = upd_conn me (\<lambda>c. c\<lparr>readBuf := rb\<rparr>) w1 in
            case read (writableBytes rb) of
              ReadAgain \<Rightarrow> Inr w2
            | Eof \<Rightarrow> if closed c then Inr w2 else drop_conn env me w2
            | ReadFail \<Rightarrow> if closed c then Inr w2 else drop_conn env me w2
            | Data bs \<Rightarrow>
                rbind (receive (mem env) now bs (c\<lparr>readBuf := rb\<rparr>)) (\<lambda>c1.
                rbind (fire env PRead me (w2\<lparr>conns := (conns w2)(me \<mapsto> c1)\<rparr>)) (\<lambda>w3.
                rbind (fire env PReadComplete me w3) (\<lambda>w4.
                let w5 = upd_conn me (\<lambda>c. c\<lparr>readBuf := bb_clear (readBuf c)\<rparr>) w4 in
                if is_closed w5 me then removeConn env me w5 else Inr w5))))))"

definition w_onWrite :: "'p env \<Rightarrow> nat \<Rightarrow> nat \<Rightarrow> 'p worker \<Rightarrow> 'p worker res" where
  "w_onWrite env now me w = (if is_closed w me then Inr w else with_conn me (onWrite env now me) w)"

definition onError :: "'p env \<Rightarrow> nat \<Rightarrow> 'p worker \<Rightarrow> 'p worker res" where
  "onError env me w = (if is_closed w me then Inr w else drop_conn env me w)"

text \<open>The two timeout tests of \<open>onTimerTick\<close>, on \<open>uint64_t\<close> differences.\<close>

definition timed_out :: "nat \<Rightarrow> 'p worker \<Rightarrow> conn \<Rightarrow> bool" where
  "timed_out now w c \<longleftrightarrow>
     (readTimeoutMs w > 0 \<and> int (sub_sz now (lastReadMs c)) > readTimeoutMs w) \<or>
     (writeTimeoutMs w > 0 \<and> int (sub_sz now (lastWriteMs c)) > writeTimeoutMs w)"

definition to_remove :: "nat \<Rightarrow> 'p worker \<Rightarrow> nat list" where
  "to_remove now w = filter (\<lambda>me. case conns w me of None \<Rightarrow> False | Some c \<Rightarrow> \<not> closed c \<and> timed_out now w c) (connections w)"

fun drop_all :: "'p env \<Rightarrow> nat list \<Rightarrow> 'p worker \<Rightarrow> 'p worker res" where
  "drop_all env [] w = Inr w"
| "drop_all env (me # ms) w = rbind (drop_conn env me w) (drop_all env ms)"

definition onTimerTick :: "'p env \<Rightarrow> nat \<Rightarrow> 'p worker \<Rightarrow> 'p worker res" where
  "onTimerTick env now w = drop_all env (to_remove now w) w"

definition allocateConnId :: "'p worker \<Rightarrow> nat \<times> 'p worker" where
  "allocateConnId w = (nextConnId w, w\<lparr>nextConnId := add_sz (nextConnId w) 1\<rparr>)"

text \<open>
  The new connection gets the address \<open>me\<close>; configuring its pipeline, with the limits of its codec, is the hook
  \<open>PConfigure\<close>.
\<close>

definition setupConnection :: "'p env \<Rightarrow> nat \<Rightarrow> nat \<Rightarrow> int \<Rightarrow> 'p worker \<Rightarrow> 'p worker res" where
  "setupConnection env now me connfd w =
     (let (i, w0) = allocateConnId w;
          w1 = w0\<lparr>conns := (conns w0)(me \<mapsto> conn_new\<lparr>connId := i\<rparr>)\<rparr>
      in rbind (fire env PConfigure me w1) (\<lambda>w2.
         case conns w2 me of
           None \<Rightarrow> Inl UndefinedBehaviour
         | Some c \<Rightarrow>
             let c1 = c\<lparr>writeBufWaterMark := w_waterMark w2, lastReadMs := now, lastWriteMs := now,
                        c_channel := (channel_new True connfd)\<lparr>ch_context := Some me\<rparr>\<rparr>;
                 (c2, p) = on_channel env me EnableReading (c1, poller w2);
                 w3 = w2\<lparr>conns := (conns w2)(me \<mapsto> c2), poller := p\<rparr>
             in rbind (fire env PRegistered me w3) (\<lambda>w4.
                rbind (fire env PActive me w4) (\<lambda>w5.
                Inr (addConnection me w5)))))"

definition acquireBuf :: "heap \<Rightarrow> nat \<Rightarrow> 'p worker \<Rightarrow> bytebuf \<times> 'p worker" where
  "acquireBuf h cap w =
     (if bufPool w \<noteq> [] then (bb_clear (last (bufPool w)), w\<lparr>bufPool := butlast (bufPool w)\<rparr>)
      else (bb_with_capacity h cap, w))"

definition releaseBuf :: "bytebuf \<Rightarrow> 'p worker \<Rightarrow> 'p worker" where
  "releaseBuf b w = w\<lparr>bufPool := bufPool w @ [b]\<rparr>"

section \<open>The connection half of a context\<close>

text \<open>A context holds a weak pointer to its connection: \<open>None\<close> once the connection is gone.\<close>

definition ctx_close_conn :: "'p env \<Rightarrow> nat option \<Rightarrow> 'p worker \<Rightarrow> 'p worker res" where
  "ctx_close_conn env cp w = (case cp of
     None \<Rightarrow> Inr w
   | Some me \<Rightarrow> if is_closed w me then Inr w
                else fire env PInactive me (upd_conn me (\<lambda>c. c\<lparr>closed := True\<rparr>) w))"

definition ctx_isActive :: "nat option \<Rightarrow> 'p worker \<Rightarrow> bool" where
  "ctx_isActive cp w = (case cp of
     None \<Rightarrow> False
   | Some me \<Rightarrow> (case conns w me of None \<Rightarrow> False | Some c \<Rightarrow> \<not> closed c \<and> ch_fd (c_channel c) \<ge> 0))"

definition ctx_id :: "nat option \<Rightarrow> 'p worker \<Rightarrow> nat" where
  "ctx_id cp w = (case cp of None \<Rightarrow> 0 | Some me \<Rightarrow> (case conns w me of None \<Rightarrow> 0 | Some c \<Rightarrow> connId c))"

definition setConnKeepAlive :: "nat option \<Rightarrow> bool \<Rightarrow> 'p worker \<Rightarrow> 'p worker" where
  "setConnKeepAlive cp ka w = (case cp of None \<Rightarrow> w | Some me \<Rightarrow> upd_conn me (\<lambda>c. c\<lparr>keepAlive := ka\<rparr>) w)"

definition connKeepAlive :: "nat option \<Rightarrow> 'p worker \<Rightarrow> bool" where
  "connKeepAlive cp w = (case cp of None \<Rightarrow> True | Some me \<Rightarrow> (case conns w me of None \<Rightarrow> True | Some c \<Rightarrow> keepAlive c))"

definition signalActivity :: "nat option \<Rightarrow> nat \<Rightarrow> 'p worker \<Rightarrow> 'p worker" where
  "signalActivity cp now w = (case cp of None \<Rightarrow> w | Some me \<Rightarrow> upd_conn me (\<lambda>c. c\<lparr>lastReadMs := now\<rparr>) w)"

definition ctx_flush_conn :: "'p env \<Rightarrow> nat \<Rightarrow> nat option \<Rightarrow> 'p worker \<Rightarrow> 'p worker res" where
  "ctx_flush_conn env now cp w = (case cp of None \<Rightarrow> Inr w | Some me \<Rightarrow> with_conn me (flushWriteBuf env now me) w)"

text \<open>
  \<open>writeAndFlush\<close>, \<open>writeHeaders\<close> and \<open>writeBody\<close> send a message through the outbound pipeline, the
  argument \<open>send\<close>, which sees the keep-alive flag of the connection, and flush.
\<close>

definition writeAndFlush :: "'p env \<Rightarrow> nat \<Rightarrow> nat option \<Rightarrow> (bool \<Rightarrow> nat \<Rightarrow> 'p worker \<Rightarrow> 'p worker res) \<Rightarrow> 'p worker \<Rightarrow> 'p worker res" where
  "writeAndFlush env now cp send w = (case cp of
     None \<Rightarrow> Inr w
   | Some me \<Rightarrow>
       let ka = connKeepAlive cp w in
       rbind (send ka me w) (\<lambda>w1.
       ctx_flush_conn env now cp (if ka then w1 else setConnKeepAlive cp False w1)))"

definition write_part :: "'p env \<Rightarrow> nat \<Rightarrow> nat option \<Rightarrow> (nat \<Rightarrow> 'p worker \<Rightarrow> 'p worker res) \<Rightarrow> 'p worker \<Rightarrow> 'p worker res" where
  "write_part env now cp send w = (case cp of
     None \<Rightarrow> Inr w
   | Some me \<Rightarrow> rbind (send me w) (ctx_flush_conn env now cp))"

section \<open>The output stream\<close>

lemma write_loop_spec:
  "wf_buf b \<Longrightarrow> \<exists>st b' k' out'. write_loop kn b k out = Some (Inr (st, b', k', out')) \<and> wf_buf b' \<and>
     out' @ contents b' = out @ contents b \<and> writerIndex b' = writerIndex b \<and> (st = Drained \<longleftrightarrow> contents b' = [])"
proof (induction "length (contents b)" arbitrary: b k out rule: less_induct)
  case less
  note wf = less.prems
  show ?case
  proof (cases "contents b = []")
    case True
    then show ?thesis using wf by (subst write_loop.simps) (simp add: readable_eq_length)
  next
    case False
    have unfolded: "write_loop kn b k out = (case kn k of
          Wrote n \<Rightarrow> if 0 < min n (length (contents b))
             then write_loop kn (discard (min n (length (contents b))) b) (k + 1) (out @ take n (contents b))
             else Some (Inr (Broken, b, k + 1, out))
        | Again \<Rightarrow> Some (Inr (Blocked, b, k + 1, out))
        | Fail \<Rightarrow> Some (Inr (Broken, b, k + 1, out)))"
      using wf False by (subst write_loop.simps) (simp add: readable_eq_length mem_read_contents)
    show ?thesis
    proof (cases "\<exists>n. kn k = Wrote n \<and> 0 < n")
      case True
      then obtain n where n: "kn k = Wrote n" "0 < n" by blast
      let ?m = "min n (length (contents b))"
      let ?b = "discard ?m b"
      note d = discard_wf [OF wf, of ?m]
      have "length (contents ?b) < length (contents b)" using d(2) n(2) False by simp
      note ih = less.hyps [OF this d(1), of "k + 1" "out @ take n (contents b)"]
      have "(out @ take n (contents b)) @ contents ?b = out @ contents b"
        unfolding d(2) by (cases "n \<le> length (contents b)") (simp_all add: min_def)
      moreover have "write_loop kn b k out = write_loop kn ?b (k + 1) (out @ take n (contents b))"
        using unfolded n False by simp
      ultimately show ?thesis using ih d(3) by simp
    next
      case False
      then show ?thesis using unfolded wf \<open>contents b \<noteq> []\<close> by (cases "kn k") auto
    qed
  qed
qed

lemma on_channel_frame [simp]:
  "writeBuf (fst (on_channel env me op cp)) = writeBuf (fst cp)"
  "readBuf (fst (on_channel env me op cp)) = readBuf (fst cp)"
  "sent (fst (on_channel env me op cp)) = sent (fst cp)"
  "closed (fst (on_channel env me op cp)) = closed (fst cp)"
  "keepAlive (fst (on_channel env me op cp)) = keepAlive (fst cp)"
  "c_channel (fst (on_channel env me op cp)) = ch_mask op (c_channel (fst cp))"
  by (simp_all add: on_channel_def ch_step_def Let_def)

lemma writing_masks [simp]:
  "isWriting (enableWriting c)" "isWriting (enableReading c) = isWriting c"
proof -
  show "isWriting (enableWriting c)"
    by (simp add: isWriting_def enableWriting_def bit.conj_disj_distrib2)
  show "isWriting (enableReading c) = isWriting c"
    by (simp add: isWriting_def enableReading_def bit.conj_disj_distrib2)
qed

text \<open>
  The invariant of the output path: the buffer is well formed, what was sent and what is buffered
  together are what was written, and an open connection with buffered bytes waits for
  writability.
\<close>

definition out_inv :: "bytes \<Rightarrow> conn \<Rightarrow> bool" where
  "out_inv total_out c \<longleftrightarrow> wf_buf (writeBuf c) \<and> sent c @ contents (writeBuf c) = total_out \<and>
     writerIndex (writeBuf c) \<le> length total_out \<and>
     (\<not> closed c \<and> contents (writeBuf c) \<noteq> [] \<longrightarrow> isWriting (c_channel c))"

lemma out_invD:
  assumes "out_inv t c"
  shows "wf_buf (writeBuf c)" "sent c @ contents (writeBuf c) = t" "writerIndex (writeBuf c) \<le> length t"
    "\<not> closed c \<Longrightarrow> contents (writeBuf c) \<noteq> [] \<Longrightarrow> isWriting (c_channel c)"
  using assms by (auto simp: out_inv_def)

lemma onWrite_inv:
  assumes inv: "out_inv t c"
  shows "\<exists>c' p' k'. onWrite env now me (c, p, k) = Inr (c', p', k') \<and> out_inv t c'"
proof (cases "closed c")
  case True
  then show ?thesis using inv by (simp add: onWrite_def)
next
  case False
  note i = out_invD [OF inv]
  obtain st b' k' out' where r: "write_loop (kern env) (writeBuf c) k (sent c) = Some (Inr (st, b', k', out'))"
      "wf_buf b'" "out' @ contents b' = t" "writerIndex b' = writerIndex (writeBuf c)" "st = Drained \<longleftrightarrow> contents b' = []"
    using write_loop_spec [OF i(1), of "kern env" k "sent c"] i(2) by metis
  have "contents (writeBuf c) \<noteq> []" if "contents b' \<noteq> []"
  proof
    assume "contents (writeBuf c) = []"
    then have "write_loop (kern env) (writeBuf c) k (sent c) = Some (Inr (Drained, writeBuf c, k, sent c))"
      using i(1) by (subst write_loop.simps) (simp add: readable_eq_length)
    then show False using r that by simp
  qed
  then have w: "contents b' \<noteq> [] \<Longrightarrow> isWriting (c_channel c)" using i(4) False by blast
  show ?thesis using False r w i(3)
    by (cases st) (auto simp: onWrite_def returned_def out_inv_def bb_clear_wf Let_def split_beta)
qed

lemma flush_one_inv:
  assumes inv: "out_inv t c"
  shows "\<exists>c' p' k'. flush_one env me (c, p, k) = Inr (c', p', k') \<and> out_inv t c'"
proof (cases "closed c")
  case True
  then show ?thesis using inv by (simp add: flush_one_def)
next
  case False
  note i = out_invD [OF inv]
  obtain st b' k' out' where r: "write_loop (kern env) (writeBuf c) k (sent c) = Some (Inr (st, b', k', out'))"
      "wf_buf b'" "out' @ contents b' = t" "writerIndex b' = writerIndex (writeBuf c)" "st = Drained \<longleftrightarrow> contents b' = []"
    using write_loop_spec [OF i(1), of "kern env" k "sent c"] i(2) by metis
  show ?thesis using False r i(3)
    by (cases st) (auto simp: flush_one_def returned_def out_inv_def bb_clear_wf Let_def split_beta readable_eq_length)
qed

lemma flushWriteBuf_inv:
  assumes "wf_buf (writeBuf c)" "sent c @ contents (writeBuf c) = t" "writerIndex (writeBuf c) \<le> length t"
  shows "\<exists>c' p' k'. flushWriteBuf env now me (c, p, k) = Inr (c', p', k') \<and> out_inv t c'"
proof (cases "contents (writeBuf c) = []")
  case True
  then show ?thesis using assms by (simp add: flushWriteBuf_def out_inv_def readable_eq_length)
next
  case False
  let ?d = "contents (writeBuf c)"
  have rd: "mem_read (bdata (writeBuf c)) (readerIndex (writeBuf c)) (length ?d) = Inr ?d"
    using assms(1) by (simp add: mem_read_contents)
  note dw = discard_wf [OF assms(1)]
  show ?thesis
  proof (cases "kern env k")
    case (Wrote n)
    let ?m = "min n (length ?d)"
    have split: "(sent c @ take ?m ?d) @ drop ?m ?d = t" using assms(2) by simp
    show ?thesis
    proof (cases "?m = 0")
      case True
      then show ?thesis using assms rd Wrote False by (simp add: flushWriteBuf_def out_inv_def readable_eq_length)
    next
      case m: False
      show ?thesis
      proof (cases "drop ?m ?d = []")
        case True
        then have "sent c @ take ?m ?d = t" using split by simp
        then show ?thesis using assms rd Wrote False m True dw [of ?m]
          by (simp add: flushWriteBuf_def out_inv_def readable_eq_length bb_clear_wf Let_def)
      next
        case rest: False
        then show ?thesis using assms rd Wrote False m split dw [of ?m]
          by (auto simp add: flushWriteBuf_def out_inv_def readable_eq_length Let_def split_beta)
      qed
    qed
  qed (use assms rd False in \<open>simp_all add: flushWriteBuf_def out_inv_def readable_eq_length Let_def split_beta\<close>)
qed

lemma wire_write_inv:
  assumes inv: "out_inv t c" and bound: "length t + length bs \<le> HALF" and run: "wire_write env now me bs (c, p, k) = Inr (c', p', k')"
  shows "out_inv (t @ bs) c'"
proof -
  note i = out_invD [OF inv]
  obtain b where b: "writeBytes (mem env) bs (writeBuf c) = Inr b" using run by (auto simp: wire_write_def)
  have "writerIndex (writeBuf c) + length bs \<le> HALF" using i(3) bound by linarith
  note wb = writeBytes_Inr [OF i(1) this b]
  let ?c = "c\<lparr>writeBuf := b\<rparr>"
  show ?thesis
  proof (cases "isWriteBufOverflow ?c")
    case True
    then show ?thesis using run b wb i by (auto simp: wire_write_def out_inv_def)
  next
    case False
    then have f: "flushWriteBuf env now me (?c, p, k) = Inr (c', p', k')" using run b by (simp add: wire_write_def)
    have "sent ?c @ contents (writeBuf ?c) = t @ bs" using wb i(2) by simp
    then show ?thesis using flushWriteBuf_inv [of ?c "t @ bs" env now me p k] wb i(3) f by auto
  qed
qed

lemma wire_write_fault:
  assumes inv: "out_inv t c" and bound: "length t + length bs \<le> HALF" and run: "wire_write env now me bs (c, p, k) = Inl e"
  shows "e = BadAlloc \<and> \<not> heap_grants (mem env)"
proof -
  note i = out_invD [OF inv]
  have le: "writerIndex (writeBuf c) + length bs \<le> HALF" using i(3) bound by linarith
  show ?thesis
  proof (cases "writeBytes (mem env) bs (writeBuf c)")
    case (Inl e')
    then have "e' = e" using run by (simp add: wire_write_def)
    then show ?thesis using Inl writeBytes_Inl [OF i(1) le] writeBytes_granted [OF i(1) le] by (metis sum.distinct(1))
  next
    case (Inr b)
    note wb = writeBytes_Inr [OF i(1) le Inr]
    let ?c = "c\<lparr>writeBuf := b\<rparr>"
    have "sent ?c @ contents (writeBuf ?c) = t @ bs" using wb i(2) by simp
    then show ?thesis using flushWriteBuf_inv [of ?c "t @ bs" env now me p k] wb i(3) run Inr
      by (auto simp: wire_write_def Let_def split: if_splits)
  qed
qed

text \<open>What can happen to the output of a connection, each with the time it happens.\<close>

datatype out_op = WireWriteOp nat bytes | WriteReady nat | FlushOp nat | PendingOp

fun out_step :: "'p env \<Rightarrow> nat \<Rightarrow> out_op \<Rightarrow> 'p cio \<Rightarrow> 'p cio res" where
  "out_step env me (WireWriteOp now bs) s = wire_write env now me bs s"
| "out_step env me (WriteReady now) s = onWrite env now me s"
| "out_step env me (FlushOp now) s = flushWriteBuf env now me s"
| "out_step env me PendingOp s = flush_one env me s"

fun out_run :: "'p env \<Rightarrow> nat \<Rightarrow> out_op list \<Rightarrow> 'p cio \<Rightarrow> 'p cio res" where
  "out_run env me [] s = Inr s"
| "out_run env me (op # ops) s = rbind (out_step env me op s) (out_run env me ops)"

fun written_by :: "out_op \<Rightarrow> bytes" where
  "written_by (WireWriteOp now bs) = bs"
| "written_by _ = []"

definition written :: "out_op list \<Rightarrow> bytes" where
  "written ops = concat (map written_by ops)"

lemma out_step_inv:
  assumes inv: "out_inv t c" and bound: "length t + length (written_by op) \<le> HALF"
  shows "case out_step env me op (c, p, k) of
           Inl e \<Rightarrow> e = BadAlloc \<and> \<not> heap_grants (mem env)
         | Inr (c', p', k') \<Rightarrow> out_inv (t @ written_by op) c'"
proof (cases op)
  case (WireWriteOp now bs)
  then show ?thesis
    using wire_write_inv [OF inv, of bs env now me p k] wire_write_fault [OF inv, of bs env now me p k] bound
    by (auto split: sum.split)
next
  case (WriteReady now)
  then show ?thesis using onWrite_inv [OF inv, of env now me p k] by (auto split: sum.split)
next
  case (FlushOp now)
  then show ?thesis using flushWriteBuf_inv [OF out_invD(1-3) [OF inv], of env now me p k] by (auto split: sum.split)
next
  case PendingOp
  then show ?thesis using flush_one_inv [OF inv, of env me p k] by (auto split: sum.split)
qed

lemma out_run_inv:
  assumes "out_inv t c" "length t + length (written ops) \<le> HALF"
  shows "case out_run env me ops (c, p, k) of
           Inl e \<Rightarrow> e = BadAlloc \<and> \<not> heap_grants (mem env)
         | Inr (c', p', k') \<Rightarrow> out_inv (t @ written ops) c'"
  using assms
proof (induction ops arbitrary: t c p k)
  case (Cons op ops)
  have len: "length (written (op # ops)) = length (written_by op) + length (written ops)" by (simp add: written_def)
  then have step: "case out_step env me op (c, p, k) of
           Inl e \<Rightarrow> e = BadAlloc \<and> \<not> heap_grants (mem env)
         | Inr (c', p', k') \<Rightarrow> out_inv (t @ written_by op) c'"
    using out_step_inv [OF Cons.prems(1), of op env me p k] Cons.prems(2) by simp
  show ?case
  proof (cases "out_step env me op (c, p, k)")
    case (Inl e)
    then show ?thesis using step by simp
  next
    case (Inr s)
    obtain c1 p1 k1 where s: "s = (c1, p1, k1)" by (cases s)
    have "out_inv (t @ written_by op) c1" using step Inr s by simp
    then have "case out_run env me ops (c1, p1, k1) of
           Inl e \<Rightarrow> e = BadAlloc \<and> \<not> heap_grants (mem env)
         | Inr (c', p', k') \<Rightarrow> out_inv ((t @ written_by op) @ written ops) c'"
      using Cons.IH Cons.prems(2) len by simp
    moreover have eq: "(t @ written_by op) @ written ops = t @ written (op # ops)" by (simp add: written_def)
    ultimately show ?thesis unfolding eq using Inr s by simp
  qed
qed (simp add: written_def)

section \<open>The registry of connections\<close>

text \<open>Handlers that keep to their own state when a connection ends.\<close>

definition quiet_end :: "'p env \<Rightarrow> bool" where
  "quiet_end env \<longleftrightarrow> (\<forall>ev me w. ev \<in> {PInactive, PUnregistered, PClear} \<longrightarrow> fire env ev me w = Inr w)"

lemma quiet_endD: "quiet_end env \<Longrightarrow> fire env PInactive me w = Inr w"
    "quiet_end env \<Longrightarrow> fire env PUnregistered me w = Inr w" "quiet_end env \<Longrightarrow> fire env PClear me w = Inr w"
  by (simp_all add: quiet_end_def)

definition fd_of :: "'p worker \<Rightarrow> nat \<Rightarrow> int list" where
  "fd_of w me = (case conns w me of None \<Rightarrow> [] | Some c \<Rightarrow> if ch_fd (c_channel c) \<ge> 0 then [ch_fd (c_channel c)] else [])"

lemma mask_frame [simp]: "ch_fd (ch_mask op c) = ch_fd c" "ch_loop (ch_mask op c) = ch_loop c"
  by (cases op; simp add: enableReading_def enableWriting_def disableReading_def disableWriting_def disableAll_def)+

lemma close_fd_spec:
  assumes "conns w me = Some c"
  shows "\<exists>w'. close_fd env me w = Inr w' \<and> connections w' = connections w \<and> pendingFlush w' = pendingFlush w \<and>
           closed_fds w' = closed_fds w @ fd_of w me \<and> (\<forall>x. x \<noteq> me \<longrightarrow> conns w' x = conns w x) \<and>
           (\<exists>c'. conns w' me = Some c' \<and> ch_fd (c_channel c') < 0 \<and> closed c' = closed c)"
proof (cases "ch_fd (c_channel c) \<ge> 0")
  case True
  then show ?thesis using assms on_channel_frame [of env me DisableAll "(c, poller w)"]
    by (simp add: close_fd_def fd_of_def Let_def split_beta) (simp add: disableAll_def)
next
  case False
  then show ?thesis using assms by (simp add: close_fd_def fd_of_def)
qed

lemma removeConn_spec:
  assumes q: "quiet_end env" and c: "conns w me = Some c" and m: "me \<in> set (connections w)"
  shows "\<exists>w'. removeConn env me w = Inr w' \<and> connections w' = removeAll me (connections w) \<and>
           closed_fds w' = closed_fds w @ fd_of w me \<and> (\<forall>x. x \<noteq> me \<longrightarrow> conns w' x = conns w x) \<and>
           (\<exists>c'. conns w' me = Some c' \<and> ch_fd (c_channel c') < 0 \<and> closed c' = closed c)"
proof -
  let ?w = "w\<lparr>pendingFlush := filter (\<lambda>x. x \<noteq> me) (pendingFlush w)\<rparr>"
  obtain w' where "close_fd env me ?w = Inr w'" "connections w' = connections ?w"
      "closed_fds w' = closed_fds ?w @ fd_of ?w me" "\<forall>x. x \<noteq> me \<longrightarrow> conns w' x = conns ?w x"
      "\<exists>c'. conns w' me = Some c' \<and> ch_fd (c_channel c') < 0 \<and> closed c' = closed c"
    using close_fd_spec [of ?w me c env] c by auto
  then show ?thesis using m
    by (simp add: removeConn_def findConnection_def quiet_endD [OF q] removeConnection_def fd_of_def)
qed

lemma drop_conn_spec:
  assumes q: "quiet_end env" and c: "conns w me = Some c" and m: "me \<in> set (connections w)"
  shows "\<exists>w'. drop_conn env me w = Inr w' \<and> connections w' = removeAll me (connections w) \<and>
           closed_fds w' = closed_fds w @ fd_of w me \<and> (\<forall>x. x \<noteq> me \<longrightarrow> conns w' x = conns w x)"
proof -
  let ?w = "upd_conn me (\<lambda>c. c\<lparr>closed := True\<rparr>) w"
  have c1: "conns ?w me = Some (c\<lparr>closed := True\<rparr>)" and m1: "me \<in> set (connections ?w)"
    using c m by (simp_all add: upd_conn_def)
  have fd: "fd_of ?w me = fd_of w me" using c by (simp add: upd_conn_def fd_of_def)
  obtain w' where "removeConn env me ?w = Inr w'" "connections w' = removeAll me (connections ?w)"
      "closed_fds w' = closed_fds ?w @ fd_of ?w me" "\<forall>x. x \<noteq> me \<longrightarrow> conns w' x = conns ?w x"
    using removeConn_spec [OF q c1 m1] by blast
  then show ?thesis using fd by (simp add: drop_conn_def quiet_endD [OF q]) (simp add: upd_conn_def)
qed

lemma drop_all_spec:
  assumes "quiet_end env" "distinct ms" "set ms \<subseteq> set (connections w)" "\<And>x. x \<in> set ms \<Longrightarrow> conns w x \<noteq> None"
  shows "\<exists>w'. drop_all env ms w = Inr w' \<and> connections w' = filter (\<lambda>x. x \<notin> set ms) (connections w) \<and>
           closed_fds w' = closed_fds w @ concat (map (fd_of w) ms) \<and> (\<forall>x. x \<notin> set ms \<longrightarrow> conns w' x = conns w x)"
  using assms
proof (induction ms arbitrary: w)
  case (Cons me ms)
  obtain c where c: "conns w me = Some c" using Cons.prems(4) [of me] by auto
  obtain w1 where w1: "drop_conn env me w = Inr w1" "connections w1 = removeAll me (connections w)"
      "closed_fds w1 = closed_fds w @ fd_of w me" "\<forall>x. x \<noteq> me \<longrightarrow> conns w1 x = conns w x"
    using drop_conn_spec [OF Cons.prems(1) c] Cons.prems(3) by auto
  have "set ms \<subseteq> set (connections w1)" using Cons.prems(2,3) w1(2) by auto
  moreover have "\<And>x. x \<in> set ms \<Longrightarrow> conns w1 x \<noteq> None"
    using Cons.prems(2,4) w1(4) by (metis distinct.simps(2) list.set_intros(2))
  ultimately obtain w' where w': "drop_all env ms w1 = Inr w'" "connections w' = filter (\<lambda>x. x \<notin> set ms) (connections w1)"
      "closed_fds w' = closed_fds w1 @ concat (map (fd_of w1) ms)" "\<forall>x. x \<notin> set ms \<longrightarrow> conns w' x = conns w1 x"
    using Cons.IH [of w1] Cons.prems(1,2) by auto
  have fds: "concat (map (fd_of w1) ms) = concat (map (fd_of w) ms)"
    using w1(4) Cons.prems(2) by (intro arg_cong [where f = concat] map_cong) (auto simp: fd_of_def)
  have "filter (\<lambda>x. x \<notin> set ms) (removeAll me xs) = filter (\<lambda>x. x \<notin> set (me # ms)) xs" for xs
    by (induction xs) auto
  then show ?case using w1 w' fds by auto
qed simp

lemma timed_out_exact:
  assumes "lastReadMs c \<le> now" "lastWriteMs c \<le> now" "now < SZ"
  shows "timed_out now w c \<longleftrightarrow>
    (0 < readTimeoutMs w \<and> readTimeoutMs w < int (now - lastReadMs c)) \<or>
    (0 < writeTimeoutMs w \<and> writeTimeoutMs w < int (now - lastWriteMs c))"
  using assms by (auto simp: timed_out_def sub_sz_exact)

section \<open>Properties\<close>


definition demo_env :: "(nat \<Rightarrow> kans) \<Rightarrow> unit env" where
  "demo_env kn = \<lparr>mem = demo_heap, kern = kn, p_add = (\<lambda>_ _ _ p. (0, p)), p_del = (\<lambda>_ p. (0, p)), fire = (\<lambda>_ _ w. Inr w)\<rparr>"

lemma demo_quiet: "quiet_end (demo_env kn)"
  by (simp add: quiet_end_def demo_env_def)


text \<open>
  When the socket is writable and keeps accepting bytes, however few at a time, one
  writability event sends the whole buffer and gives up the interest in writability.
\<close>

theorem writable_socket_drains:
  assumes "out_inv t c" "\<not> closed c" "\<And>i. \<exists>n. kern env i = Wrote n \<and> 0 < n"
  shows "\<exists>c' p' k'. onWrite env now me (c, p, k) = Inr (c', p', k') \<and> sent c' = t \<and> contents (writeBuf c') = [] \<and>
           \<not> closed c' \<and> \<not> isWriting (c_channel c')"
proof -
  note i = out_invD [OF assms(1)]
  have drain: "wf_buf b \<Longrightarrow> \<exists>b' k'. write_loop (kern env) b k out = Some (Inr (Drained, b', k', out @ contents b))" for b k out
  proof (induction "length (contents b)" arbitrary: b k out rule: less_induct)
    case less
    obtain n where n: "kern env k = Wrote n" "0 < n" using assms(3) by blast
    show ?case
    proof (cases "contents b = []")
      case True
      then show ?thesis using less.prems by (subst write_loop.simps) (simp add: readable_eq_length)
    next
      case False
      let ?m = "min n (length (contents b))"
      note d = discard_wf [OF less.prems, of ?m]
      have "length (contents (discard ?m b)) < length (contents b)" using d(2) n(2) False by simp
      note ih = less.hyps [OF this d(1), of "k + 1" "out @ take n (contents b)"]
      have "take n (contents b) @ contents (discard ?m b) = contents b"
        unfolding d(2) by (cases "n \<le> length (contents b)") (simp_all add: min_def)
      moreover have "write_loop (kern env) b k out = write_loop (kern env) (discard ?m b) (k + 1) (out @ take n (contents b))"
        using less.prems False n by (subst write_loop.simps) (simp add: readable_eq_length mem_read_contents)
      ultimately show ?thesis using ih by simp
    qed
  qed
  obtain b' k' where "write_loop (kern env) (writeBuf c) k (sent c) = Some (Inr (Drained, b', k', t))"
    using drain [OF i(1), of k "sent c"] i(2) by auto
  moreover have "\<not> isWriting (disableWriting x)" for x by (simp add: isWriting_def disableWriting_def and.assoc)
  ultimately show ?thesis using assms(2) by (simp add: onWrite_def returned_def Let_def split_beta)
qed

theorem writable_socket_drains_witness:
  "\<exists>c'. onWrite (demo_env (\<lambda>_. Wrote 1)) 7 3 (conn_new\<lparr>sent := [1, 2]\<rparr>, (), 0) = Inr (c', (), 0) \<and> sent c' = [1, 2]"
proof -
  have "out_inv [1, 2] (conn_new\<lparr>sent := [1, 2]\<rparr>)"
    by (simp add: out_inv_def conn_new_def bb_new_def wf_buf_def contents_def)
  moreover have "\<not> closed (conn_new\<lparr>sent := [1, 2]\<rparr>)" by (simp add: conn_new_def)
  moreover have "\<And>i. \<exists>n. kern (demo_env (\<lambda>_. Wrote 1)) i = Wrote n \<and> 0 < n" by (simp add: demo_env_def)
  ultimately obtain c' p' k' where "onWrite (demo_env (\<lambda>_. Wrote 1)) 7 3 (conn_new\<lparr>sent := [1, 2]\<rparr>, (), 0) = Inr (c', p', k')"
      "sent c' = [1, 2]"
    using writable_socket_drains [of "[1, 2]" "conn_new\<lparr>sent := [1, 2]\<rparr>" "demo_env (\<lambda>_. Wrote 1)" 7 3 "()" 0] by blast
  moreover have "write_loop (kern (demo_env (\<lambda>_. Wrote 1))) bb_new 0 [1, 2] = Some (Inr (Drained, bb_new, 0, [1, 2]))"
    by (subst write_loop.simps) (simp add: readable_eq_length)
  ultimately show ?thesis by (auto simp: onWrite_def returned_def conn_new_def Let_def split_beta)
qed

text \<open>
  C39. On every timer tick exactly the open connections that were silent for longer than a
  configured timeout are removed: their descriptors are closed, once each, in order, and no
  other connection is touched.
\<close>

theorem idle_connections_removed:
  assumes "quiet_end env" "distinct (connections w)" "\<And>x. x \<in> set (connections w) \<Longrightarrow> conns w x = Some (cs x)"
    and "\<And>x. lastReadMs (cs x) \<le> now \<and> lastWriteMs (cs x) \<le> now" "now < SZ"
  defines "idle \<equiv> \<lambda>x. \<not> closed (cs x) \<and>
      (0 < readTimeoutMs w \<and> readTimeoutMs w < int (now - lastReadMs (cs x)) \<or>
       0 < writeTimeoutMs w \<and> writeTimeoutMs w < int (now - lastWriteMs (cs x)))"
  shows "\<exists>w'. onTimerTick env now w = Inr w' \<and> connections w' = filter (\<lambda>x. \<not> idle x) (connections w) \<and>
           closed_fds w' = closed_fds w @ concat (map (fd_of w) (filter idle (connections w))) \<and>
           (\<forall>x. x \<notin> set (filter idle (connections w)) \<longrightarrow> conns w' x = conns w x)"
proof -
  have rm: "to_remove now w = filter idle (connections w)"
    unfolding to_remove_def
  proof (rule filter_cong [OF refl])
    fix x assume "x \<in> set (connections w)"
    then show "(case conns w x of None \<Rightarrow> False | Some c \<Rightarrow> \<not> closed c \<and> timed_out now w c) = idle x"
      using assms(3) [of x] assms(4) [of x] assms(5) by (simp add: idle_def timed_out_exact)
  qed
  have "filter (\<lambda>x. x \<notin> set (filter idle xs)) xs = filter (\<lambda>x. \<not> idle x) xs" for xs
    by (rule filter_cong) auto
  then show ?thesis
    using drop_all_spec [OF assms(1), of "to_remove now w" w] assms(2,3) unfolding onTimerTick_def rm by auto
qed

definition demo_conn :: "nat \<Rightarrow> conn" where
  "demo_conn x = conn_new\<lparr>lastReadMs := if x = 0 then 0 else 9000, lastWriteMs := 9000,
     c_channel := channel_new True (int x + 4)\<rparr>"

definition demo_worker :: "unit worker" where
  "demo_worker = \<lparr>conns = (\<lambda>x. Some (demo_conn x)), connections = [0, 1], pendingFlush = [], poller = (), calls = 0,
     readTimeoutMs = 10000, writeTimeoutMs = 10000, w_waterMark = 0, bufPool = [], nextConnId = 3, closed_fds = []\<rparr>"

theorem idle_connections_removed_witness:
  "quiet_end (demo_env (\<lambda>_. Again)) \<and> distinct (connections demo_worker) \<and>
   (\<exists>w'. onTimerTick (demo_env (\<lambda>_. Again)) 10500 demo_worker = Inr w' \<and> connections w' = [1] \<and> closed_fds w' = [4])"
proof -
  have d: "distinct (connections demo_worker)" by (simp add: demo_worker_def)
  have c: "\<And>x. x \<in> set (connections demo_worker) \<Longrightarrow> conns demo_worker x = Some (demo_conn x)"
    by (simp add: demo_worker_def)
  have t: "\<And>x. lastReadMs (demo_conn x) \<le> 10500 \<and> lastWriteMs (demo_conn x) \<le> 10500" by (simp add: demo_conn_def)
  have z: "(10500 :: nat) < SZ" by simp
  show ?thesis
    using idle_connections_removed [OF demo_quiet [of "\<lambda>_. Again"] d c t z] d demo_quiet
    by (auto simp: demo_worker_def demo_conn_def conn_new_def fd_of_def channel_new_def)
qed

text \<open>
  A connection that was closed without being removed, which is what every close outside
  the read path does (\<open>Context::close\<close> from a timer or another thread's task, a write error in
  a flush, the end of a response without keep-alive), stays in the registry: no later event
  and no timer tick removes it, and its descriptor is never closed.
\<close>

theorem closed_connection_stays:
  assumes "me \<in> set (connections w)" "conns w me = Some c" "closed c" "quiet_end env" "distinct (connections w)"
    and "\<And>x. x \<in> set (connections w) \<Longrightarrow> conns w x \<noteq> None"
  shows "onRead env now rd me w = Inr w \<and> w_onWrite env now me w = Inr w \<and> onError env me w = Inr w \<and>
         (\<exists>w'. onTimerTick env now w = Inr w' \<and> me \<in> set (connections w') \<and> conns w' me = Some c)"
proof -
  have "me \<notin> set (to_remove now w)" using assms(2,3) by (simp add: to_remove_def)
  moreover have "distinct (to_remove now w)" "set (to_remove now w) \<subseteq> set (connections w)"
    using assms(5) by (auto simp: to_remove_def)
  moreover have "\<And>x. x \<in> set (to_remove now w) \<Longrightarrow> conns w x \<noteq> None"
    using assms(6) by (auto simp: to_remove_def)
  ultimately have "\<exists>w'. onTimerTick env now w = Inr w' \<and> me \<in> set (connections w') \<and> conns w' me = Some c"
    using drop_all_spec [OF assms(4), of "to_remove now w" w] assms(1,2) unfolding onTimerTick_def by auto
  then show ?thesis using assms(2,3) by (simp add: onRead_def w_onWrite_def onError_def is_closed_def)
qed

theorem closed_connection_stays_witness:
  "\<exists>w'. onTimerTick (demo_env (\<lambda>_. Again)) 99999 (demo_worker\<lparr>conns := \<lambda>x. Some ((demo_conn x)\<lparr>closed := True\<rparr>)\<rparr>) = Inr w' \<and>
     0 \<in> set (connections w') \<and> conns w' 0 = Some ((demo_conn 0)\<lparr>closed := True\<rparr>)"
proof -
  let ?w = "demo_worker\<lparr>conns := \<lambda>x. Some ((demo_conn x)\<lparr>closed := True\<rparr>)\<rparr>"
  have "0 \<in> set (connections ?w)" "conns ?w 0 = Some ((demo_conn 0)\<lparr>closed := True\<rparr>)" "closed ((demo_conn 0)\<lparr>closed := True\<rparr>)"
      "distinct (connections ?w)" "\<And>x. x \<in> set (connections ?w) \<Longrightarrow> conns ?w x \<noteq> None"
    by (simp_all add: demo_worker_def)
  from closed_connection_stays [OF this(1-3) demo_quiet this(4,5), of "\<lambda>_. Again" 99999] show ?thesis by blast
qed

text \<open>
  Without keep-alive a response that the socket takes only in part is cut off: the
  connection is marked closed with bytes still buffered, and the following writability
  events send nothing.
\<close>

theorem short_write_truncates_response:
  assumes "wf_buf (writeBuf c)" "\<not> keepAlive c" "kern env k = Wrote n" "0 < n" "n < length (contents (writeBuf c))"
  shows "\<exists>c' p'. flushWriteBuf env now me (c, p, k) = Inr (c', p', k + 1) \<and> closed c' \<and>
           sent c' = sent c @ take n (contents (writeBuf c)) \<and>
           contents (writeBuf c') = drop n (contents (writeBuf c)) \<and> contents (writeBuf c') \<noteq> [] \<and>
           onWrite env later me (c', p', k + 1) = Inr (c', p', k + 1)"
proof -
  have ne: "contents (writeBuf c) \<noteq> []" using assms(5) by auto
  note dw = discard_wf [OF assms(1), of n]
  have rd: "mem_read (bdata (writeBuf c)) (readerIndex (writeBuf c)) (length (contents (writeBuf c))) = Inr (contents (writeBuf c))"
    using assms(1) by (simp add: mem_read_contents)
  show ?thesis
    using assms ne dw rd
    by (simp add: flushWriteBuf_def onWrite_def readable_eq_length Let_def split_beta min_def)
qed

theorem short_write_truncates_response_witness:
  "\<exists>c' p'. flushWriteBuf (demo_env (\<lambda>_. Wrote 1)) 7 3
     (conn_new\<lparr>keepAlive := False, writeBuf := \<lparr>bdata = Some [1, 2], capacity = 2, readerIndex = 0, writerIndex = 2\<rparr>\<rparr>, (), 0)
     = Inr (c', p', 1) \<and> closed c' \<and> contents (writeBuf c') = [2]"
proof -
  let ?c = "conn_new\<lparr>keepAlive := False, writeBuf := \<lparr>bdata = Some [1, 2], capacity = 2, readerIndex = 0, writerIndex = 2\<rparr>\<rparr>"
  have "wf_buf (writeBuf ?c)" "\<not> keepAlive ?c" "contents (writeBuf ?c) = [1, 2]"
    by (simp_all add: wf_buf_def contents_def)
  moreover have "kern (demo_env (\<lambda>_. Wrote 1)) 0 = Wrote 1" by (simp add: demo_env_def)
  ultimately show ?thesis
    using short_write_truncates_response [of ?c "demo_env (\<lambda>_. Wrote 1)" 0 1 7 3 "()" 8] by auto
qed

end
