(* ===== verification/Digest.thy ===== *)
theory Digest
  imports Prelude
begin

text \<open>
  Base64 and SHA-1 (\<open>src/util/base64.cpp\<close>, \<open>src/util/sha1.cpp\<close>).

  \<open>base64Encode\<close> is the index loop of the source on 32-bit words; a decoder written from the
  standard gives the round trip. \<open>sha1\<close> processes whole blocks in place and builds the last one
  or two blocks in a scratch buffer; the reference \<open>sha1_ref\<close> pads the whole message first, as the
  standard describes it, and both are shown to agree for every length.
\<close>

section \<open>Base64\<close>

definition kChars :: string where
  "kChars = ''ABCDEFGHIJKLMNOPQRSTUVWXYZ'' @ ''abcdefghijklmnopqrstuvwxyz'' @ ''0123456789+/''"

definition b64_char :: "u32 \<Rightarrow> char" where
  "b64_char x = kChars ! unat (x AND 0x3F)"

text \<open>The word \<open>v\<close> of one round of the loop, and the four characters it appends.\<close>

definition b64_word :: "bytes \<Rightarrow> nat \<Rightarrow> u32" where
  "b64_word input i =
     (let v = push_bit 16 (ucast (input ! i));
          v = (if i + 1 < length input then v OR push_bit 8 (ucast (input ! (i + 1))) else v)
      in if i + 2 < length input then v OR ucast (input ! (i + 2)) else v)"

definition b64_round :: "bytes \<Rightarrow> nat \<Rightarrow> string" where
  "b64_round input i =
     (let v = b64_word input i in
      [b64_char (drop_bit 18 v), b64_char (drop_bit 12 v),
       if i + 1 < length input then b64_char (drop_bit 6 v) else CHR ''='',
       if i + 2 < length input then b64_char v else CHR ''=''])"

function b64_loop :: "bytes \<Rightarrow> nat \<Rightarrow> string" where
  "b64_loop input i = (if i < length input then b64_round input i @ b64_loop input (i + 3) else [])"
  by pat_completeness auto
termination
  by (relation "measure (\<lambda>(input, i). length input - i)") auto

declare b64_loop.simps [simp del]

definition base64Encode :: "bytes \<Rightarrow> string" where
  "base64Encode input = b64_loop input 0"

subsection \<open>A decoder from the standard\<close>

fun index_of :: "'a \<Rightarrow> 'a list \<Rightarrow> nat option" where
  "index_of x [] = None"
| "index_of x (y # ys) = (if x = y then Some 0 else map_option Suc (index_of x ys))"

definition sextet :: "char \<Rightarrow> u32 option" where
  "sextet c = map_option word_of_nat (index_of c kChars)"

definition join4 :: "u32 \<Rightarrow> u32 \<Rightarrow> u32 \<Rightarrow> u32 \<Rightarrow> u32" where
  "join4 w x y z = push_bit 18 w OR push_bit 12 x OR push_bit 6 y OR z"

definition octet :: "nat \<Rightarrow> u32 \<Rightarrow> byte" where
  "octet k v = ucast (drop_bit k v)"

fun b64_decode :: "string \<Rightarrow> bytes option" where
  "b64_decode [] = Some []"
| "b64_decode (a # b # c # d # cs) =
     (case (sextet a, sextet b) of
        (Some w, Some x) \<Rightarrow>
          if c = CHR ''='' then
            (if d = CHR ''='' \<and> cs = [] then Some [octet 16 (join4 w x 0 0)] else None)
          else (case sextet c of
             None \<Rightarrow> None
           | Some y \<Rightarrow>
               if d = CHR ''='' then
                 (if cs = [] then Some [octet 16 (join4 w x y 0), octet 8 (join4 w x y 0)] else None)
               else (case (sextet d, b64_decode cs) of
                 (Some z, Some rest) \<Rightarrow>
                   Some (octet 16 (join4 w x y z) # octet 8 (join4 w x y z) # octet 0 (join4 w x y z) # rest)
               | _ \<Rightarrow> None))
      | _ \<Rightarrow> None)"
| "b64_decode _ = None"

lemma length_kChars: "length kChars = 64"
  by (simp add: kChars_def)

lemma index_of_nth: "distinct ys \<Longrightarrow> i < length ys \<Longrightarrow> index_of (ys ! i) ys = Some i"
  by (induction ys arbitrary: i) (auto simp: nth_Cons split: nat.split)

lemma distinct_kChars: "distinct kChars"
  by (simp add: kChars_def)

lemma and_63: "x AND 0x3F = take_bit 6 (x :: u32)"
  by (simp add: take_bit_eq_mask mask_eq_exp_minus_1)

lemma and_63_less: "unat (x AND 0x3F :: u32) < 64"
  unfolding and_63 unsigned_take_bit_eq using take_bit_nat_less_exp [of 6 "unat x"] by simp

lemma sextet_char [simp]: "sextet (b64_char x) = Some (x AND 0x3F)"
  by (simp add: sextet_def b64_char_def index_of_nth distinct_kChars length_kChars and_63_less)

lemma char_not_pad [simp]: "b64_char x \<noteq> CHR ''=''"
proof -
  have "\<forall>c \<in> set kChars. c \<noteq> CHR ''=''" by (simp add: kChars_def)
  then show ?thesis using nth_mem and_63_less [of x] by (metis b64_char_def length_kChars)
qed

text \<open>The four sextets of a 24-bit word join to that word.\<close>

lemma join4_sextets:
  "join4 (drop_bit 18 v AND 0x3F) (drop_bit 12 v AND 0x3F) (drop_bit 6 v AND 0x3F) (v AND 0x3F) = take_bit 24 v"
  unfolding and_63 join4_def
proof (rule bit_word_eqI)
  fix n assume "n < LENGTH(32)"
  consider "n < 6" | "6 \<le> n" "n < 12" | "12 \<le> n" "n < 18" | "18 \<le> n" "n < 24" | "24 \<le> n" by linarith
  then show "bit (push_bit 18 (take_bit 6 (drop_bit 18 v)) OR push_bit 12 (take_bit 6 (drop_bit 12 v)) OR
      push_bit 6 (take_bit 6 (drop_bit 6 v)) OR take_bit 6 v) n = bit (take_bit 24 v) n"
    using \<open>n < LENGTH(32)\<close> by cases (simp_all add: bit_simps, auto)
qed

lemma octets_of_word:
  fixes a b c :: byte
  defines "v \<equiv> push_bit 16 (ucast a) OR push_bit 8 (ucast b) OR ucast c :: u32"
  shows "octet 16 (take_bit 24 v) = a" "octet 8 (take_bit 24 v) = b" "octet 0 (take_bit 24 v) = c"
  unfolding v_def octet_def
  by (rule bit_word_eqI; auto simp: bit_simps dest: bit_imp_le_length)+

lemma b64_word_octets:
  assumes "i + 2 < length input"
  shows "octet 16 (take_bit 24 (b64_word input i)) = input ! i" "octet 8 (take_bit 24 (b64_word input i)) = input ! (i + 1)"
    "octet 0 (take_bit 24 (b64_word input i)) = input ! (i + 2)"
proof -
  have v: "b64_word input i = push_bit 16 (ucast (input ! i)) OR push_bit 8 (ucast (input ! (i + 1))) OR ucast (input ! (i + 2))"
    using assms by (simp add: b64_word_def or.assoc)
  show "octet 16 (take_bit 24 (b64_word input i)) = input ! i" unfolding v by (rule octets_of_word)
  show "octet 8 (take_bit 24 (b64_word input i)) = input ! (i + 1)" unfolding v by (rule octets_of_word)
  show "octet 0 (take_bit 24 (b64_word input i)) = input ! (i + 2)" unfolding v by (rule octets_of_word)
qed

lemma b64_round_group:
  assumes "i + 2 < length input"
  shows "b64_decode (b64_round input i @ cs) = map_option (\<lambda>r. [input ! i, input ! (i + 1), input ! (i + 2)] @ r) (b64_decode cs)"
  using assms b64_word_octets [OF assms] by (simp add: b64_round_def Let_def join4_sextets split: option.split)

text \<open>The last group, of one or two bytes.\<close>

lemma b64_word_tail1:
  assumes "i + 1 = length input"
  shows "octet 16 (join4 (drop_bit 18 (b64_word input i) AND 0x3F) (drop_bit 12 (b64_word input i) AND 0x3F) 0 0) = input ! i"
proof -
  let ?a = "input ! i"
  have v: "b64_word input i = push_bit 16 (ucast ?a) OR push_bit 8 (ucast (0 :: byte)) OR ucast (0 :: byte)"
    using assms by (simp add: b64_word_def)
  have "b64_word input i AND 0x3F = 0" "drop_bit 6 (b64_word input i) AND 0x3F = 0"
    unfolding v and_63 by (rule bit_word_eqI; auto simp: bit_simps)+
  then show ?thesis using join4_sextets [of "b64_word input i"] octets_of_word(1) [of ?a 0 0] unfolding v by metis
qed

lemma b64_word_tail2:
  assumes "i + 2 = length input"
  shows "octet 16 (join4 (drop_bit 18 (b64_word input i) AND 0x3F) (drop_bit 12 (b64_word input i) AND 0x3F)
           (drop_bit 6 (b64_word input i) AND 0x3F) 0) = input ! i"
    and "octet 8 (join4 (drop_bit 18 (b64_word input i) AND 0x3F) (drop_bit 12 (b64_word input i) AND 0x3F)
           (drop_bit 6 (b64_word input i) AND 0x3F) 0) = input ! (i + 1)"
proof -
  let ?a = "input ! i" and ?b = "input ! (i + 1)"
  have v: "b64_word input i = push_bit 16 (ucast ?a) OR push_bit 8 (ucast ?b) OR ucast (0 :: byte)"
    using assms by (simp add: b64_word_def)
  have z: "b64_word input i AND 0x3F = 0" unfolding v and_63 by (rule bit_word_eqI) (auto simp: bit_simps)
  have j: "join4 (drop_bit 18 (b64_word input i) AND 0x3F) (drop_bit 12 (b64_word input i) AND 0x3F)
           (drop_bit 6 (b64_word input i) AND 0x3F) 0 = take_bit 24 (b64_word input i)"
    using join4_sextets [of "b64_word input i"] z by simp
  show "octet 16 (join4 (drop_bit 18 (b64_word input i) AND 0x3F) (drop_bit 12 (b64_word input i) AND 0x3F)
           (drop_bit 6 (b64_word input i) AND 0x3F) 0) = ?a"
    unfolding j unfolding v by (rule octets_of_word)
  show "octet 8 (join4 (drop_bit 18 (b64_word input i) AND 0x3F) (drop_bit 12 (b64_word input i) AND 0x3F)
           (drop_bit 6 (b64_word input i) AND 0x3F) 0) = ?b"
    unfolding j unfolding v by (rule octets_of_word)
qed

lemma b64_loop_decodes: "b64_decode (b64_loop input i) = Some (drop i input)"
proof (induction input i rule: b64_loop.induct)
  case (1 input i)
  consider "length input \<le> i" | "i + 1 = length input" | "i + 2 = length input" | "i + 2 < length input" by linarith
  then show ?case
  proof cases
    case 1
    then show ?thesis by (subst b64_loop.simps) simp
  next
    case 2
    then have "b64_loop input (i + 3) = []" by (subst b64_loop.simps) simp
    moreover have "drop i input = [input ! i]" using 2 by (simp add: Cons_nth_drop_Suc [symmetric])
    ultimately show ?thesis using 2 b64_word_tail1 [OF 2]
      by (subst b64_loop.simps) (simp add: b64_round_def Let_def)
  next
    case 3
    then have "b64_loop input (i + 3) = []" by (subst b64_loop.simps) simp
    moreover have "drop i input = [input ! i, input ! (i + 1)]" using 3 by (simp add: Cons_nth_drop_Suc [symmetric])
    ultimately show ?thesis using 3 b64_word_tail2 [OF 3]
      by (subst b64_loop.simps) (simp add: b64_round_def Let_def)
  next
    case 4
    then have "drop i input = [input ! i, input ! (i + 1), input ! (i + 2)] @ drop (i + 3) input"
      by (simp add: Cons_nth_drop_Suc numeral_3_eq_3)
    then show ?thesis using 4 "1.IH" by (subst b64_loop.simps) (simp add: b64_round_group)
  qed
qed

lemma b64_loop_length: "length (b64_loop input i) = (length input - i + 2) div 3 * 4"
proof (induction input i rule: b64_loop.induct)
  case (1 input i)
  show ?case
  proof (cases "i < length input")
    case True
    have "length (b64_loop input i) = 4 + (length input - (i + 3) + 2) div 3 * 4"
      using True 1 by (subst b64_loop.simps) (simp add: b64_round_def Let_def)
    moreover have "(length input - i + 2) div 3 = Suc ((length input - (i + 3) + 2) div 3)"
    proof (cases "i + 3 \<le> length input")
      case True
      then have eq: "length input - i + 2 = (length input - (i + 3) + 2) + 3" by simp
      show ?thesis unfolding eq by simp
    next
      case False
      then have "length input - i = 1 \<or> length input - i = 2" using \<open>i < length input\<close> by linarith
      then show ?thesis using False by auto
    qed
    ultimately show ?thesis by simp
  next
    case False
    then show ?thesis by (subst b64_loop.simps) simp
  qed
qed

section \<open>SHA-1\<close>

type_synonym sha_state = "u32 \<times> u32 \<times> u32 \<times> u32 \<times> u32"

definition sha1_init :: sha_state where
  "sha1_init = (0x67452301, 0xEFCDAB89, 0x98BADCFE, 0x10325476, 0xC3D2E1F0)"

definition rotl :: "u32 \<Rightarrow> nat \<Rightarrow> u32" where
  "rotl x n = push_bit n x OR drop_bit (32 - n) x"

definition block_word :: "bytes \<Rightarrow> nat \<Rightarrow> u32" where
  "block_word block i = push_bit 24 (ucast (block ! (i * 4))) OR push_bit 16 (ucast (block ! (i * 4 + 1))) OR
     push_bit 8 (ucast (block ! (i * 4 + 2))) OR ucast (block ! (i * 4 + 3))"

text \<open>The second loop that fills \<open>w\<close>; it appends the words 16 to 79.\<close>

fun extend_w :: "nat \<Rightarrow> u32 list \<Rightarrow> u32 list" where
  "extend_w 0 w = w"
| "extend_w (Suc n) w = extend_w n
     (let i = length w in w @ [rotl (w ! (i - 3) XOR w ! (i - 8) XOR w ! (i - 14) XOR w ! (i - 16)) 1])"

definition schedule :: "bytes \<Rightarrow> u32 list" where
  "schedule block = extend_w 64 (map (block_word block) [0..<16])"

definition sha1_round :: "nat \<Rightarrow> u32 \<Rightarrow> sha_state \<Rightarrow> sha_state" where
  "sha1_round i wi s =
     (let (a, b, c, d, e) = s;
          (f, k) = (if i < 20 then ((b AND c) OR (NOT b AND d), 0x5A827999)
                    else if i < 40 then (b XOR c XOR d, 0x6ED9EBA1)
                    else if i < 60 then ((b AND c) OR (b AND d) OR (c AND d), 0x8F1BBCDC)
                    else (b XOR c XOR d, 0xCA62C1D6));
          tmp = rotl a 5 + f + e + k + wi
      in (tmp, a, rotl b 30, c, d))"

fun sha1_rounds :: "nat \<Rightarrow> u32 list \<Rightarrow> sha_state \<Rightarrow> sha_state" where
  "sha1_rounds i [] s = s"
| "sha1_rounds i (w # ws) s = sha1_rounds (i + 1) ws (sha1_round i w s)"

definition sha1Process :: "sha_state \<Rightarrow> bytes \<Rightarrow> sha_state" where
  "sha1Process st block =
     (let (s0, s1, s2, s3, s4) = st; (a, b, c, d, e) = sha1_rounds 0 (schedule block) st
      in (s0 + a, s1 + b, s2 + c, s3 + d, s4 + e))"

text \<open>The loop over whole blocks; it returns the state and the bytes that are left.\<close>

function sha1_loop :: "sha_state \<Rightarrow> bytes \<Rightarrow> sha_state \<times> bytes" where
  "sha1_loop st data = (if 64 \<le> length data then sha1_loop (sha1Process st (take 64 data)) (drop 64 data) else (st, data))"
  by pat_completeness auto
termination
  by (relation "measure (\<lambda>(st, data). length data)") auto

declare sha1_loop.simps [simp del]

text \<open>Byte \<open>i\<close> of the 64-bit length field, and the 20 output bytes.\<close>

definition count_byte :: "nat \<Rightarrow> nat \<Rightarrow> byte" where
  "count_byte count i = word_of_nat (count div 2 ^ (i * 8))"

definition put_count :: "nat \<Rightarrow> bytes \<Rightarrow> bytes" where
  "put_count count block = fold (\<lambda>i b. b[63 - i := count_byte count i]) [0..<8] block"

definition out_word :: "u32 \<Rightarrow> bytes" where
  "out_word x = [ucast (drop_bit 24 x AND 0xFF), ucast (drop_bit 16 x AND 0xFF), ucast (drop_bit 8 x AND 0xFF), ucast (x AND 0xFF)]"

definition sha1_out :: "sha_state \<Rightarrow> bytes" where
  "sha1_out s = (let (a, b, c, d, e) = s in out_word a @ out_word b @ out_word c @ out_word d @ out_word e)"

definition sha1 :: "bytes \<Rightarrow> bytes" where
  "sha1 data =
     (let count = mul_sz (length data) 8;
          (st, rest) = sha1_loop sha1_init data;
          remaining = length rest;
          block = (rest @ replicate (64 - remaining) 0)[remaining := 0x80];
          (st, block) = (if remaining \<ge> 56 then (sha1Process st block, replicate 64 0) else (st, block))
      in sha1_out (sha1Process st (put_count count block)))"

subsection \<open>The reference: pad first, then hash the blocks\<close>

definition len_be64 :: "nat \<Rightarrow> bytes" where
  "len_be64 n = map (\<lambda>i. word_of_nat (n div 2 ^ ((7 - i) * 8))) [0..<8]"

definition pad_msg :: "bytes \<Rightarrow> bytes" where
  "pad_msg m = m @ [0x80] @ replicate ((119 - length m mod 64) mod 64) 0 @ len_be64 (8 * length m)"

fun hash_blocks :: "nat \<Rightarrow> sha_state \<Rightarrow> bytes \<Rightarrow> sha_state" where
  "hash_blocks 0 st m = st"
| "hash_blocks (Suc n) st m = hash_blocks n (sha1Process st (take 64 m)) (drop 64 m)"

definition sha1_ref :: "bytes \<Rightarrow> bytes" where
  "sha1_ref m = (let p = pad_msg m in sha1_out (hash_blocks (length p div 64) sha1_init p))"

lemma sha1_loop_blocks:
  "length pre = 64 * q \<Longrightarrow> length rest < 64 \<Longrightarrow> sha1_loop st (pre @ rest) = (hash_blocks q st pre, rest)"
proof (induction q arbitrary: st pre)
  case 0
  then show ?case by (subst sha1_loop.simps) simp
next
  case (Suc q)
  have len: "length (drop 64 pre) = 64 * q" "64 \<le> length pre" using Suc.prems(1) by simp_all
  then have "sha1_loop st (pre @ rest) = sha1_loop (sha1Process st (take 64 pre)) (drop 64 pre @ rest)"
    by (subst sha1_loop.simps) simp
  then show ?case using Suc.IH [OF len(1) Suc.prems(2)] by simp
qed

lemma hash_blocks_append:
  "length m = 64 * n \<Longrightarrow> hash_blocks (n + k) st (m @ m') = hash_blocks k (hash_blocks n st m) m'"
proof (induction n arbitrary: st m)
  case (Suc n)
  then have "length (drop 64 m) = 64 * n" "64 \<le> length m" by simp_all
  then show ?case using Suc.IH [of "drop 64 m"] by simp
qed simp

lemma put_count_nth:
  "length b = 64 \<Longrightarrow> k \<le> 8 \<Longrightarrow> j < 64 \<Longrightarrow>
     fold (\<lambda>i b. b[63 - i := count_byte c i]) [0..<k] b ! j = (if 64 \<le> j + k then count_byte c (63 - j) else b ! j)"
proof (induction k)
  case (Suc k)
  have len: "length (fold (\<lambda>i b. b[63 - i := count_byte c i]) xs b) = length b" for xs b
    by (induction xs arbitrary: b) simp_all
  show ?case using Suc len by (auto simp: nth_list_update)
qed simp

lemma put_count_block:
  assumes "length b = 64"
  shows "put_count c b = take 56 b @ len_be64 c"
proof (rule nth_equalityI)
  have len: "length (fold (\<lambda>i b. b[63 - i := count_byte c i]) xs b) = length b" for xs b
    by (induction xs arbitrary: b) simp_all
  show "length (put_count c b) = length (take 56 b @ len_be64 c)" using assms len by (simp add: put_count_def len_be64_def)
  fix j assume "j < length (put_count c b)"
  then have j: "j < 64" using assms len by (simp add: put_count_def)
  show "put_count c b ! j = (take 56 b @ len_be64 c) ! j"
    using put_count_nth [OF assms, of 8 j c] j assms
    by (auto simp: put_count_def nth_append len_be64_def count_byte_def)
qed

lemma last_block:
  assumes "length rest < 64"
  shows "(rest @ replicate (64 - length rest) 0)[length rest := 0x80] = rest @ 0x80 # replicate (63 - length rest) (0 :: byte)"
proof -
  have eq: "64 - length rest = Suc (63 - length rest)" using assms by linarith
  show ?thesis unfolding eq by (simp add: list_update_append)
qed

lemma take_last_block:
  assumes "length rest < 56"
  shows "take 56 (rest @ 0x80 # replicate (63 - length rest) (0 :: byte)) = rest @ 0x80 # replicate (55 - length rest) 0"
proof -
  have eq: "56 - length rest = Suc (55 - length rest)" using assms by linarith
  have "min (55 - length rest) (63 - length rest) = 55 - length rest" by simp
  then show ?thesis using assms by (simp add: eq take_replicate)
qed

lemma hash_two: "length b = 64 \<Longrightarrow> length t = 64 \<Longrightarrow> hash_blocks 2 st (b @ t) = sha1Process (sha1Process st b) t"
  by (simp add: numeral_2_eq_2)

lemma sha1_eq_ref_split:
  assumes pre: "length pre = 64 * q" and rest: "length rest < 64" and small: "length (pre @ rest) * 8 < SZ"
  shows "sha1 (pre @ rest) = sha1_ref (pre @ rest)"
proof -
  let ?n = "8 * length (pre @ rest)"
  let ?st = "hash_blocks q sha1_init pre"
  let ?b = "rest @ 0x80 # replicate (63 - length rest) (0 :: byte)"
  have b64: "length ?b = 64" using rest by simp
  have be: "length (len_be64 k) = 8" for k by (simp add: len_be64_def)
  have cnt: "mul_sz (length (pre @ rest)) 8 = ?n" using small by (simp add: mul_sz_exact)
  have pad: "pad_msg (pre @ rest) = pre @ (rest @ 0x80 # replicate ((119 - length rest) mod 64) 0 @ len_be64 ?n)"
    using pre rest by (simp add: pad_msg_def)
  have run: "sha1 (pre @ rest) = sha1_out (sha1Process (if length rest \<ge> 56 then sha1Process ?st ?b else ?st)
      (put_count ?n (if length rest \<ge> 56 then replicate 64 0 else ?b)))"
    unfolding sha1_def Let_def sha1_loop_blocks [OF pre rest] cnt using last_block [OF rest] by simp
  have ref: "sha1_ref (pre @ rest) = sha1_out (hash_blocks k ?st t)"
    if "pad_msg (pre @ rest) = pre @ t" "length t = 64 * k" for k t
    using that pre hash_blocks_append [OF pre, of k sha1_init t] by (simp add: sha1_ref_def Let_def)
  show ?thesis
  proof (cases "length rest < 56")
    case True
    have eq: "119 - length rest = (55 - length rest) + 64" using True by linarith
    have "(119 - length rest) mod 64 = 55 - length rest" unfolding eq mod_add_self2 by (rule mod_less) linarith
    then have "pad_msg (pre @ rest) = pre @ (take 56 ?b @ len_be64 ?n)" using pad take_last_block [OF True] by simp
    moreover have "length (take 56 ?b @ len_be64 ?n) = 64 * 1" using b64 be by simp
    ultimately have "sha1_ref (pre @ rest) = sha1_out (hash_blocks 1 ?st (take 56 ?b @ len_be64 ?n))" by (rule ref)
    then show ?thesis using run True b64 be put_count_block [OF b64] by simp
  next
    case False
    then have z: "(119 - length rest) mod 64 = (63 - length rest) + 56" using rest by (simp add: mod_less)
    have "pad_msg (pre @ rest) = pre @ (?b @ (replicate 56 0 @ len_be64 ?n))" using pad unfolding z by (simp add: replicate_add)
    moreover have "length (?b @ (replicate 56 0 @ len_be64 ?n)) = 64 * 2" using b64 be by simp
    ultimately have "sha1_ref (pre @ rest) = sha1_out (hash_blocks 2 ?st (?b @ (replicate 56 0 @ len_be64 ?n)))" by (rule ref)
    moreover have "hash_blocks 2 ?st (?b @ (replicate 56 0 @ len_be64 ?n)) = sha1Process (sha1Process ?st ?b) (replicate 56 0 @ len_be64 ?n)"
      by (rule hash_two [OF b64]) (simp add: be)
    moreover have "put_count ?n (replicate 64 0) = replicate 56 0 @ len_be64 ?n"
      using put_count_block [of "replicate 64 0" ?n] by simp
    ultimately show ?thesis using run False by simp
  qed
qed

lemma sha1_eq_ref:
  assumes "length m * 8 < SZ"
  shows "sha1 m = sha1_ref m"
proof -
  let ?k = "64 * (length m div 64)"
  have "?k \<le> length m" by (rule times_div_less_eq_dividend)
  then have "length (take ?k m) = ?k" by simp
  moreover have "length (drop ?k m) < 64" by (simp add: minus_mult_div_eq_mod)
  ultimately have "sha1 (take ?k m @ drop ?k m) = sha1_ref (take ?k m @ drop ?k m)"
    by (rule sha1_eq_ref_split) (use assms in simp)
  then show ?thesis by simp
qed

section \<open>Properties\<close>

text \<open>
  Base64 round trip: decoding an encoding by the rules of the standard gives the bytes back,
  for every input, and the encoding of \<open>n\<close> bytes has the length the code reserves.
\<close>

theorem base64_roundtrip:
  "b64_decode (base64Encode bs) = Some bs \<and> length (base64Encode bs) = (length bs + 2) div 3 * 4"
  by (simp add: base64Encode_def b64_loop_decodes b64_loop_length)

text \<open>
  The SHA-1 routine, which hashes whole blocks in place and assembles the padding of the last
  one or two blocks in a scratch buffer, agrees with padding the message first and hashing
  its blocks, for every message whose bit length fits the 64-bit counter.
\<close>

theorem sha1_matches_reference:
  "length m * 8 < SZ \<Longrightarrow> sha1 m = sha1_ref m"
  by (rule sha1_eq_ref)

theorem sha1_matches_reference_witness:
  "length [0x61, 0x62, 0x63 :: byte] * 8 < SZ \<and> sha1 [0x61, 0x62, 0x63] = sha1_ref [0x61, 0x62, 0x63]"
  using sha1_matches_reference [of "[0x61, 0x62, 0x63]"] by simp

end
