(* ===== verification/Handshake.thy ===== *)
theory Handshake
  imports HttpRequest HttpResponse Digest "HOL-Library.Sublist"
begin

text \<open>
  The WebSocket handshake (\<open>src/websocket/ws_handshake.cpp\<close>) and the handler that answers it in
  the pipeline (\<open>src/websocket/ws_upgrade_handler.cpp\<close>). Looking up a header parses the raw
  headers on first use, so every lookup may raise the faults of \<open>HttpRequest.header\<close> and returns
  the request with its cache filled.
\<close>

section \<open>The handshake\<close>

definition kMagicGUID :: string where
  "kMagicGUID = ''258EAFA5-E914-47DA-95CA-C5AB0DC85B11''"

definition computeAccept :: "string \<Rightarrow> string" where
  "computeAccept key = base64Encode (sha1 (bytes_of (key @ kMagicGUID)))"

text \<open>\<open>std::string::find\<close> as used: whether a pattern occurs.\<close>

fun occurs :: "string \<Rightarrow> string \<Rightarrow> bool" where
  "occurs pat [] = (pat = [])"
| "occurs pat (c # cs) = (prefix pat (c # cs) \<or> occurs pat cs)"

definition isUpgradeRequest :: "http_request \<Rightarrow> (bool \<times> http_request) res" where
  "isUpgradeRequest req =
     rbind (header ''Upgrade'' req) (\<lambda>(upgrade, req).
     if upgrade = [] then Inr (False, req)
     else rbind (header ''Connection'' req) (\<lambda>(connection, req).
     if connection = [] then Inr (False, req)
     else rbind (header ''Sec-WebSocket-Key'' req) (\<lambda>(key, req).
     if key = [] then Inr (False, req)
     else Inr (map tolower upgrade = ''websocket'' \<and> occurs ''upgrade'' (map tolower connection), req))))"

definition createResponse :: "http_request \<Rightarrow> (http_response \<times> http_request) res" where
  "createResponse req =
     rbind (header ''Sec-WebSocket-Key'' req) (\<lambda>(key, req).
     Inr (rs_setHeader ''Sec-WebSocket-Accept'' (computeAccept key)
           (rs_setHeader ''Connection'' ''Upgrade''
             (rs_setHeader ''Upgrade'' ''websocket''
               (setStatus ST_SWITCHING_PROTOCOLS http_response_new))), req))"

section \<open>The upgrade handler\<close>

definition computeAcceptKey :: "string \<Rightarrow> string" where
  "computeAcceptKey key = base64Encode (sha1 (bytes_of (key @ kMagicGUID)))"

definition is_blank :: "char \<Rightarrow> bool" where
  "is_blank c = (c = CHR '' '' \<or> c = CHR 0x09 \<or> c = CHR 0x0D \<or> c = CHR 0x0A)"

text \<open>The constructor trims the path; a path of blanks becomes the root.\<close>

definition upgrade_path :: "string \<Rightarrow> string" where
  "upgrade_path path =
     (if list_all is_blank path then ''/''
      else rev (dropWhile is_blank (rev (dropWhile is_blank path))))"

text \<open>
  What \<open>channelRead\<close> does with a message: a message that is not a request, or a request that is not
  an upgrade, goes on to the next handler; an upgrade is answered, after the connection was set
  to keep-alive.
\<close>

datatype upgrade_result = PassOn | Answer http_response

definition upgrade_channelRead :: "string \<Rightarrow> http_request option \<Rightarrow> upgrade_result res" where
  "upgrade_channelRead path msg = (case msg of
     None \<Rightarrow> Inr PassOn
   | Some req \<Rightarrow>
       if path \<noteq> [] \<and> rq_uri req \<noteq> path then Inr PassOn
       else rbind (header ''Upgrade'' req) (\<lambda>(upgrade, req).
       if upgrade \<noteq> ''websocket'' \<and> upgrade \<noteq> ''WebSocket'' then Inr PassOn
       else rbind (header ''Sec-WebSocket-Key'' req) (\<lambda>(key, req).
       if key = [] then Inr PassOn
       else
         let resp = rs_setHeader ''Sec-WebSocket-Accept'' (computeAcceptKey key)
               (rs_setHeader ''Connection'' ''Upgrade''
                 (rs_setHeader ''Upgrade'' ''websocket''
                   (setStatus ST_SWITCHING_PROTOCOLS http_response_new)))
         in rbind (header ''Sec-WebSocket-Protocol'' req) (\<lambda>(proto, req).
            Inr (Answer (if proto \<noteq> [] then rs_setHeader ''Sec-WebSocket-Protocol'' proto resp else resp))))))"

section \<open>Lemmas\<close>

text \<open>The first lookup fills the cache; the later ones read it.\<close>

lemma header_cached: "headersParsed r \<Longrightarrow>
  header key r = Inr (case find_header key (rq_headers r) of Some v \<Rightarrow> v | None \<Rightarrow> [], r)"
  by (simp add: header_def ensureHeadersParsed_def)

lemma sha1_length: "length (sha1 m) = 20"
  by (simp add: sha1_def Let_def sha1_out_def out_word_def split_beta)

lemma accept_length: "length (computeAccept key) = 28"
  by (simp add: computeAccept_def base64Encode_def b64_loop_length sha1_length)

definition lookup :: "string \<Rightarrow> (string \<times> string) list \<Rightarrow> string" where
  "lookup key hs = (case find_header key hs of Some v \<Rightarrow> v | None \<Rightarrow> [])"

lemma header_raw:
  assumes "rawData r = Some (pre @ render_headers hs @ rest)" and "headerOffsets r = header_layout (length pre) hs"
    and "\<not> headersParsed r" and "rq_headers r = []"
  obtains r' where "\<And>key. header key r = Inr (lookup key hs, r')" "\<And>key. header key r' = Inr (lookup key hs, r')"
proof
  define r' where "r' = r\<lparr>headersParsed := True, rq_headers := hs\<rparr>"
  have parsed: "ensureHeadersParsed r = Inr r'"
    using assms parse_entries_layout [of pre hs rest] by (auto simp: ensureHeadersParsed_def Let_def r'_def)
  show "header key r = Inr (lookup key hs, r')" for key using parsed by (simp add: header_def lookup_def r'_def)
  show "header key r' = Inr (lookup key hs, r')" for key by (simp add: header_cached lookup_def r'_def)
qed

definition switching_response :: "string \<Rightarrow> string \<Rightarrow> http_response" where
  "switching_response key proto =
     (setStatus ST_SWITCHING_PROTOCOLS http_response_new)\<lparr>connectionSet := True,
       rs_headers := [(''Upgrade'', ''websocket''), (''Connection'', ''Upgrade''), (''Sec-WebSocket-Accept'', computeAccept key)] @
         (if proto = [] then [] else [(''Sec-WebSocket-Protocol'', proto)])\<rparr>"

section \<open>Properties\<close>


definition demo_upgrade :: "(string \<times> string) list" where
  "demo_upgrade = [(''Upgrade'', ''websocket''), (''Connection'', ''Upgrade''), (''Sec-WebSocket-Key'', ''abc'')]"

definition demo_upgrade_request :: http_request where
  "demo_upgrade_request = http_request_new\<lparr>rq_uri := ''/ws'', rawData := Some (render_headers demo_upgrade),
     headerOffsets := header_layout 0 demo_upgrade\<rparr>"

lemma demo_lookup: "lookup ''Upgrade'' demo_upgrade = ''websocket''" "lookup ''Sec-WebSocket-Key'' demo_upgrade = ''abc''"
    "lookup ''Sec-WebSocket-Protocol'' demo_upgrade = []"
  by (simp_all add: lookup_def demo_upgrade_def find_header_def same_ignoring_case_def)


text \<open>
  The two upgrade tests disagree: \<open>isUpgradeRequest\<close> compares the \<open>Upgrade\<close> header without regard
  to case and asks for a \<open>Connection\<close> header, the handler accepts two spellings only and ignores
  \<open>Connection\<close>. So there are requests the first accepts and the second passes on as plain HTTP,
  and requests the second answers which the first rejects.
\<close>

theorem upgrade_tests_disagree:
  "(\<exists>req req'. isUpgradeRequest req = Inr (True, req') \<and> upgrade_channelRead [] (Some req) = Inr PassOn) \<and>
   (\<exists>req req' resp. isUpgradeRequest req = Inr (False, req') \<and> upgrade_channelRead [] (Some req) = Inr (Answer resp))"
proof (intro conjI exI)
  let ?a = "http_request_new\<lparr>headersParsed := True, rq_headers :=
      [(''Upgrade'', ''WEBSOCKET''), (''Connection'', ''upgrade''), (''Sec-WebSocket-Key'', ''k'')]\<rparr>"
  let ?b = "http_request_new\<lparr>headersParsed := True, rq_headers := [(''Upgrade'', ''websocket''), (''Sec-WebSocket-Key'', ''k'')]\<rparr>"
  note lk = header_cached http_request_new_def find_header_def same_ignoring_case_def
  have up: "map tolower ''WEBSOCKET'' = ''websocket''" "map tolower ''upgrade'' = ''upgrade''" by code_simp+
  show "isUpgradeRequest ?a = Inr (True, ?a)"
    using up by (simp add: isUpgradeRequest_def lk)
  show "upgrade_channelRead [] (Some ?a) = Inr PassOn" by (simp add: upgrade_channelRead_def lk)
  show "isUpgradeRequest ?b = Inr (False, ?b)" by (simp add: isUpgradeRequest_def lk)
  show "upgrade_channelRead [] (Some ?b) = Inr (Answer (rs_setHeader ''Sec-WebSocket-Accept'' (computeAcceptKey ''k'')
               (rs_setHeader ''Connection'' ''Upgrade''
                 (rs_setHeader ''Upgrade'' ''websocket''
                   (setStatus ST_SWITCHING_PROTOCOLS http_response_new)))))"
    by (simp add: upgrade_channelRead_def lk)
qed

end
