(* ===== verification/WsHandler.thy ===== *)
theory WsHandler
  imports TimerWheel TopicTree WsCodec HttpResponse
begin

text \<open>
  The WebSocket handler (\<open>src/websocket/websocket_handler.cpp\<close>, its header) and the socket object
  it gives to the application (\<open>src/websocket/web_socket.cpp\<close>), composed with the timer wheel of the
  loop and the global topic tree.

  The world of one worker loop holds the \<open>WsState\<close> of every connection (created on first use in the
  context's data store), the wheel, the tree, the connections that are closed, the contexts that are
  alive, the ones whose connection still exists, and the log of what the handler did: frames written,
  messages passed on, activity signalled, tasks queued on other loops. The virtual functions
  \<open>onOpen\<close>, \<open>onMessage\<close>, \<open>onBinary\<close> and \<open>onClose\<close> belong to the application: a parameter that
  answers, from the log so far and the event, with the calls it makes on the socket. Addresses of new
  subscribers and topics come from the parameters \<open>alloc_sub\<close> and \<open>alloc_topic\<close>.

  The invariant \<open>ws_inv\<close> has two halves: \<open>tracked\<close> (the live timers are the ones the states record,
  including the entries a tick has taken out and not yet run) and \<open>subs_ok\<close> (every subscriber of the
  tree belongs to exactly one connection). Every operation is shown to succeed and to keep both; the
  theory \<open>WsWorld\<close> builds the runs of a loop on that and states the properties.
\<close>

section \<open>State\<close>

record ws_state =
  opened :: bool
  waitingPong :: bool
  pingTimerId :: nat
  pongTimerId :: nat
  ws_ctx :: bool
  ws_sub :: "nat option"

datatype ws_timer = PingFires nat | PongFires nat

datatype ws_effect =
    FireWrite nat ws_frame
  | FireRead nat
  | Activity nat
  | QueueTask nat nat string

datatype ws_up = OnOpen | OnMessage bytes | OnBinary bytes | OnClose nat bytes

datatype ws_call =
    Send string
  | SendBinary bytes
  | CloseFrame nat string
  | Subscribe string
  | Unsubscribe string
  | Publish string string
  | Broadcast string string
  | CloseContext

record ws_world =
  wstates :: "nat \<Rightarrow> ws_state option"
  wwheel :: "ws_timer wheel"
  wtree :: topic_tree
  wclosed :: "nat set"
  walive :: "nat set"
  wloop :: "nat set"
  wnext :: nat
  wlog :: "ws_effect list"

record ws_env =
  pingIntervalMs :: nat
  pongTimeoutMs :: nat
  hook :: "ws_effect list \<Rightarrow> nat \<Rightarrow> ws_up \<Rightarrow> ws_call list"
  alloc_sub :: "topic_tree \<Rightarrow> nat"
  alloc_topic :: "topic_tree \<Rightarrow> nat"
  iter_order :: "nat list \<Rightarrow> nat list"
  loop_of :: "nat \<Rightarrow> nat"
  in_thread :: "nat \<Rightarrow> bool"

definition ws_state_new :: ws_state where
  "ws_state_new = \<lparr>opened = False, waitingPong = False, pingTimerId = 0, pongTimerId = 0,
     ws_ctx = False, ws_sub = None\<rparr>"

text \<open>The constructor's two 32-bit multiplications.\<close>

definition ping_interval_ms :: "nat \<Rightarrow> nat" where
  "ping_interval_ms sec = (if sec > 0 then (sec * 1000) mod 2 ^ 32 else 0)"

definition pong_timeout_ms :: "nat \<Rightarrow> nat" where
  "pong_timeout_ms sec = (sec * 1000) mod 2 ^ 32"

definition ws_emit :: "ws_effect \<Rightarrow> ws_world \<Rightarrow> ws_world" where
  "ws_emit x w = w\<lparr>wlog := wlog w @ [x]\<rparr>"

definition state_of :: "nat \<Rightarrow> ws_world \<Rightarrow> ws_state" where
  "state_of cid w = (case wstates w cid of None \<Rightarrow> ws_state_new | Some st \<Rightarrow> st)"

definition upd_state :: "nat \<Rightarrow> (ws_state \<Rightarrow> ws_state) \<Rightarrow> ws_world \<Rightarrow> ws_world" where
  "upd_state cid f w = w\<lparr>wstates := (wstates w)(cid := Some (f (state_of cid w)))\<rparr>"

definition simple_frame :: "byte \<Rightarrow> bytes \<Rightarrow> ws_frame" where
  "simple_frame opc pl = ws_frame_default\<lparr>ws_opcode := opc, ws_fin := True, ws_payload := pl\<rparr>"

section \<open>Timers and the end of a connection\<close>

definition cancel_if :: "nat \<Rightarrow> nat \<Rightarrow> ws_world \<Rightarrow> ws_world" where
  "cancel_if cid i w =
     (if i \<noteq> 0 \<and> cid \<in> wloop w then w\<lparr>wwheel := cancelTimer i (wwheel w)\<rparr> else w)"

definition cancelTimers :: "nat \<Rightarrow> ws_world \<Rightarrow> ws_world" where
  "cancelTimers cid w =
     (let w = cancel_if cid (pingTimerId (state_of cid w)) w;
          w = cancel_if cid (pongTimerId (state_of cid w)) w
      in upd_state cid (\<lambda>st. st\<lparr>pingTimerId := 0, pongTimerId := 0, waitingPong := False\<rparr>) w)"

definition schedulePing :: "ws_env \<Rightarrow> nat \<Rightarrow> ws_world \<Rightarrow> ws_world res" where
  "schedulePing env cid w =
     (let w = cancelTimers cid w in
      if pingIntervalMs env = 0 then Inr w
      else if cid \<notin> wloop w then Inr w
      else rbind (addTimer (pingIntervalMs env) (Some (PingFires cid)) (wwheel w)) (\<lambda>(wh, i).
        Inr (upd_state cid (\<lambda>st. st\<lparr>pingTimerId := i\<rparr>) (w\<lparr>wwheel := wh\<rparr>))))"

definition ping_fires :: "ws_env \<Rightarrow> nat \<Rightarrow> ws_world \<Rightarrow> ws_world res" where
  "ping_fires env cid w =
     (if cid \<notin> walive w then Inr w
      else if waitingPong (state_of cid w) then Inr w
      else
        let w = ws_emit (FireWrite cid (simple_frame op_PING [])) w;
            w = ws_emit (Activity cid) w;
            w = upd_state cid (\<lambda>st. st\<lparr>waitingPong := True, pingTimerId := 0\<rparr>) w in
        if cid \<notin> wloop w then Inr w
        else rbind (addTimer (pongTimeoutMs env) (Some (PongFires cid)) (wwheel w)) (\<lambda>(wh, i).
          Inr (upd_state cid (\<lambda>st. st\<lparr>pongTimerId := i\<rparr>) (w\<lparr>wwheel := wh\<rparr>))))"

definition release_sub :: "nat \<Rightarrow> ws_world \<Rightarrow> ws_world res" where
  "release_sub cid w =
     rbind (freeSubscriber (ws_sub (state_of cid w)) (wtree w)) (\<lambda>t.
     Inr (upd_state cid (\<lambda>st. st\<lparr>ws_sub := None\<rparr>) (w\<lparr>wtree := t\<rparr>)))"

definition channelInactive :: "nat \<Rightarrow> ws_world \<Rightarrow> ws_world res" where
  "channelInactive cid w =
     (let w = cancelTimers cid w in
      if ws_sub (state_of cid w) \<noteq> None then release_sub cid w else Inr w)"

text \<open>\<open>Context::close\<close>: the first call marks the connection and announces it as inactive.\<close>

definition context_close :: "nat \<Rightarrow> ws_world \<Rightarrow> ws_world res" where
  "context_close cid w =
     (if cid \<in> wloop w \<and> cid \<notin> wclosed w
      then channelInactive cid (w\<lparr>wclosed := insert cid (wclosed w)\<rparr>) else Inr w)"

definition pong_fires :: "nat \<Rightarrow> ws_world \<Rightarrow> ws_world res" where
  "pong_fires cid w = (if cid \<in> walive w then context_close cid w else Inr w)"

section \<open>The socket object\<close>

definition context_active :: "nat \<Rightarrow> ws_world \<Rightarrow> bool" where
  "context_active cid w \<longleftrightarrow> cid \<in> wloop w \<and> cid \<notin> wclosed w"

text \<open>The task that the delivery callback of the tree runs in the loop of the subscriber.\<close>

definition deliver_task :: "nat \<Rightarrow> string \<Rightarrow> ws_world \<Rightarrow> ws_world" where
  "deliver_task cid payload w =
     (if context_active cid w then ws_emit (FireWrite cid (simple_frame op_TEXT (bytes_of payload))) w else w)"

definition tree_callback :: "ws_env \<Rightarrow> delivery \<Rightarrow> ws_world \<Rightarrow> ws_world res" where
  "tree_callback env d w = (case d of (s, msg, flags) \<Rightarrow>
     rbind (sub_at (wtree w) s) (\<lambda>sb.
     case worker sb of
       None \<Rightarrow> Inr w
     | Some wk \<Rightarrow> (case user sb of
         None \<Rightarrow> Inr w
       | Some cid \<Rightarrow> (case wstates w cid of
           None \<Rightarrow> Inl UndefinedBehaviour
         | Some st \<Rightarrow>
             if \<not> ws_ctx st then Inr w
             else if in_thread env wk then Inr (deliver_task cid msg w)
             else Inr (ws_emit (QueueTask wk cid msg) w)))))"

fun tree_callbacks :: "ws_env \<Rightarrow> delivery list \<Rightarrow> ws_world \<Rightarrow> ws_world res" where
  "tree_callbacks env [] w = Inr w"
| "tree_callbacks env (d # ds) w = rbind (tree_callback env d w) (tree_callbacks env ds)"

definition socket_drain :: "ws_env \<Rightarrow> nat \<Rightarrow> ws_world \<Rightarrow> ws_world res" where
  "socket_drain env cid w = (case ws_sub (state_of cid w) of
     None \<Rightarrow> Inr w
   | Some s \<Rightarrow> rbind (drain_one (\<lambda>_ _ _. False) s (wtree w)) (\<lambda>(ds, t).
       tree_callbacks env ds (w\<lparr>wtree := t\<rparr>)))"

definition socket_send :: "ws_env \<Rightarrow> nat \<Rightarrow> byte \<Rightarrow> bytes \<Rightarrow> ws_world \<Rightarrow> ws_world res" where
  "socket_send env cid opc pl w =
     (if \<not> ws_ctx (state_of cid w) then Inr w
      else rbind (socket_drain env cid w) (\<lambda>w. Inr (ws_emit (FireWrite cid (simple_frame opc pl)) w)))"

definition close_payload :: "nat \<Rightarrow> string \<Rightarrow> bytes" where
  "close_payload code reason =
     [word_of_nat ((code div 256) mod 256), word_of_nat (code mod 256)] @ bytes_of reason"

definition socket_close :: "nat \<Rightarrow> nat \<Rightarrow> string \<Rightarrow> ws_world \<Rightarrow> ws_world res" where
  "socket_close cid code reason w =
     (if \<not> ws_ctx (state_of cid w) then Inr w
      else rbind (if ws_sub (state_of cid w) \<noteq> None then release_sub cid w else Inr w) (\<lambda>w.
        Inr (ws_emit (FireWrite cid (simple_frame op_CLOSE (close_payload code reason))) w)))"

definition new_subscriber :: "ws_env \<Rightarrow> nat \<Rightarrow> ws_world \<Rightarrow> ws_world res" where
  "new_subscriber env cid w =
     (let (s, t) = createSubscriber (alloc_sub env (wtree w)) (wtree w) in
      rbind (sub_at t s) (\<lambda>sb.
      let wk = (if ws_ctx (state_of cid w) \<and> cid \<in> wloop w then Some (loop_of env cid) else worker sb);
          t = put_sub s (sb\<lparr>user := Some cid, worker := wk\<rparr>) t
      in Inr (upd_state cid (\<lambda>st. st\<lparr>ws_sub := Some s\<rparr>) (w\<lparr>wtree := t\<rparr>))))"

definition socket_subscribe :: "ws_env \<Rightarrow> nat \<Rightarrow> string \<Rightarrow> ws_world \<Rightarrow> ws_world res" where
  "socket_subscribe env cid topic w =
     rbind (if ws_sub (state_of cid w) = None then new_subscriber env cid w else Inr w) (\<lambda>w.
     case ws_sub (state_of cid w) of
       None \<Rightarrow> Inl UndefinedBehaviour
     | Some s \<Rightarrow> rbind (subscribe (alloc_topic env (wtree w)) s topic (wtree w)) (\<lambda>(r, t).
         Inr (w\<lparr>wtree := t\<rparr>)))"

definition socket_unsubscribe :: "nat \<Rightarrow> string \<Rightarrow> ws_world \<Rightarrow> ws_world res" where
  "socket_unsubscribe cid topic w = (case ws_sub (state_of cid w) of
     None \<Rightarrow> Inr w
   | Some s \<Rightarrow> rbind (unsubscribe s topic (wtree w)) (\<lambda>(r, t). Inr (w\<lparr>wtree := t\<rparr>)))"

definition socket_broadcast :: "ws_env \<Rightarrow> nat option \<Rightarrow> string \<Rightarrow> string \<Rightarrow> ws_world \<Rightarrow> ws_world res" where
  "socket_broadcast env sender topic message w =
     rbind (publish (iter_order env) sender topic message (wtree w)) (\<lambda>(r, ds). tree_callbacks env ds w)"

definition socket_publish :: "ws_env \<Rightarrow> nat \<Rightarrow> string \<Rightarrow> string \<Rightarrow> ws_world \<Rightarrow> ws_world res" where
  "socket_publish env cid topic message w = (case ws_sub (state_of cid w) of
     None \<Rightarrow> Inr w
   | Some s \<Rightarrow> socket_broadcast env (Some s) topic message w)"

fun socket_call :: "ws_env \<Rightarrow> nat \<Rightarrow> ws_call \<Rightarrow> ws_world \<Rightarrow> ws_world res" where
  "socket_call env cid (Send message) w = socket_send env cid op_TEXT (bytes_of message) w"
| "socket_call env cid (SendBinary data) w = socket_send env cid op_BINARY data w"
| "socket_call env cid (CloseFrame code reason) w = socket_close cid code reason w"
| "socket_call env cid (Subscribe topic) w = socket_subscribe env cid topic w"
| "socket_call env cid (Unsubscribe topic) w = socket_unsubscribe cid topic w"
| "socket_call env cid (Publish topic message) w = socket_publish env cid topic message w"
| "socket_call env cid (Broadcast topic message) w = socket_broadcast env None topic message w"
| "socket_call env cid CloseContext w = context_close cid w"

fun socket_calls :: "ws_env \<Rightarrow> nat \<Rightarrow> ws_call list \<Rightarrow> ws_world \<Rightarrow> ws_world res" where
  "socket_calls env cid [] w = Inr w"
| "socket_calls env cid (c # cs) w = rbind (socket_call env cid c w) (socket_calls env cid cs)"

section \<open>Reading\<close>

definition notify :: "ws_env \<Rightarrow> nat \<Rightarrow> ws_up \<Rightarrow> ws_world \<Rightarrow> ws_world res" where
  "notify env cid u w = socket_calls env cid (hook env (wlog w) cid u) w"

definition open_socket :: "ws_env \<Rightarrow> nat \<Rightarrow> ws_world \<Rightarrow> ws_world res" where
  "open_socket env cid w =
     (let w = upd_state cid (\<lambda>st. st\<lparr>ws_ctx := True\<rparr>) w in
      if \<not> opened (state_of cid w) then
        rbind (notify env cid OnOpen (upd_state cid (\<lambda>st. st\<lparr>opened := True\<rparr>) w)) (schedulePing env cid)
      else Inr w)"

definition answer_pong :: "ws_env \<Rightarrow> nat \<Rightarrow> ws_frame \<Rightarrow> ws_world \<Rightarrow> ws_world res" where
  "answer_pong env cid frame w =
     (if ws_opcode frame = op_PONG
      then schedulePing env cid (upd_state cid (\<lambda>st. st\<lparr>waitingPong := False\<rparr>) (cancelTimers cid w))
      else Inr w)"

definition handle_frame :: "ws_env \<Rightarrow> nat \<Rightarrow> ws_frame \<Rightarrow> ws_world \<Rightarrow> ws_world res" where
  "handle_frame env cid frame w =
     (if ws_opcode frame = op_PING then
        schedulePing env cid (ws_emit (FireWrite cid (simple_frame op_PONG (ws_payload frame))) w)
      else if ws_opcode frame = op_TEXT then
        rbind (notify env cid (OnMessage (ws_payload frame)) w) (schedulePing env cid)
      else if ws_opcode frame = op_BINARY then
        rbind (notify env cid (OnBinary (ws_payload frame)) w) (schedulePing env cid)
      else if ws_opcode frame = op_CLOSE then
        rbind (release_sub cid (cancelTimers cid w)) (\<lambda>w.
        notify env cid (OnClose 0 (ws_payload frame))
          (ws_emit (FireWrite cid (simple_frame op_CLOSE (ws_payload frame))) w))
      else Inr w)"

definition channelRead :: "ws_env \<Rightarrow> nat \<Rightarrow> ws_frame option \<Rightarrow> ws_world \<Rightarrow> ws_world res" where
  "channelRead env cid msg w =
     rbind (open_socket env cid w) (\<lambda>w.
     case msg of
       None \<Rightarrow> Inr (ws_emit (FireRead cid) w)
     | Some frame \<Rightarrow>
         rbind (answer_pong env cid frame (ws_emit (Activity cid) w)) (handle_frame env cid frame))"

section \<open>The wheel turns\<close>

definition timer_fires :: "ws_env \<Rightarrow> ws_timer \<Rightarrow> ws_world \<Rightarrow> ws_world res" where
  "timer_fires env cb w = (case cb of PingFires cid \<Rightarrow> ping_fires env cid w | PongFires cid \<Rightarrow> pong_fires cid w)"

fun fire_entries :: "ws_env \<Rightarrow> ws_timer timer_entry list \<Rightarrow> ws_world \<Rightarrow> ws_world res" where
  "fire_entries env [] w = Inr w"
| "fire_entries env (e # es) w =
     rbind (case callback e of None \<Rightarrow> Inr w | Some cb \<Rightarrow> timer_fires env cb w) (fire_entries env es)"

text \<open>\<open>TimerWheel::tick\<close> with the handler's callbacks in place.\<close>

definition due_entries :: "'cb wheel \<Rightarrow> 'cb timer_entry list" where
  "due_entries wh = filter (\<lambda>e. expirationTick e \<le> currentTick wh)
     (filter (\<lambda>e. \<not> canceled e) (slots wh ! (currentTick wh mod numSlots wh)))"

definition drop_due :: "'cb wheel \<Rightarrow> 'cb wheel" where
  "drop_due wh = (let slot = currentTick wh mod numSlots wh in
     wh\<lparr>slots := (slots wh)[slot := filter (\<lambda>e. \<not> expirationTick e \<le> currentTick wh)
        (filter (\<lambda>e. \<not> canceled e) (slots wh ! slot))]\<rparr>)"

definition next_tick :: "'cb wheel \<Rightarrow> 'cb wheel" where
  "next_tick wh = wh\<lparr>currentTick := add_sz (currentTick wh) 1\<rparr>"

definition loop_tick :: "ws_env \<Rightarrow> ws_world \<Rightarrow> ws_world res" where
  "loop_tick env w =
     (let wh = wwheel w in
      if numSlots wh = 0 then Inl UndefinedBehaviour
      else if currentTick wh mod numSlots wh \<ge> length (slots wh) then Inl UndefinedBehaviour
      else rbind (fire_entries env (due_entries wh) (w\<lparr>wwheel := drop_due wh\<rparr>)) (\<lambda>w.
        Inr (w\<lparr>wwheel := next_tick (wwheel w)\<rparr>)))"

section \<open>Connections come and go\<close>

definition world_new :: "nat \<Rightarrow> nat \<Rightarrow> ws_world" where
  "world_new n ms = \<lparr>wstates = (\<lambda>_. None), wwheel = wheel_new n ms, wtree = tree_new, wclosed = {},
     walive = {}, wloop = {}, wnext = 1, wlog = []\<rparr>"

definition accept_conn :: "ws_world \<Rightarrow> ws_world" where
  "accept_conn w = w\<lparr>walive := insert (wnext w) (walive w), wloop := insert (wnext w) (wloop w), wnext := wnext w + 1\<rparr>"

text \<open>
  The connection object goes away first, then the context with the data store: the state, the socket
  and the subscriber it owns are destroyed with it.
\<close>

definition conn_gone :: "nat \<Rightarrow> ws_world \<Rightarrow> ws_world" where
  "conn_gone cid w = w\<lparr>wloop := wloop w - {cid}\<rparr>"

definition context_gone :: "nat \<Rightarrow> ws_world \<Rightarrow> ws_world" where
  "context_gone cid w =
     w\<lparr>walive := walive w - {cid}, wstates := (wstates w)(cid := None),
       wtree := (case ws_sub (state_of cid w) of None \<Rightarrow> wtree w
         | Some s \<Rightarrow> (wtree w)\<lparr>sheap := (sheap (wtree w))(s := None)\<rparr>)\<rparr>"


section \<open>Facts on the wheel\<close>

lemma cancel_slot_ids:
  "cancel_slot i es = Some es' \<Longrightarrow> map tid es' = map tid es"
  by (induction es arbitrary: es') (auto split: if_splits)

lemma cancel_slots_ids: "map (map tid) (cancel_slots i ss) = map (map tid) ss"
  by (induction ss) (auto simp: cancel_slot_ids split: option.split)

lemma ids_ok_map:
  assumes "map (map tid) (slots w') = map (map tid) (slots w)" and "nextId w' = nextId w"
  shows "ids_ok w' \<longleftrightarrow> ids_ok w"
proof -
  have len: "length (slots w') = length (slots w)" using assms(1) by (metis length_map)
  have nth: "map tid (slots w' ! i) = map tid (slots w ! i)" if "i < length (slots w)" for i
    using that len assms(1) by (metis nth_map)
  then have img: "tid ` set (slots w' ! i) = tid ` set (slots w ! i)" if "i < length (slots w)" for i
    using that by (metis list.set_map)
  have bound: "(\<forall>e \<in> set (slots w' ! i). tid e < k) = (\<forall>e \<in> set (slots w ! i). tid e < k)"
    if "i < length (slots w)" for i k
    using img [OF that] by (metis (no_types, lifting) image_iff)
  show ?thesis unfolding ids_ok_def len assms(2) by (simp add: nth img bound)
qed

lemma cancelTimer_ids: "ids_ok (cancelTimer i w) \<longleftrightarrow> ids_ok w"
  by (rule ids_ok_map) (simp_all add: cancelTimer_def cancel_slots_ids)

lemma cancelTimer_frame [simp]:
  "nextId (cancelTimer i w) = nextId w" "currentTick (cancelTimer i w) = currentTick w"
  "tickMs (cancelTimer i w) = tickMs w"
  by (simp_all add: cancelTimer_def)

lemma addTimer_next:
  "addTimer d cb w = Inr (w', i) \<Longrightarrow> Suc (nextId w) < SZ \<Longrightarrow> nextId w' = Suc (nextId w)"
  by (auto simp: addTimer_def Let_def nextTimerId_def add_sz_exact split: if_splits)

lemma pending_ids:
  assumes "ids_ok w"
  shows "inj_on tid (pending w)" and "e \<in> pending w \<Longrightarrow> tid e < nextId w"
proof -
  show "e \<in> pending w \<Longrightarrow> tid e < nextId w" using assms by (auto simp: pending_nth ids_ok_def)
  show "inj_on tid (pending w)"
  proof (rule inj_onI)
    fix x y assume xy: "x \<in> pending w" "y \<in> pending w" "tid x = tid y"
    obtain i j where i: "i < length (slots w)" "x \<in> set (slots w ! i)" and j: "j < length (slots w)" "y \<in> set (slots w ! j)"
      using xy by (auto simp: pending_nth)
    have "tid ` set (slots w ! i) \<inter> tid ` set (slots w ! j) \<noteq> {}" using i j xy(3) by force
    then have "i = j" using assms i(1) j(1) unfolding ids_ok_def by blast
    then show "x = y" using assms i j xy(3) by (auto simp: ids_ok_def distinct_map dest: inj_onD)
  qed
qed

lemma drop_due_facts:
  assumes wf: "wf_wheel w" and ids: "ids_ok w"
  shows "wf_wheel (drop_due w)" "ids_ok (drop_due w)" "distinct (due_entries w)"
    "set (due_entries w) = {e \<in> pending w. expirationTick e \<le> currentTick w \<and>
       expirationTick e mod numSlots w = currentTick w mod numSlots w}"
    "pending (drop_due w) = pending w - set (due_entries w)" "nextId (drop_due w) = nextId w"
    "currentTick (drop_due w) = currentTick w" "tickMs (drop_due w) = tickMs w"
proof -
  define k where "k = currentTick w mod numSlots w"
  have k: "k < length (slots w)" using wf by (simp add: wf_wheel_def k_def)
  have home: "\<And>j e. j < length (slots w) \<Longrightarrow> e \<in> set (slots w ! j) \<Longrightarrow> expirationTick e mod numSlots w = j"
    using wf by (auto simp: wf_wheel_def)
  have d: "drop_due w = w\<lparr>slots := (slots w)[k := filter (\<lambda>e. \<not> expirationTick e \<le> currentTick w)
        (filter (\<lambda>e. \<not> canceled e) (slots w ! k))]\<rparr>" by (simp add: drop_due_def Let_def k_def)
  show "wf_wheel (drop_due w)" using wf k by (auto simp: d wf_wheel_def nth_list_update split: if_splits)
  have sub: "tid ` set (slots (drop_due w) ! j) \<subseteq> tid ` set (slots w ! j)" if "j < length (slots w)" for j
    using that k by (auto simp: d nth_list_update)
  have dis: "distinct (map tid (slots (drop_due w) ! j))" if "j < length (slots w)" for j
    using that k ids by (auto simp: d nth_list_update ids_ok_def intro: distinct_map_filter)
  have len: "length (slots (drop_due w)) = length (slots w)" "nextId (drop_due w) = nextId w" by (simp_all add: d)
  have low: "tid e < nextId w" if "j < length (slots w)" "e \<in> set (slots (drop_due w) ! j)" for j e
    using that k ids by (auto simp: d nth_list_update ids_ok_def split: if_splits)
  have apart: "tid ` set (slots (drop_due w) ! i) \<inter> tid ` set (slots (drop_due w) ! j) = {}"
    if "i < length (slots w)" "j < length (slots w)" "i \<noteq> j" for i j
  proof -
    have "tid ` set (slots w ! i) \<inter> tid ` set (slots w ! j) = {}" using that ids by (simp add: ids_ok_def)
    then show ?thesis using sub [OF that(1)] sub [OF that(2)] by blast
  qed
  show "ids_ok (drop_due w)" unfolding ids_ok_def len
    by (intro conjI allI impI ballI dis low apart)
  show due: "set (due_entries w) = {e \<in> pending w. expirationTick e \<le> currentTick w \<and>
       expirationTick e mod numSlots w = currentTick w mod numSlots w}"
    using k home by (force simp: due_entries_def pending_nth simp flip: k_def)
  have "distinct (slots w ! k)" using ids k by (auto simp: ids_ok_def distinct_map)
  then show "distinct (due_entries w)" by (simp add: due_entries_def flip: k_def)
  show "pending (drop_due w) = pending w - set (due_entries w)"
  proof -
    have other: "expirationTick e mod numSlots w \<noteq> k" if "j < length (slots w)" "j \<noteq> k" "e \<in> set (slots w ! j)" for j e
      using home [OF that(1,3)] that(2) by simp
    show ?thesis unfolding due using k home other
      by (auto simp: pending_nth d nth_list_update simp flip: k_def split: if_splits)
  qed
qed (simp_all add: drop_due_def Let_def)


section \<open>One timer per connection\<close>

lemma state_of_upd [simp]: "state_of c (upd_state cid f w) = (if c = cid then f (state_of cid w) else state_of c w)"
  by (simp add: state_of_def upd_state_def)

lemma state_of_frame [simp]:
  "state_of c (w\<lparr>wwheel := a\<rparr>) = state_of c w" "state_of c (w\<lparr>wtree := t\<rparr>) = state_of c w"
  "state_of c (w\<lparr>wclosed := b\<rparr>) = state_of c w" "state_of c (w\<lparr>wlog := l\<rparr>) = state_of c w"
  "state_of c (w\<lparr>wloop := s\<rparr>) = state_of c w" "state_of c (ws_emit x w) = state_of c w"
  by (simp_all add: state_of_def ws_emit_def)

lemma upd_frame [simp]:
  "wwheel (upd_state cid f w) = wwheel w" "wtree (upd_state cid f w) = wtree w"
  "wclosed (upd_state cid f w) = wclosed w" "walive (upd_state cid f w) = walive w"
  "wloop (upd_state cid f w) = wloop w" "wnext (upd_state cid f w) = wnext w" "wlog (upd_state cid f w) = wlog w"
  by (simp_all add: upd_state_def)

lemma ws_emit_frame [simp]:
  "wwheel (ws_emit x w) = wwheel w" "wtree (ws_emit x w) = wtree w" "wclosed (ws_emit x w) = wclosed w"
  "walive (ws_emit x w) = walive w" "wloop (ws_emit x w) = wloop w" "wnext (ws_emit x w) = wnext w"
  "wstates (ws_emit x w) = wstates w" "wlog (ws_emit x w) = wlog w @ [x]"
  by (simp_all add: ws_emit_def)

lemma cancel_if_frame [simp]:
  "state_of c (cancel_if cid i w) = state_of c w" "wtree (cancel_if cid i w) = wtree w"
  "wclosed (cancel_if cid i w) = wclosed w" "walive (cancel_if cid i w) = walive w"
  "wloop (cancel_if cid i w) = wloop w" "wnext (cancel_if cid i w) = wnext w" "wlog (cancel_if cid i w) = wlog w"
  "wstates (cancel_if cid i w) = wstates w" "nextId (wwheel (cancel_if cid i w)) = nextId (wwheel w)"
  by (simp_all add: cancel_if_def)

lemma cancelTimers_frame [simp]:
  "wtree (cancelTimers cid w) = wtree w" "wclosed (cancelTimers cid w) = wclosed w"
  "walive (cancelTimers cid w) = walive w" "wloop (cancelTimers cid w) = wloop w"
  "wnext (cancelTimers cid w) = wnext w" "wlog (cancelTimers cid w) = wlog w"
  "nextId (wwheel (cancelTimers cid w)) = nextId (wwheel w)"
  "state_of c (cancelTimers cid w) = (if c = cid
     then (state_of cid w)\<lparr>pingTimerId := 0, pongTimerId := 0, waitingPong := False\<rparr> else state_of c w)"
  by (simp_all add: cancelTimers_def Let_def)

definition timer_conn :: "ws_timer timer_entry \<Rightarrow> nat" where
  "timer_conn e = (case callback e of None \<Rightarrow> 0 | Some (PingFires cid) \<Rightarrow> cid | Some (PongFires cid) \<Rightarrow> cid)"

text \<open>
  The timer \<open>e\<close> belongs to a connection whose state records it, and no other connection has its
  identifier.
\<close>

definition recorded :: "ws_world \<Rightarrow> ws_timer timer_entry \<Rightarrow> bool" where
  "recorded w e \<longleftrightarrow> tid e \<noteq> 0 \<and> tid e < nextId (wwheel w) \<and>
     (case callback e of
        None \<Rightarrow> False
      | Some (PingFires cid) \<Rightarrow> cid < wnext w \<and>
          (cid \<in> walive w \<longrightarrow> pingTimerId (state_of cid w) = tid e \<and> \<not> waitingPong (state_of cid w))
      | Some (PongFires cid) \<Rightarrow> cid < wnext w \<and>
          (cid \<in> walive w \<longrightarrow> pongTimerId (state_of cid w) = tid e \<and> waitingPong (state_of cid w))) \<and>
     (\<forall>c. c \<noteq> timer_conn e \<longrightarrow> pingTimerId (state_of c w) \<noteq> tid e \<and> pongTimerId (state_of c w) \<noteq> tid e)"

lemma recorded_wheel: "nextId h = nextId (wwheel w) \<Longrightarrow> recorded (w\<lparr>wwheel := h\<rparr>) e \<longleftrightarrow> recorded w e"
  by (auto simp: recorded_def split: option.split ws_timer.split)

text \<open>
  The timers of the wheel, together with the entries \<open>es\<close> that a tick has taken out and not yet run,
  are recorded and have different identifiers.
\<close>

definition tracked :: "ws_world \<Rightarrow> ws_timer timer_entry list \<Rightarrow> bool" where
  "tracked w es \<longleftrightarrow> wf_wheel (wwheel w) \<and> ids_ok (wwheel w) \<and> 1 \<le> nextId (wwheel w) \<and>
     wloop w \<subseteq> walive w \<and> (\<forall>cid \<in> walive w. cid < wnext w) \<and>
     (\<forall>c. pingTimerId (state_of c w) < nextId (wwheel w) \<and> pongTimerId (state_of c w) < nextId (wwheel w)) \<and>
     (\<forall>e \<in> pending (wwheel w) \<union> set es. recorded w e) \<and>
     inj_on tid (pending (wwheel w) \<union> set es) \<and> distinct es \<and> pending (wwheel w) \<inter> set es = {}"

abbreviation timers_ok :: "ws_world \<Rightarrow> bool" where
  "timers_ok w \<equiv> tracked w []"

text \<open>What the timers of a world depend on; the operations on sockets leave it alone.\<close>

definition timer_view :: "ws_world \<Rightarrow> ws_timer wheel \<times> (nat \<Rightarrow> nat \<times> nat \<times> bool) \<times> nat set \<times> nat set \<times> nat" where
  "timer_view w = (wwheel w, (\<lambda>c. (pingTimerId (state_of c w), pongTimerId (state_of c w), waitingPong (state_of c w))),
     walive w, wloop w, wnext w)"

lemma timer_view_recorded: "timer_view w' = timer_view w \<Longrightarrow> recorded w' e \<longleftrightarrow> recorded w e"
  by (simp add: timer_view_def recorded_def fun_eq_iff split: option.split ws_timer.split)

lemma timer_view_tracked: "timer_view w' = timer_view w \<Longrightarrow> tracked w' es \<longleftrightarrow> tracked w es"
  using timer_view_recorded [of w' w] by (simp add: tracked_def timer_view_def fun_eq_iff)

lemma recorded_unique:
  assumes "tracked w es" and "e \<in> pending (wwheel w) \<union> set es" "e' \<in> pending (wwheel w) \<union> set es"
    and "timer_conn e = timer_conn e'" and "timer_conn e \<in> walive w"
  shows "e = e'"
proof -
  have "recorded w e" "recorded w e'" using assms(1-3) by (auto simp: tracked_def)
  then have "tid e = tid e'" using assms(4,5)
    by (auto simp: recorded_def timer_conn_def split: option.splits ws_timer.splits)
  then show ?thesis using assms(1-3) unfolding tracked_def by (metis inj_onD)
qed

text \<open>A new timer for a connection without one.\<close>

lemma recorded_other:
  assumes "recorded w e" and "timer_conn e \<in> walive w \<Longrightarrow> timer_conn e \<noteq> cid" and "walive w' = walive w"
    and "wnext w' = wnext w" and "nextId (wwheel w) \<le> nextId (wwheel w')"
    and "\<And>c. c \<noteq> cid \<Longrightarrow> state_of c w' = state_of c w" and "cid \<in> walive w"
    and "pingTimerId (state_of cid w') \<in> {0, pingTimerId (state_of cid w), nextId (wwheel w)}"
    and "pongTimerId (state_of cid w') \<in> {0, pongTimerId (state_of cid w), nextId (wwheel w)}"
  shows "recorded w' e"
proof -
  have ne: "timer_conn e \<noteq> cid" using assms(2,7) by blast
  have old: "tid e \<noteq> 0" "tid e < nextId (wwheel w)" "pingTimerId (state_of cid w) \<noteq> tid e" "pongTimerId (state_of cid w) \<noteq> tid e"
    using assms(1) ne unfolding recorded_def by (metis, metis, metis, metis)
  then have "pingTimerId (state_of c w') \<noteq> tid e \<and> pongTimerId (state_of c w') \<noteq> tid e" if "c \<noteq> timer_conn e" for c
    using that assms(1,6,8,9) by (cases "c = cid") (auto simp: recorded_def)
  then show ?thesis using assms(1,3-6) ne old(2)
    by (auto simp: recorded_def timer_conn_def split: option.splits ws_timer.splits)
qed

lemma tracked_cancel:
  assumes tr: "tracked w es" and cid: "cid \<in> wloop w" and es: "\<forall>e \<in> set es. timer_conn e \<in> walive w \<longrightarrow> timer_conn e \<noteq> cid"
  shows "tracked (cancelTimers cid w) es"
    and "\<forall>e \<in> pending (wwheel (cancelTimers cid w)). timer_conn e \<noteq> cid"
    and "pending (wwheel (cancelTimers cid w)) = {e \<in> pending (wwheel w). timer_conn e \<noteq> cid}"
proof -
  let ?st = "state_of cid w"
  define w1 where "w1 = cancel_if cid (pingTimerId ?st) w"
  define w2 where "w2 = cancel_if cid (pongTimerId ?st) w1"
  have c: "cancelTimers cid w = upd_state cid (\<lambda>st. st\<lparr>pingTimerId := 0, pongTimerId := 0, waitingPong := False\<rparr>) w2"
    by (simp add: cancelTimers_def Let_def w1_def w2_def)
  have wf: "wf_wheel (wwheel w)" "ids_ok (wwheel w)" and alive: "cid \<in> walive w" and rec: "\<forall>e \<in> pending (wwheel w). recorded w e"
    using tr cid by (auto simp: tracked_def)
  have step: "wf_wheel (wwheel (cancel_if cid i v)) \<and> ids_ok (wwheel (cancel_if cid i v)) \<and>
      pending (wwheel (cancel_if cid i v)) = {e \<in> pending (wwheel v). i = 0 \<or> tid e \<noteq> i}"
    if "wf_wheel (wwheel v)" "ids_ok (wwheel v)" "cid \<in> wloop v" for i v
    using that cancelTimer_ok(1) [of "wwheel v" i] cancelTimer_removes_exactly [of "wwheel v" i]
    by (auto simp: cancel_if_def cancelTimer_ids)
  have s1: "wf_wheel (wwheel w1)" "ids_ok (wwheel w1)" "pending (wwheel w1) = {e \<in> pending (wwheel w). pingTimerId ?st = 0 \<or> tid e \<noteq> pingTimerId ?st}"
    using step [OF wf cid, of "pingTimerId ?st"] by (simp_all add: w1_def)
  have s2: "wf_wheel (wwheel w2)" "ids_ok (wwheel w2)" "pending (wwheel w2) = {e \<in> pending (wwheel w1). pongTimerId ?st = 0 \<or> tid e \<noteq> pongTimerId ?st}"
    using step [OF s1(1,2), of "pongTimerId ?st"] cid by (simp_all add: w1_def w2_def)
  have w2: "wloop w2 = wloop w" "walive w2 = walive w" "wnext w2 = wnext w" "nextId (wwheel w2) = nextId (wwheel w)"
    "state_of c w2 = state_of c w" for c by (simp_all add: w1_def w2_def)
  show none: "\<forall>e \<in> pending (wwheel (cancelTimers cid w)). timer_conn e \<noteq> cid"
  proof
    fix e assume "e \<in> pending (wwheel (cancelTimers cid w))"
    then have e: "e \<in> pending (wwheel w)" "pingTimerId ?st = 0 \<or> tid e \<noteq> pingTimerId ?st" "pongTimerId ?st = 0 \<or> tid e \<noteq> pongTimerId ?st"
      using s1(3) s2(3) by (auto simp: c)
    then have "recorded w e" using rec by blast
    then show "timer_conn e \<noteq> cid" using e(2,3) alive
      by (auto simp: recorded_def timer_conn_def split: option.splits ws_timer.splits)
  qed
  have sub: "pending (wwheel (cancelTimers cid w)) \<subseteq> pending (wwheel w)" using s1(3) s2(3) by (auto simp: c)
  moreover have "e \<in> pending (wwheel (cancelTimers cid w))" if "e \<in> pending (wwheel w)" "timer_conn e \<noteq> cid" for e
  proof -
    have "pingTimerId ?st \<noteq> tid e" "pongTimerId ?st \<noteq> tid e"
      using rec that unfolding recorded_def by (metis, metis)
    then show ?thesis using that s1(3) s2(3) by (auto simp: c)
  qed
  ultimately show "pending (wwheel (cancelTimers cid w)) = {e \<in> pending (wwheel w). timer_conn e \<noteq> cid}"
    using none by blast
  have "recorded (cancelTimers cid w) e" if "e \<in> pending (wwheel (cancelTimers cid w)) \<union> set es" for e
    by (rule recorded_other [of w _ cid]) (use that none sub tr es alive in \<open>auto simp: tracked_def\<close>)
  then show "tracked (cancelTimers cid w) es"
    using tr s2 w2 sub unfolding tracked_def c by (auto intro: inj_on_subset)
qed

lemma tracked_add:
  assumes tr: "tracked w es" and cid: "cid \<in> walive w" and id: "Suc (nextId (wwheel w)) < SZ"
    and free: "\<forall>e \<in> pending (wwheel w) \<union> set es. timer_conn e \<in> walive w \<longrightarrow> timer_conn e \<noteq> cid"
    and cb: "cb = PingFires cid \<and> upd = (\<lambda>i st. st\<lparr>pingTimerId := i\<rparr>) \<and> \<not> waitingPong (state_of cid w)
           \<or> cb = PongFires cid \<and> upd = (\<lambda>i st. st\<lparr>pongTimerId := i\<rparr>) \<and> waitingPong (state_of cid w)"
  obtains wh where "addTimer d (Some cb) (wwheel w) = Inr (wh, nextId (wwheel w))" "nextId wh = Suc (nextId (wwheel w))"
    "tracked (upd_state cid (upd (nextId (wwheel w))) (w\<lparr>wwheel := wh\<rparr>)) es"
    "pending wh = insert \<lparr>tid = nextId (wwheel w), expirationTick = add_sz (currentTick (wwheel w)) (delay_ticks (tickMs (wwheel w)) d),
        callback = Some cb, canceled = False\<rparr> (pending (wwheel w))"
    "currentTick wh = currentTick (wwheel w)" "tickMs wh = tickMs (wwheel w)"
proof -
  let ?i = "nextId (wwheel w)"
  have wf: "wf_wheel (wwheel w)" "ids_ok (wwheel w)" "1 \<le> ?i" using tr by (simp_all add: tracked_def)
  let ?e = "\<lparr>tid = ?i, expirationTick = add_sz (currentTick (wwheel w)) (delay_ticks (tickMs (wwheel w)) d),
     callback = Some cb, canceled = False\<rparr>"
  obtain wh where wh: "addTimer d (Some cb) (wwheel w) = Inr (wh, ?i)" "wf_wheel wh" "pending wh = insert ?e (pending (wwheel w))"
    "currentTick wh = currentTick (wwheel w)" "tickMs wh = tickMs (wwheel w)"
    using addTimer_ok [OF wf(1)] by metis
  have ids: "ids_ok wh" using addTimer_ids(1) [OF wf(2) id wh(1)] .
  have nx: "nextId wh = Suc ?i" using addTimer_next [OF wh(1) id] .
  let ?w = "upd_state cid (upd ?i) (w\<lparr>wwheel := wh\<rparr>)"
  have lt: "pingTimerId (state_of c w) < ?i" "pongTimerId (state_of c w) < ?i" for c using tr by (simp_all add: tracked_def)
  then have ne: "pingTimerId (state_of c w) \<noteq> ?i" "pongTimerId (state_of c w) \<noteq> ?i" for c by (metis less_irrefl)+
  have conn: "timer_conn ?e = cid" "cid < wnext w" using cb cid tr by (auto simp: timer_conn_def tracked_def)
  have new: "recorded ?w ?e" using cb
    by (elim disjE conjE) (use wf(3) nx ne conn in \<open>simp_all add: recorded_def\<close>)
  have old: "recorded ?w e" if "e \<in> pending (wwheel w) \<union> set es" for e
    by (rule recorded_other [of w _ cid]) (use that free cid tr nx cb in \<open>auto simp: tracked_def\<close>)
  have rec: "recorded w e" if "e \<in> pending (wwheel w) \<union> set es" for e
    using that tr by (simp add: tracked_def)
  have ne: "tid e \<noteq> ?i" if "e \<in> pending (wwheel w) \<union> set es" for e
    using rec [OF that] by (auto simp: recorded_def)
  have "?i \<notin> tid ` (pending (wwheel w) \<union> set es)" by (rule notI, erule imageE) (metis ne)
  moreover have "?e \<notin> set es" using ne [of ?e] by auto
  ultimately have inj: "inj_on tid (insert ?e (pending (wwheel w) \<union> set es))" "?e \<notin> set es"
    using tr unfolding tracked_def by (simp_all add: inj_on_insert) blast
  moreover have "pingTimerId (state_of c ?w) < Suc ?i \<and> pongTimerId (state_of c ?w) < Suc ?i" for c
    using lt [of c] cb by (auto simp: less_Suc_eq)
  ultimately have "tracked ?w es" using tr wh ids nx new old unfolding tracked_def by auto
  then show ?thesis using that wh nx by blast
qed


section \<open>The subscribers of the connections\<close>

text \<open>Which connection a subscriber belongs to, and the loop it is served by.\<close>

definition who :: "topic_tree \<Rightarrow> nat \<Rightarrow> (nat option \<times> nat option) option" where
  "who t s = map_option (\<lambda>sb. (user sb, worker sb)) (sheap t s)"

definition tree_finite :: "topic_tree \<Rightarrow> bool" where
  "tree_finite t \<longleftrightarrow> finite {s. sheap t s \<noteq> None} \<and> finite {a. theap t a \<noteq> None}"

text \<open>\<open>operator new\<close> returns an address that no live object has.\<close>

definition fresh_alloc :: "ws_env \<Rightarrow> bool" where
  "fresh_alloc env \<longleftrightarrow>
     (\<forall>t. tree_finite t \<longrightarrow> sheap t (alloc_sub env t) = None \<and> theap t (alloc_topic env t) = None)"

definition subs_ok :: "ws_world \<Rightarrow> bool" where
  "subs_ok w \<longleftrightarrow> tree_wf (wtree w) \<and> tree_finite (wtree w) \<and>
     (\<forall>s u wk. who (wtree w) s = Some (u, wk) \<longrightarrow> (\<exists>c. u = Some c \<and> ws_sub (state_of c w) = Some s)) \<and>
     (\<forall>c s. ws_sub (state_of c w) = Some s \<longrightarrow> (\<exists>wk. who (wtree w) s = Some (Some c, wk)))"

lemma subs_okD:
  assumes "subs_ok w"
  shows "tree_wf (wtree w)" "tree_finite (wtree w)"
    "ws_sub (state_of c w) = Some s \<Longrightarrow> \<exists>wk. who (wtree w) s = Some (Some c, wk)"
    "who (wtree w) s = Some (u, wk) \<Longrightarrow> \<exists>c. u = Some c \<and> ws_sub (state_of c w) = Some s"
    "ws_sub (state_of c w) = Some s \<Longrightarrow> s \<in> live_subs (wtree w)"
  using assms unfolding subs_ok_def by (auto simp: who_def live_subs_iff) blast

lemma subs_ok_cong:
  "wtree w' = wtree w \<Longrightarrow> (\<And>c. ws_sub (state_of c w') = ws_sub (state_of c w)) \<Longrightarrow> subs_ok w' \<longleftrightarrow> subs_ok w"
  by (simp add: subs_ok_def)

lemma finite_opt_upd: "finite {x. f x \<noteq> None} \<Longrightarrow> finite {x. (f(a := v)) x \<noteq> None}"
  by (rule finite_subset [of _ "insert a {x. f x \<noteq> None}"]) auto

lemma put_finite [simp]:
  "tree_finite t \<Longrightarrow> tree_finite (put_sub s sb t)" "tree_finite t \<Longrightarrow> tree_finite (put_topic a tp t)"
  "tree_finite t \<Longrightarrow> tree_finite (erase_topic n t)" "tree_finite (t\<lparr>topics := tn\<rparr>) = tree_finite t"
  "tree_finite t \<Longrightarrow> tree_finite (t\<lparr>sheap := (sheap t)(s := None)\<rparr>)"
  using finite_opt_upd [of "sheap t"] finite_opt_upd [of "theap t"]
  by (auto simp: tree_finite_def put_sub_def put_topic_def erase_topic_def split: option.split)

lemma sheap_put [simp]: "sheap (put_topic a tp t) = sheap t" "sheap (erase_topic n t) = sheap t"
  by (simp_all add: put_topic_def erase_topic_def split: option.split)

lemma who_put [simp]:
  "who (put_topic a tp t) = who t" "who (erase_topic n t) = who t" "who (t\<lparr>topics := tn\<rparr>) = who t"
  "who (put_sub s sb t) = (who t)(s := Some (user sb, worker sb))"
  by (auto simp: who_def put_topic_def erase_topic_def put_sub_def fun_eq_iff split: option.split)

lemma who_same [simp]: "sheap t s = Some sb \<Longrightarrow> (who t)(s \<mapsto> (user sb, worker sb)) = who t"
  by (auto simp: who_def fun_eq_iff)

lemma subscribe_keeps:
  assumes "subscribe na s n t = Inr (r, t')"
  shows "who t' = who t" and "tree_finite t \<Longrightarrow> tree_finite t'"
proof -
  let ?t1 = "case topics t n of Some a \<Rightarrow> t | None \<Rightarrow> (put_topic na \<lparr>t_name = n, t_subs = []\<rparr> t)\<lparr>topics := (topics t)(n := Some na)\<rparr>"
  obtain sb where sb: "sheap ?t1 s = Some sb" and t': "t' = ?t1 \<or> (\<exists>a tp x. t' = put_topic a tp (put_sub s (sb\<lparr>s_topics := x\<rparr>) ?t1))"
    using assms by (auto simp: subscribe_def sub_at_def topic_at_def split: option.splits if_splits)
  have "who ?t1 = who t" by (simp split: option.split)
  moreover have "who ?t1 s = Some (user sb, worker sb)" using sb by (simp add: who_def)
  ultimately show "who t' = who t" using t' by (auto simp: fun_upd_idem)
  show "tree_finite t'" if "tree_finite t"
  proof -
    have "tree_finite ?t1" using that by (simp split: option.split)
    then show ?thesis using t' by auto
  qed
qed

lemma unsubscribe_keeps:
  assumes "unsubscribe s n t = Inr (r, t')"
  shows "who t' = who t" and "tree_finite t \<Longrightarrow> tree_finite t'"
  using assms by (auto simp: unsubscribe_def sub_at_def topic_at_def Let_def split: option.splits if_splits)

lemma free_topics_keeps:
  "free_topics s as t = Inr t' \<Longrightarrow> sheap t' = sheap t \<and> (tree_finite t \<longrightarrow> tree_finite t')"
proof (induction as arbitrary: t)
  case (Cons a as)
  then obtain tp where "free_topics s as (if length (t_subs tp) = 1 then erase_topic (t_name tp) t
      else put_topic a (tp\<lparr>t_subs := remove1 s (t_subs tp)\<rparr>) t) = Inr t'" by auto
  from Cons.IH [OF this] show ?case by (simp split: if_splits)
qed simp

lemma freeSubscriber_keeps:
  assumes "freeSubscriber (Some s) t = Inr t'" and "tree_wf t" and "tree_finite t"
  shows "who t' = (who t)(s := None)" and "tree_finite t'"
proof -
  obtain sb t1 where t1: "sheap t s = Some sb" "free_topics s (s_topics sb) t = Inr t1"
      and t': "rbind (if needsDrainage sb then unlinkDrainableSubscriber s t1 else Inr t1) (\<lambda>t2.
         Inr (t2\<lparr>sheap := (sheap t2)(s := None)\<rparr>)) = Inr t'"
    using assms(1) by (auto simp: freeSubscriber_def sub_at_def split: option.splits)
  have "\<not> needsDrainage sb" using assms(2) t1(1) by (auto simp: tree_wf_def sets_ok_def needsDrainage_def)
  then have t': "t' = t1\<lparr>sheap := (sheap t1)(s := None)\<rparr>" using t' by simp
  note k = free_topics_keeps [OF t1(2)]
  show "who t' = (who t)(s := None)" using k by (auto simp: t' who_def)
  show "tree_finite t'" using put_finite(5) [of t1 s] k assms(3) unfolding t' by blast
qed

lemma relabel_wf:
  assumes "sheap t s = Some sb"
  shows "tree_wf (put_sub s (sb\<lparr>user := u, worker := k\<rparr>) t) = tree_wf t"
    and "subscriptions (put_sub s (sb\<lparr>user := u, worker := k\<rparr>) t) = subscriptions t"
proof -
  let ?t = "put_sub s (sb\<lparr>user := u, worker := k\<rparr>) t"
  have same: "topics ?t = topics t" "theap ?t = theap t" "subs_of ?t = subs_of t" "topics_of ?t = topics_of t"
    using assms by (auto simp: put_sub_def subs_of_def topics_of_def fun_eq_iff)
  show "subscriptions ?t = subscriptions t" using same by (auto simp: subscriptions_iff)
  have "sets_ok ?t = sets_ok t" "drained ?t = drained t" "topics_owned ?t = topics_owned t"
    using assms by (auto simp: sets_ok_def drained_def topics_owned_def put_sub_def)
  moreover have "links_agree ?t = links_agree t" using same by (simp add: links_agree_def)
  ultimately show "tree_wf ?t = tree_wf t" by (simp add: tree_wf_def)
qed


section \<open>Every operation keeps the invariant\<close>

definition ws_inv :: "ws_world \<Rightarrow> ws_timer timer_entry list \<Rightarrow> bool" where
  "ws_inv w es \<longleftrightarrow> tracked w es \<and> subs_ok w"

definition steady :: "ws_world \<Rightarrow> ws_world \<Rightarrow> bool" where
  "steady w w' \<longleftrightarrow> walive w' = walive w \<and> wloop w' = wloop w \<and> wnext w' = wnext w \<and>
     nextId (wwheel w') = nextId (wwheel w) \<and> currentTick (wwheel w') = currentTick (wwheel w) \<and>
     tickMs (wwheel w') = tickMs (wwheel w)"

text \<open>The connection has no live timer and no subscriber.\<close>

definition quiet :: "nat \<Rightarrow> ws_world \<Rightarrow> bool" where
  "quiet cid w \<longleftrightarrow> (\<forall>e \<in> pending (wwheel w). timer_conn e \<noteq> cid) \<and> ws_sub (state_of cid w) = None"

lemma steady_refl [simp]: "steady w w" by (simp add: steady_def)

lemma steady_trans: "steady w w' \<Longrightarrow> steady w' w'' \<Longrightarrow> steady w w''" by (simp add: steady_def)

lemma steady_view: "timer_view w' = timer_view w \<Longrightarrow> steady w w'" by (simp add: steady_def timer_view_def)

lemma cancelTimers_tick [simp]:
  "currentTick (wwheel (cancelTimers cid w)) = currentTick (wwheel w)"
  "tickMs (wwheel (cancelTimers cid w)) = tickMs (wwheel w)"
  by (simp_all add: cancelTimers_def Let_def cancel_if_def)

lemma cancelTimers_subs: "subs_ok (cancelTimers cid w) \<longleftrightarrow> subs_ok w"
  by (rule subs_ok_cong) simp_all

lemma release_sub_ok:
  assumes "subs_ok w"
  obtains t where "release_sub cid w = Inr (upd_state cid (\<lambda>st. st\<lparr>ws_sub := None\<rparr>) (w\<lparr>wtree := t\<rparr>))"
    "subs_ok (upd_state cid (\<lambda>st. st\<lparr>ws_sub := None\<rparr>) (w\<lparr>wtree := t\<rparr>))"
    "subscriptions t = {(r, n) \<in> subscriptions (wtree w). ws_sub (state_of cid w) \<noteq> Some r}"
proof (cases "ws_sub (state_of cid w)")
  case None
  have "subs_ok (upd_state cid (\<lambda>st. st\<lparr>ws_sub := None\<rparr>) (w\<lparr>wtree := wtree w\<rparr>))"
    using subs_ok_cong [of "upd_state cid (\<lambda>st. st\<lparr>ws_sub := None\<rparr>) (w\<lparr>wtree := wtree w\<rparr>)" w] None assms by simp
  then show ?thesis using that [of "wtree w"] None by (simp add: release_sub_def freeSubscriber_def)
next
  case (Some s)
  note inv = subs_okD [OF assms]
  obtain t where t: "freeSubscriber (Some s) (wtree w) = Inr t" "tree_wf t"
      "subscriptions t = {(r, n) \<in> subscriptions (wtree w). r \<noteq> s}"
    using freeSubscriber_correct [OF inv(1) inv(5) [OF Some]] by blast
  note k = freeSubscriber_keeps [OF t(1) inv(1,2)]
  let ?w = "upd_state cid (\<lambda>st. st\<lparr>ws_sub := None\<rparr>) (w\<lparr>wtree := t\<rparr>)"
  have own: "who (wtree w) x = Some (Some cid, wk) \<Longrightarrow> x = s" for x wk
    using inv(4) [of x "Some cid" wk] Some by auto
  have mine: "\<exists>wk. who (wtree w) s = Some (Some cid, wk)" using inv(3) [OF Some] .
  have "\<exists>c. u = Some c \<and> ws_sub (state_of c ?w) = Some x" if "who t x = Some (u, wk)" for x u wk
    using inv(4) [of x u wk] that k(1) Some by (auto split: if_splits) (metis option.inject)
  moreover have "\<exists>wk. who t x = Some (Some c, wk)" if "ws_sub (state_of c ?w) = Some x" for c x
    using inv(3) [of c x] that k(1) mine by (auto split: if_splits)
  ultimately have "subs_ok ?w" using t(2) k(2) unfolding subs_ok_def by simp
  moreover have "{(r, n) \<in> subscriptions (wtree w). ws_sub (state_of cid w) \<noteq> Some r} = subscriptions t"
    using t(3) Some by auto
  ultimately show ?thesis using that t(1) Some by (simp add: release_sub_def)
qed

lemma channelInactive_ok:
  assumes inv: "ws_inv w es" and cid: "cid \<in> wloop w" and es: "\<forall>e \<in> set es. timer_conn e \<in> walive w \<longrightarrow> timer_conn e \<noteq> cid"
  shows "\<exists>w'. channelInactive cid w = Inr w' \<and> ws_inv w' es \<and> steady w w' \<and> quiet cid w' \<and> wlog w' = wlog w
     \<and> wclosed w' = wclosed w \<and> pending (wwheel w') = {e \<in> pending (wwheel w). timer_conn e \<noteq> cid}"
proof -
  have tr: "tracked w es" and so: "subs_ok w" using inv by (simp_all add: ws_inv_def)
  note c = tracked_cancel [OF tr cid es]
  have so1: "subs_ok (cancelTimers cid w)" using so by (simp add: cancelTimers_subs)
  show ?thesis
  proof (cases "ws_sub (state_of cid w)")
    case None
    then show ?thesis using c so1 by (simp add: channelInactive_def ws_inv_def quiet_def steady_def)
  next
    case (Some s)
    obtain t where t: "release_sub cid (cancelTimers cid w) = Inr (upd_state cid (\<lambda>st. st\<lparr>ws_sub := None\<rparr>) ((cancelTimers cid w)\<lparr>wtree := t\<rparr>))"
        "subs_ok (upd_state cid (\<lambda>st. st\<lparr>ws_sub := None\<rparr>) ((cancelTimers cid w)\<lparr>wtree := t\<rparr>))"
      by (rule release_sub_ok [OF so1])
    have "timer_view (upd_state cid (\<lambda>st. st\<lparr>ws_sub := None\<rparr>) ((cancelTimers cid w)\<lparr>wtree := t\<rparr>)) = timer_view (cancelTimers cid w)"
      by (simp add: timer_view_def fun_eq_iff)
    from timer_view_tracked [OF this] c t Some show ?thesis
      by (simp add: channelInactive_def ws_inv_def quiet_def steady_def)
  qed
qed

lemma context_close_ok:
  assumes inv: "ws_inv w es" and es: "\<forall>e \<in> set es. timer_conn e \<in> walive w \<longrightarrow> timer_conn e \<noteq> cid"
  shows "\<exists>w'. context_close cid w = Inr w' \<and> ws_inv w' es \<and> steady w w' \<and> wlog w' = wlog w \<and>
     (cid \<in> wloop w \<longrightarrow> cid \<in> wclosed w') \<and> wclosed w \<subseteq> wclosed w' \<and>
     {e \<in> pending (wwheel w). timer_conn e \<noteq> cid} \<subseteq> pending (wwheel w')"
proof (cases "cid \<in> wloop w \<and> cid \<notin> wclosed w")
  case True
  let ?w = "w\<lparr>wclosed := insert cid (wclosed w)\<rparr>"
  have "timer_view ?w = timer_view w" "subs_ok ?w = subs_ok w"
    by (simp_all add: timer_view_def subs_ok_def)
  then have "ws_inv ?w es" using inv timer_view_tracked [of ?w w] by (simp add: ws_inv_def)
  from channelInactive_ok [OF this, of cid] True es show ?thesis
    by (auto simp: context_close_def steady_def)
qed (use inv in \<open>auto simp: context_close_def\<close>)

text \<open>Changes of fields that neither the timers nor the subscribers depend on.\<close>

lemma ws_inv_cong:
  assumes "timer_view w' = timer_view w" and "wtree w' = wtree w" and "\<And>c. ws_sub (state_of c w') = ws_sub (state_of c w)"
  shows "ws_inv w' es \<longleftrightarrow> ws_inv w es"
  using timer_view_tracked [OF assms(1)] subs_ok_cong [OF assms(2,3)] by (simp add: ws_inv_def)

lemma ws_emit_inv [simp]: "ws_inv (ws_emit x w) es \<longleftrightarrow> ws_inv w es" "steady w (ws_emit x w)"
  by (rule ws_inv_cong) (simp_all add: timer_view_def steady_def)

lemma flags_inv [simp]:
  "ws_inv (upd_state cid (\<lambda>st. st\<lparr>ws_ctx := b\<rparr>) w) es \<longleftrightarrow> ws_inv w es"
  "ws_inv (upd_state cid (\<lambda>st. st\<lparr>opened := b\<rparr>) w) es \<longleftrightarrow> ws_inv w es"
  by (rule ws_inv_cong; simp add: timer_view_def fun_eq_iff)+

text \<open>Socket operations that change the tree only.\<close>

lemma tree_change:
  assumes "ws_inv w es" and "timer_view w' = timer_view w" and "subs_ok w'"
  shows "ws_inv w' es" "steady w w'"
  using assms timer_view_tracked [OF assms(2)] by (simp_all add: ws_inv_def steady_view)


text \<open>What the delivery callback does for one live subscriber.\<close>

definition delivered :: "ws_env \<Rightarrow> ws_world \<Rightarrow> nat \<Rightarrow> string \<Rightarrow> ws_effect list" where
  "delivered env w s msg = (case who (wtree w) s of
     Some (Some cid, Some wk) \<Rightarrow>
       if \<not> ws_ctx (state_of cid w) then []
       else if \<not> in_thread env wk then [QueueTask wk cid msg]
       else if context_active cid w then [FireWrite cid (simple_frame op_TEXT (bytes_of msg))]
       else []
   | _ \<Rightarrow> [])"

lemma delivered_log [simp]: "delivered env (w\<lparr>wlog := l\<rparr>) s msg = delivered env w s msg"
  by (auto simp: delivered_def context_active_def split: option.split)

lemma tree_callback_ok:
  assumes "subs_ok w" and "s \<in> live_subs (wtree w)"
  shows "tree_callback env (s, msg, fl) w = Inr (w\<lparr>wlog := wlog w @ delivered env w s msg\<rparr>)"
proof -
  obtain sb where sb: "sheap (wtree w) s = Some sb" using assms(2) by (auto simp: live_subs_iff)
  then have wh: "who (wtree w) s = Some (user sb, worker sb)" by (simp add: who_def)
  obtain c where c: "user sb = Some c" "ws_sub (state_of c w) = Some s" using subs_okD(4) [OF assms(1) wh] by blast
  then obtain st where "wstates w c = Some st" by (auto simp: state_of_def ws_state_new_def split: option.splits)
  then show ?thesis using sb wh c
    by (auto simp: tree_callback_def sub_at_def delivered_def deliver_task_def ws_emit_def state_of_def split: option.split)
qed

lemma tree_callbacks_ok:
  assumes "subs_ok w" and "\<And>d. d \<in> set ds \<Longrightarrow> fst d \<in> live_subs (wtree w)"
  shows "tree_callbacks env ds w = Inr (w\<lparr>wlog := wlog w @ concat (map (\<lambda>d. delivered env w (fst d) (fst (snd d))) ds)\<rparr>)"
  using assms
proof (induction ds arbitrary: w)
  case (Cons d ds)
  obtain s msg fl where d: "d = (s, msg, fl)" by (cases d)
  let ?w = "w\<lparr>wlog := wlog w @ delivered env w s msg\<rparr>"
  have "subs_ok ?w" using Cons.prems(1) by (simp add: subs_ok_def)
  from Cons.IH [OF this] Cons.prems(2) tree_callback_ok [OF Cons.prems(1), of s env msg fl] Cons.prems(2) [of d]
  show ?case by (simp add: d)
qed simp

lemma socket_drain_idle:
  assumes "subs_ok w"
  shows "socket_drain env cid w = Inr w"
  using drain_one_idle [OF subs_okD(1) [OF assms] subs_okD(5) [OF assms]]
  by (auto simp: socket_drain_def split: option.split)

lemma socket_send_eq:
  assumes "subs_ok w"
  shows "socket_send env cid opc pl w =
    Inr (if ws_ctx (state_of cid w) then ws_emit (FireWrite cid (simple_frame opc pl)) w else w)"
  using assms by (simp add: socket_send_def socket_drain_idle)

lemma socket_broadcast_ok:
  assumes so: "subs_ok w" and iter: "\<And>xs. mset (iter_order env xs) = mset xs"
  obtains ds where "publish (iter_order env) sender topic msg (wtree w) = Inr (ds \<noteq> [], ds)"
    "distinct (map fst ds)" "set ds = {(s, msg, 3) | s. (s, topic) \<in> subscriptions (wtree w) \<and> sender \<noteq> Some s}"
    "socket_broadcast env sender topic msg w =
       Inr (w\<lparr>wlog := wlog w @ concat (map (\<lambda>s. delivered env w s msg) (map fst ds))\<rparr>)"
proof -
  note wf = subs_okD(1) [OF so]
  obtain ds where ds: "publish (iter_order env) sender topic msg (wtree w) = Inr (ds \<noteq> [], ds)"
    "distinct (map fst ds)" "set ds = {(s, msg, 3) | s. (s, topic) \<in> subscriptions (wtree w) \<and> sender \<noteq> Some s}"
    using publish_correct [OF wf iter, where sender = sender and n = topic and msg = msg] by blast
  have "s \<in> live_subs (wtree w)" if "(s, topic) \<in> subscriptions (wtree w)" for s
    using that wf_topic_sub [OF wf] by (auto simp: subscriptions_iff subs_of_def live_subs_iff split: option.splits) metis
  then have "tree_callbacks env ds w = Inr (w\<lparr>wlog := wlog w @ concat (map (\<lambda>d. delivered env w (fst d) (fst (snd d))) ds)\<rparr>)"
    using ds(3) by (intro tree_callbacks_ok so) auto
  moreover have "map (\<lambda>d. delivered env w (fst d) (fst (snd d))) ds = map (\<lambda>s. delivered env w s msg) (map fst ds)"
    using ds(3) by auto
  ultimately show ?thesis using that ds by (simp add: socket_broadcast_def)
qed

lemma new_subscriber_ok:
  assumes so: "subs_ok w" and al: "fresh_alloc env" and none: "ws_sub (state_of cid w) = None"
  obtains w' where "new_subscriber env cid w = Inr w'" "subs_ok w'" "timer_view w' = timer_view w"
    "ws_sub (state_of cid w') = Some (alloc_sub env (wtree w))"
proof -
  let ?s = "alloc_sub env (wtree w)" and ?t = "put_sub (alloc_sub env (wtree w)) subscriber_new (wtree w)"
  note inv = subs_okD [OF so]
  have fr: "sheap (wtree w) ?s = None" using al inv(2) by (simp add: fresh_alloc_def)
  then have "?s \<notin> live_subs (wtree w)" by (auto simp: live_subs_iff)
  from createSubscriber_correct(1) [OF inv(1) this] have wf: "tree_wf ?t" by (simp add: createSubscriber_def)
  have at: "sheap ?t ?s = Some subscriber_new" by (simp add: put_sub_def)
  define wk where "wk = (if ws_ctx (state_of cid w) \<and> cid \<in> wloop w then Some (loop_of env cid) else worker subscriber_new)"
  define t where "t = put_sub ?s (subscriber_new\<lparr>user := Some cid, worker := wk\<rparr>) ?t"
  let ?w = "upd_state cid (\<lambda>st. st\<lparr>ws_sub := Some ?s\<rparr>) (w\<lparr>wtree := t\<rparr>)"
  have t: "tree_wf t" "who t = (who (wtree w))(?s := Some (Some cid, wk))" "tree_finite t"
    using relabel_wf(1) [OF at, of wk "Some cid"] wf inv(2) by (simp_all add: t_def)
  have new: "who (wtree w) ?s = None" using fr by (simp add: who_def)
  have "\<exists>c. u = Some c \<and> ws_sub (state_of c ?w) = Some x" if "who t x = Some (u, k)" for x u k
    using inv(4) [of x u k] that t(2) none by (auto split: if_splits) (metis option.distinct(1))
  moreover have "\<exists>k. who t x = Some (Some c, k)" if "ws_sub (state_of c ?w) = Some x" for c x
    using inv(3) [of c x] that t(2) new by (auto split: if_splits)
  ultimately have "subs_ok ?w" using t(1,3) by (simp add: subs_ok_def)
  moreover have "new_subscriber env cid w = Inr ?w"
    using at by (simp add: new_subscriber_def createSubscriber_def sub_at_def t_def wk_def Let_def)
  moreover have "timer_view ?w = timer_view w" by (simp add: timer_view_def fun_eq_iff)
  ultimately show ?thesis using that [of ?w] by simp
qed

lemma subs_ok_tree:
  assumes "subs_ok w" and "tree_wf t" and "who t = who (wtree w)" and "tree_finite t"
  shows "subs_ok (w\<lparr>wtree := t\<rparr>)"
  using assms by (simp add: subs_ok_def)

lemma socket_subscribe_ok:
  assumes so: "subs_ok w" and al: "fresh_alloc env"
  obtains w' where "socket_subscribe env cid topic w = Inr w'" "subs_ok w'" "timer_view w' = timer_view w" 
proof -
  obtain w1 s where w1: "(if ws_sub (state_of cid w) = None then new_subscriber env cid w else Inr w) = Inr w1"
      "subs_ok w1" "timer_view w1 = timer_view w" "ws_sub (state_of cid w1) = Some s"
  proof (cases "ws_sub (state_of cid w)")
    case None
    then show ?thesis using new_subscriber_ok [OF so al None] that by (metis (full_types))
  next
    case (Some s)
    then show ?thesis using so that [of w s] by simp
  qed
  note inv = subs_okD [OF w1(2)]
  have "theap (wtree w1) (alloc_topic env (wtree w1)) = None" using al inv(2) by (simp add: fresh_alloc_def)
  from subscribe_correct [OF inv(1) inv(5) [OF w1(4)] this, of topic] obtain r t where
    t: "subscribe (alloc_topic env (wtree w1)) s topic (wtree w1) = Inr (r, t)" "tree_wf t" by blast
  have "subs_ok (w1\<lparr>wtree := t\<rparr>)" using subs_ok_tree [OF w1(2) t(2)] subscribe_keeps [OF t(1)] inv(2) by blast
  moreover have "timer_view (w1\<lparr>wtree := t\<rparr>) = timer_view w" using w1(3) by (simp add: timer_view_def)
  moreover have "socket_subscribe env cid topic w = Inr (w1\<lparr>wtree := t\<rparr>)"
    using w1 t(1) by (simp add: socket_subscribe_def)
  ultimately show ?thesis using that by blast
qed

lemma socket_unsubscribe_ok:
  assumes so: "subs_ok w"
  obtains w' where "socket_unsubscribe cid topic w = Inr w'" "subs_ok w'" "timer_view w' = timer_view w"
proof (cases "ws_sub (state_of cid w)")
  case None
  then show ?thesis using that so by (simp add: socket_unsubscribe_def)
next
  case (Some s)
  note inv = subs_okD [OF so]
  obtain r t where t: "unsubscribe s topic (wtree w) = Inr (r, t)" "tree_wf t"
    using unsubscribe_correct [OF inv(1) inv(5) [OF Some], of topic] by auto
  have "subs_ok (w\<lparr>wtree := t\<rparr>)" using subs_ok_tree [OF so t(2)] unsubscribe_keeps [OF t(1)] inv(2) by blast
  moreover have "timer_view (w\<lparr>wtree := t\<rparr>) = timer_view w" by (simp add: timer_view_def)
  ultimately show ?thesis using that t(1) Some by (simp add: socket_unsubscribe_def)
qed


text \<open>What the calls of the application and the re-arming of the ping timer keep.\<close>

definition good_env :: "ws_env \<Rightarrow> bool" where
  "good_env env \<longleftrightarrow> fresh_alloc env \<and> (\<forall>xs. mset (iter_order env xs) = mset xs)"

definition within :: "nat \<Rightarrow> ws_world \<Rightarrow> ws_world \<Rightarrow> bool" where
  "within k w w' \<longleftrightarrow> walive w' = walive w \<and> wloop w' = wloop w \<and> wnext w' = wnext w \<and>
     nextId (wwheel w) \<le> nextId (wwheel w') \<and> nextId (wwheel w') \<le> nextId (wwheel w) + k \<and>
     currentTick (wwheel w') = currentTick (wwheel w) \<and> tickMs (wwheel w') = tickMs (wwheel w)"

lemma steady_within: "steady w w' \<Longrightarrow> within k w w'" by (simp add: steady_def within_def)

lemma within_trans: "within k w w' \<Longrightarrow> within l w' w'' \<Longrightarrow> k + l \<le> m \<Longrightarrow> within m w w''" by (simp add: within_def)

lemma socket_call_ok:
  assumes inv: "ws_inv w []" and env: "good_env env"
  shows "\<exists>w'. socket_call env cid c w = Inr w' \<and> ws_inv w' [] \<and> steady w w'"
proof -
  have so: "subs_ok w" and al: "fresh_alloc env" and it: "\<And>xs. mset (iter_order env xs) = mset xs"
    using inv env by (simp_all add: ws_inv_def good_env_def)
  have log: "ws_inv (w\<lparr>wlog := l\<rparr>) [] \<and> steady w (w\<lparr>wlog := l\<rparr>)" for l
    using inv ws_inv_cong [of "w\<lparr>wlog := l\<rparr>" w "[]"] by (simp add: timer_view_def steady_def)
  have sends: "\<exists>w'. socket_send env cid opc pl w = Inr w' \<and> ws_inv w' [] \<and> steady w w'" for opc pl
    using inv by (simp add: socket_send_eq [OF so])
  have casts: "\<exists>w'. socket_broadcast env sd t m w = Inr w' \<and> ws_inv w' [] \<and> steady w w'" for sd t m
    using socket_broadcast_ok [OF so it, where sender = sd and topic = t and msg = m] log by metis
  have closes: "\<exists>w'. socket_close cid k r w = Inr w' \<and> ws_inv w' [] \<and> steady w w'" for k r
  proof (cases "ws_ctx (state_of cid w) \<and> ws_sub (state_of cid w) \<noteq> None")
    case True
    obtain t where t: "release_sub cid w = Inr (upd_state cid (\<lambda>st. st\<lparr>ws_sub := None\<rparr>) (w\<lparr>wtree := t\<rparr>))"
      "subs_ok (upd_state cid (\<lambda>st. st\<lparr>ws_sub := None\<rparr>) (w\<lparr>wtree := t\<rparr>))" by (rule release_sub_ok [OF so])
    have "timer_view (upd_state cid (\<lambda>st. st\<lparr>ws_sub := None\<rparr>) (w\<lparr>wtree := t\<rparr>)) = timer_view w"
      by (simp add: timer_view_def fun_eq_iff)
    from tree_change [OF inv this t(2)] t(1) True show ?thesis by (simp add: socket_close_def steady_def)
  qed (use inv in \<open>auto simp: socket_close_def\<close>)
  show ?thesis
  proof (cases c)
    case (Subscribe t)
    then show ?thesis using socket_subscribe_ok [OF so al, of cid t] tree_change [OF inv] by (metis socket_call.simps(4))
  next
    case (Unsubscribe t)
    then show ?thesis using socket_unsubscribe_ok [OF so, of cid t] tree_change [OF inv] by (metis socket_call.simps(5))
  next
    case CloseContext
    then show ?thesis using context_close_ok [OF inv, of cid] by auto
  qed (use sends casts closes inv in \<open>auto simp: socket_publish_def split: option.split\<close>)
qed

lemma socket_calls_ok:
  assumes "ws_inv w []" and "good_env env"
  shows "\<exists>w'. socket_calls env cid cs w = Inr w' \<and> ws_inv w' [] \<and> steady w w'"
  using assms(1)
proof (induction cs arbitrary: w)
  case (Cons c cs)
  obtain w1 where w1: "socket_call env cid c w = Inr w1" "ws_inv w1 []" "steady w w1"
    using socket_call_ok [OF Cons.prems assms(2)] by blast
  from Cons.IH [OF w1(2)] w1 show ?case by (auto intro: steady_trans)
qed simp

lemma schedulePing_ok:
  assumes inv: "ws_inv w []" and cid: "cid \<in> wloop w" and id: "Suc (nextId (wwheel w)) < SZ"
  shows "\<exists>w'. schedulePing env cid w = Inr w' \<and> ws_inv w' [] \<and> within 1 w w' \<and> wlog w' = wlog w \<and>
     wclosed w' = wclosed w \<and> wtree w' = wtree w \<and> (\<forall>c. ws_sub (state_of c w') = ws_sub (state_of c w)) \<and>
     (pingIntervalMs env \<noteq> 0 \<longrightarrow> (\<exists>i. \<lparr>tid = i, expirationTick = add_sz (currentTick (wwheel w))
        (delay_ticks (tickMs (wwheel w)) (pingIntervalMs env)), callback = Some (PingFires cid), canceled = False\<rparr>
        \<in> pending (wwheel w')))"
proof -
  let ?w = "cancelTimers cid w"
  have tr: "tracked w []" and so: "subs_ok w" using inv by (simp_all add: ws_inv_def)
  note c = tracked_cancel [OF tr cid, simplified]
  have inv1: "ws_inv ?w []" using c(1) so by (simp add: ws_inv_def cancelTimers_subs)
  show ?thesis
  proof (cases "pingIntervalMs env = 0")
    case True
    then show ?thesis using inv1 by (simp add: schedulePing_def within_def)
  next
    case False
    have al: "cid \<in> walive ?w" using tr cid by (auto simp: tracked_def)
    obtain wh where wh: "addTimer (pingIntervalMs env) (Some (PingFires cid)) (wwheel ?w) = Inr (wh, nextId (wwheel ?w))"
        "nextId wh = Suc (nextId (wwheel ?w))"
        "tracked (upd_state cid (\<lambda>st. st\<lparr>pingTimerId := nextId (wwheel ?w)\<rparr>) (?w\<lparr>wwheel := wh\<rparr>)) []"
        "pending wh = insert \<lparr>tid = nextId (wwheel ?w), expirationTick = add_sz (currentTick (wwheel ?w)) (delay_ticks (tickMs (wwheel ?w)) (pingIntervalMs env)),
           callback = Some (PingFires cid), canceled = False\<rparr> (pending (wwheel ?w))"
        "currentTick wh = currentTick (wwheel ?w)" "tickMs wh = tickMs (wwheel ?w)"
      by (rule tracked_add [OF c(1) al, of "PingFires cid" "\<lambda>i st. st\<lparr>pingTimerId := i\<rparr>"]) (use id c(2) in auto)
    have "subs_ok (upd_state cid (\<lambda>st. st\<lparr>pingTimerId := nextId (wwheel ?w)\<rparr>) (?w\<lparr>wwheel := wh\<rparr>))"
      using so by (subst subs_ok_cong [of _ w]) simp_all
    then show ?thesis using wh cid False by (auto simp: schedulePing_def ws_inv_def within_def)
  qed
qed


abbreviation safe_result :: "nat \<Rightarrow> ws_world \<Rightarrow> ws_world res \<Rightarrow> bool" where
  "safe_result k w r \<equiv> \<exists>w'. r = Inr w' \<and> ws_inv w' [] \<and> within k w w'"

lemma notify_ping_ok:
  assumes inv: "ws_inv w []" and env: "good_env env" and cid: "cid \<in> wloop w" and id: "Suc (nextId (wwheel w)) < SZ"
  shows "safe_result 1 w (rbind (notify env cid u w) (schedulePing env cid))"
proof -
  obtain w1 where w1: "notify env cid u w = Inr w1" "ws_inv w1 []" "steady w w1"
    using socket_calls_ok [OF inv env] unfolding notify_def by blast
  have "cid \<in> wloop w1" "Suc (nextId (wwheel w1)) < SZ" using w1(3) cid id by (simp_all add: steady_def)
  from schedulePing_ok [OF w1(2) this, of env] w1 show ?thesis by (auto simp: within_def steady_def)
qed

lemma open_socket_ok:
  assumes inv: "ws_inv w []" and env: "good_env env" and cid: "cid \<in> wloop w" and id: "Suc (nextId (wwheel w)) < SZ"
  shows "safe_result 1 w (open_socket env cid w)"
proof -
  let ?w = "upd_state cid (\<lambda>st. st\<lparr>ws_ctx := True\<rparr>) w"
  let ?w1 = "upd_state cid (\<lambda>st. st\<lparr>opened := True\<rparr>) ?w"
  have "safe_result 1 ?w1 (rbind (notify env cid OnOpen ?w1) (schedulePing env cid))"
    by (rule notify_ping_ok) (use assms in simp_all)
  then show ?thesis using inv by (auto simp: open_socket_def within_def Let_def)
qed

lemma answer_pong_ok:
  assumes inv: "ws_inv w []" and cid: "cid \<in> wloop w" and id: "Suc (nextId (wwheel w)) < SZ"
  shows "safe_result 1 w (answer_pong env cid frame w)"
proof -
  let ?w = "upd_state cid (\<lambda>st. st\<lparr>waitingPong := False\<rparr>) (cancelTimers cid w)"
  have tr: "tracked w []" and so: "subs_ok w" using inv by (simp_all add: ws_inv_def)
  have "timer_view ?w = timer_view (cancelTimers cid w)" by (simp add: timer_view_def fun_eq_iff)
  from timer_view_tracked [OF this] have "tracked ?w []" using tracked_cancel(1) [OF tr cid] by simp
  moreover have "subs_ok ?w" using so by (subst subs_ok_cong [of _ w]) simp_all
  ultimately have "safe_result 1 ?w (schedulePing env cid ?w)"
    using schedulePing_ok [of ?w cid env] cid id by (auto simp: ws_inv_def)
  then show ?thesis using inv by (auto simp: answer_pong_def within_def)
qed

lemma close_frame_ok:
  assumes inv: "ws_inv w []" and cid: "cid \<in> wloop w"
  obtains w' where "release_sub cid (cancelTimers cid w) = Inr w'" "ws_inv w' []" "steady w w'" "quiet cid w'" "wlog w' = wlog w"
proof -
  have tr: "tracked w []" and so: "subs_ok (cancelTimers cid w)" using inv by (simp_all add: ws_inv_def cancelTimers_subs)
  note c = tracked_cancel [OF tr cid, simplified]
  obtain t where t: "release_sub cid (cancelTimers cid w) = Inr (upd_state cid (\<lambda>st. st\<lparr>ws_sub := None\<rparr>) ((cancelTimers cid w)\<lparr>wtree := t\<rparr>))"
      "subs_ok (upd_state cid (\<lambda>st. st\<lparr>ws_sub := None\<rparr>) ((cancelTimers cid w)\<lparr>wtree := t\<rparr>))"
    by (rule release_sub_ok [OF so])
  let ?w = "upd_state cid (\<lambda>st. st\<lparr>ws_sub := None\<rparr>) ((cancelTimers cid w)\<lparr>wtree := t\<rparr>)"
  have "timer_view ?w = timer_view (cancelTimers cid w)" by (simp add: timer_view_def fun_eq_iff)
  from timer_view_tracked [OF this] have "ws_inv ?w []" using c(1) t(2) by (simp add: ws_inv_def)
  moreover have "steady w ?w" "quiet cid ?w" "wlog ?w = wlog w" using c(2) by (simp_all add: steady_def quiet_def)
  ultimately show ?thesis using that t(1) by blast
qed

lemma handle_frame_ok:
  assumes inv: "ws_inv w []" and env: "good_env env" and cid: "cid \<in> wloop w" and id: "Suc (nextId (wwheel w)) < SZ"
  shows "safe_result 1 w (handle_frame env cid frame w)"
proof (cases "ws_opcode frame = op_CLOSE")
  case True
  obtain w1 where w1: "release_sub cid (cancelTimers cid w) = Inr w1" "ws_inv w1 []" "steady w w1"
    by (rule close_frame_ok [OF inv cid])
  let ?w = "ws_emit (FireWrite cid (simple_frame op_CLOSE (ws_payload frame))) w1"
  have "\<exists>w'. notify env cid (OnClose 0 (ws_payload frame)) ?w = Inr w' \<and> ws_inv w' [] \<and> steady ?w w'"
    unfolding notify_def by (rule socket_calls_ok) (use w1 env in simp_all)
  then show ?thesis using w1 True by (auto simp: handle_frame_def steady_def within_def)
next
  case False
  let ?w = "ws_emit (FireWrite cid (simple_frame op_PONG (ws_payload frame))) w"
  have ping: "safe_result 1 w (schedulePing env cid ?w)"
    using schedulePing_ok [of ?w cid env] inv cid id by (auto simp: within_def)
  show ?thesis using False ping notify_ping_ok [OF assms] inv
    by (auto simp: handle_frame_def within_def simp del: rbind_eq_Inr)
qed

lemma channelRead_ok:
  assumes inv: "ws_inv w []" and env: "good_env env" and cid: "cid \<in> wloop w" and id: "nextId (wwheel w) + 4 < SZ"
  shows "safe_result 3 w (channelRead env cid msg w)"
proof -
  obtain w1 where w1: "open_socket env cid w = Inr w1" "ws_inv w1 []" "within 1 w w1"
    using open_socket_ok [OF inv env cid] id by auto
  show ?thesis
  proof (cases msg)
    case None
    then show ?thesis using w1 by (auto simp: channelRead_def within_def)
  next
    case (Some f)
    let ?w = "ws_emit (Activity cid) w1"
    have "cid \<in> wloop ?w" "Suc (nextId (wwheel ?w)) < SZ" using w1 cid id by (auto simp: within_def)
    then obtain w2 where w2: "answer_pong env cid f ?w = Inr w2" "ws_inv w2 []" "within 1 ?w w2"
      using answer_pong_ok [of ?w cid env f] w1 by auto
    have "cid \<in> wloop w2" "Suc (nextId (wwheel w2)) < SZ" using w1 w2 cid id by (auto simp: within_def)
    from handle_frame_ok [OF w2(2) env this, of f] w1 w2 Some show ?thesis
      by (auto simp: channelRead_def within_def)
  qed
qed

section \<open>A tick of the wheel\<close>

lemma recorded_conn:
  assumes "recorded w e"
  obtains cid where "callback e = Some (PingFires cid)" "timer_conn e = cid" "cid \<in> walive w \<Longrightarrow> \<not> waitingPong (state_of cid w)"
  | cid where "callback e = Some (PongFires cid)" "timer_conn e = cid" "cid \<in> walive w \<Longrightarrow> waitingPong (state_of cid w)"
  using assms by (auto simp: recorded_def timer_conn_def split: option.splits ws_timer.splits)

lemma tracked_tail: "tracked w (e # es) \<Longrightarrow> tracked w es"
  unfolding tracked_def by (auto intro: inj_on_subset)

lemma tail_conns:
  assumes "tracked w (e # es)" and "timer_conn e \<in> walive w"
  shows "\<forall>x \<in> pending (wwheel w) \<union> set es. timer_conn x \<in> walive w \<longrightarrow> timer_conn x \<noteq> timer_conn e"
proof (intro ballI impI notI)
  fix x assume x: "x \<in> pending (wwheel w) \<union> set es" "timer_conn x = timer_conn e"
  have "e = x" by (rule recorded_unique [OF assms(1)]) (use x assms(2) in simp_all)
  then show False using assms(1) x(1) by (auto simp: tracked_def)
qed

lemma ping_fires_ok:
  assumes inv: "ws_inv w (e # es)" and e: "callback e = Some (PingFires cid)" and id: "Suc (nextId (wwheel w)) < SZ"
  shows "\<exists>w'. ping_fires env cid w = Inr w' \<and> ws_inv w' es \<and> within 1 w w' \<and>
     wclosed w' = wclosed w \<and> set (wlog w) \<subseteq> set (wlog w') \<and>
     pending (wwheel w) \<subseteq> pending (wwheel w') \<and>
     (cid \<in> wloop w \<longrightarrow> FireWrite cid (simple_frame op_PING []) \<in> set (wlog w') \<and>
       (\<exists>i. \<lparr>tid = i, expirationTick = add_sz (currentTick (wwheel w))
        (delay_ticks (tickMs (wwheel w)) (pongTimeoutMs env)), callback = Some (PongFires cid), canceled = False\<rparr>
        \<in> pending (wwheel w')))"
proof (cases "cid \<in> walive w")
  case False
  have "cid \<notin> wloop w" using False inv by (auto simp: ws_inv_def tracked_def)
  then show ?thesis using False inv tracked_tail by (auto simp: ping_fires_def ws_inv_def within_def)
next
  case True
  have tr: "tracked w (e # es)" and so: "subs_ok w" using inv by (simp_all add: ws_inv_def)
  have conn: "timer_conn e = cid" using e by (simp add: timer_conn_def)
  have "recorded w e" using tr by (simp add: tracked_def)
  then have np: "\<not> waitingPong (state_of cid w)" using e True by (simp add: recorded_def)
  have free: "\<forall>x \<in> pending (wwheel w) \<union> set es. timer_conn x \<in> walive w \<longrightarrow> timer_conn x \<noteq> cid"
    using tail_conns [OF tr] True conn by simp
  let ?w = "upd_state cid (\<lambda>st. st\<lparr>waitingPong := True, pingTimerId := 0\<rparr>)
     (ws_emit (Activity cid) (ws_emit (FireWrite cid (simple_frame op_PING [])) w))"
  have "recorded ?w x" if "x \<in> pending (wwheel w) \<union> set es" for x
    by (rule recorded_other [of w _ cid]) (use that tr free True in \<open>auto simp: tracked_def\<close>)
  then have tr1: "tracked ?w es" using tracked_tail [OF tr] by (auto simp: tracked_def)
  have so1: "subs_ok (upd_state cid (\<lambda>st. st\<lparr>pongTimerId := i\<rparr>) (?w\<lparr>wwheel := wh\<rparr>))" "subs_ok ?w" for i wh
    using so by (subst subs_ok_cong [of _ w]; simp)+
  show ?thesis
  proof (cases "cid \<in> wloop w")
    case False
    then show ?thesis using True np tr1 so1(2) by (auto simp: ping_fires_def ws_inv_def within_def)
  next
    case loop: True
    obtain wh where wh: "addTimer (pongTimeoutMs env) (Some (PongFires cid)) (wwheel ?w) = Inr (wh, nextId (wwheel ?w))"
        "nextId wh = Suc (nextId (wwheel ?w))"
        "tracked (upd_state cid (\<lambda>st. st\<lparr>pongTimerId := nextId (wwheel ?w)\<rparr>) (?w\<lparr>wwheel := wh\<rparr>)) es"
        "pending wh = insert \<lparr>tid = nextId (wwheel ?w), expirationTick = add_sz (currentTick (wwheel ?w)) (delay_ticks (tickMs (wwheel ?w)) (pongTimeoutMs env)),
           callback = Some (PongFires cid), canceled = False\<rparr> (pending (wwheel ?w))"
        "currentTick wh = currentTick (wwheel ?w)" "tickMs wh = tickMs (wwheel ?w)"
      by (rule tracked_add [OF tr1, of cid "PongFires cid" "\<lambda>i st. st\<lparr>pongTimerId := i\<rparr>"]) (use True id free in auto)
    then show ?thesis using True np loop so1(1) by (auto simp: ping_fires_def ws_inv_def within_def)
  qed
qed

lemma pong_fires_ok:
  assumes inv: "ws_inv w (e # es)" and e: "callback e = Some (PongFires cid)"
  shows "\<exists>w'. pong_fires cid w = Inr w' \<and> ws_inv w' es \<and> steady w w' \<and> wlog w' = wlog w \<and>
     (cid \<in> wloop w \<longrightarrow> cid \<in> wclosed w') \<and> wclosed w \<subseteq> wclosed w' \<and>
     {e \<in> pending (wwheel w). timer_conn e \<noteq> cid} \<subseteq> pending (wwheel w')"
proof (cases "cid \<in> walive w")
  case False
  then show ?thesis using inv tracked_tail by (auto simp: pong_fires_def ws_inv_def tracked_def)
next
  case True
  have tr: "tracked w (e # es)" using inv by (simp add: ws_inv_def)
  have conn: "timer_conn e = cid" using e by (simp add: timer_conn_def)
  have "ws_inv w es" using inv tracked_tail by (auto simp: ws_inv_def)
  from context_close_ok [OF this, of cid] tail_conns [OF tr] conn True show ?thesis
    by (auto simp: pong_fires_def)
qed

lemma fire_entries_ok:
  assumes "ws_inv w es" and "nextId (wwheel w) + length es < SZ - 1"
  shows "\<exists>w'. fire_entries env es w = Inr w' \<and> ws_inv w' [] \<and> within (length es) w w'"
  using assms
proof (induction es arbitrary: w)
  case (Cons e es)
  have "recorded w e" using Cons.prems(1) by (simp add: ws_inv_def tracked_def)
  then obtain w1 where w1: "(case callback e of None \<Rightarrow> Inr w | Some cb \<Rightarrow> timer_fires env cb w) = Inr w1" "ws_inv w1 es" "within 1 w w1"
  proof (cases rule: recorded_conn)
    case (1 cid)
    have "Suc (nextId (wwheel w)) < SZ" using Cons.prems(2) by simp
    from ping_fires_ok [OF Cons.prems(1) 1(1) this, of env] 1(1) that show ?thesis by (auto simp: timer_fires_def)
  next
    case (2 cid)
    from pong_fires_ok [OF Cons.prems(1) 2(1)] 2(1) that show ?thesis by (auto simp: timer_fires_def intro: steady_within)
  qed
  have "nextId (wwheel w1) + length es < SZ - 1" using w1(3) Cons.prems(2) by (simp add: within_def)
  from Cons.IH [OF w1(2) this] w1 show ?case by (auto simp: within_def)
qed (simp add: within_def)


definition slack :: "ws_world \<Rightarrow> bool" where
  "slack w \<longleftrightarrow> nextId (wwheel w) + length (due_entries (wwheel w)) + 4 < SZ"

lemma drop_due_inv:
  assumes "ws_inv w []"
  shows "ws_inv (w\<lparr>wwheel := drop_due (wwheel w)\<rparr>) (due_entries (wwheel w))"
proof -
  let ?w = "w\<lparr>wwheel := drop_due (wwheel w)\<rparr>"
  have tr: "tracked w []" using assms by (simp add: ws_inv_def)
  have wf: "wf_wheel (wwheel w)" "ids_ok (wwheel w)" using tr by (simp_all add: tracked_def)
  note d = drop_due_facts [OF wf]
  have un: "pending (wwheel ?w) \<union> set (due_entries (wwheel w)) = pending (wwheel w)" using d(4,5) by auto
  have "recorded ?w e \<longleftrightarrow> recorded w e" for e using d(6) by (simp add: recorded_wheel)
  then have "tracked ?w (due_entries (wwheel w))"
    using tr d(1-3,5,6) unfolding tracked_def un by auto
  moreover have "subs_ok ?w" using assms by (simp add: ws_inv_def subs_ok_def)
  ultimately show ?thesis by (simp add: ws_inv_def)
qed

lemma next_tick_inv: "ws_inv (w\<lparr>wwheel := next_tick (wwheel w)\<rparr>) [] \<longleftrightarrow> ws_inv w []"
proof -
  have "pending (next_tick h) = pending h" "wf_wheel (next_tick h) = wf_wheel h" "ids_ok (next_tick h) = ids_ok h"
    "nextId (next_tick h) = nextId h" for h :: "ws_timer wheel"
    by (simp_all add: next_tick_def pending_def wf_wheel_def ids_ok_def)
  then show ?thesis by (simp add: ws_inv_def tracked_def recorded_wheel subs_ok_def)
qed

lemma loop_tick_ok:
  assumes inv: "ws_inv w []" and sl: "slack w"
  obtains w' where "fire_entries env (due_entries (wwheel w)) (w\<lparr>wwheel := drop_due (wwheel w)\<rparr>) = Inr w'"
    "loop_tick env w = Inr (w'\<lparr>wwheel := next_tick (wwheel w')\<rparr>)" "ws_inv (w'\<lparr>wwheel := next_tick (wwheel w')\<rparr>) []"
    "within (length (due_entries (wwheel w))) (w\<lparr>wwheel := drop_due (wwheel w)\<rparr>) w'"
proof -
  let ?w = "w\<lparr>wwheel := drop_due (wwheel w)\<rparr>" and ?es = "due_entries (wwheel w)"
  have wf: "wf_wheel (wwheel w)" "ids_ok (wwheel w)" using inv by (simp_all add: ws_inv_def tracked_def)
  have "nextId (wwheel ?w) + length ?es < SZ - 1" using sl drop_due_facts(6) [OF wf] by (simp add: slack_def)
  from fire_entries_ok [OF drop_due_inv [OF inv] this, of env] obtain w' where
    w': "fire_entries env ?es ?w = Inr w'" "ws_inv w' []" "within (length ?es) ?w w'" by blast
  moreover have "loop_tick env w = Inr (w'\<lparr>wwheel := next_tick (wwheel w')\<rparr>)"
    using w'(1) wf(1) mod_less_divisor [of "numSlots (wwheel w)" "currentTick (wwheel w)"]
    by (auto simp: loop_tick_def Let_def wf_wheel_def simp del: mod_less_divisor)
  ultimately show ?thesis using that next_tick_inv by blast
qed

end
