(* ===== verification/WsWorld.thy ===== *)
theory WsWorld
  imports WsHandler
begin

text \<open>
  Runs of a worker loop that serves WebSocket connections: connections are accepted, deliver frames,
  end and are destroyed, the wheel ticks, tasks of other loops arrive, in any order. The invariant of
  \<open>WsHandler\<close> holds in every reachable world, so no event ever faults, a connection never has more than
  one live timer, and a silent peer is pinged and then closed. The two theorems at the end show where
  the program breaks: the first timer of a loop, whose identifier 0 the handler takes for none, and a
  connection that the worker removes without announcing it as inactive.
\<close>

section \<open>Runs\<close>

datatype ws_event =
    EvAccept
  | EvRead nat "ws_frame option"
  | EvInactive nat
  | EvTick
  | EvTask nat string
  | EvConnGone nat
  | EvContextGone nat

text \<open>
  What one event does. Reads and the end of a connection are reported for connections that exist;
  an event outside these conditions is not one the loop delivers.
\<close>

definition ws_event_enabled :: "ws_event \<Rightarrow> ws_world \<Rightarrow> bool" where
  "ws_event_enabled ev w = (case ev of
     EvRead cid msg \<Rightarrow> cid \<in> wloop w
   | EvInactive cid \<Rightarrow> cid \<in> wloop w
   | EvConnGone cid \<Rightarrow> cid \<in> wclosed w
   | EvContextGone cid \<Rightarrow> cid \<notin> wloop w \<and> ws_sub (state_of cid w) = None
   | _ \<Rightarrow> True)"

definition ws_react :: "ws_env \<Rightarrow> ws_event \<Rightarrow> ws_world \<Rightarrow> ws_world res" where
  "ws_react env ev w = (case ev of
     EvAccept \<Rightarrow> Inr (accept_conn w)
   | EvRead cid msg \<Rightarrow> channelRead env cid msg w
   | EvInactive cid \<Rightarrow> channelInactive cid (w\<lparr>wclosed := insert cid (wclosed w)\<rparr>)
   | EvTick \<Rightarrow> loop_tick env w
   | EvTask cid msg \<Rightarrow> Inr (deliver_task cid msg w)
   | EvConnGone cid \<Rightarrow> Inr (conn_gone cid w)
   | EvContextGone cid \<Rightarrow> Inr (context_gone cid w))"

inductive ws_run :: "ws_env \<Rightarrow> ws_world \<Rightarrow> ws_event list \<Rightarrow> ws_world \<Rightarrow> bool" for env w0 where
  ws_run_start: "ws_run env w0 [] w0"
| ws_run_step: "ws_run env w0 evs w \<Longrightarrow> ws_event_enabled ev w \<Longrightarrow> slack w \<Longrightarrow> ws_react env ev w = Inr w' \<Longrightarrow>
     ws_run env w0 (evs @ [ev]) w'"

lemma ws_react_ok:
  assumes inv: "ws_inv w []" and env: "good_env env" and en: "ws_event_enabled ev w" and sl: "slack w"
  shows "\<exists>w'. ws_react env ev w = Inr w' \<and> ws_inv w' []"
proof (cases ev)
  case EvAccept
  have new: "wnext w \<notin> walive w" using inv by (auto simp: ws_inv_def tracked_def)
  have st: "state_of c (accept_conn w) = state_of c w" for c by (simp add: state_of_def accept_conn_def)
  have fr: "wwheel (accept_conn w) = wwheel w" "wtree (accept_conn w) = wtree w" "wnext (accept_conn w) = Suc (wnext w)"
    "walive (accept_conn w) = insert (wnext w) (walive w)" "wloop (accept_conn w) = insert (wnext w) (wloop w)"
    by (simp_all add: accept_conn_def)
  have "recorded (accept_conn w) e" if "recorded w e" for e
    using that new by (auto simp: recorded_def st fr split: option.splits ws_timer.splits)
  then have "tracked (accept_conn w) []" using inv by (auto simp: ws_inv_def tracked_def fr st)
  moreover have "subs_ok (accept_conn w)" using inv by (simp add: ws_inv_def subs_ok_def st fr)
  ultimately show ?thesis using EvAccept by (simp add: ws_react_def ws_inv_def)
next
  case (EvRead cid msg)
  then show ?thesis using channelRead_ok [OF inv env, of cid msg] en sl
    by (auto simp: ws_react_def ws_event_enabled_def slack_def)
next
  case (EvInactive cid)
  let ?w = "w\<lparr>wclosed := insert cid (wclosed w)\<rparr>"
  have "ws_inv ?w []" using inv by (subst ws_inv_cong [of _ w]) (simp_all add: timer_view_def)
  from channelInactive_ok [OF this, of cid] EvInactive en show ?thesis
    by (auto simp: ws_react_def ws_event_enabled_def)
next
  case EvTick
  then show ?thesis using loop_tick_ok [OF inv sl, of env] by (simp add: ws_react_def) blast
next
  case (EvTask cid msg)
  then show ?thesis using inv by (simp add: ws_react_def deliver_task_def)
next
  case (EvConnGone cid)
  have "recorded (w\<lparr>wloop := l\<rparr>) e \<longleftrightarrow> recorded w e" for l e
    by (auto simp: recorded_def split: option.split ws_timer.split)
  then have "tracked (conn_gone cid w) []" using inv by (auto simp: ws_inv_def tracked_def conn_gone_def)
  moreover have "subs_ok (conn_gone cid w)" using inv by (simp add: ws_inv_def conn_gone_def subs_ok_def)
  ultimately show ?thesis using EvConnGone by (simp add: ws_react_def ws_inv_def)
next
  case (EvContextGone cid)
  have no: "ws_sub (state_of cid w) = None" "cid \<notin> wloop w" using EvContextGone en by (simp_all add: ws_event_enabled_def)
  have st: "state_of c (context_gone cid w) = (if c = cid then ws_state_new else state_of c w)" for c
    by (simp add: state_of_def context_gone_def)
  have fr: "wwheel (context_gone cid w) = wwheel w" "wloop (context_gone cid w) = wloop w" "wnext (context_gone cid w) = wnext w"
    "walive (context_gone cid w) = walive w - {cid}" "wtree (context_gone cid w) = wtree w"
    using no by (simp_all add: context_gone_def)
  have "recorded (context_gone cid w) e" if "recorded w e" for e
    using that by (auto simp: recorded_def st fr ws_state_new_def split: option.splits ws_timer.splits)
  then have "tracked (context_gone cid w) []" using inv no by (auto simp: ws_inv_def tracked_def fr st ws_state_new_def)
  moreover have "subs_ok (context_gone cid w)"
    by (subst subs_ok_cong [of _ w]) (use inv no in \<open>simp_all add: fr st ws_inv_def ws_state_new_def\<close>)
  ultimately show ?thesis using EvContextGone by (simp add: ws_react_def ws_inv_def)
qed

lemma ws_run_inv: "ws_run env w0 evs w \<Longrightarrow> ws_inv w0 [] \<Longrightarrow> good_env env \<Longrightarrow> ws_inv w []"
proof (induction rule: ws_run.induct)
  case (ws_run_step evs w ev w')
  then show ?case using ws_react_ok [of w env ev] by auto
qed


section \<open>What a tick does\<close>

definition timer_for :: "nat \<Rightarrow> nat \<Rightarrow> ws_timer \<Rightarrow> ws_timer timer_entry" where
  "timer_for i x cb = \<lparr>tid = i, expirationTick = x, callback = Some cb, canceled = False\<rparr>"

definition pong_due :: "ws_env \<Rightarrow> ws_timer wheel \<Rightarrow> nat" where
  "pong_due env wh = add_sz (currentTick wh) (delay_ticks (tickMs wh) (pongTimeoutMs env))"

text \<open>The timers of living connections survive, pings are sent and followed by a timer, late pongs close.\<close>

definition fire_effect :: "ws_env \<Rightarrow> ws_world \<Rightarrow> ws_timer timer_entry list \<Rightarrow> ws_world \<Rightarrow> bool" where
  "fire_effect env w es w' \<longleftrightarrow>
     {x \<in> pending (wwheel w). timer_conn x \<in> walive w} \<subseteq> pending (wwheel w') \<and>
     set (wlog w) \<subseteq> set (wlog w') \<and> wclosed w \<subseteq> wclosed w' \<and>
     (\<forall>e \<in> set es. \<forall>cid \<in> wloop w.
        (callback e = Some (PingFires cid) \<longrightarrow> FireWrite cid (simple_frame op_PING []) \<in> set (wlog w') \<and>
           (\<exists>i. timer_for i (pong_due env (wwheel w)) (PongFires cid) \<in> pending (wwheel w'))) \<and>
        (callback e = Some (PongFires cid) \<longrightarrow> cid \<in> wclosed w'))"

lemma fire_effect_step:
  assumes one: "fire_effect env w [e] w1" and rest: "fire_effect env w1 es w'" and same: "within k w w1"
    and alive: "wloop w \<subseteq> walive w"
  shows "fire_effect env w (e # es) w'"
proof -
  have eq: "walive w1 = walive w" "wloop w1 = wloop w" "pong_due env (wwheel w1) = pong_due env (wwheel w)"
    using same by (simp_all add: within_def pong_due_def)
  have sub: "{x \<in> pending (wwheel w1). timer_conn x \<in> walive w} \<subseteq> pending (wwheel w')"
    "set (wlog w1) \<subseteq> set (wlog w')" "wclosed w1 \<subseteq> wclosed w'" using rest eq by (simp_all add: fire_effect_def)
  have conn: "timer_conn (timer_for i x (PongFires cid)) = cid" for i x cid by (simp add: timer_conn_def timer_for_def)
  have up: "timer_for i x (PongFires cid) \<in> pending (wwheel w')"
    if "timer_for i x (PongFires cid) \<in> pending (wwheel w1)" "cid \<in> wloop w" for i x cid
    using that sub(1) alive conn [of i x cid] by (auto simp: subset_iff)
  show ?thesis unfolding fire_effect_def
  proof (intro conjI ballI impI)
    fix x cid assume x: "x \<in> set (e # es)" "cid \<in> wloop w"
    show "FireWrite cid (simple_frame op_PING []) \<in> set (wlog w')" if "callback x = Some (PingFires cid)"
      using that x one rest sub(2) eq by (auto simp: fire_effect_def)
    show "\<exists>i. timer_for i (pong_due env (wwheel w)) (PongFires cid) \<in> pending (wwheel w')" if "callback x = Some (PingFires cid)"
      using that x one rest eq up by (fastforce simp: fire_effect_def)
    show "cid \<in> wclosed w'" if "callback x = Some (PongFires cid)"
      using that x one rest sub(3) eq by (auto simp: fire_effect_def)
  qed (use one rest eq in \<open>auto simp: fire_effect_def\<close>)
qed

lemma fire_one_effect:
  assumes inv: "ws_inv w (e # es)" and id: "Suc (nextId (wwheel w)) < SZ"
  obtains w1 where "(case callback e of None \<Rightarrow> Inr w | Some cb \<Rightarrow> timer_fires env cb w) = Inr w1" "ws_inv w1 es"
    "within 1 w w1" "fire_effect env w [e] w1"
proof -
  have tr: "tracked w (e # es)" using inv by (simp add: ws_inv_def)
  have "recorded w e" using tr by (simp add: tracked_def)
  then show ?thesis
  proof (cases rule: recorded_conn)
    case (1 cid)
    then show ?thesis using ping_fires_ok [OF inv 1(1) id, of env] that
      by (auto simp: timer_fires_def fire_effect_def timer_for_def pong_due_def)
  next
    case (2 cid)
    have "{x \<in> pending (wwheel w). timer_conn x \<in> walive w} \<subseteq> {x \<in> pending (wwheel w). timer_conn x \<noteq> cid}"
      using tail_conns [OF tr] 2(2) by (cases "cid \<in> walive w") auto
    then show ?thesis using pong_fires_ok [OF inv 2(1)] 2(1) that
      by (auto simp: timer_fires_def fire_effect_def steady_within) 
  qed
qed


lemma fire_entries_effect:
  assumes "ws_inv w es" and "nextId (wwheel w) + length es < SZ - 1" and "fire_entries env es w = Inr w'"
  shows "fire_effect env w es w'"
  using assms
proof (induction es arbitrary: w)
  case Nil
  then show ?case by (simp add: fire_effect_def)
next
  case (Cons e es)
  have "Suc (nextId (wwheel w)) < SZ" using Cons.prems(2) by simp
  then obtain w1 where w1: "(case callback e of None \<Rightarrow> Inr w | Some cb \<Rightarrow> timer_fires env cb w) = Inr w1" "ws_inv w1 es"
    "within 1 w w1" "fire_effect env w [e] w1" by (rule fire_one_effect [OF Cons.prems(1)])
  have "nextId (wwheel w1) + length es < SZ - 1" using w1(3) Cons.prems(2) by (simp add: within_def)
  moreover have "fire_entries env es w1 = Inr w'" using Cons.prems(3) w1(1) by simp
  ultimately have "fire_effect env w1 es w'" by (rule Cons.IH [OF w1(2)])
  then show ?case using fire_effect_step [OF w1(4) _ w1(3)] Cons.prems(1) by (simp add: ws_inv_def tracked_def)
qed

lemma loop_tick_effect:
  assumes inv: "ws_inv w []" and sl: "slack w" and tick: "loop_tick env w = Inr w'" and lim: "currentTick (wwheel w) < TICK_LIMIT"
  shows "ws_inv w' []" "walive w' = walive w" "wloop w' = wloop w" "tickMs (wwheel w') = tickMs (wwheel w)"
    "currentTick (wwheel w') = Suc (currentTick (wwheel w))"
    "set (wlog w) \<subseteq> set (wlog w')" "wclosed w \<subseteq> wclosed w'"
    "\<And>x. x \<in> pending (wwheel w) \<Longrightarrow> timer_conn x \<in> walive w \<Longrightarrow> currentTick (wwheel w) < expirationTick x \<Longrightarrow> x \<in> pending (wwheel w')"
    "\<And>x cid. x \<in> pending (wwheel w) \<Longrightarrow> expirationTick x = currentTick (wwheel w) \<Longrightarrow> callback x = Some (PingFires cid) \<Longrightarrow>
       cid \<in> wloop w \<Longrightarrow> FireWrite cid (simple_frame op_PING []) \<in> set (wlog w') \<and>
       (\<exists>i. timer_for i (pong_due env (wwheel w)) (PongFires cid) \<in> pending (wwheel w'))"
    "\<And>x cid. x \<in> pending (wwheel w) \<Longrightarrow> expirationTick x = currentTick (wwheel w) \<Longrightarrow> callback x = Some (PongFires cid) \<Longrightarrow>
       cid \<in> wloop w \<Longrightarrow> cid \<in> wclosed w'"
proof -
  let ?w = "w\<lparr>wwheel := drop_due (wwheel w)\<rparr>" and ?es = "due_entries (wwheel w)"
  have wf: "wf_wheel (wwheel w)" "ids_ok (wwheel w)" using inv by (simp_all add: ws_inv_def tracked_def)
  note d = drop_due_facts [OF wf]
  obtain w1 where w1: "fire_entries env ?es ?w = Inr w1" "loop_tick env w = Inr (w1\<lparr>wwheel := next_tick (wwheel w1)\<rparr>)"
    "ws_inv (w1\<lparr>wwheel := next_tick (wwheel w1)\<rparr>) []" "within (length ?es) ?w w1" by (rule loop_tick_ok [OF inv sl])
  have w': "w' = w1\<lparr>wwheel := next_tick (wwheel w1)\<rparr>" using w1(2) tick by simp
  have "nextId (wwheel ?w) + length ?es < SZ - 1" using sl d(6) by (simp add: slack_def)
  from fire_entries_effect [OF drop_due_inv [OF inv] this w1(1)] have f: "fire_effect env ?w ?es w1" .
  have p: "pending (wwheel w') = pending (wwheel w1)" "wlog w' = wlog w1" "wclosed w' = wclosed w1"
    by (simp_all add: w' next_tick_def pending_def)
  have pd: "pong_due env (wwheel ?w) = pong_due env (wwheel w)" using d(7,8) by (simp add: pong_due_def)
  show "ws_inv w' []" using w1(3) w' by simp
  show "walive w' = walive w" "wloop w' = wloop w" "tickMs (wwheel w') = tickMs (wwheel w)"
    "currentTick (wwheel w') = Suc (currentTick (wwheel w))"
    using w1(4) d(7,8) lim by (simp_all add: w' within_def next_tick_def add_sz_exact)
  show "set (wlog w) \<subseteq> set (wlog w')" "wclosed w \<subseteq> wclosed w'" using f p by (simp_all add: fire_effect_def)
  show "x \<in> pending (wwheel w')" if "x \<in> pending (wwheel w)" "timer_conn x \<in> walive w" "currentTick (wwheel w) < expirationTick x" for x
  proof -
    have "x \<in> pending (wwheel ?w)" using that d(4,5) by auto
    then show ?thesis using f p that(2) by (auto simp: fire_effect_def)
  qed
  have due: "x \<in> set ?es" if "x \<in> pending (wwheel w)" "expirationTick x = currentTick (wwheel w)" for x
    using that d(4) by auto
  show "FireWrite cid (simple_frame op_PING []) \<in> set (wlog w') \<and>
       (\<exists>i. timer_for i (pong_due env (wwheel w)) (PongFires cid) \<in> pending (wwheel w'))"
    if "x \<in> pending (wwheel w)" "expirationTick x = currentTick (wwheel w)" "callback x = Some (PingFires cid)" "cid \<in> wloop w" for x cid
    using f p pd due [OF that(1,2)] that(3,4) by (simp add: fire_effect_def)
  show "cid \<in> wclosed w'"
    if "x \<in> pending (wwheel w)" "expirationTick x = currentTick (wwheel w)" "callback x = Some (PongFires cid)" "cid \<in> wloop w" for x cid
    using f p due [OF that(1,2)] that(3,4) by (simp add: fire_effect_def)
qed

text \<open>Waiting for a timer through a number of ticks.\<close>

lemma ws_run_ticks:
  "ws_run env w (replicate (Suc n) EvTick) w' \<longleftrightarrow>
     (\<exists>w1. ws_run env w (replicate n EvTick) w1 \<and> slack w1 \<and> loop_tick env w1 = Inr w')"
proof -
  have r: "replicate (Suc n) EvTick = replicate n EvTick @ [EvTick]" by (simp add: replicate_append_same)
  show ?thesis unfolding r by (subst ws_run.simps) (auto simp: ws_event_enabled_def ws_react_def)
qed

lemma ws_run_none: "ws_run env w [] w' \<longleftrightarrow> w' = w"
  by (subst ws_run.simps) auto

lemma ticks_keep:
  assumes "ws_run env w (replicate n EvTick) w'" and "ws_inv w []" and "currentTick (wwheel w) + n \<le> TICK_LIMIT"
  shows "ws_inv w' [] \<and> walive w' = walive w \<and> wloop w' = wloop w \<and> tickMs (wwheel w') = tickMs (wwheel w) \<and>
    currentTick (wwheel w') = currentTick (wwheel w) + n \<and> set (wlog w) \<subseteq> set (wlog w') \<and> wclosed w \<subseteq> wclosed w' \<and>
    (\<forall>x \<in> pending (wwheel w). timer_conn x \<in> walive w \<and> currentTick (wwheel w) + n \<le> expirationTick x \<longrightarrow> x \<in> pending (wwheel w'))"
  using assms(1,3)
proof (induction n arbitrary: w')
  case 0
  then show ?case using assms(2) by (simp add: ws_run_none)
next
  case (Suc n)
  obtain w1 where w1: "ws_run env w (replicate n EvTick) w1" "slack w1" "loop_tick env w1 = Inr w'"
    using Suc.prems(1) unfolding ws_run_ticks by blast
  have ih: "ws_inv w1 [] \<and> walive w1 = walive w \<and> wloop w1 = wloop w \<and> tickMs (wwheel w1) = tickMs (wwheel w) \<and>
    currentTick (wwheel w1) = currentTick (wwheel w) + n \<and> set (wlog w) \<subseteq> set (wlog w1) \<and> wclosed w \<subseteq> wclosed w1 \<and>
    (\<forall>x \<in> pending (wwheel w). timer_conn x \<in> walive w \<and> currentTick (wwheel w) + n \<le> expirationTick x \<longrightarrow> x \<in> pending (wwheel w1))"
    using Suc.IH [OF w1(1)] Suc.prems(2) by simp
  have "currentTick (wwheel w1) < TICK_LIMIT" using ih Suc.prems(2) by simp
  note t = loop_tick_effect [OF _ w1(2,3) this]
  show ?case using ih t by auto
qed

lemma ticks_split:
  "ws_run env w (replicate (m + n) EvTick) w' \<Longrightarrow> \<exists>w1. ws_run env w (replicate m EvTick) w1 \<and> ws_run env w1 (replicate n EvTick) w'"
proof (induction n arbitrary: w')
  case (Suc n)
  then obtain w2 where "ws_run env w (replicate (m + n) EvTick) w2" "slack w2" "loop_tick env w2 = Inr w'"
    unfolding add_Suc_right ws_run_ticks by blast
  with Suc.IH [of w2] show ?case unfolding ws_run_ticks by blast
qed (auto simp: ws_run_none)


section \<open>Properties\<close>

text \<open>A loop that has already handed out \<open>k\<close> timer identifiers.\<close>

definition loop_start :: "nat \<Rightarrow> nat \<Rightarrow> nat \<Rightarrow> ws_world" where
  "loop_start n ms k = (world_new n ms)\<lparr>wwheel := (wheel_new n ms)\<lparr>nextId := k\<rparr>\<rparr>"

lemma loop_start_inv:
  assumes "0 < n" and "0 < ms" and "ms < 2 ^ 32" and "1 \<le> k"
  shows "ws_inv (loop_start n ms k) []"
proof -
  have "state_of c (loop_start n ms k) = ws_state_new" for c
    by (simp add: state_of_def loop_start_def world_new_def)
  moreover have "pending ((wheel_new n ms :: ws_timer wheel)\<lparr>nextId := k\<rparr>) = {}" by (auto simp: pending_def wheel_new_def)
  moreover have "who tree_new s = None" for s by (simp add: who_def tree_new_def)
  moreover have "tree_finite tree_new" by (simp add: tree_finite_def tree_new_def)
  moreover have "wf_wheel ((wheel_new n ms :: ws_timer wheel)\<lparr>nextId := k\<rparr>)" "ids_ok ((wheel_new n ms :: ws_timer wheel)\<lparr>nextId := k\<rparr>)"
    using assms by (simp_all add: wf_wheel_def ids_ok_def wheel_new_def)
  ultimately show ?thesis using assms wf_new
    by (simp add: ws_inv_def tracked_def subs_ok_def ws_state_new_def) (simp add: loop_start_def world_new_def)
qed

text \<open>A run of the loop from its start, where the environment is an allocator that returns free addresses and
  a set that is iterated in some order.\<close>

definition ws_reachable :: "ws_env \<Rightarrow> ws_world \<Rightarrow> bool" where
  "ws_reachable env w \<longleftrightarrow> good_env env \<and>
     (\<exists>n ms k evs. 0 < n \<and> 0 < ms \<and> ms < 2 ^ 32 \<and> 1 \<le> k \<and> ws_run env (loop_start n ms k) evs w)"

lemma reachable_inv: "ws_reachable env w \<Longrightarrow> ws_inv w []"
  unfolding ws_reachable_def using ws_run_inv loop_start_inv by blast



text \<open>Control frames are answered as the protocol asks: on an open socket a PING is answered by
  exactly one PONG with its payload; a CLOSE is echoed, after which, if the application makes no calls
  from \<open>onClose\<close>, the connection has no timer and no subscription left.\<close>

theorem ws_control_frames:
  assumes "ws_reachable env w" and "cid \<in> wloop w" and "slack w" and "opened (state_of cid w)"
  shows "(ws_opcode f = op_PING \<longrightarrow> (\<exists>w'. channelRead env cid (Some f) w = Inr w' \<and>
       wlog w' = wlog w @ [Activity cid, FireWrite cid (simple_frame op_PONG (ws_payload f))])) \<and>
    (ws_opcode f = op_CLOSE \<and> (\<forall>l. hook env l cid (OnClose 0 (ws_payload f)) = []) \<longrightarrow>
       (\<exists>w'. channelRead env cid (Some f) w = Inr w' \<and> quiet cid w' \<and>
         wlog w' = wlog w @ [Activity cid, FireWrite cid (simple_frame op_CLOSE (ws_payload f))]))"
proof (intro conjI impI)
  let ?w = "ws_emit (Activity cid) (upd_state cid (\<lambda>st. st\<lparr>ws_ctx := True\<rparr>) w)"
  have inv: "ws_inv ?w []" "cid \<in> wloop ?w" "Suc (nextId (wwheel ?w)) < SZ"
    using reachable_inv [OF assms(1)] assms(2,3) by (simp_all add: slack_def)
  have op: "open_socket env cid w = Inr (upd_state cid (\<lambda>st. st\<lparr>ws_ctx := True\<rparr>) w)"
    using assms(4) by (simp add: open_socket_def Let_def)
  show "\<exists>w'. channelRead env cid (Some f) w = Inr w' \<and>
       wlog w' = wlog w @ [Activity cid, FireWrite cid (simple_frame op_PONG (ws_payload f))]" if "ws_opcode f = op_PING"
    using schedulePing_ok [of "ws_emit (FireWrite cid (simple_frame op_PONG (ws_payload f))) ?w" cid env] inv that
    by (auto simp: channelRead_def op answer_pong_def handle_frame_def)
  show "\<exists>w'. channelRead env cid (Some f) w = Inr w' \<and> quiet cid w' \<and>
         wlog w' = wlog w @ [Activity cid, FireWrite cid (simple_frame op_CLOSE (ws_payload f))]"
    if close: "ws_opcode f = op_CLOSE \<and> (\<forall>l. hook env l cid (OnClose 0 (ws_payload f)) = [])"
  proof -
    obtain w1 where "release_sub cid (cancelTimers cid ?w) = Inr w1" "quiet cid w1" "wlog w1 = wlog ?w"
      by (rule close_frame_ok [OF inv(1,2)])
    then show ?thesis using close
      by (auto simp: channelRead_def op answer_pong_def handle_frame_def notify_def quiet_def)
  qed
qed


text \<open>A concrete loop: one connection, a TEXT frame has been read, the ping timer is set.\<close>

definition demo_ws_env :: ws_env where
  "demo_ws_env = \<lparr>pingIntervalMs = 2000, pongTimeoutMs = 1000, hook = (\<lambda>l c u. []),
     alloc_sub = (\<lambda>t. Suc (Max (insert 0 {s. sheap t s \<noteq> None}))),
     alloc_topic = (\<lambda>t. Suc (Max (insert 0 {a. theap t a \<noteq> None}))),
     iter_order = id, loop_of = (\<lambda>c. 0), in_thread = (\<lambda>wk. True)\<rparr>"

definition demo_start :: ws_world where
  "demo_start = accept_conn (loop_start 4 1000 1)"

definition demo_timer :: "ws_timer timer_entry" where
  "demo_timer = timer_for 2 2 (PingFires 1)"

definition demo_world :: ws_world where
  "demo_world = \<lparr>
     wstates = [1 \<mapsto> \<lparr>opened = True, waitingPong = False, pingTimerId = 2, pongTimerId = 0, ws_ctx = True, ws_sub = None\<rparr>],
     wwheel = \<lparr>numSlots = 4, tickMs = 1000, currentTick = 0, nextId = 3,
        slots = [[], [], [(timer_for 1 2 (PingFires 1))\<lparr>canceled := True\<rparr>, demo_timer], []]\<rparr>,
     wtree = tree_new, wclosed = {}, walive = {1}, wloop = {1}, wnext = 2, wlog = [Activity 1]\<rparr>"

lemma fresh_above: "finite {s. f s \<noteq> None} \<Longrightarrow> f (Suc (Max (insert 0 {s. f s \<noteq> None}))) = None"
  by (rule ccontr) (metis (mono_tags, lifting) Max_ge Suc_n_not_le_n finite_insert insertI2 mem_Collect_eq)

lemma demo_ws_env_good: "good_env demo_ws_env"
proof -
  have "sheap t (alloc_sub demo_ws_env t) = None" "theap t (alloc_topic demo_ws_env t) = None" if "tree_finite t" for t
    using that fresh_above [of "sheap t"] fresh_above [of "theap t"] by (simp_all add: tree_finite_def demo_ws_env_def)
  then show ?thesis by (simp add: good_env_def fresh_alloc_def) (simp add: demo_ws_env_def)
qed

definition demo_armed :: ws_world where
  "demo_armed = \<lparr>
     wstates = [1 \<mapsto> \<lparr>opened = True, waitingPong = False, pingTimerId = 1, pongTimerId = 0, ws_ctx = True, ws_sub = None\<rparr>],
     wwheel = \<lparr>numSlots = 4, tickMs = 1000, currentTick = 0, nextId = 2,
        slots = [[], [], [timer_for 1 2 (PingFires 1)], []]\<rparr>,
     wtree = tree_new, wclosed = {}, walive = {1}, wloop = {1}, wnext = 2, wlog = []\<rparr>"

lemmas ws_eval = channelRead_def open_socket_def notify_def schedulePing_def cancelTimers_def cancel_if_def
  answer_pong_def handle_frame_def addTimer_def nextTimerId_def delay_ticks_def cancelTimer_def
  add_sz_def sub_sz_def Let_def upd_state_def state_of_def ws_state_new_def ws_emit_def


lemma four_slots: "replicate 4 x = [x, x, x, x]" "[a, b, c, d] ! 2 = c" "[a, b, c, d][2 := e] = [a, b, e, d]"
  by (simp_all add: eval_nat_numeral)

lemma demo_open: "open_socket demo_ws_env 1 demo_start = Inr demo_armed"
  by (simp add: ws_eval demo_ws_env_def demo_start_def accept_conn_def
  loop_start_def world_new_def wheel_new_def demo_armed_def timer_for_def four_slots)

lemma demo_read: "channelRead demo_ws_env 1 (Some (simple_frame op_TEXT [])) demo_start = Inr demo_world"
  unfolding channelRead_def demo_open
  by (simp add: ws_eval demo_ws_env_def demo_armed_def demo_world_def demo_timer_def simple_frame_def ws_frame_default_def timer_for_def four_slots)

lemma demo_reachable: "ws_reachable demo_ws_env demo_world"
proof -
  have 1: "ws_run demo_ws_env (loop_start 4 1000 1) [] (loop_start 4 1000 1)" by (rule ws_run_start)
  have 2: "ws_run demo_ws_env (loop_start 4 1000 1) ([] @ [EvAccept]) demo_start"
    by (rule ws_run_step [OF 1])
      (simp_all add: ws_event_enabled_def slack_def loop_start_def wheel_new_def due_entries_def four_slots ws_react_def demo_start_def)
  have "slack demo_start" "1 \<in> wloop demo_start"
    by (simp_all add: slack_def demo_start_def accept_conn_def loop_start_def world_new_def wheel_new_def due_entries_def four_slots)
  then have "ws_run demo_ws_env (loop_start 4 1000 1) (([] @ [EvAccept]) @ [EvRead 1 (Some (simple_frame op_TEXT []))]) demo_world"
    by (intro ws_run_step [OF 2]) (simp_all add: ws_event_enabled_def ws_react_def demo_read [unfolded One_nat_def])
  moreover have "0 < (4::nat)" "0 < (1000::nat)" "(1000::nat) < 2 ^ 32" "1 \<le> (1::nat)" by simp_all
  ultimately show ?thesis unfolding ws_reachable_def using demo_ws_env_good by blast
qed

lemma demo_facts:
  "1 \<in> walive demo_world" "1 \<in> wloop demo_world" "slack demo_world" "opened (state_of 1 demo_world)"
  "pending (wwheel demo_world) = {demo_timer}" "timer_conn demo_timer = 1" "callback demo_timer = Some (PingFires 1)"
  by (auto simp: demo_world_def slack_def due_entries_def state_of_def pending_def demo_timer_def timer_for_def timer_conn_def)



theorem ws_control_frames_witness:
  "(\<exists>w'. channelRead demo_ws_env 1 (Some (simple_frame op_PING [7])) demo_world = Inr w' \<and>
      wlog w' = [Activity 1, Activity 1, FireWrite 1 (simple_frame op_PONG [7])]) \<and>
   (\<exists>w'. channelRead demo_ws_env 1 (Some (simple_frame op_CLOSE [3, 232])) demo_world = Inr w' \<and> quiet 1 w' \<and>
      wlog w' = [Activity 1, Activity 1, FireWrite 1 (simple_frame op_CLOSE [3, 232])])"
proof -
  have "wlog demo_world = [Activity 1]" "\<forall>l c u. hook demo_ws_env l c u = []" by (simp_all add: demo_world_def demo_ws_env_def)
  then show ?thesis
    using ws_control_frames [OF demo_reachable demo_facts(2,3,4), of "simple_frame op_PING [7]"]
      ws_control_frames [OF demo_reachable demo_facts(2,3,4), of "simple_frame op_CLOSE [3, 232]"]
    by (simp add: simple_frame_def)
qed

text \<open>C32. A peer that stays silent is pinged and then dropped: once the handler has armed its timer, as
  it does after every frame, and nothing but the clock moves, the loop sends a PING and closes the
  connection after the ping interval and the pong timeout, each rounded up to whole ticks.\<close>

theorem silent_peer_is_closed:
  assumes "ws_reachable env w" and "cid \<in> wloop w" and "slack w" and "schedulePing env cid w = Inr w1"
    and "0 < pingIntervalMs env" "pingIntervalMs env \<le> TICK_LIMIT" and "0 < pongTimeoutMs env" "pongTimeoutMs env \<le> TICK_LIMIT"
    and "a = (pingIntervalMs env + tickMs (wwheel w) - 1) div tickMs (wwheel w)"
    and "b = (pongTimeoutMs env + tickMs (wwheel w) - 1) div tickMs (wwheel w)"
    and "currentTick (wwheel w) + a + b + 1 \<le> TICK_LIMIT" and "ws_run env w1 (replicate (a + 1 + b) EvTick) w'"
  shows "FireWrite cid (simple_frame op_PING []) \<in> set (wlog w') \<and> cid \<in> wclosed w'"
proof -
  let ?c = "currentTick (wwheel w)" and ?ms = "tickMs (wwheel w)"
  have inv: "ws_inv w []" by (rule reachable_inv [OF assms(1)])
  have ms: "0 < ?ms" "?ms < 2 ^ 32" using inv by (simp_all add: ws_inv_def tracked_def wf_wheel_def)
  have d: "delay_ticks ?ms (pingIntervalMs env) = a" "delay_ticks ?ms (pongTimeoutMs env) = b"
    using delay_ticks_exact [OF ms(1)] ms(2) assms(6,8,9,10) by simp_all
  have b: "0 < b" using delay_ticks_bounds(1) [OF ms assms(7,8)] d(2) by simp
  have id: "Suc (nextId (wwheel w)) < SZ" using assms(3) by (simp add: slack_def)
  obtain i where w1: "ws_inv w1 []" "within 1 w w1" "timer_for i (?c + a) (PingFires cid) \<in> pending (wwheel w1)"
    using schedulePing_ok [OF inv assms(2) id, of env] assms(4,5,11) d(1) by (auto simp: timer_for_def add_sz_exact)
  have eq: "currentTick (wwheel w1) = ?c" "tickMs (wwheel w1) = ?ms" "wloop w1 = wloop w" "wloop w1 \<subseteq> walive w1"
    using w1(1,2) by (simp_all add: within_def ws_inv_def tracked_def)
  obtain w3 where w3: "ws_run env w1 (replicate (Suc a) EvTick) w3" "ws_run env w3 (replicate b EvTick) w'"
    using ticks_split [of env w1 "a + 1" b w'] assms(12) by auto
  obtain w2 where w2: "ws_run env w1 (replicate a EvTick) w2" "slack w2" "loop_tick env w2 = Inr w3"
    using w3(1) unfolding ws_run_ticks by blast
  have k2: "ws_inv w2 []" "wloop w2 = wloop w" "tickMs (wwheel w2) = ?ms" "currentTick (wwheel w2) = ?c + a"
    "timer_for i (?c + a) (PingFires cid) \<in> pending (wwheel w2)"
    using ticks_keep [OF w2(1) w1(1)] w1(3) eq assms(2,11) by (auto simp: timer_conn_def timer_for_def)
  have "currentTick (wwheel w2) < TICK_LIMIT" using k2(4) assms(11) by simp
  note t3 = loop_tick_effect [OF k2(1) w2(2,3) this]
  obtain j where ping: "FireWrite cid (simple_frame op_PING []) \<in> set (wlog w3)"
      and pong: "timer_for j (?c + a + b) (PongFires cid) \<in> pending (wwheel w3)"
    using t3(9) [OF k2(5)] k2 assms(2,11) d(2) by (auto simp: timer_for_def pong_due_def add_sz_exact)
  obtain b' where b': "b = Suc b'" using b by (cases b) auto
  obtain w4 where w4: "ws_run env w3 (replicate b' EvTick) w4" "slack w4" "loop_tick env w4 = Inr w'"
    using w3(2) unfolding b' ws_run_ticks by blast
  have eq3: "wloop w3 = wloop w" "currentTick (wwheel w3) = Suc (?c + a)" "wloop w3 \<subseteq> walive w3"
    using t3(1,3,5) k2 by (simp_all add: ws_inv_def tracked_def)
  have k4: "ws_inv w4 []" "wloop w4 = wloop w" "currentTick (wwheel w4) = ?c + a + b" "set (wlog w3) \<subseteq> set (wlog w4)"
    "timer_for j (?c + a + b) (PongFires cid) \<in> pending (wwheel w4)"
    using ticks_keep [OF w4(1) t3(1)] pong eq3 assms(2,11) b' by (auto simp: timer_conn_def timer_for_def)
  have "currentTick (wwheel w4) < TICK_LIMIT" using k4(3) assms(11) by simp
  note t4 = loop_tick_effect [OF k4(1) w4(2,3) this]
  show ?thesis using t4(6) t4(10) [OF k4(5), of cid] k4 ping assms(2) by (auto simp: timer_for_def)
qed

text \<open>The silent peer of the concrete loop, tick by tick.\<close>

definition demo_silent :: "nat \<Rightarrow> ws_timer timer_entry list list \<Rightarrow> nat \<Rightarrow> ws_state \<Rightarrow> nat set \<Rightarrow> ws_effect list \<Rightarrow> ws_world" where
  "demo_silent t ss i st cl l = demo_world\<lparr>wstates := [1 \<mapsto> st],
     wwheel := \<lparr>numSlots = 4, tickMs = 1000, currentTick = t, nextId = i, slots = ss\<rparr>, wclosed := cl, wlog := l\<rparr>"

abbreviation demo_slots :: "ws_timer timer_entry list list" where
  "demo_slots \<equiv> [[], [], [(timer_for 1 2 (PingFires 1))\<lparr>canceled := True\<rparr>, (timer_for 2 2 (PingFires 1))\<lparr>canceled := True\<rparr>,
     timer_for 3 2 (PingFires 1)], []]"

abbreviation demo_state :: "bool \<Rightarrow> nat \<Rightarrow> nat \<Rightarrow> ws_state" where
  "demo_state wp i j \<equiv> \<lparr>opened = True, waitingPong = wp, pingTimerId = i, pongTimerId = j, ws_ctx = True, ws_sub = None\<rparr>"

lemmas tick_eval = loop_tick_def due_entries_def drop_due_def next_tick_def timer_fires_def ping_fires_def pong_fires_def
  context_close_def channelInactive_def

lemma demo_rearm: "schedulePing demo_ws_env 1 demo_world = Inr (demo_silent 0 demo_slots 4 (demo_state False 3 0) {} [Activity 1])"
  by (simp add: ws_eval demo_ws_env_def demo_world_def demo_silent_def demo_timer_def timer_for_def four_slots)

lemma demo_idle:
  "loop_tick demo_ws_env (demo_silent 0 demo_slots 4 st {} l) = Inr (demo_silent 1 demo_slots 4 st {} l)"
  "loop_tick demo_ws_env (demo_silent 1 demo_slots 4 st {} l) = Inr (demo_silent 2 demo_slots 4 st {} l)"
  by (simp_all add: tick_eval demo_silent_def four_slots add_sz_def Let_def)

lemma slot_three: "[a, b, c, d][3 := e] = [a, b, c, e]" "[a, b, c, d] ! 3 = d"
  by (simp_all add: eval_nat_numeral)

lemma demo_ping:
  "loop_tick demo_ws_env (demo_silent 2 demo_slots 4 (demo_state False 3 0) {} [Activity 1]) =
     Inr (demo_silent 3 [[], [], [], [timer_for 4 3 (PongFires 1)]] 5 (demo_state True 0 4) {}
       [Activity 1, FireWrite 1 (simple_frame op_PING []), Activity 1])"
  by (simp add: tick_eval ws_eval demo_ws_env_def demo_world_def demo_silent_def timer_for_def four_slots slot_three)

lemma demo_pong:
  "loop_tick demo_ws_env (demo_silent 3 [[], [], [], [timer_for 4 3 (PongFires 1)]] 5 (demo_state True 0 4) {} l) =
     Inr (demo_silent 4 [[], [], [], []] 5 (demo_state False 0 0) {1} l)"
  by (simp add: tick_eval ws_eval demo_ws_env_def demo_world_def demo_silent_def timer_for_def four_slots slot_three)

lemma demo_slack:
  "slack (demo_silent 0 demo_slots 4 st {} l)" "slack (demo_silent 1 demo_slots 4 st {} l)"
  "slack (demo_silent 2 demo_slots 4 st {} l)" "slack (demo_silent 3 [[], [], [], [timer_for 4 3 (PongFires 1)]] 5 st {} l)"
  by (simp_all add: slack_def demo_silent_def due_entries_def four_slots slot_three timer_for_def)

lemma demo_silence:
  "ws_run demo_ws_env (demo_silent 0 demo_slots 4 (demo_state False 3 0) {} [Activity 1]) (replicate (Suc (Suc (Suc (Suc 0)))) EvTick)
     (demo_silent 4 [[], [], [], []] 5 (demo_state False 0 0) {1} [Activity 1, FireWrite 1 (simple_frame op_PING []), Activity 1])"
  unfolding ws_run_ticks using demo_idle demo_ping demo_pong demo_slack by (auto simp: ws_run_none)

theorem silent_peer_is_closed_witness:
  "\<exists>w1 w'. schedulePing demo_ws_env 1 demo_world = Inr w1 \<and> ws_run demo_ws_env w1 (replicate 4 EvTick) w' \<and>
     FireWrite 1 (simple_frame op_PING []) \<in> set (wlog w') \<and> 1 \<in> wclosed w'"
proof -
  have four: "Suc (Suc (Suc (Suc 0))) = 2 + 1 + (1::nat)" "(4::nat) = 2 + 1 + 1" by simp_all
  have num: "pingIntervalMs demo_ws_env = 2000" "pongTimeoutMs demo_ws_env = 1000" "tickMs (wwheel demo_world) = 1000"
    "currentTick (wwheel demo_world) = 0" by (simp_all add: demo_ws_env_def demo_world_def)
  note run = demo_silence [unfolded four]
  show ?thesis
    using silent_peer_is_closed [OF demo_reachable demo_facts(2,3) demo_rearm, of 2 1] run
    unfolding four(2) num demo_rearm by auto
qed

text \<open>The first timer of a loop has the identifier 0, which the handler takes for none: it is never
  cancelled. After the first frame of the first connection two ping timers are live, and neither the
  next frame nor the end of the connection removes the first.\<close>

theorem first_timer_never_cancelled:
  "\<exists>w. channelRead demo_ws_env 1 (Some (simple_frame op_TEXT [])) (accept_conn (world_new 4 1000)) = Inr w \<and>
     timer_for 0 2 (PingFires 1) \<in> pending (wwheel w) \<and> timer_for 1 2 (PingFires 1) \<in> pending (wwheel w) \<and>
     (\<exists>w'. channelInactive 1 w = Inr w' \<and> pending (wwheel w') = {timer_for 0 2 (PingFires 1)})"
  by (simp add: ws_eval demo_ws_env_def accept_conn_def channelInactive_def
      world_new_def wheel_new_def timer_for_def four_slots simple_frame_def ws_frame_default_def pending_def) auto

text \<open>The connection \<open>c\<close> gets a message published on \<open>topic\<close> by this loop at once.\<close>

definition subscribed_conn :: "ws_world \<Rightarrow> string \<Rightarrow> nat \<Rightarrow> nat \<Rightarrow> bool" where
  "subscribed_conn w topic c wk \<longleftrightarrow> (\<exists>r. ws_sub (state_of c w) = Some r \<and> (r, topic) \<in> subscriptions (wtree w) \<and>
     who (wtree w) r = Some (Some c, Some wk)) \<and> ws_ctx (state_of c w)"

lemma distinct_concat_map:
  assumes "distinct xs" and "\<And>x. x \<in> set xs \<Longrightarrow> distinct (f x)"
    and "\<And>x y. x \<in> set xs \<Longrightarrow> y \<in> set xs \<Longrightarrow> x \<noteq> y \<Longrightarrow> set (f x) \<inter> set (f y) = {}"
  shows "distinct (concat (map f xs))"
  using assms
proof (induction xs)
  case (Cons x xs)
  have "set (f x) \<inter> set (concat (map f xs)) = {}"
  proof (rule ccontr)
    assume "set (f x) \<inter> set (concat (map f xs)) \<noteq> {}"
    then obtain y where "y \<in> set xs" "set (f x) \<inter> set (f y) \<noteq> {}" by auto
    then show False using Cons.prems(1,3) by (metis distinct.simps(2) list.set_intros(1,2))
  qed
  then show ?case using Cons by simp
qed simp

definition delivery_effect :: "ws_env \<Rightarrow> ws_world \<Rightarrow> nat \<Rightarrow> nat \<Rightarrow> string \<Rightarrow> ws_effect \<Rightarrow> bool" where
  "delivery_effect env w c wk msg x \<longleftrightarrow>
     (if in_thread env wk then context_active c w \<and> x = FireWrite c (simple_frame op_TEXT (bytes_of msg))
      else x = QueueTask wk c msg)"

lemma delivered_member:
  "x \<in> set (delivered env w r msg) \<longleftrightarrow> (\<exists>c wk. who (wtree w) r = Some (Some c, Some wk) \<and> ws_ctx (state_of c w) \<and>
     delivery_effect env w c wk msg x)"
proof (cases "\<exists>c wk. who (wtree w) r = Some (Some c, Some wk)")
  case True
  then obtain c wk where r: "who (wtree w) r = Some (Some c, Some wk)" by blast
  then have "x \<in> set (delivered env w r msg) \<longleftrightarrow> ws_ctx (state_of c w) \<and> delivery_effect env w c wk msg x"
    by (auto simp: delivered_def delivery_effect_def)
  with r show ?thesis by simp
next
  case False
  then have "delivered env w r msg = []" by (auto simp: delivered_def split: option.splits)
  then show ?thesis using False by auto
qed

lemma delivered_distinct: "distinct (delivered env w r msg)"
  by (auto simp: delivered_def split: option.splits)

text \<open>What the subscribers of a topic other than the publisher's receive: each effect is that of one connection.\<close>

lemma recipients_effects:
  assumes "subs_ok w" and "ws_sub (state_of cid w) = Some s"
  shows "(\<exists>r. (r, topic) \<in> subscriptions (wtree w) \<and> r \<noteq> s \<and> x \<in> set (delivered env w r msg)) \<longleftrightarrow>
    (\<exists>c wk. c \<noteq> cid \<and> subscribed_conn w topic c wk \<and> delivery_effect env w c wk msg x)"
proof -
  note k = subs_okD [OF assms(1)]
  have mine: "r \<noteq> s \<longleftrightarrow> c \<noteq> cid" if "who (wtree w) r = Some (Some c, wk)" for r c wk
    using k(3) [OF assms(2)] k(4) [OF that] that assms(2) by auto
  have subbed: "subscribed_conn w topic c wk \<longleftrightarrow> (\<exists>r. (r, topic) \<in> subscriptions (wtree w) \<and>
      who (wtree w) r = Some (Some c, Some wk)) \<and> ws_ctx (state_of c w)" for c wk
    unfolding subscribed_conn_def using k(4) by blast
  show ?thesis unfolding delivered_member subbed using mine by metis
qed

lemma deliveries_distinct:
  assumes "subs_ok w" and "distinct rs"
  shows "distinct (concat (map (\<lambda>r. delivered env w r msg) rs))"
proof (rule distinct_concat_map [OF assms(2) delivered_distinct])
  have owner: "r = r'" if "who (wtree w) r = Some (Some c, x)" "who (wtree w) r' = Some (Some c, y)" for r r' c x y
    using subs_okD(4) [OF assms(1) that(1)] subs_okD(4) [OF assms(1) that(2)] by auto
  show "set (delivered env w x msg) \<inter> set (delivered env w y msg) = {}" if "x \<noteq> y" for x y
    using that owner [of x _ _ y] by (auto simp: delivered_member delivery_effect_def split: if_splits)
qed

text \<open>C37. A published message goes to the right connections: publishing on a topic from a connection that
  has a subscriber writes exactly one TEXT frame to every other active connection of the loop that is
  subscribed to the topic, queues exactly one task for every other subscribed connection of another
  loop, and does nothing else.\<close>

theorem ws_publish_fanout:
  assumes "ws_reachable env w" and "ws_sub (state_of cid w) = Some s"
  shows "\<exists>l. socket_publish env cid topic msg w = Inr (w\<lparr>wlog := wlog w @ l\<rparr>) \<and> distinct l \<and>
     set l = {FireWrite c (simple_frame op_TEXT (bytes_of msg)) | c wk.
                c \<noteq> cid \<and> subscribed_conn w topic c wk \<and> in_thread env wk \<and> context_active c w} \<union>
             {QueueTask wk c msg | c wk. c \<noteq> cid \<and> subscribed_conn w topic c wk \<and> \<not> in_thread env wk}"
proof -
  have inv: "ws_inv w []" "good_env env" using reachable_inv [OF assms(1)] assms(1) by (simp_all add: ws_reachable_def)
  then have so: "subs_ok w" and it: "\<And>xs. mset (iter_order env xs) = mset xs" by (simp_all add: ws_inv_def good_env_def)
  obtain ds where ds: "publish (iter_order env) (Some s) topic msg (wtree w) = Inr (ds \<noteq> [], ds)" "distinct (map fst ds)"
      "set ds = {(r, msg, 3) | r. (r, topic) \<in> subscriptions (wtree w) \<and> Some s \<noteq> Some r}"
      "socket_broadcast env (Some s) topic msg w = Inr (w\<lparr>wlog := wlog w @ concat (map (\<lambda>r. delivered env w r msg) (map fst ds))\<rparr>)"
    by (rule socket_broadcast_ok [OF so it])
  define l where "l = concat (map (\<lambda>r. delivered env w r msg) (map fst ds))"
  have "distinct l" unfolding l_def by (rule deliveries_distinct [OF so ds(2)])
  moreover have "x \<in> set l \<longleftrightarrow> (\<exists>r. (r, topic) \<in> subscriptions (wtree w) \<and> r \<noteq> s \<and> x \<in> set (delivered env w r msg))" for x
    unfolding l_def using ds(3) by force
  then have "set l = {FireWrite c (simple_frame op_TEXT (bytes_of msg)) | c wk.
                c \<noteq> cid \<and> subscribed_conn w topic c wk \<and> in_thread env wk \<and> context_active c w} \<union>
             {QueueTask wk c msg | c wk. c \<noteq> cid \<and> subscribed_conn w topic c wk \<and> \<not> in_thread env wk}"
    unfolding recipients_effects [OF so assms(2)] delivery_effect_def by (simp only: set_eq_iff) (simp split: if_splits, blast)
  moreover have "socket_publish env cid topic msg w = Inr (w\<lparr>wlog := wlog w @ l\<rparr>)"
    using ds(4) assms(2) by (simp add: socket_publish_def l_def)
  ultimately show ?thesis by blast
qed

text \<open>Two connections that subscribe when they open.\<close>

definition chat_env :: ws_env where
  "chat_env = demo_ws_env\<lparr>pingIntervalMs := 0, hook := (\<lambda>l c u. if u = OnOpen then [Subscribe ''t''] else []),
     alloc_sub := (\<lambda>t. if sheap t 1 = None then 1 else if sheap t 2 = None then 2 else alloc_sub demo_ws_env t),
     alloc_topic := (\<lambda>t. if theap t 9 = None then 9 else alloc_topic demo_ws_env t)\<rparr>"

definition chat_sub :: "nat \<Rightarrow> nat list \<Rightarrow> subscriber" where
  "chat_sub c ts = subscriber_new\<lparr>s_topics := ts, user := Some c, worker := Some 0\<rparr>"

abbreviation chat_state :: "nat \<Rightarrow> ws_state" where
  "chat_state s \<equiv> \<lparr>opened = True, waitingPong = False, pingTimerId = 0, pongTimerId = 0, ws_ctx = True, ws_sub = Some s\<rparr>"

abbreviation chat_base :: ws_world where
  "chat_base \<equiv> accept_conn (accept_conn (loop_start 4 1000 1))"

definition chat_one :: ws_world where
  "chat_one = chat_base\<lparr>wstates := [1 \<mapsto> chat_state 1],
     wtree := tree_new\<lparr>topics := [''t'' \<mapsto> 9], theap := [9 \<mapsto> \<lparr>t_name = ''t'', t_subs = [1]\<rparr>], sheap := [1 \<mapsto> chat_sub 1 [9]]\<rparr>,
     wlog := [FireRead 1]\<rparr>"

definition chat_two :: ws_world where
  "chat_two = chat_base\<lparr>wstates := [1 \<mapsto> chat_state 1, 2 \<mapsto> chat_state 2],
     wtree := tree_new\<lparr>topics := [''t'' \<mapsto> 9], theap := [9 \<mapsto> \<lparr>t_name = ''t'', t_subs = [2, 1]\<rparr>],
       sheap := [1 \<mapsto> chat_sub 1 [9], 2 \<mapsto> chat_sub 2 [9]]\<rparr>,
     wlog := [FireRead 1, FireRead 2]\<rparr>"

lemma chat_env_good: "good_env chat_env"
  using demo_ws_env_good by (simp add: good_env_def fresh_alloc_def chat_env_def)

lemmas chat_eval = socket_subscribe_def new_subscriber_def createSubscriber_def put_sub_def put_topic_def sub_at_def
  topic_at_def subscribe_def checkIteratingSubscriber_def chat_sub_def subscriber_new_def tree_new_def List.insert_def

lemma chat_join:
  "channelRead chat_env 1 None chat_base = Inr chat_one" "channelRead chat_env 2 None chat_one = Inr chat_two"
  by (simp_all add: ws_eval chat_eval chat_env_def demo_ws_env_def accept_conn_def loop_start_def world_new_def chat_one_def chat_two_def fun_upd_twist)


lemma chat_reachable: "ws_reachable chat_env chat_two"
proof -
  let ?s = "loop_start 4 1000 1"
  have sl: "slack ?s" "slack (accept_conn ?s)" "slack chat_base" "slack chat_one"
    by (simp_all add: slack_def accept_conn_def loop_start_def wheel_new_def due_entries_def four_slots chat_one_def)
  have lp: "1 \<in> wloop chat_base" "2 \<in> wloop chat_one"
    by (simp_all add: accept_conn_def loop_start_def world_new_def chat_one_def)
  have 1: "ws_run chat_env ?s [] ?s" by (rule ws_run_start)
  have 2: "ws_run chat_env ?s ([] @ [EvAccept]) (accept_conn ?s)"
    by (rule ws_run_step [OF 1]) (use sl in \<open>simp_all add: ws_event_enabled_def ws_react_def\<close>)
  have 3: "ws_run chat_env ?s (([] @ [EvAccept]) @ [EvAccept]) chat_base"
    by (rule ws_run_step [OF 2]) (use sl in \<open>simp_all add: ws_event_enabled_def ws_react_def\<close>)
  have 4: "ws_run chat_env ?s ((([] @ [EvAccept]) @ [EvAccept]) @ [EvRead 1 None]) chat_one"
    by (rule ws_run_step [OF 3]) (use sl lp chat_join in \<open>simp_all add: ws_event_enabled_def ws_react_def\<close>)
  have 5: "ws_run chat_env ?s (((([] @ [EvAccept]) @ [EvAccept]) @ [EvRead 1 None]) @ [EvRead 2 None]) chat_two"
    by (rule ws_run_step [OF 4]) (use sl lp chat_join in \<open>simp_all add: ws_event_enabled_def ws_react_def\<close>)
  have "0 < (4::nat)" "0 < (1000::nat)" "(1000::nat) < 2 ^ 32" "1 \<le> (1::nat)" by simp_all
  with 5 chat_env_good show ?thesis unfolding ws_reachable_def by blast
qed

theorem ws_publish_fanout_witness:
  "\<exists>l. socket_publish chat_env 1 ''t'' ''hi'' chat_two = Inr (chat_two\<lparr>wlog := wlog chat_two @ l\<rparr>) \<and>
     FireWrite 2 (simple_frame op_TEXT (bytes_of ''hi'')) \<in> set l \<and> (\<forall>x. FireWrite 1 x \<notin> set l)"
proof -
  have sub: "ws_sub (state_of 1 chat_two) = Some 1" by (simp add: chat_two_def state_of_def)
  have "(2, ''t'') \<in> subscriptions (wtree chat_two)"
    by (simp add: subscriptions_iff chat_two_def tree_new_def subs_of_def)
  then have two: "subscribed_conn chat_two ''t'' 2 0" "context_active 2 chat_two" "in_thread chat_env 0"
    by (simp_all add: subscribed_conn_def chat_two_def state_of_def who_def chat_sub_def context_active_def accept_conn_def
        loop_start_def world_new_def chat_env_def demo_ws_env_def)
  obtain l where l: "socket_publish chat_env 1 ''t'' ''hi'' chat_two = Inr (chat_two\<lparr>wlog := wlog chat_two @ l\<rparr>)"
      "set l = {FireWrite c (simple_frame op_TEXT (bytes_of ''hi'')) | c wk.
                c \<noteq> 1 \<and> subscribed_conn chat_two ''t'' c wk \<and> in_thread chat_env wk \<and> context_active c chat_two} \<union>
             {QueueTask wk c ''hi'' | c wk. c \<noteq> 1 \<and> subscribed_conn chat_two ''t'' c wk \<and> \<not> in_thread chat_env wk}"
    using ws_publish_fanout [OF chat_reachable sub, of "''t''" "''hi''"] by (elim exE conjE) (rule that)
  have "FireWrite 2 (simple_frame op_TEXT (bytes_of ''hi'')) \<in> set l" unfolding l(2) using two
    by (intro UnI1 CollectI exI [of _ 2] exI [of _ 0]) simp
  moreover have "FireWrite 1 x \<notin> set l" for x unfolding l(2) by blast
  ultimately show ?thesis using l(1) by blast
qed

text \<open>
  A write that fails while a frame is handled marks the connection as closed, and the worker then removes
  it without announcing it as inactive. The subscriber dies with the socket, the topic keeps the pointer,
  and the next message on the topic reads a freed object.
\<close>

theorem removal_without_inactive_dangles:
  "tree_wf (wtree chat_two) \<and>
   socket_broadcast chat_env None ''t'' ''hi'' (context_gone 1 (conn_gone 1 (chat_two\<lparr>wclosed := {1}\<rparr>))) = Inl UndefinedBehaviour"
proof -
  have "tree_wf (wtree chat_two)" using reachable_inv [OF chat_reachable] by (simp add: ws_inv_def subs_ok_def)
  then show ?thesis
    by (simp add: socket_broadcast_def publish_def context_gone_def conn_gone_def chat_two_def state_of_def topic_at_def sub_at_def
        tree_new_def chat_env_def demo_ws_env_def)
qed

end
