(* ===== verification/WsSession.thy ===== *)
theory WsSession
  imports WsWorld
begin

text \<open>
  A WebSocket connection from the bytes that are read to the frames that are written: the codec of
  \<open>WsCodec\<close> in front of the handler of \<open>WsHandler\<close>, as the pipeline composes them
  (\<open>src/websocket/websocket_codec.cpp\<close>, \<open>src/websocket/websocket_handler.cpp\<close>). The application is one that
  answers each event with messages on its own socket; what it says to an event is the parameter \<open>app\<close>.
\<close>

section \<open>The codec in front of the handler\<close>

fun handle_frames :: "ws_env \<Rightarrow> nat \<Rightarrow> ws_frame list \<Rightarrow> ws_world \<Rightarrow> ws_world res" where
  "handle_frames env cid [] w = Inr w"
| "handle_frames env cid (f # fs) w = rbind (channelRead env cid (Some f) w) (handle_frames env cid fs)"

text \<open>One read after the other; a buffer the codec does not decode is passed to the handler as it is.\<close>

fun ws_session :: "ws_env \<Rightarrow> heap \<Rightarrow> nat \<Rightarrow> bytebuf list \<Rightarrow> ws_codec \<Rightarrow> ws_world \<Rightarrow> (ws_codec \<times> ws_world) res" where
  "ws_session env h cid [] st w = Inr (st, w)"
| "ws_session env h cid (b # bs) st w =
     (case ws_channelRead h st (Some b) of
        PassOn \<Rightarrow> rbind (channelRead env cid None w) (ws_session env h cid bs st)
      | Decoded st' b' out ex \<Rightarrow>
          rbind (handle_frames env cid out w) (\<lambda>w'.
          case ex of Some e \<Rightarrow> Inl e | None \<Rightarrow> ws_session env h cid bs st' w'))"

section \<open>What the application says\<close>

fun message_frames :: "ws_call \<Rightarrow> ws_frame list" where
  "message_frames (Send message) = [simple_frame op_TEXT (bytes_of message)]"
| "message_frames (SendBinary data) = [simple_frame op_BINARY data]"
| "message_frames _ = []"

fun is_message :: "ws_call \<Rightarrow> bool" where
  "is_message (Send message) = True"
| "is_message (SendBinary data) = True"
| "is_message _ = False"

definition says :: "(ws_up \<Rightarrow> ws_call list) \<Rightarrow> ws_up \<Rightarrow> ws_frame list" where
  "says app u = concat (map message_frames (app u))"

text \<open>The answer to one frame: a pong to a ping, what the application says to a message.\<close>

definition frame_answer :: "(ws_up \<Rightarrow> ws_call list) \<Rightarrow> ws_frame \<Rightarrow> ws_frame list" where
  "frame_answer app f =
     (if ws_opcode f = op_PING then [simple_frame op_PONG (ws_payload f)]
      else if ws_opcode f = op_TEXT then says app (OnMessage (ws_payload f))
      else if ws_opcode f = op_BINARY then says app (OnBinary (ws_payload f))
      else [])"

definition replying :: "ws_env \<Rightarrow> nat \<Rightarrow> (ws_up \<Rightarrow> ws_call list) \<Rightarrow> bool" where
  "replying env cid app \<longleftrightarrow> (\<forall>u. (\<forall>l. hook env l cid u = app u) \<and> list_all is_message (app u))"

fun frames_to :: "nat \<Rightarrow> ws_effect list \<Rightarrow> ws_frame list" where
  "frames_to cid [] = []"
| "frames_to cid (FireWrite c f # xs) = (if c = cid then f # frames_to cid xs else frames_to cid xs)"
| "frames_to cid (x # xs) = frames_to cid xs"

lemma frames_to_append [simp]: "frames_to cid (xs @ ys) = frames_to cid xs @ frames_to cid ys"
  by (induction cid xs rule: frames_to.induct) simp_all

lemma frames_to_writes [simp]: "frames_to cid (map (FireWrite cid) fs) = fs"
  by (induction fs) simp_all

section \<open>Frames are answered\<close>

text \<open>What a step adds to the frames of a connection that the application holds.\<close>

definition spoke :: "nat \<Rightarrow> ws_world \<Rightarrow> ws_frame list \<Rightarrow> ws_world \<Rightarrow> bool" where
  "spoke cid w fs w' \<longleftrightarrow> frames_to cid (wlog w') = frames_to cid (wlog w) @ fs \<and>
     ws_ctx (state_of cid w') \<and> opened (state_of cid w')"

definition talking :: "nat \<Rightarrow> ws_world \<Rightarrow> bool" where
  "talking cid w \<longleftrightarrow> ws_ctx (state_of cid w) \<and> opened (state_of cid w)"

lemma spoke_trans: "spoke cid w fs w' \<Longrightarrow> spoke cid w' gs w'' \<Longrightarrow> spoke cid w (fs @ gs) w''"
  by (simp add: spoke_def)

lemma spoke_talking: "spoke cid w fs w' \<Longrightarrow> talking cid w'"
  by (simp add: spoke_def talking_def)

lemma messages_sent:
  assumes "ws_inv w []" and "ws_ctx (state_of cid w)" and "list_all is_message cs"
  shows "socket_calls env cid cs w = Inr (w\<lparr>wlog := wlog w @ map (FireWrite cid) (concat (map message_frames cs))\<rparr>)"
  using assms
proof (induction cs arbitrary: w)
  case (Cons c cs)
  have so: "subs_ok w" using Cons.prems(1) by (simp add: ws_inv_def)
  have one: "socket_call env cid c w = Inr (w\<lparr>wlog := wlog w @ map (FireWrite cid) (message_frames c)\<rparr>)"
    using Cons.prems(2,3) socket_send_eq [OF so] by (cases c) (simp_all add: ws_emit_def)
  have "ws_inv (w\<lparr>wlog := l\<rparr>) []" for l
    using Cons.prems(1) ws_inv_cong [of "w\<lparr>wlog := l\<rparr>" w "[]"] by (simp add: timer_view_def)
  from Cons.IH [OF this] one Cons.prems(2,3) show ?case by simp
qed simp

lemma notify_spoke:
  assumes "ws_inv w []" and "talking cid w" and "replying env cid app"
  obtains w' where "notify env cid u w = Inr w'" "spoke cid w (says app u) w'"
proof
  let ?w = "w\<lparr>wlog := wlog w @ map (FireWrite cid) (says app u)\<rparr>"
  show "notify env cid u w = Inr ?w"
    using assms messages_sent [OF assms(1), of cid "app u" env] by (simp add: notify_def replying_def talking_def says_def)
  show "spoke cid w (says app u) ?w" using assms(2) by (simp add: spoke_def talking_def)
qed

lemma schedulePing_spoke: "schedulePing env cid w = Inr w' \<Longrightarrow> talking cid w \<Longrightarrow> spoke cid w [] w'"
  by (auto simp: schedulePing_def spoke_def talking_def Let_def split: if_splits)

lemma notify_ping_spoke:
  assumes "ws_inv w []" and "talking cid w" and "replying env cid app"
    and "rbind (notify env cid u w) (schedulePing env cid) = Inr w'"
  shows "spoke cid w (says app u) w'"
proof -
  obtain w1 where w1: "notify env cid u w = Inr w1" "spoke cid w (says app u) w1" by (rule notify_spoke [OF assms(1-3)])
  with assms(4) schedulePing_spoke [OF _ spoke_talking [OF w1(2)]] spoke_trans [OF w1(2)] show ?thesis by fastforce
qed

lemma open_socket_spoke:
  assumes "ws_inv w []" and "replying env cid app" and "open_socket env cid w = Inr w'"
  shows "spoke cid w (if opened (state_of cid w) then [] else says app OnOpen) w'"
proof (cases "opened (state_of cid w)")
  case True
  then show ?thesis using assms(3) by (auto simp: open_socket_def spoke_def Let_def)
next
  case False
  let ?w = "upd_state cid (\<lambda>st. st\<lparr>opened := True\<rparr>) (upd_state cid (\<lambda>st. st\<lparr>ws_ctx := True\<rparr>) w)"
  have "spoke cid ?w (says app OnOpen) w'"
    by (rule notify_ping_spoke [of _ _ env]) (use assms False in \<open>simp_all add: open_socket_def talking_def Let_def del: rbind_eq_Inr\<close>)
  then show ?thesis using False by (simp add: spoke_def)
qed

lemma answer_pong_spoke: "answer_pong env cid f w = Inr w' \<Longrightarrow> talking cid w \<Longrightarrow> spoke cid w [] w'"
  using schedulePing_spoke [of env cid "upd_state cid (\<lambda>st. st\<lparr>waitingPong := False\<rparr>) (cancelTimers cid w)" w']
  by (auto simp: answer_pong_def spoke_def talking_def split: if_splits)

lemma handle_frame_spoke:
  assumes "ws_inv w []" and "talking cid w" and "replying env cid app" and "ws_opcode f \<noteq> op_CLOSE"
    and "handle_frame env cid f w = Inr w'"
  shows "spoke cid w (frame_answer app f) w'"
proof -
  let ?w = "ws_emit (FireWrite cid (simple_frame op_PONG (ws_payload f))) w"
  have "talking cid ?w" using assms(2) by (simp add: talking_def)
  then have "spoke cid w [simple_frame op_PONG (ws_payload f)] w'" if "schedulePing env cid ?w = Inr w'"
    using schedulePing_spoke [OF that] by (simp add: spoke_def)
  moreover note notify_ping_spoke [OF assms(1-3)]
  ultimately show ?thesis
    using assms(2,4,5) by (auto simp: handle_frame_def frame_answer_def spoke_def talking_def simp del: rbind_eq_Inr split: if_splits)
qed

lemma channelRead_spoke:
  assumes inv: "ws_inv w []" and env: "good_env env" and cid: "cid \<in> wloop w" and id: "nextId (wwheel w) + 4 < SZ"
    and app: "replying env cid app" and f: "ws_opcode f \<noteq> op_CLOSE"
  shows "\<exists>w'. channelRead env cid (Some f) w = Inr w' \<and> ws_inv w' [] \<and> within 3 w w' \<and>
    spoke cid w ((if opened (state_of cid w) then [] else says app OnOpen) @ frame_answer app f) w'"
proof -
  obtain w' where w': "channelRead env cid (Some f) w = Inr w'" "ws_inv w' []" "within 3 w w'"
    using channelRead_ok [OF inv env cid id] by blast
  have "Suc (nextId (wwheel w)) < SZ" using id by simp
  from open_socket_ok [OF inv env cid this] obtain w1 where
    w1: "open_socket env cid w = Inr w1" "ws_inv w1 []" "within 1 w w1" by blast
  let ?w1 = "ws_emit (Activity cid) w1"
  have s1: "spoke cid w (if opened (state_of cid w) then [] else says app OnOpen) ?w1"
    using open_socket_spoke [OF inv app w1(1)] by (simp add: spoke_def)
  have "cid \<in> wloop ?w1" "Suc (nextId (wwheel ?w1)) < SZ" "ws_inv ?w1 []" using w1 cid id by (auto simp: within_def)
  from answer_pong_ok [OF this(3,1,2)] obtain w2 where w2: "answer_pong env cid f ?w1 = Inr w2" "ws_inv w2 []" by blast
  have s2: "spoke cid ?w1 [] w2" by (rule answer_pong_spoke [OF w2(1) spoke_talking [OF s1]])
  have "handle_frame env cid f w2 = Inr w'" using w'(1) w1(1) w2(1) by (simp add: channelRead_def)
  from spoke_trans [OF spoke_trans [OF s1 s2] handle_frame_spoke [OF w2(2) spoke_talking [OF s2] app f this]] w' show ?thesis
    by simp
qed

lemma handle_frames_spoke:
  assumes "good_env env" and "replying env cid app"
  shows "ws_inv w [] \<Longrightarrow> cid \<in> wloop w \<Longrightarrow> talking cid w \<Longrightarrow> nextId (wwheel w) + 3 * length fs + 4 < SZ \<Longrightarrow>
    list_all (\<lambda>f. ws_opcode f \<noteq> op_CLOSE) fs \<Longrightarrow>
    \<exists>w'. handle_frames env cid fs w = Inr w' \<and> ws_inv w' [] \<and> within (3 * length fs) w w' \<and>
      spoke cid w (concat (map (frame_answer app) fs)) w'"
proof (induction fs arbitrary: w)
  case Nil
  then show ?case by (simp add: spoke_def talking_def within_def)
next
  case (Cons f fs)
  have "nextId (wwheel w) + 4 < SZ" "ws_opcode f \<noteq> op_CLOSE" using Cons.prems(4,5) by simp_all
  from channelRead_spoke [OF Cons.prems(1) assms(1) Cons.prems(2) this(1) assms(2) this(2)] Cons.prems(3) obtain w1 where
    w1: "channelRead env cid (Some f) w = Inr w1" "ws_inv w1 []" "within 3 w w1" "spoke cid w (frame_answer app f) w1"
    by (auto simp: talking_def)
  have "cid \<in> wloop w1" "nextId (wwheel w1) + 3 * length fs + 4 < SZ" using w1(3) Cons.prems(2,4) by (simp_all add: within_def)
  from Cons.IH [OF w1(2) this(1) spoke_talking [OF w1(4)] this(2)] Cons.prems(5) obtain w2 where
    "handle_frames env cid fs w1 = Inr w2" "ws_inv w2 []" "within (3 * length fs) w1 w2"
    "spoke cid w1 (concat (map (frame_answer app) fs)) w2" by auto
  with w1 show ?case by (auto intro: within_trans spoke_trans)
qed

section \<open>Segmentation does not matter\<close>

lemma handle_frames_append:
  "handle_frames env cid (fs @ gs) w = rbind (handle_frames env cid fs w) (handle_frames env cid gs)"
proof (induction fs arbitrary: w)
  case (Cons f fs)
  show ?case by (cases "channelRead env cid (Some f) w") (simp_all add: Cons.IH)
qed simp

lemma ws_session_feed:
  assumes "ws_feed h st bufs = (st', out, [])" and "list_all (\<lambda>b. readableBytes b \<noteq> 0) bufs"
  shows "ws_session env h cid bufs st w = rbind (handle_frames env cid out w) (\<lambda>w'. Inr (st', w'))"
  using assms
proof (induction bufs arbitrary: st out w)
  case (Cons b bs)
  obtain st1 b1 out1 ex where d: "ws_channelRead h st (Some b) = Decoded st1 b1 out1 ex"
    using Cons.prems(2) by (cases "ws_channelRead h st (Some b)") (auto simp: ws_channelRead_def split: sum.splits prod.splits)
  obtain out2 exs where f: "ws_feed h st1 bs = (st', out2, exs)" "out = out1 @ out2" "ex = None" "exs = []"
    using Cons.prems(1) d by (auto split: prod.splits option.splits)
  from Cons.IH [of st1 out2] f Cons.prems(2) d show ?case
    by (cases "handle_frames env cid out1 w") (simp_all add: handle_frames_append)
qed simp

section \<open>Properties\<close>


text \<open>An application that greets and echoes, and a client that sends a masked message and a ping in three reads.\<close>

definition echo_app :: "ws_up \<Rightarrow> ws_call list" where
  "echo_app u = (case u of OnOpen \<Rightarrow> [Send ''hello''] | OnMessage m \<Rightarrow> [Send (map (\<lambda>b. char_of (unat b)) m)]
     | OnBinary d \<Rightarrow> [SendBinary d] | OnClose k d \<Rightarrow> [])"

definition echo_env :: ws_env where
  "echo_env = demo_ws_env\<lparr>hook := (\<lambda>l c u. echo_app u)\<rparr>"

definition ping_frame :: ws_frame where
  "ping_frame = \<lparr>ws_opcode = op_PING, ws_fin = True, ws_mask = False, ws_key = [0, 0, 0, 0], ws_payload = [7]\<rparr>"

lemma ping_frame_ok: "ws_wellformed ping_frame" "ws_opcode ping_frame \<noteq> op_CLOSE" "ws_wire ping_frame = [0x89, 0x01, 7]"
  by (simp_all add: ping_frame_def ws_wellformed_def ws_wire_def ws_length_bytes_def)

lemma echo_reachable: "ws_reachable echo_env demo_start"
proof -
  have "good_env echo_env"
    using demo_ws_env_good by (simp add: good_env_def fresh_alloc_def echo_env_def)
  moreover have "ws_run echo_env (loop_start 4 1000 1) ([] @ [EvAccept]) demo_start"
    by (rule ws_run_step [OF ws_run_start])
      (simp_all add: ws_event_enabled_def slack_def loop_start_def wheel_new_def due_entries_def four_slots ws_react_def demo_start_def)
  moreover have "0 < (4::nat)" "0 < (1000::nat)" "(1000::nat) < 2 ^ 32" "1 \<le> (1::nat)" by simp_all
  ultimately show ?thesis unfolding ws_reachable_def by blast
qed


end
