(* ===== verification/StaticFile.thy ===== *)
theory StaticFile
  imports HttpRequest HttpResponse "HOL-Library.Sublist"
begin

text \<open>
  The static file handler (\<open>src/http/static_file_handler.cpp\<close>). The file system is a parameter: what
  \<open>realpath\<close>, \<open>stat\<close> and \<open>open\<close> answer for a path, the contents of a file, and how many bytes each
  \<open>read\<close> delivers. What the handler does is the list of its effects: the file it opens and what it
  sends through the context.
\<close>

section \<open>State\<close>

record file_system =
  realpath :: "string \<Rightarrow> string option"
  file_stat :: "string \<Rightarrow> (bool \<times> nat) option"   \<comment> \<open>whether it is a directory, its size\<close>
  can_open :: "string \<Rightarrow> bool"
  file_bytes :: "string \<Rightarrow> bytes"
  read_count :: "string \<Rightarrow> nat \<Rightarrow> int"           \<comment> \<open>what \<open>read\<close> would return at an offset\<close>

record static_handler =
  docRoot :: string
  realDocRoot :: string
  maxFileSize :: nat

datatype static_effect =
    Respond http_response
  | OpenFile string
  | SendHead http_response
  | SendBody bytes

abbreviation kChunkSize :: nat where
  "kChunkSize \<equiv> 65536"

section \<open>Operations\<close>

definition with_slash :: "string \<Rightarrow> string" where
  "with_slash p = (if p \<noteq> [] \<and> last p \<noteq> CHR ''/'' then p @ ''/'' else p)"

definition static_handler_new :: "file_system \<Rightarrow> string \<Rightarrow> nat \<Rightarrow> static_handler" where
  "static_handler_new fs root maxSize =
     (let root = with_slash root in
      \<lparr>docRoot = root,
       realDocRoot = (case realpath fs root of Some r \<Rightarrow> with_slash r | None \<Rightarrow> root),
       maxFileSize = maxSize\<rparr>)"

text \<open>\<open>std::string::rfind(c)\<close>: \<open>None\<close> is \<open>npos\<close>.\<close>

fun rfind_char :: "char \<Rightarrow> string \<Rightarrow> nat option" where
  "rfind_char c [] = None"
| "rfind_char c (x # s) =
     (case rfind_char c s of
        Some i \<Rightarrow> Some (Suc i)
      | None \<Rightarrow> if x = c then Some 0 else None)"

definition resolve_path :: "file_system \<Rightarrow> string \<Rightarrow> string option" where
  "resolve_path fs rawPath = (case realpath fs rawPath of
     Some r \<Rightarrow> Some r
   | None \<Rightarrow> (case rfind_char (CHR ''/'') rawPath of
       None \<Rightarrow> None
     | Some slash \<Rightarrow> (case realpath fs (take slash rawPath) of
         None \<Rightarrow> None
       | Some rp \<Rightarrow> Some (rp @ ''/'' @ drop (slash + 1) rawPath))))"

definition sanitizePath :: "file_system \<Rightarrow> static_handler \<Rightarrow> string \<Rightarrow> string" where
  "sanitizePath fs h uri =
     (if uri = [] then docRoot h @ ''index.html''
      else
        let rawPath = docRoot h @ (if hd uri = CHR ''/'' then tl uri else uri) in
        case resolve_path fs rawPath of
          None \<Rightarrow> []
        | Some resolved \<Rightarrow>
            let resolvedNorm = with_slash resolved in
            if length resolvedNorm < length (realDocRoot h)
               \<or> take (length (realDocRoot h)) resolvedNorm \<noteq> realDocRoot h then []
            else (case file_stat fs resolved of
                    Some (True, _) \<Rightarrow> resolved @ ''/''
                  | _ \<Rightarrow> resolved))"

definition getMimeType :: "string \<Rightarrow> string" where
  "getMimeType ext =
     (if ext = ''.html'' \<or> ext = ''.htm'' then ''text/html''
      else if ext = ''.css'' then ''text/css''
      else if ext = ''.js'' then ''application/javascript''
      else if ext = ''.json'' then ''application/json''
      else if ext = ''.png'' then ''image/png''
      else if ext = ''.jpg'' \<or> ext = ''.jpeg'' then ''image/jpeg''
      else if ext = ''.gif'' then ''image/gif''
      else if ext = ''.svg'' then ''image/svg+xml''
      else if ext = ''.ico'' then ''image/x-icon''
      else if ext = ''.txt'' then ''text/plain''
      else if ext = ''.pdf'' then ''application/pdf''
      else if ext = ''.woff2'' then ''font/woff2''
      else if ext = ''.woff'' then ''font/woff''
      else ''application/octet-stream'')"

definition plain_answer :: "http_status \<Rightarrow> string \<Rightarrow> static_effect list" where
  "plain_answer st txt =
     [Respond (setContent txt (setContentType ''text/plain'' (setStatus st http_response_new)))]"

text \<open>
  One \<open>read\<close> gives at most the buffer's size and at most what is left of the file; 0 is the end of the
  file, a negative number an error.
\<close>

function stream_file :: "file_system \<Rightarrow> string \<Rightarrow> nat \<Rightarrow> nat \<Rightarrow> static_effect list" where
  "stream_file fs p bufSize pos =
     (let n = min (nat (read_count fs p pos)) (min bufSize (length (file_bytes fs p) - pos)) in
      if n = 0 then []
      else SendBody (take n (drop pos (file_bytes fs p))) # stream_file fs p bufSize (pos + n))"
  by pat_completeness auto
termination
  by (relation "measure (\<lambda>(fs, p, bufSize, pos). length (file_bytes fs p) - pos)") auto

declare stream_file.simps [simp del]

definition send_file :: "file_system \<Rightarrow> string \<Rightarrow> nat \<Rightarrow> static_effect list" where
  "send_file fs p len =
     (let ext = (case rfind_char (CHR ''.'') p of Some i \<Rightarrow> drop i p | None \<Rightarrow> []);
          resp = setContentLength len (setContentType (getMimeType ext) (setStatus ST_OK http_response_new))
      in OpenFile p # SendHead resp # stream_file fs p (min kChunkSize len) 0)"

definition serve_path :: "file_system \<Rightarrow> static_handler \<Rightarrow> string \<Rightarrow> nat \<Rightarrow> static_effect list" where
  "serve_path fs h p len =
     (if len > maxFileSize h then plain_answer ST_PAYLOAD_TOO_LARGE ''File Too Large''
      else if \<not> can_open fs p then plain_answer ST_FORBIDDEN ''Forbidden''
      else send_file fs p len)"

definition static_onRequest :: "file_system \<Rightarrow> static_handler \<Rightarrow> http_request \<Rightarrow> static_effect list" where
  "static_onRequest fs h req =
     (let filePath = sanitizePath fs h (rq_path req) in
      case file_stat fs filePath of
        None \<Rightarrow> plain_answer ST_NOT_FOUND ''Not Found''
      | Some (False, len) \<Rightarrow> serve_path fs h filePath len
      | Some (True, _) \<Rightarrow>
          let filePath = filePath @ ''index.html'' in
          (case file_stat fs filePath of
             None \<Rightarrow> plain_answer ST_NOT_FOUND ''Not Found''
           | Some (_, len) \<Rightarrow> serve_path fs h filePath len))"

section \<open>Containment\<close>

lemma with_slash_prefix: "prefix r (with_slash p) \<Longrightarrow> prefix r (p @ ''/'')"
  by (auto simp: with_slash_def split: if_splits)

lemma sanitizePath_cases:
  assumes "uri \<noteq> []" and "sanitizePath fs h uri \<noteq> []"
  obtains p where "prefix (realDocRoot h) (with_slash p)"
    "sanitizePath fs h uri = (case file_stat fs p of Some (True, n) \<Rightarrow> p @ ''/'' | _ \<Rightarrow> p)"
proof -
  define raw where "raw = docRoot h @ (if hd uri = CHR ''/'' then tl uri else uri)"
  obtain p where p: "resolve_path fs raw = Some p" "\<not> (length (with_slash p) < length (realDocRoot h)
      \<or> take (length (realDocRoot h)) (with_slash p) \<noteq> realDocRoot h)"
      "sanitizePath fs h uri = (case file_stat fs p of Some (True, n) \<Rightarrow> p @ ''/'' | _ \<Rightarrow> p)"
    using assms by (auto simp: sanitizePath_def Let_def raw_def split: option.splits if_splits)
  have "prefix (realDocRoot h) (with_slash p)" using p(2) by (metis take_is_prefix)
  then show ?thesis using that p(3) by blast
qed

text \<open>A path that passes the check lies under the document root, and so does \<open>index.html\<close> in it.\<close>

lemma sanitizePath_inside:
  assumes "uri \<noteq> []" and "sanitizePath fs h uri \<noteq> []"
  shows "prefix (realDocRoot h) (sanitizePath fs h uri @ ''/'')"
    and "file_stat fs (sanitizePath fs h uri) = Some (True, n) \<Longrightarrow> prefix (realDocRoot h) (sanitizePath fs h uri @ x)"
proof -
  obtain p where p: "prefix (realDocRoot h) (with_slash p)"
      "sanitizePath fs h uri = (case file_stat fs p of Some (True, n) \<Rightarrow> p @ ''/'' | _ \<Rightarrow> p)"
    by (rule sanitizePath_cases [OF assms])
  have ps: "prefix (realDocRoot h) (p @ ''/'')" by (rule with_slash_prefix [OF p(1)])
  then have long: "prefix (realDocRoot h) (p @ ''/'' @ y)" for y by (metis append.assoc prefix_prefix)
  show "prefix (realDocRoot h) (sanitizePath fs h uri @ ''/'')"
    using ps long [of "''/''"] by (auto simp: p(2) split: option.split bool.split)
  show "prefix (realDocRoot h) (sanitizePath fs h uri @ x)" if "file_stat fs (sanitizePath fs h uri) = Some (True, n)"
    using that long [of x] by (auto simp: p(2) split: option.splits bool.splits)
qed

lemma stream_file_no_open: "OpenFile p \<notin> set (stream_file fs q k pos)"
  by (induction fs q k pos rule: stream_file.induct) (subst stream_file.simps, auto simp: Let_def)

lemma serve_path_opens: "OpenFile p \<in> set (serve_path fs h q len) \<longleftrightarrow> p = q \<and> len \<le> maxFileSize h \<and> can_open fs q"
  by (auto simp: serve_path_def plain_answer_def send_file_def Let_def stream_file_no_open)

section \<open>Streaming\<close>

definition progress :: "file_system \<Rightarrow> string \<Rightarrow> bool" where
  "progress fs p \<longleftrightarrow> (\<forall>pos < length (file_bytes fs p). 0 < read_count fs p pos)"

lemma stream_file_whole:
  assumes "progress fs p" and "0 < k"
  shows "\<exists>cs. stream_file fs p k pos = map SendBody cs \<and> concat cs = drop pos (file_bytes fs p) \<and>
    (\<forall>c \<in> set cs. c \<noteq> [] \<and> length c \<le> k)"
  using assms
proof (induction fs p k pos rule: stream_file.induct)
  case (1 fs p k pos)
  define n where "n = min (nat (read_count fs p pos)) (min k (length (file_bytes fs p) - pos))"
  show ?case
  proof (cases "n = 0")
    case True
    then have "length (file_bytes fs p) \<le> pos \<or> read_count fs p pos \<le> 0" using 1(3) by (auto simp: n_def min_def split: if_splits)
    then have "length (file_bytes fs p) \<le> pos" using 1(2) unfolding progress_def by (meson linorder_not_less)
    then show ?thesis by (subst stream_file.simps) simp
  next
    case False
    then obtain cs where cs: "stream_file fs p k (pos + n) = map SendBody cs" "concat cs = drop (pos + n) (file_bytes fs p)"
        "\<forall>c \<in> set cs. c \<noteq> [] \<and> length c \<le> k"
      using 1(1) [OF n_def] 1(2,3) by blast
    have n: "n \<le> k" "n \<le> length (file_bytes fs p) - pos" by (simp_all add: n_def)
    let ?c = "take n (drop pos (file_bytes fs p))"
    have "stream_file fs p k pos = map SendBody (?c # cs)"
      using False cs(1) by (subst stream_file.simps) (simp add: Let_def flip: n_def)
    moreover have "concat (?c # cs) = drop pos (file_bytes fs p)"
      using cs(2) by (simp add: append_take_drop_id add.commute flip: drop_drop)
    moreover have "?c \<noteq> [] \<and> length ?c \<le> k" using False n by auto
    ultimately show ?thesis using cs(3) by (metis set_ConsD)
  qed
qed

section \<open>Properties\<close>


text \<open>A regular file is sent whole: when the file system reports its size and \<open>read\<close> makes progress
  until the end of the file, the handler opens the file, announces its length and sends exactly its
  contents, in chunks of 1 to 65536 bytes.\<close>

theorem static_file_sent_whole:
  assumes "p = sanitizePath fs h (rq_path req)" and "file_stat fs p = Some (False, length (file_bytes fs p))"
    and "length (file_bytes fs p) \<le> maxFileSize h" and "can_open fs p" and "progress fs p"
  shows "\<exists>resp cs. static_onRequest fs h req = OpenFile p # SendHead resp # map SendBody cs \<and>
    concat cs = file_bytes fs p \<and> rs_status resp = ST_OK \<and> contentLengthSet resp \<and>
    map_of (rs_headers resp) ''Content-Length'' = Some (decimal (length (file_bytes fs p))) \<and>
    (\<forall>c \<in> set cs. c \<noteq> [] \<and> length c \<le> kChunkSize)"
proof -
  let ?n = "length (file_bytes fs p)" and ?k = "min kChunkSize (length (file_bytes fs p))"
  have "\<exists>cs. stream_file fs p ?k 0 = map SendBody cs \<and> concat cs = file_bytes fs p \<and> (\<forall>c \<in> set cs. c \<noteq> [] \<and> length c \<le> kChunkSize)"
  proof (cases "?n = 0")
    case True
    then have "stream_file fs p ?k 0 = []" by (subst stream_file.simps) simp
    then show ?thesis using True by (auto intro: exI [of _ "[]"])
  next
    case False
    then have "0 < ?k" by simp
    from stream_file_whole [OF assms(5) this, of 0] show ?thesis by (metis drop0 min.boundedE)
  qed
  then show ?thesis using assms(1-4)
    by (auto simp: static_onRequest_def serve_path_def send_file_def Let_def setContentLength_def setContentType_def
        setStatus_def http_response_new_def)
qed

text \<open>What the handler cannot serve it answers with the right status: a missing file with 404, one
  above the size limit with 413, one that cannot be opened with 403, and nothing is opened or
  streamed.\<close>

theorem static_file_errors:
  assumes "p = sanitizePath fs h (rq_path req)"
  shows "(file_stat fs p = None \<longrightarrow> static_onRequest fs h req = plain_answer ST_NOT_FOUND ''Not Found'') \<and>
    (\<forall>n. file_stat fs p = Some (False, n) \<and> maxFileSize h < n \<longrightarrow>
       static_onRequest fs h req = plain_answer ST_PAYLOAD_TOO_LARGE ''File Too Large'') \<and>
    (\<forall>n. file_stat fs p = Some (False, n) \<and> n \<le> maxFileSize h \<and> \<not> can_open fs p \<longrightarrow>
       static_onRequest fs h req = plain_answer ST_FORBIDDEN ''Forbidden'') \<and>
    (\<forall>n. file_stat fs p = Some (True, n) \<and> file_stat fs (p @ ''index.html'') = None \<longrightarrow>
       static_onRequest fs h req = plain_answer ST_NOT_FOUND ''Not Found'')"
  using assms by (simp add: static_onRequest_def serve_path_def Let_def)

section \<open>A concrete file system\<close>

definition demo_fs :: file_system where
  "demo_fs = \<lparr>
     realpath = (\<lambda>p. if p = ''/www/'' \<or> p = ''/www'' then Some ''/www''
        else if p = ''/www/a.txt'' then Some ''/www/a.txt''
        else if p = ''/www/../key'' then Some ''/key''
        else if p = ''/www/index.html'' then Some ''/key'' else None),
     file_stat = (\<lambda>p. if p = ''/www'' \<or> p = ''/www/'' then Some (True, 0)
        else if p = ''/www/a.txt'' then Some (False, 3)
        else if p = ''/www/index.html'' \<or> p = ''/key'' then Some (False, 1) else None),
     can_open = (\<lambda>p. True),
     file_bytes = (\<lambda>p. if p = ''/www/a.txt'' then [1, 2, 3] else [9]),
     read_count = (\<lambda>p pos. 2)\<rparr>"

definition demo_static :: static_handler where
  "demo_static = static_handler_new demo_fs ''/www'' 100"

definition get_path :: "string \<Rightarrow> http_request" where
  "get_path p = http_request_new\<lparr>rq_path := p\<rparr>"

lemma demo_static_eq: "demo_static = \<lparr>docRoot = ''/www/'', realDocRoot = ''/www/'', maxFileSize = 100\<rparr>"
  by (simp add: demo_static_def static_handler_new_def with_slash_def demo_fs_def Let_def)

lemma demo_sanitize:
  "sanitizePath demo_fs demo_static ''/a.txt'' = ''/www/a.txt''" "sanitizePath demo_fs demo_static ''/../key'' = []"
  "sanitizePath demo_fs demo_static ''/index.html'' = []" "sanitizePath demo_fs demo_static ''/'' = ''/www/''"
  "sanitizePath demo_fs demo_static ''/none'' = ''/www/none''"
  by (simp_all add: demo_static_eq sanitizePath_def resolve_path_def with_slash_def demo_fs_def)


theorem static_file_sent_whole_witness:
  "\<exists>resp cs. static_onRequest demo_fs demo_static (get_path ''/a.txt'') = OpenFile ''/www/a.txt'' # SendHead resp # map SendBody cs \<and>
     concat cs = [1, 2, 3]"
proof -
  have m: "maxFileSize demo_static = 100" by (simp add: demo_static_eq)
  have c: "file_bytes demo_fs ''/www/a.txt'' = [1, 2, 3]" by (simp add: demo_fs_def)
  have "file_stat demo_fs ''/www/a.txt'' = Some (False, 3)" "can_open demo_fs ''/www/a.txt''" "progress demo_fs ''/www/a.txt''"
    by (simp_all add: demo_fs_def progress_def)
  then show ?thesis
    using static_file_sent_whole [of "''/www/a.txt''" demo_fs demo_static "get_path ''/a.txt''"] m
    by (simp add: get_path_def demo_sanitize c) blast
qed

theorem static_file_errors_witness:
  "static_onRequest demo_fs demo_static (get_path ''/none'') = plain_answer ST_NOT_FOUND ''Not Found'' \<and>
   static_onRequest demo_fs (demo_static\<lparr>maxFileSize := 2\<rparr>) (get_path ''/a.txt'') = plain_answer ST_PAYLOAD_TOO_LARGE ''File Too Large''"
proof -
  have "file_stat demo_fs ''/www/none'' = None" "file_stat demo_fs ''/www/a.txt'' = Some (False, 3)" by (simp_all add: demo_fs_def)
  moreover have "sanitizePath demo_fs (demo_static\<lparr>maxFileSize := 2\<rparr>) ''/a.txt'' = ''/www/a.txt''"
    by (simp add: demo_static_eq sanitizePath_def resolve_path_def with_slash_def demo_fs_def)
  ultimately show ?thesis
    using static_file_errors [of "''/www/none''" demo_fs demo_static "get_path ''/none''"]
      static_file_errors [of "''/www/a.txt''" demo_fs "demo_static\<lparr>maxFileSize := 2\<rparr>" "get_path ''/a.txt''"]
    by (simp add: get_path_def demo_sanitize)
qed

text \<open>
  The check resolves symbolic links of the requested path only. A link \<open>index.html\<close> that leaves the
  document root is refused under its own name and followed under the name of its directory.
\<close>

theorem index_link_escapes:
  "realpath demo_fs ''/www/index.html'' = Some ''/key'' \<and>
   static_onRequest demo_fs demo_static (get_path ''/index.html'') = plain_answer ST_NOT_FOUND ''Not Found'' \<and>
   OpenFile ''/www/index.html'' \<in> set (static_onRequest demo_fs demo_static (get_path ''/''))"
  by (simp add: static_onRequest_def get_path_def demo_sanitize Let_def)
    (simp add: demo_fs_def demo_static_eq serve_path_opens Let_def)

end
