(* ===== verification/Gzip.thy ===== *)
theory Gzip
  imports Prelude "HOL-Library.Sublist"
begin

text \<open>
  The wrapper around zlib (\<open>src/util/gzip.cpp\<close>, \<open>include/xnetty/util/gzip.h\<close>). The library itself is a
  parameter: a record of the four functions the wrapper calls, on an internal state of any type. A call
  of \<open>deflate\<close> or \<open>inflate\<close> gets the input that is left (\<open>next_in\<close>, \<open>avail_in\<close>) and the room in the
  output buffer (\<open>avail_out\<close>) and answers with its return code, the bytes it put into the buffer, the
  input it left and its new state. \<open>zlib_laws\<close> collects what zlib documents of them.

  The two loops are partial functions. The lemmas show that \<open>compress\<close> returns the whole stream, that
  \<open>decompress\<close> returns the whole text of a complete stream, and that it never returns for a stream that
  breaks off.
\<close>

section \<open>The library\<close>

datatype zret = Z_OK | Z_STREAM_END | Z_NEED_DICT | Z_BUF_ERROR | Z_STREAM_ERROR | Z_DATA_ERROR | Z_MEM_ERROR

record 'z zlib =
  deflateInit2 :: "int \<Rightarrow> 'z option"
  deflate :: "'z \<Rightarrow> string \<Rightarrow> nat \<Rightarrow> zret \<times> string \<times> string \<times> 'z"
  inflateInit2 :: "int \<Rightarrow> 'z option"
  inflate :: "'z \<Rightarrow> string \<Rightarrow> nat \<Rightarrow> zret \<times> string \<times> string \<times> 'z"

section \<open>The wrapper\<close>

datatype content_encoding = ENC_GZIP | ENC_DEFLATE

definition kChunk :: nat where
  "kChunk = 16384"

definition windowBits :: "content_encoding \<Rightarrow> int" where
  "windowBits enc = (case enc of ENC_GZIP \<Rightarrow> 15 + 16 | ENC_DEFLATE \<Rightarrow> 15)"

text \<open>\<open>static_cast<uInt>(len)\<close>: the library sees the length modulo \<open>2 ^ 32\<close>.\<close>

definition avail_in :: "string \<Rightarrow> string" where
  "avail_in s = take (length s mod 2 ^ 32) s"

partial_function (option) deflate_loop :: "'z zlib \<Rightarrow> 'z \<Rightarrow> string \<Rightarrow> string \<Rightarrow> string res option" where
  "deflate_loop zl z inp out = (case deflate zl z inp kChunk of (ret, piece, inp', z') \<Rightarrow>
     if ret = Z_STREAM_ERROR then Some (Inl RuntimeError)
     else if kChunk - length piece = 0 then deflate_loop zl z' inp' (out @ piece)
     else Some (Inr (out @ piece)))"

definition compress :: "'z zlib \<Rightarrow> content_encoding \<Rightarrow> string \<Rightarrow> string res" where
  "compress zl enc s = (case deflateInit2 zl (windowBits enc) of
     None \<Rightarrow> Inl RuntimeError
   | Some z \<Rightarrow> returned (deflate_loop zl z (avail_in s) []))"

partial_function (option) inflate_loop :: "'z zlib \<Rightarrow> 'z \<Rightarrow> string \<Rightarrow> string \<Rightarrow> string res option" where
  "inflate_loop zl z inp out = (case inflate zl z inp kChunk of (ret, piece, inp', z') \<Rightarrow>
     if ret = Z_STREAM_ERROR \<or> ret = Z_DATA_ERROR \<or> ret = Z_MEM_ERROR then Some (Inl RuntimeError)
     else if ret \<noteq> Z_STREAM_END then inflate_loop zl z' inp' (out @ piece)
     else Some (Inr (out @ piece)))"

definition decompress :: "'z zlib \<Rightarrow> string \<Rightarrow> string res" where
  "decompress zl s = (case inflateInit2 zl (15 + 32) of
     None \<Rightarrow> Inl RuntimeError
   | Some z \<Rightarrow> returned (inflate_loop zl z (avail_in s) []))"

section \<open>What zlib documents\<close>

text \<open>
  \<open>pend z inp out\<close>: with \<open>inp\<close> as its last input the compressor in state \<open>z\<close> has still to produce
  \<open>out\<close>. With \<open>Z_FINISH\<close> a call fills the buffer or ends the stream.
\<close>

definition deflate_laws :: "'z zlib \<Rightarrow> (int \<Rightarrow> string \<Rightarrow> string) \<Rightarrow> ('z \<Rightarrow> string \<Rightarrow> string \<Rightarrow> bool) \<Rightarrow> bool" where
  "deflate_laws zl stream pend \<longleftrightarrow>
     (\<forall>wb inp. \<exists>z. deflateInit2 zl wb = Some z \<and> pend z inp (stream wb inp)) \<and>
     (\<forall>z inp out n. pend z inp out \<and> 0 < n \<longrightarrow>
        (case deflate zl z inp n of (ret, piece, inp', z') \<Rightarrow>
           ret \<noteq> Z_STREAM_ERROR \<and> piece = take n out \<and> pend z' inp' (drop n out)))"

text \<open>
  \<open>dec z inp miss out\<close>: the decompressor in state \<open>z\<close> has the input \<open>inp\<close>, and would produce exactly
  \<open>out\<close> and end the stream if \<open>miss\<close> followed. It stops only when the buffer is full or the input is used
  up, and reports the end of the stream only when the stream is complete; a call that can make no
  progress answers \<open>Z_BUF_ERROR\<close>, which is not fatal.
\<close>

definition inflate_answers :: "'z zlib \<Rightarrow> ('z \<Rightarrow> string \<Rightarrow> string \<Rightarrow> string \<Rightarrow> bool) \<Rightarrow>
    'z \<Rightarrow> string \<Rightarrow> string \<Rightarrow> string \<Rightarrow> nat \<Rightarrow> bool" where
  "inflate_answers zl dec z inp miss out n = (case inflate zl z inp n of (ret, piece, inp', z') \<Rightarrow>
     ret \<in> {Z_OK, Z_BUF_ERROR, Z_STREAM_END} \<and> length piece \<le> n \<and> prefix piece out \<and>
     (ret \<noteq> Z_STREAM_END \<longrightarrow> dec z' inp' miss (drop (length piece) out)) \<and>
     (ret = Z_STREAM_END \<longrightarrow> miss = [] \<and> piece = out) \<and>
     (miss = [] \<and> length piece < n \<longrightarrow> ret = Z_STREAM_END))"

definition inflate_laws :: "'z zlib \<Rightarrow> (int \<Rightarrow> string \<Rightarrow> string) \<Rightarrow> ('z \<Rightarrow> string \<Rightarrow> string \<Rightarrow> string \<Rightarrow> bool) \<Rightarrow> bool" where
  "inflate_laws zl stream dec \<longleftrightarrow>
     (\<forall>enc plain inp miss. inp @ miss = stream (windowBits enc) plain \<longrightarrow>
        (\<exists>z. inflateInit2 zl (15 + 32) = Some z \<and> dec z inp miss plain)) \<and>
     (\<forall>z inp miss out n. dec z inp miss out \<and> 0 < n \<longrightarrow> inflate_answers zl dec z inp miss out n)"

section \<open>Lemmas\<close>

lemma kChunk_pos [simp]: "0 < kChunk"
  by (simp add: kChunk_def)

lemma avail_in_exact [simp]: "length s < 2 ^ 32 \<Longrightarrow> avail_in s = s"
  by (simp add: avail_in_def)

lemma deflate_loop_drains:
  assumes laws: "deflate_laws zl stream pend" and "pend z inp rest"
  shows "deflate_loop zl z inp out = Some (Inr (out @ rest))"
  using assms(2)
proof (induction "length rest" arbitrary: z inp rest out rule: less_induct)
  case less
  obtain ret piece inp' z' where d: "deflate zl z inp kChunk = (ret, piece, inp', z')" by (metis surj_pair)
  have step: "ret \<noteq> Z_STREAM_ERROR" "piece = take kChunk rest" "pend z' inp' (drop kChunk rest)"
    using laws [unfolded deflate_laws_def, THEN conjunct2, rule_format, of z inp rest kChunk] less.prems d by simp_all
  show ?case
  proof (cases "length rest < kChunk")
    case True
    then show ?thesis using step by (subst deflate_loop.simps) (simp add: d)
  next
    case False
    then have "length (drop kChunk rest) < length rest" by (simp add: kChunk_def)
    from less.hyps [OF this step(3), of "out @ piece"]
    have "deflate_loop zl z' inp' (out @ piece) = Some (Inr (out @ rest))" by (simp add: step(2))
    then show ?thesis using False step by (subst deflate_loop.simps) (simp add: d)
  qed
qed

lemma inflate_step:
  assumes "inflate_laws zl stream dec" and "dec z inp miss out"
    and "inflate zl z inp kChunk = (ret, piece, inp', z')"
  shows "ret \<in> {Z_OK, Z_BUF_ERROR, Z_STREAM_END}" "length piece \<le> kChunk" "prefix piece out"
    "ret \<noteq> Z_STREAM_END \<Longrightarrow> dec z' inp' miss (drop (length piece) out)"
    "ret = Z_STREAM_END \<Longrightarrow> miss = [] \<and> piece = out"
    "miss = [] \<Longrightarrow> length piece < kChunk \<Longrightarrow> ret = Z_STREAM_END"
proof -
  have "inflate_answers zl dec z inp miss out kChunk"
    using assms(1,2) kChunk_pos unfolding inflate_laws_def by blast
  note law = this [unfolded inflate_answers_def assms(3) prod.case]
  show "ret \<in> {Z_OK, Z_BUF_ERROR, Z_STREAM_END}" "length piece \<le> kChunk" "prefix piece out"
    "ret \<noteq> Z_STREAM_END \<Longrightarrow> dec z' inp' miss (drop (length piece) out)"
    "ret = Z_STREAM_END \<Longrightarrow> miss = [] \<and> piece = out"
    "miss = [] \<Longrightarrow> length piece < kChunk \<Longrightarrow> ret = Z_STREAM_END"
    using law by blast+
qed

lemma inflate_loop_complete:
  assumes laws: "inflate_laws zl stream dec" and "dec z inp [] rest"
  shows "inflate_loop zl z inp out = Some (Inr (out @ rest))"
  using assms(2)
proof (induction "length rest" arbitrary: z inp rest out rule: less_induct)
  case less
  obtain ret piece inp' z' where d: "inflate zl z inp kChunk = (ret, piece, inp', z')" by (metis surj_pair)
  note step = inflate_step [OF laws less.prems d]
  show ?case
  proof (cases "ret = Z_STREAM_END")
    case True
    then show ?thesis using step(5) by (subst inflate_loop.simps) (simp add: d)
  next
    case False
    then have full: "length piece = kChunk" using step(2,6) by (metis le_neq_implies_less)
    then have "length (drop (length piece) rest) < length rest"
      using prefix_length_le [OF step(3)] by (simp add: kChunk_def)
    from less.hyps [OF this step(4) [OF False], of "out @ piece"]
    have "inflate_loop zl z' inp' (out @ piece) = Some (Inr (out @ rest))"
      using step(3) by (auto elim: prefixE)
    then show ?thesis using False step(1) by (subst inflate_loop.simps) (auto simp: d)
  qed
qed

text \<open>A stream that breaks off: every call answers \<open>Z_OK\<close> or \<open>Z_BUF_ERROR\<close>, so the loop goes on.\<close>

lemma inflate_loop_truncated:
  assumes laws: "inflate_laws zl stream dec" and "dec z inp miss rest" and "miss \<noteq> []"
  shows "inflate_loop zl z inp out = None"
proof (rule ccontr)
  assume "inflate_loop zl z inp out \<noteq> None"
  then obtain r where "inflate_loop zl z inp out = Some r" by blast
  then have "zl = zl \<longrightarrow> (\<forall>rest. \<not> dec z inp miss rest)"
  proof (rule inflate_loop.raw_induct [where P = "\<lambda>zz z inp out r. zz = zl \<longrightarrow> (\<forall>rest. \<not> dec z inp miss rest)", rotated])
    fix f zz z inp out r
    assume ih: "\<And>zz z inp out r. f zz z inp out = Some r \<Longrightarrow> zz = zl \<longrightarrow> (\<forall>rest. \<not> dec z inp miss rest)"
      and body: "(case inflate zz z inp kChunk of (ret, piece, inp', z') \<Rightarrow>
          if ret = Z_STREAM_ERROR \<or> ret = Z_DATA_ERROR \<or> ret = Z_MEM_ERROR then Some (Inl RuntimeError)
          else if ret \<noteq> Z_STREAM_END then f zz z' inp' (out @ piece) else Some (Inr (out @ piece))) = Some r"
    obtain ret piece inp' z' where d: "inflate zl z inp kChunk = (ret, piece, inp', z')" by (metis surj_pair)
    have False if "zz = zl" and dz: "dec z inp miss rest" for rest
    proof -
      note step = inflate_step [OF laws dz d]
      have "ret \<noteq> Z_STREAM_END" using step(5) assms(3) by blast
      then have "f zl z' inp' (out @ piece) = Some r" and "dec z' inp' miss (drop (length piece) rest)"
        using body step(1,4) by (auto simp: d \<open>zz = zl\<close>)
      then show False using ih by blast
    qed
    then show "zz = zl \<longrightarrow> (\<forall>rest. \<not> dec z inp miss rest)" by blast
  qed
  then show False using assms(2) by blast
qed

lemma compress_ok:
  assumes "deflate_laws zl stream pend"
  shows "compress zl enc s = Inr (stream (windowBits enc) (avail_in s))"
proof -
  obtain z where "deflateInit2 zl (windowBits enc) = Some z" "pend z (avail_in s) (stream (windowBits enc) (avail_in s))"
    using assms unfolding deflate_laws_def by blast
  then show ?thesis using deflate_loop_drains [OF assms] by (simp add: compress_def)
qed

lemma decompress_cases:
  assumes "inflate_laws zl stream dec" and "avail_in s @ miss = stream (windowBits enc) plain"
  shows "decompress zl s = (if miss = [] then Inr plain else Inl Diverges)"
proof -
  obtain z where "inflateInit2 zl (15 + 32) = Some z" "dec z (avail_in s) miss plain"
    using assms unfolding inflate_laws_def by blast
  then show ?thesis
    using inflate_loop_complete [OF assms(1), of z "avail_in s" plain "[]"] inflate_loop_truncated [OF assms(1), of z "avail_in s" miss plain "[]"]
    by (cases "miss = []") (simp_all add: decompress_def)
qed

section \<open>Properties\<close>

text \<open>C27. Compression is lossless for either encoding: what \<open>compress\<close> returns, \<open>decompress\<close> turns back
  into the data, as long as data and stream are shorter than \<open>2 ^ 32\<close> bytes, the range of the
  library's length fields. Both loops end.\<close>

theorem gzip_roundtrip:
  assumes "deflate_laws zl stream pend" and "inflate_laws zl stream dec"
    and "length s < 2 ^ 32" and "length (stream (windowBits enc) s) < 2 ^ 32"
  shows "rbind (compress zl enc s) (decompress zl) = Inr s"
  using decompress_cases [OF assms(2), of "stream (windowBits enc) s" "[]" enc s] assms(3,4)
  by (simp add: compress_ok [OF assms(1)])

text \<open>\<open>decompress\<close> does not return for a stream that breaks off: on every proper prefix of a stream that
  \<open>compress\<close> made, the empty one included, its loop runs forever, since \<open>inflate\<close> neither ends the stream
  nor fails.\<close>

theorem gzip_truncated_diverges:
  assumes "deflate_laws zl stream pend" and "inflate_laws zl stream dec"
    and "compress zl enc s = Inr c" and "strict_prefix p c" and "length c < 2 ^ 32"
  shows "decompress zl p = Inl Diverges"
proof -
  have c: "c = stream (windowBits enc) (avail_in s)" using assms(3) by (simp add: compress_ok [OF assms(1)])
  obtain m where m: "c = p @ m" "m \<noteq> []" using assms(4) by (auto elim: strict_prefixE')
  have "length p < 2 ^ 32" using assms(5) m(1) by simp
  then show ?thesis using decompress_cases [OF assms(2), of p m enc "avail_in s"] c m by simp
qed

section \<open>Witnesses\<close>

text \<open>A small library: each character of the text is sent behind a \<open>1\<close>, and a \<open>0\<close> ends the stream. The
  state is what the compressor has still to send.\<close>

fun demo_stream :: "string \<Rightarrow> string" where
  "demo_stream [] = ''0''"
| "demo_stream (c # cs) = CHR ''1'' # c # demo_stream cs"

fun demo_inflate :: "string \<Rightarrow> nat \<Rightarrow> zret \<times> string \<times> string" where
  "demo_inflate [] n = (Z_BUF_ERROR, [], [])"
| "demo_inflate (a # r) n =
     (if a = CHR ''0'' then (Z_STREAM_END, [], r)
      else if n = 0 then (Z_OK, [], a # r)
      else case r of [] \<Rightarrow> (Z_BUF_ERROR, [], a # r)
         | c # r' \<Rightarrow> let (ret, piece, rest) = demo_inflate r' (n - 1) in (ret, c # piece, rest))"

definition demo_zlib :: "string option zlib" where
  "demo_zlib = \<lparr>deflateInit2 = (\<lambda>wb. Some None),
     deflate = (\<lambda>z inp n. let out = (case z of None \<Rightarrow> demo_stream inp | Some p \<Rightarrow> p)
        in (if length out \<le> n then Z_STREAM_END else Z_OK, take n out, [], Some (drop n out))),
     inflateInit2 = (\<lambda>wb. Some None),
     inflate = (\<lambda>z inp n. let (ret, piece, inp') = demo_inflate inp n in (ret, piece, inp', z))\<rparr>"

definition demo_pend :: "string option \<Rightarrow> string \<Rightarrow> string \<Rightarrow> bool" where
  "demo_pend z inp out \<longleftrightarrow> out = (case z of None \<Rightarrow> demo_stream inp | Some p \<Rightarrow> p)"

definition demo_dec :: "string option \<Rightarrow> string \<Rightarrow> string \<Rightarrow> string \<Rightarrow> bool" where
  "demo_dec z inp miss out \<longleftrightarrow> inp @ miss = demo_stream out"

lemma demo_deflate_laws: "deflate_laws demo_zlib (\<lambda>wb. demo_stream) demo_pend"
  by (auto simp: deflate_laws_def demo_zlib_def demo_pend_def Let_def)

lemma demo_inflate_spec:
  "inp @ miss = demo_stream out \<Longrightarrow> demo_inflate inp n = (ret, piece, rest) \<Longrightarrow>
   ret \<in> {Z_OK, Z_BUF_ERROR, Z_STREAM_END} \<and> length piece \<le> n \<and> prefix piece out \<and>
   (ret \<noteq> Z_STREAM_END \<longrightarrow> rest @ miss = demo_stream (drop (length piece) out)) \<and>
   (ret = Z_STREAM_END \<longrightarrow> miss = [] \<and> piece = out) \<and>
   (miss = [] \<and> length piece < n \<longrightarrow> ret = Z_STREAM_END)"
proof (induction inp n arbitrary: out ret piece rest rule: demo_inflate.induct)
  case (1 n)
  then show ?case by (cases out) auto
next
  case (2 a r n)
  show ?case
  proof (cases out)
    case Nil
    then show ?thesis using 2 by auto
  next
    case (Cons c out')
    then have a: "a \<noteq> CHR ''0''" and r: "r @ miss = c # demo_stream out'" using "2.prems"(1) by auto
    show ?thesis
    proof (cases "n = 0 \<or> r = []")
      case True
      then have "ret \<in> {Z_OK, Z_BUF_ERROR} \<and> piece = [] \<and> rest = a # r" and "miss = [] \<longrightarrow> n = 0"
        using "2.prems"(2) a r by (auto split: if_splits)
      then show ?thesis using "2.prems"(1) by auto
    next
      case False
      then obtain r' where r': "r = c # r'" "r' @ miss = demo_stream out'" using r by (cases r) auto
      obtain ret' piece' rest' where d: "demo_inflate r' (n - 1) = (ret', piece', rest')" by (metis surj_pair)
      have "ret = ret'" "piece = c # piece'" "rest = rest'" using "2.prems"(2) a False r'(1) d by auto
      note eqs = this and ih = "2.IH" [OF a _ r'(1) r'(2) d]
      have n: "n \<noteq> 0" using False by simp
      note ih = ih [OF n]
      have "length piece' \<le> n - 1" and pre: "prefix piece' out'" using ih by blast+
      then have len: "length piece \<le> n" and short: "length piece < n \<Longrightarrow> length piece' < n - 1" using n eqs(2) by auto
      show ?thesis unfolding eqs(1,3)
      proof (intro conjI impI)
        show "ret' \<in> {Z_OK, Z_BUF_ERROR, Z_STREAM_END}" using ih by blast
        show "length piece \<le> n" by (rule len)
        show "prefix piece out" using pre Cons eqs(2) by simp
      next
        assume "ret' \<noteq> Z_STREAM_END"
        then have "rest' @ miss = demo_stream (drop (length piece') out')" using ih by blast
        then show "rest' @ miss = demo_stream (drop (length piece) out)" using Cons eqs(2) by simp
      next
        assume "ret' = Z_STREAM_END"
        then have "miss = []" "piece' = out'" using ih by blast+
        then show "miss = []" "piece = out" using Cons eqs(2) by simp_all
      next
        assume "miss = [] \<and> length piece < n"
        then show "ret' = Z_STREAM_END" using ih short by blast
      qed
    qed
  qed
qed

lemma demo_inflate_laws: "inflate_laws demo_zlib (\<lambda>wb. demo_stream) demo_dec"
  unfolding inflate_laws_def inflate_answers_def
proof (intro conjI allI impI)
  fix enc plain inp miss
  assume "inp @ miss = demo_stream plain"
  then show "\<exists>z. inflateInit2 demo_zlib (15 + 32) = Some z \<and> demo_dec z inp miss plain"
    by (simp add: demo_zlib_def demo_dec_def)
next
  fix z inp miss out and n :: nat
  assume "demo_dec z inp miss out \<and> 0 < n"
  then have dec: "inp @ miss = demo_stream out" by (simp add: demo_dec_def)
  obtain ret piece rest where d: "demo_inflate inp n = (ret, piece, rest)" by (metis surj_pair)
  then have "inflate demo_zlib z inp n = (ret, piece, rest, z)" by (simp add: demo_zlib_def)
  note eq = this
  show "case inflate demo_zlib z inp n of (ret, piece, inp', z') \<Rightarrow>
     ret \<in> {Z_OK, Z_BUF_ERROR, Z_STREAM_END} \<and> length piece \<le> n \<and> prefix piece out \<and>
     (ret \<noteq> Z_STREAM_END \<longrightarrow> demo_dec z' inp' miss (drop (length piece) out)) \<and>
     (ret = Z_STREAM_END \<longrightarrow> miss = [] \<and> piece = out) \<and>
     (miss = [] \<and> length piece < n \<longrightarrow> ret = Z_STREAM_END)"
    unfolding eq prod.case demo_dec_def by (rule demo_inflate_spec [OF dec d])
qed

lemmas demo_compress = compress_ok [OF demo_deflate_laws]

theorem gzip_roundtrip_witness:
  "rbind (compress demo_zlib ENC_GZIP ''ab'') (decompress demo_zlib) = Inr ''ab'' \<and> compress demo_zlib ENC_GZIP ''ab'' = Inr ''1a1b0''"
  using gzip_roundtrip [OF demo_deflate_laws demo_inflate_laws, of "''ab''" ENC_GZIP] by (simp add: demo_compress)

theorem gzip_truncated_diverges_witness: "decompress demo_zlib ''1a1b'' = Inl Diverges"
  using gzip_truncated_diverges [OF demo_deflate_laws demo_inflate_laws, of ENC_GZIP "''ab''" "''1a1b0''" "''1a1b''"]
  by (simp add: demo_compress strict_prefix_def)

end
