(* ===== verification/Compressor.thy ===== *)
theory Compressor
  imports Handshake Gzip
begin

text \<open>
  The compression handlers (\<open>src/http/compressor_handler.cpp\<close>) over the wrapper of zlib in theory
  \<open>Gzip\<close>; zlib itself is a parameter. A message in the pipeline is a request, a response or something
  else; what a handler forwards is a message or a response already serialised. A fault is the exception
  of the request's parser or of the wrapper, or a decompression that does not return.
\<close>

section \<open>State and messages\<close>

record peer_state =
  supportsCompression :: bool
  encoding :: content_encoding

definition peer_state_new :: peer_state where
  "peer_state_new = \<lparr>supportsCompression = False, encoding = ENC_GZIP\<rparr>"

datatype http_msg = MsgRequest http_request | MsgResponse http_response | MsgOther nat

datatype forwarded = FwdMsg http_msg | FwdBytes bytebuf

section \<open>Operations\<close>

definition with_compressed :: "string \<Rightarrow> string \<Rightarrow> http_response \<Rightarrow> http_response" where
  "with_compressed z encName resp = rs_setHeader ''Content-Encoding'' encName (setContent z resp)"

definition compressAndForward :: "heap \<Rightarrow> 'z zlib \<Rightarrow> content_encoding \<Rightarrow> string \<Rightarrow> http_msg \<Rightarrow> forwarded res" where
  "compressAndForward hp zl enc encName msg = (case msg of
     MsgResponse resp \<Rightarrow>
       if rs_body resp = [] then Inr (FwdMsg msg)
       else rbind (compress zl enc (rs_body resp)) (\<lambda>z.
            rbind (toByteBuf hp (with_compressed z encName resp)) (\<lambda>buf. Inr (FwdBytes buf)))
   | _ \<Rightarrow> Inr (FwdMsg msg))"

definition decompressAndForward :: "'z zlib \<Rightarrow> http_msg \<Rightarrow> http_msg res" where
  "decompressAndForward zl msg = (case msg of
     MsgRequest req \<Rightarrow>
       rbind (header ''Content-Encoding'' req) (\<lambda>(ce, req).
       if ce \<noteq> [] \<and> (occurs ''gzip'' ce \<or> occurs ''deflate'' ce) then
         rbind (body req) (\<lambda>(raw, req).
         if raw \<noteq> [] then rbind (decompress zl raw) (\<lambda>plain. rbind (setBody plain req) (\<lambda>req. Inr (MsgRequest req)))
         else Inr (MsgRequest req))
       else Inr (MsgRequest req))
   | _ \<Rightarrow> Inr msg)"

definition gzip_write :: "heap \<Rightarrow> 'z zlib \<Rightarrow> http_msg \<Rightarrow> forwarded res" where
  "gzip_write hp zl msg = compressAndForward hp zl ENC_GZIP ''gzip'' msg"

definition gzip_channelRead :: "'z zlib \<Rightarrow> http_msg \<Rightarrow> http_msg res" where
  "gzip_channelRead zl msg = decompressAndForward zl msg"

definition deflate_write :: "heap \<Rightarrow> 'z zlib \<Rightarrow> http_msg \<Rightarrow> forwarded res" where
  "deflate_write hp zl msg = compressAndForward hp zl ENC_DEFLATE ''deflate'' msg"

definition deflate_channelRead :: "'z zlib \<Rightarrow> http_msg \<Rightarrow> http_msg res" where
  "deflate_channelRead zl msg = decompressAndForward zl msg"

definition negotiate :: "string \<Rightarrow> peer_state \<Rightarrow> peer_state" where
  "negotiate ae p =
     (let p = p\<lparr>supportsCompression := False\<rparr> in
      if occurs ''gzip'' ae then p\<lparr>supportsCompression := True, encoding := ENC_GZIP\<rparr>
      else if occurs ''deflate'' ae then p\<lparr>supportsCompression := True, encoding := ENC_DEFLATE\<rparr>
      else p)"

definition compressor_channelRead :: "'z zlib \<Rightarrow> http_msg \<Rightarrow> peer_state \<Rightarrow> (http_msg \<times> peer_state) res" where
  "compressor_channelRead zl msg p = (case msg of
     MsgRequest req \<Rightarrow>
       rbind (header ''Accept-Encoding'' req) (\<lambda>(ae, req).
       rbind (decompressAndForward zl (MsgRequest req)) (\<lambda>m. Inr (m, negotiate ae p)))
   | _ \<Rightarrow> rbind (decompressAndForward zl msg) (\<lambda>m. Inr (m, p)))"

definition enc_name :: "content_encoding \<Rightarrow> string" where
  "enc_name enc = (if enc = ENC_GZIP then ''gzip'' else ''deflate'')"

definition compressor_write :: "heap \<Rightarrow> 'z zlib \<Rightarrow> http_msg \<Rightarrow> peer_state \<Rightarrow> forwarded res" where
  "compressor_write hp zl msg p =
     (if \<not> supportsCompression p then Inr (FwdMsg msg)
      else compressAndForward hp zl (encoding p) (enc_name (encoding p)) msg)"


section \<open>Lemmas\<close>

lemma negotiate_result:
  "supportsCompression (negotiate ae p) \<longleftrightarrow> occurs ''gzip'' ae \<or> occurs ''deflate'' ae"
  "supportsCompression (negotiate ae p) \<Longrightarrow> encoding (negotiate ae p) = (if occurs ''gzip'' ae then ENC_GZIP else ENC_DEFLATE)"
  by (auto simp: negotiate_def Let_def)

lemma header_parsed:
  assumes "headersParsed req"
  shows "header k req = Inr (case find_header k (rq_headers req) of Some v \<Rightarrow> v | None \<Rightarrow> [], req)"
  using assms by (simp add: header_def ensureHeadersParsed_def)

text \<open>A request with a body and a \<open>Content-Encoding\<close> that the handler knows.\<close>

definition encoded_request :: "http_request \<Rightarrow> bool" where
  "encoded_request req \<longleftrightarrow> headersParsed req \<and> bodyParsed req \<and> rq_body req \<noteq> [] \<and>
     (\<exists>ce. find_header ''Content-Encoding'' (rq_headers req) = Some ce \<and> (occurs ''gzip'' ce \<or> occurs ''deflate'' ce))"

lemma decompress_encoded:
  assumes "encoded_request req"
  shows "decompressAndForward zl (MsgRequest req) =
     rbind (decompress zl (rq_body req)) (\<lambda>plain. Inr (MsgRequest (req\<lparr>rq_body := plain, contentLength := length plain\<rparr>)))"
proof -
  obtain ce where ce: "find_header ''Content-Encoding'' (rq_headers req) = Some ce" "occurs ''gzip'' ce \<or> occurs ''deflate'' ce"
    and req: "headersParsed req" "bodyParsed req" "rq_body req \<noteq> []"
    using assms by (auto simp: encoded_request_def)
  have "ce \<noteq> []" using ce(2) by auto
  then show ?thesis using ce req
    by (cases req) (simp add: decompressAndForward_def header_def ensureHeadersParsed_def body_def setBody_def ensureBodyParsed_def)
qed

section \<open>Properties\<close>

text \<open>Compression is negotiated per connection: after a request with the header \<open>Accept-Encoding\<close> has
  been read, a response with a body is sent compressed with the encoding the client names (gzip before
  deflate), labelled as such, and decompressing the body that was sent gives the body of the response;
  it is forwarded unchanged when the client names neither.\<close>

theorem compression_negotiated:
  assumes "deflate_laws zl stream pend" and "inflate_laws zl stream dec"
    and "headersParsed req" and "decompressAndForward zl (MsgRequest req) = Inr m"
    and "ae = (case find_header ''Accept-Encoding'' (rq_headers req) of Some v \<Rightarrow> v | None \<Rightarrow> [])"
    and "enc = (if occurs ''gzip'' ae then ENC_GZIP else ENC_DEFLATE)" and "z = stream (windowBits enc) (rs_body resp)"
    and "rs_body resp \<noteq> []" and "length (rs_body resp) < 2 ^ 32" and "length z < 2 ^ 32"
    and "length (response_text (with_compressed z (enc_name enc) resp)) \<le> HALF" and "heap_grants hp"
  shows "\<exists>p'. compressor_channelRead zl (MsgRequest req) p = Inr (m, p') \<and>
     (if occurs ''gzip'' ae \<or> occurs ''deflate'' ae
      then \<exists>b. compressor_write hp zl (MsgResponse resp) p' = Inr (FwdBytes b) \<and>
             contents b = bytes_of (response_text (with_compressed z (enc_name enc) resp)) \<and>
             decompress zl z = Inr (rs_body resp)
      else compressor_write hp zl (MsgResponse resp) p' = Inr (FwdMsg (MsgResponse resp)))"
proof -
  let ?p = "negotiate ae p"
  have read: "compressor_channelRead zl (MsgRequest req) p = Inr (m, ?p)"
    using assms(4) by (simp add: compressor_channelRead_def header_parsed [OF assms(3)] flip: assms(5))
  have z: "compress zl enc (rs_body resp) = Inr z" "decompress zl z = Inr (rs_body resp)"
    using compress_ok [OF assms(1), of enc "rs_body resp"] decompress_cases [OF assms(2), of z "[]" enc "rs_body resp"] assms(7,9,10)
    by simp_all
  show ?thesis
  proof (cases "occurs ''gzip'' ae \<or> occurs ''deflate'' ae")
    case True
    then have "supportsCompression ?p" "encoding ?p = enc" using negotiate_result assms(6) by metis+
    then show ?thesis using read True toByteBuf_ok [OF assms(11,12)] assms(8) z
      by (auto simp: compressor_write_def compressAndForward_def)
  next
    case False
    then have "\<not> supportsCompression ?p" using negotiate_result(1) by metis
    then show ?thesis using read False by (auto simp: compressor_write_def)
  qed
qed

text \<open>A compressed request reaches the application as it was: a request whose body is what \<open>compress\<close> makes
  of a text and whose \<open>Content-Encoding\<close> says so is passed on with the text as its body and with its
  length.\<close>

theorem request_decompressed:
  assumes "deflate_laws zl stream pend" and "inflate_laws zl stream dec" and "encoded_request req"
    and "compress zl enc plain = Inr (rq_body req)" and "length plain < 2 ^ 32" and "length (rq_body req) < 2 ^ 32"
  shows "decompressAndForward zl (MsgRequest req) = Inr (MsgRequest (req\<lparr>rq_body := plain, contentLength := length plain\<rparr>))"
proof -
  have "rq_body req = stream (windowBits enc) plain" using assms(4,5) by (simp add: compress_ok [OF assms(1)])
  then have "decompress zl (rq_body req) = Inr plain"
    using decompress_cases [OF assms(2), of "rq_body req" "[]" enc plain] assms(6) by simp
  then show ?thesis by (simp add: decompress_encoded [OF assms(3)])
qed


section \<open>Witnesses\<close>

definition demo_accept :: "string \<Rightarrow> http_request" where
  "demo_accept raw = http_request_new\<lparr>headersParsed := True, bodyParsed := True, rq_body := raw,
     rq_headers := [(''Accept-Encoding'', ''gzip''), (''Content-Encoding'', ''gzip'')]\<rparr>"

lemma demo_accept_headers:
  "find_header ''Accept-Encoding'' (rq_headers (demo_accept raw)) = Some ''gzip''"
  "find_header ''Content-Encoding'' (rq_headers (demo_accept raw)) = Some ''gzip''"
  "headersParsed (demo_accept raw)" "rq_body (demo_accept raw) = raw"
  by (simp_all add: demo_accept_def find_header_def same_ignoring_case_def)

lemma demo_accept_encoded: "raw \<noteq> [] \<Longrightarrow> encoded_request (demo_accept raw)"
  unfolding encoded_request_def demo_accept_headers by (simp add: demo_accept_def)

theorem request_decompressed_witness:
  "decompressAndForward demo_zlib (MsgRequest (demo_accept ''1a1b0'')) =
     Inr (MsgRequest (demo_accept ''1a1b0''\<lparr>rq_body := ''ab'', contentLength := 2\<rparr>))"
  using request_decompressed [OF demo_deflate_laws demo_inflate_laws, of "demo_accept ''1a1b0''" ENC_GZIP "''ab''"]
  by (simp add: demo_compress demo_accept_headers demo_accept_encoded)


theorem compression_negotiated_witness:
  "\<exists>m p' b. compressor_channelRead demo_zlib (MsgRequest (demo_accept ''0'')) peer_state_new = Inr (m, p') \<and>
     compressor_write demo_heap demo_zlib (MsgResponse (setContent ''hi'' http_response_new)) p' = Inr (FwdBytes b) \<and>
     contents b = bytes_of (response_text (with_compressed ''1h1i0'' ''gzip'' (setContent ''hi'' http_response_new)))"
proof -
  let ?r = "setContent ''hi'' http_response_new" and ?req = "demo_accept ''0''"
  have dz: "decompress demo_zlib ''0'' = Inr []" using decompress_cases [OF demo_inflate_laws, of "''0''" "[]" "[]"] by simp
  then obtain m where d: "decompressAndForward demo_zlib (MsgRequest ?req) = Inr m"
    by (simp add: decompress_encoded [OF demo_accept_encoded] demo_accept_headers)
  have body: "rs_body ?r = ''hi''" by (simp add: setContent_def)
  have len: "length (response_text (with_compressed ''1h1i0'' (enc_name ENC_GZIP) ?r)) \<le> HALF"
    by (simp add: with_compressed_def rs_setHeader_def response_text_def response_head_def setContent_def http_response_new_def
        render_header_def render_headers_def decimal.simps enc_name_def)
  have "occurs ''gzip'' ''gzip''" by simp
  then show ?thesis
    using compression_negotiated [OF demo_deflate_laws demo_inflate_laws demo_accept_headers(3) d, of "''gzip''" ENC_GZIP "''1h1i0''" ?r
        demo_heap peer_state_new] len demo_heap_grants body
    by (auto simp: enc_name_def demo_accept_headers)
qed

text \<open>
  A \<open>Content-Length\<close> that the application has set is not adjusted: the compressed response announces
  the length of the original body.
\<close>

theorem stale_content_length:
  "rs_body (with_compressed ''1h1i0'' ''gzip'' (setContentLength 2 (setContent ''hi'' http_response_new))) = ''1h1i0'' \<and>
   contentLengthSet (with_compressed ''1h1i0'' ''gzip'' (setContentLength 2 (setContent ''hi'' http_response_new))) \<and>
   map_of (rs_headers (with_compressed ''1h1i0'' ''gzip'' (setContentLength 2 (setContent ''hi'' http_response_new)))) ''Content-Length''
     = Some (decimal 2)"
  by (simp add: with_compressed_def rs_setHeader_def setContent_def setContentLength_def http_response_new_def)

end
