(* ===== verification/LoopGroup.thy ===== *)
theory LoopGroup
  imports Prelude "HOL-Library.Multiset"
begin

text \<open>
  The group of worker loops (\<open>src/event/event_loop_group.cpp\<close>) and the accepting loop that hands it
  connections (\<open>src/event/boss_loop.cpp\<close>). A worker loop is named by a number; the names that
  \<open>make_shared\<close> gives to the loops of a start, the number of connections of each loop, the output of
  the random number generator and the answers of the kernel are parameters. Starting and joining
  threads is recorded as effects.
\<close>

section \<open>The group\<close>

record loop_group =
  numThreads :: nat
  running :: bool
  loops :: "nat list"
  threads :: "nat list"
  next_index :: nat

datatype group_effect = InitLoop nat | SpawnThread nat | StopLoop nat | JoinThread nat

definition clamp_threads :: "int \<Rightarrow> nat" where
  "clamp_threads n = (if n > 0 then nat n else 1)"

definition group_new :: "int \<Rightarrow> loop_group" where
  "group_new n = \<lparr>numThreads = clamp_threads n, running = False, loops = [], threads = [], next_index = 0\<rparr>"

definition setThreadCount :: "int \<Rightarrow> loop_group \<Rightarrow> loop_group" where
  "setThreadCount n g = g\<lparr>numThreads := clamp_threads n\<rparr>"

text \<open>The loop of \<open>start\<close>: \<open>names\<close> are the loops still to create; \<open>cb\<close> is whether a callback is given.\<close>

fun start_loops :: "bool \<Rightarrow> nat list \<Rightarrow> loop_group \<Rightarrow> loop_group \<times> group_effect list" where
  "start_loops cb [] g = (g, [])"
| "start_loops cb (w # ws) g =
     (let (g', es) = start_loops cb ws (g\<lparr>threads := threads g @ [w], loops := loops g @ [w]\<rparr>)
      in (g', (if cb then [InitLoop w] else []) @ [SpawnThread w] @ es))"

definition start :: "bool \<Rightarrow> (nat \<Rightarrow> nat) \<Rightarrow> loop_group \<Rightarrow> loop_group \<times> group_effect list" where
  "start cb name g =
     (if running g then (g, [])
      else start_loops cb (map name [0..<numThreads g]) (g\<lparr>running := True\<rparr>))"

definition next_loop :: "loop_group \<Rightarrow> nat option \<times> loop_group" where
  "next_loop g =
     (if loops g = [] then (None, g)
      else (Some (loops g ! (next_index g mod length (loops g))), g\<lparr>next_index := add_sz (next_index g) 1\<rparr>))"

text \<open>\<open>r1\<close> and \<open>r2\<close> are the next two outputs of the generator.\<close>

definition leastLoaded :: "(nat \<Rightarrow> nat) \<Rightarrow> nat \<Rightarrow> nat \<Rightarrow> loop_group \<Rightarrow> nat option" where
  "leastLoaded connectionCount r1 r2 g =
     (let n = length (loops g) in
      if n = 0 then None
      else if n = 1 then Some (loops g ! 0)
      else
        let a = r1 mod n;
            b = (a + 1 + r2 mod (n - 1)) mod n in
        Some (if connectionCount (loops g ! a) < connectionCount (loops g ! b) then loops g ! a else loops g ! b))"

definition stopAll :: "loop_group \<Rightarrow> loop_group \<times> group_effect list" where
  "stopAll g =
     (if \<not> running g then (g, [])
      else (g\<lparr>running := False, threads := [], loops := []\<rparr>, map StopLoop (loops g) @ map JoinThread (threads g)))"

definition move_from :: "loop_group \<Rightarrow> loop_group \<times> loop_group" where
  "move_from other =
     (\<lparr>numThreads = numThreads other, running = running other, loops = loops other, threads = threads other, next_index = 0\<rparr>,
      other\<lparr>numThreads := 0, running := False, loops := [], threads := []\<rparr>)"

definition move_assign :: "loop_group \<Rightarrow> loop_group \<Rightarrow> (loop_group \<times> loop_group) \<times> group_effect list" where
  "move_assign g other =
     (let (g, es) = stopAll g in
      ((g\<lparr>numThreads := numThreads other, running := running other, loops := loops other, threads := threads other\<rparr>,
        other\<lparr>numThreads := 0, running := False, loops := [], threads := []\<rparr>), es))"

section \<open>The accepting loop\<close>

datatype accept_answer = Accepted nat | TryAgain | Interrupted | AcceptError

datatype accept_effect = HandTo nat nat | CloseFd int | BindTo int bool | Listening int

text \<open>
  One round of the loop per answer of \<open>accept\<close>. \<open>grp\<close> is the group, if there is one; \<open>rnd\<close> gives
  the generator's outputs for the \<open>i\<close>-th call of \<open>leastLoaded\<close>, \<open>counts\<close> the load at that moment.
\<close>

fun handleAccept :: "loop_group option \<Rightarrow> (nat \<Rightarrow> nat \<times> nat) \<Rightarrow> (nat \<Rightarrow> nat \<Rightarrow> nat) \<Rightarrow> nat \<Rightarrow> accept_answer list \<Rightarrow> accept_effect list" where
  "handleAccept grp rnd counts i [] = []"
| "handleAccept grp rnd counts i (TryAgain # as) = []"
| "handleAccept grp rnd counts i (AcceptError # as) = []"
| "handleAccept grp rnd counts i (Interrupted # as) = handleAccept grp rnd counts i as"
| "handleAccept grp rnd counts i (Accepted fd # as) =
     (case grp of
        Some g \<Rightarrow> (case leastLoaded (counts i) (fst (rnd i)) (snd (rnd i)) g of
            None \<Rightarrow> CloseFd (int fd)
          | Some w \<Rightarrow> HandTo w fd)
      | None \<Rightarrow> CloseFd (int fd)) # handleAccept grp rnd counts (Suc i) as"

text \<open>The kernel's answers to \<open>socket\<close>, \<open>bind\<close> and \<open>listen\<close>; the result is \<open>listenFd_\<close>.\<close>

record net_answers =
  socket6 :: int
  socket4 :: int
  bind6 :: bool
  bind4 :: bool
  listen_ok :: bool

definition boss_listen :: "net_answers \<Rightarrow> bool \<times> int \<times> accept_effect list" where
  "boss_listen k =
     (let opened =
        (if socket6 k \<ge> 0 then
           if bind6 k then Inr (socket6 k, [BindTo (socket6 k) True]) else Inl [CloseFd (socket6 k)]
         else if socket4 k < 0 then Inl []
         else if bind4 k then Inr (socket4 k, [BindTo (socket4 k) False]) else Inl [CloseFd (socket4 k)])
      in case opened of
           Inl es \<Rightarrow> (False, -1, es)
         | Inr (fd, es) \<Rightarrow>
             if listen_ok k then (True, fd, es @ [Listening fd]) else (False, -1, es @ [CloseFd fd]))"

section \<open>Lemmas\<close>

lemma start_loops_eq:
  "start_loops cb ws g = (g\<lparr>threads := threads g @ ws, loops := loops g @ ws\<rparr>,
     concat (map (\<lambda>w. (if cb then [InitLoop w] else []) @ [SpawnThread w]) ws))"
  by (induction ws arbitrary: g) (simp_all add: Let_def)

lemma two_choices_differ:
  assumes "2 \<le> (n :: nat)" and "a = r1 mod n" and "b = (a + 1 + r2 mod (n - 1)) mod n"
  shows "a < n" "b < n" "a \<noteq> b"
proof -
  define d where "d = 1 + r2 mod (n - 1)"
  have d: "1 \<le> d" "d < n" using assms(1) mod_less_divisor [of "n - 1" r2] by (auto simp: d_def simp del: mod_less_divisor)
  show a: "a < n" "b < n" using assms by simp_all
  have "b = (a + d) mod n" by (simp add: assms(3) d_def)
  then show "a \<noteq> b" using d a by (cases "a + d < n") (auto simp: mod_if)
qed

fun next_loops :: "nat \<Rightarrow> loop_group \<Rightarrow> nat option list" where
  "next_loops 0 g = []"
| "next_loops (Suc k) g = (let (w, g') = next_loop g in w # next_loops k g')"

lemma next_loops_eq:
  "loops g \<noteq> [] \<Longrightarrow> next_index g + k < SZ \<Longrightarrow>
   next_loops k g = map (\<lambda>i. Some (loops g ! ((next_index g + i) mod length (loops g)))) [0..<k]"
proof (induction k arbitrary: g)
  case (Suc k)
  let ?g = "g\<lparr>next_index := add_sz (next_index g) 1\<rparr>"
  have "next_loops k ?g = map (\<lambda>i. Some (loops g ! ((next_index g + Suc i) mod length (loops g)))) [0..<k]"
    using Suc.IH [of ?g] Suc.prems by (simp add: add_sz_exact)
  then show ?case using Suc.prems(1)
    by (simp add: next_loop_def map_upt_Suc del: upt_Suc)
qed simp

text \<open>A full turn of a rotating index meets every index once.\<close>

lemma rotation_mset:
  assumes "xs \<noteq> []"
  shows "mset (map (\<lambda>i. xs ! ((s + i) mod length xs)) [0..<length xs]) = mset xs"
proof -
  have "map (\<lambda>i. xs ! ((s + i) mod length xs)) [0..<length xs] = rotate s xs"
    by (rule nth_equalityI) (simp_all add: nth_rotate add.commute)
  then show ?thesis by (metis add.commute append_take_drop_id mset_append rotate_drop_take)
qed


text \<open>Between the calls of its operations a group runs one thread per loop, or none at all.\<close>

definition group_ok :: "loop_group \<Rightarrow> bool" where
  "group_ok g \<longleftrightarrow> threads g = loops g \<and> (\<not> running g \<longrightarrow> loops g = []) \<and> next_index g < SZ"

lemma group_ops_ok [intro]:
  "group_ok (group_new n)" "group_ok g \<Longrightarrow> group_ok (setThreadCount n g)" "group_ok g \<Longrightarrow> group_ok (fst (start cb nm g))"
  "group_ok g \<Longrightarrow> group_ok (snd (next_loop g))" "group_ok g \<Longrightarrow> group_ok (fst (stopAll g))"
  by (auto simp: group_ok_def group_new_def setThreadCount_def start_def start_loops_eq next_loop_def stopAll_def)

section \<open>Properties\<close>

text \<open>Round robin is fair: as many calls of \<open>next\<close> as there are loops return every loop exactly
  once, wherever the counter stands (before it wraps).\<close>

theorem round_robin_fair:
  assumes "loops g \<noteq> []" and "next_index g + length (loops g) < SZ"
  shows "mset (next_loops (length (loops g)) g) = mset (map Some (loops g))"
proof -
  have "next_loops (length (loops g)) g = map Some (map (\<lambda>i. loops g ! ((next_index g + i) mod length (loops g))) [0..<length (loops g)])"
    using next_loops_eq [OF assms] by simp
  then show ?thesis using rotation_mset [OF assms(1), of "next_index g"] by (metis mset_map)
qed

theorem round_robin_fair_witness:
  "mset (next_loops 3 (group_new 3\<lparr>loops := [7, 8, 9], next_index := 5\<rparr>)) = mset [Some 7, Some 8, Some 9]"
proof -
  let ?g = "group_new 3\<lparr>loops := [7, 8, 9], next_index := 5\<rparr>"
  have three: "loops ?g = [7, 8, 9]" "next_index ?g = 5" and len: "length [7, 8, 9 :: nat] = 3" by simp_all
  show ?thesis using round_robin_fair [of ?g] unfolding three len by (simp del: next_loops.simps)
qed

text \<open>The power of two choices: with at least two loops \<open>leastLoaded\<close> compares two different loops,
  whatever the generator gives, and returns one with the smaller number of connections.\<close>

theorem leastLoaded_two_choices:
  assumes "2 \<le> length (loops g)"
  shows "\<exists>a b. a < length (loops g) \<and> b < length (loops g) \<and> a \<noteq> b \<and>
     (\<exists>w \<in> {loops g ! a, loops g ! b}. leastLoaded cnt r1 r2 g = Some w \<and> cnt w = min (cnt (loops g ! a)) (cnt (loops g ! b)))"
proof -
  let ?n = "length (loops g)"
  define a where "a = r1 mod ?n"
  define b where "b = (a + 1 + r2 mod (?n - 1)) mod ?n"
  note ab = two_choices_differ [OF assms a_def b_def]
  have "leastLoaded cnt r1 r2 g = Some (if cnt (loops g ! a) < cnt (loops g ! b) then loops g ! a else loops g ! b)"
    using assms unfolding leastLoaded_def Let_def a_def [symmetric] b_def [symmetric] by auto
  then show ?thesis using ab by (intro exI [of _ a] exI [of _ b]) (auto simp: min_def)
qed

theorem leastLoaded_two_choices_witness:
  "\<exists>a b. a < 3 \<and> b < 3 \<and> a \<noteq> b \<and>
     leastLoaded (\<lambda>w. w) 4 6 (group_new 3\<lparr>loops := [7, 8, 9]\<rparr>) = Some (min ([7, 8, 9] ! a) ([7, 8, 9] ! b))"
proof -
  let ?g = "group_new 3\<lparr>loops := [7, 8, 9]\<rparr>"
  have three: "loops ?g = [7, 8, 9]" and len: "length [7, 8, 9 :: nat] = 3" by simp_all
  have "2 \<le> (3::nat)" by simp
  then show ?thesis using leastLoaded_two_choices [of ?g "\<lambda>w. w" 4 6] unfolding three len by metis
qed

text \<open>The file descriptors that \<open>accept\<close> returned before it reported that none is left.\<close>

fun accepted_fds :: "accept_answer list \<Rightarrow> nat list" where
  "accepted_fds [] = []"
| "accepted_fds (Accepted fd # as) = fd # accepted_fds as"
| "accepted_fds (Interrupted # as) = accepted_fds as"
| "accepted_fds (_ # as) = []"

text \<open>No accepted connection is lost: every descriptor that \<open>accept\<close> returns is, in order and exactly
  once, handed to a loop of the group or closed, and it is closed only if there is no group or the
  group has no loop. An interrupted call does not end the round.\<close>

theorem accepted_connections_handed_over:
  "handleAccept grp rnd counts i as = map (\<lambda>(j, fd). case grp of
       Some g \<Rightarrow> (case leastLoaded (counts j) (fst (rnd j)) (snd (rnd j)) g of Some w \<Rightarrow> HandTo w fd | None \<Rightarrow> CloseFd (int fd))
     | None \<Rightarrow> CloseFd (int fd)) (enumerate i (accepted_fds as)) \<and>
   (\<forall>w fd. HandTo w fd \<in> set (handleAccept grp rnd counts i as) \<longrightarrow> (\<exists>g. grp = Some g \<and> w \<in> set (loops g))) \<and>
   (\<forall>fd. CloseFd fd \<in> set (handleAccept grp rnd counts i as) \<longrightarrow> grp = None \<or> (\<exists>g. grp = Some g \<and> loops g = []))"
proof -
  have member: "w \<in> set (loops g)" if "leastLoaded cnt r1 r2 g = Some w" for cnt r1 r2 g w
    using that two_choices_differ(1,2) [of "length (loops g)"]
    by (cases "length (loops g)" rule: nat.exhaust) (auto simp: leastLoaded_def Let_def split: if_splits)
  have none: "loops g = []" if "leastLoaded cnt r1 r2 g = None" for cnt r1 r2 g
    using that by (auto simp: leastLoaded_def Let_def split: if_splits)
  have eq: "handleAccept grp rnd counts i as = map (\<lambda>(j, fd). case grp of
       Some g \<Rightarrow> (case leastLoaded (counts j) (fst (rnd j)) (snd (rnd j)) g of Some w \<Rightarrow> HandTo w fd | None \<Rightarrow> CloseFd (int fd))
     | None \<Rightarrow> CloseFd (int fd)) (enumerate i (accepted_fds as))"
    by (induction grp rnd counts i as rule: handleAccept.induct) (auto split: option.split)
  show ?thesis unfolding eq using member none by (auto split: option.splits)
qed

theorem accepted_connections_handed_over_witness:
  "handleAccept (Some (group_new 1\<lparr>loops := [7]\<rparr>)) (\<lambda>i. (0, 0)) (\<lambda>i w. 0) 0 [Accepted 3, Interrupted, Accepted 4, TryAgain, Accepted 5]
     = [HandTo 7 3, HandTo 7 4]"
  using accepted_connections_handed_over [of "Some (group_new 1\<lparr>loops := [7]\<rparr>)" "\<lambda>i. (0, 0)" "\<lambda>i w. 0" 0
      "[Accepted 3, Interrupted, Accepted 4, TryAgain, Accepted 5]"]
  by (simp add: leastLoaded_def)

text \<open>\<open>listen\<close> leaks no socket: when it fails, every socket it created is closed exactly once and
  \<open>listenFd_\<close> is -1; when it succeeds the descriptor is the one socket it created, bound, listening and
  not closed.\<close>

theorem listen_leaks_nothing:
  "case boss_listen k of (ok, fd, es) \<Rightarrow>
     (ok \<longrightarrow> fd \<ge> 0 \<and> es = [BindTo fd (socket6 k \<ge> 0), Listening fd] \<and> fd = (if socket6 k \<ge> 0 then socket6 k else socket4 k)) \<and>
     (\<not> ok \<longrightarrow> fd = -1 \<and> filter (\<lambda>e. case e of CloseFd x \<Rightarrow> True | _ \<Rightarrow> False) es =
        (if socket6 k \<ge> 0 then [CloseFd (socket6 k)] else if socket4 k \<ge> 0 then [CloseFd (socket4 k)] else []))"
  by (auto simp: boss_listen_def Let_def)

theorem listen_leaks_nothing_witness:
  "boss_listen \<lparr>socket6 = -1, socket4 = 5, bind6 = False, bind4 = True, listen_ok = False\<rparr> = (False, -1, [BindTo 5 False, CloseFd 5])"
  using listen_leaks_nothing [of "\<lparr>socket6 = -1, socket4 = 5, bind6 = False, bind4 = True, listen_ok = False\<rparr>"]
  by (simp add: boss_listen_def)

text \<open>A group starts its threads once and stops all of them: starting an idle group creates one loop
  and one thread for each of the configured number (at least one), starting it again does nothing,
  and stopping it stops every loop before it joins any thread and leaves the group as it was.\<close>

theorem group_lifecycle:
  assumes "group_ok g" and "\<not> running g"
  shows "fst (start cb nm (fst (start cb nm g))) = fst (start cb nm g)"
    and "length (loops (fst (start cb nm g))) = numThreads g"
    and "snd (stopAll (fst (start cb nm g))) =
       map StopLoop (map nm [0..<numThreads g]) @ map JoinThread (map nm [0..<numThreads g])"
    and "fst (stopAll (fst (start cb nm g))) = g"
  using assms by (simp_all add: start_def start_loops_eq stopAll_def group_ok_def)

theorem group_lifecycle_witness:
  "loops (fst (start True (\<lambda>i. i + 10) (group_new 2))) = [10, 11] \<and>
   length (loops (fst (start True (\<lambda>i. i + 10) (group_new 2)))) = 2 \<and>
   fst (stopAll (fst (start True (\<lambda>i. i + 10) (group_new 2)))) = group_new 2"
proof -
  have "group_ok (group_new 2)" "\<not> running (group_new 2)" "numThreads (group_new 2) = 2"
    by (simp_all add: group_ok_def group_new_def clamp_threads_def)
  then show ?thesis using group_lifecycle(2,4) [of "group_new 2" True "\<lambda>i. i + 10"]
    by (simp add: start_def start_loops_eq group_new_def eval_nat_numeral)
qed

end
