(* ===== verification/ContextStore.thy ===== *)
theory ContextStore
  imports Prelude
begin

text \<open>
  The typed key-value store of a connection context (\<open>include/xnetty/channel/context.h\<close>: \<open>set\<close>, \<open>get\<close>,
  \<open>has\<close>, \<open>remove\<close>, \<open>clearStore\<close>), in which the handlers of a pipeline keep their state for the connection.

  The values are objects \<open>TypedData<T>\<close> behind pointers to their common base; a second map records the
  type under which a key was set, and \<open>get<T>\<close> casts the pointer without a check of its own when that
  record names \<open>T\<close>. The model keeps the live objects with their dynamic type in \<open>objs\<close>, so that a cast to
  the wrong type and an access to a destroyed object are faults. Type tags and values are type variables.

  The locale \<open>typed_store\<close> is the interface the handlers rely on: a partial map from keys to typed
  values, and pointers into it. \<open>fetch\<close>, the way every handler looks up or creates its state, is proved
  correct in it.
\<close>

section \<open>State and operations\<close>

record ('ty, 'v) ctx_store =
  objs :: "nat \<Rightarrow> ('ty \<times> 'v) option"
  next_obj :: nat
  store :: "string \<Rightarrow> nat option"
  keyTypes :: "string \<Rightarrow> 'ty option"

definition ctx_new :: "('ty, 'v) ctx_store" where
  "ctx_new = \<lparr>objs = (\<lambda>a. None), next_obj = 0, store = (\<lambda>k. None), keyTypes = (\<lambda>k. None)\<rparr>"

text \<open>The store is the only owner of its objects: dropping the pointer of a key destroys the object.\<close>

definition destroy :: "nat option \<Rightarrow> (nat \<Rightarrow> ('ty \<times> 'v) option) \<Rightarrow> (nat \<Rightarrow> ('ty \<times> 'v) option)" where
  "destroy p os = (case p of None \<Rightarrow> os | Some a \<Rightarrow> os(a := None))"

definition ctx_set :: "'ty \<Rightarrow> string \<Rightarrow> 'v \<Rightarrow> ('ty, 'v) ctx_store \<Rightarrow> ('ty, 'v) ctx_store" where
  "ctx_set ty key v s =
     (let td = next_obj s in
      s\<lparr>next_obj := Suc td, objs := destroy (store s key) ((objs s)(td \<mapsto> (ty, v))),
        store := (store s)(key \<mapsto> td), keyTypes := (keyTypes s)(key \<mapsto> ty)\<rparr>)"

definition ctx_get :: "'ty \<Rightarrow> string \<Rightarrow> ('ty, 'v) ctx_store \<Rightarrow> nat option res" where
  "ctx_get ty key s = (case store s key of
     None \<Rightarrow> Inr None
   | Some a \<Rightarrow> (case keyTypes s key of
       None \<Rightarrow> Inr None
     | Some t \<Rightarrow>
         if t \<noteq> ty then Inr None
         else (case objs s a of
             Some (t', v) \<Rightarrow> if t' = ty then Inr (Some a) else Inl UndefinedBehaviour
           | None \<Rightarrow> Inl UndefinedBehaviour)))"

definition ctx_has :: "string \<Rightarrow> ('ty, 'v) ctx_store \<Rightarrow> bool" where
  "ctx_has key s \<longleftrightarrow> store s key \<noteq> None"

definition ctx_remove :: "string \<Rightarrow> ('ty, 'v) ctx_store \<Rightarrow> ('ty, 'v) ctx_store" where
  "ctx_remove key s =
     s\<lparr>objs := destroy (store s key) (objs s), store := (store s)(key := None), keyTypes := (keyTypes s)(key := None)\<rparr>"

definition ctx_clearStore :: "('ty, 'v) ctx_store \<Rightarrow> ('ty, 'v) ctx_store" where
  "ctx_clearStore s = s\<lparr>objs := (\<lambda>a. None), store := (\<lambda>k. None), keyTypes := (\<lambda>k. None)\<rparr>"

text \<open>Reading and assigning through a pointer \<open>T *\<close> that \<open>get<T>\<close> returned.\<close>

definition obj_read :: "'ty \<Rightarrow> nat \<Rightarrow> ('ty, 'v) ctx_store \<Rightarrow> 'v res" where
  "obj_read ty a s = (case objs s a of
     Some (t, v) \<Rightarrow> if t = ty then Inr v else Inl UndefinedBehaviour
   | None \<Rightarrow> Inl UndefinedBehaviour)"

definition obj_write :: "'ty \<Rightarrow> nat \<Rightarrow> 'v \<Rightarrow> ('ty, 'v) ctx_store \<Rightarrow> ('ty, 'v) ctx_store res" where
  "obj_write ty a v s = rbind (obj_read ty a s) (\<lambda>old. Inr (s\<lparr>objs := (objs s)(a \<mapsto> (ty, v))\<rparr>))"

text \<open>
  The way \<open>SslHandler::state\<close>, \<open>CompressorHandler::peer\<close> and the codecs find their state: look it up, or
  set a fresh one and look it up again. The second pointer is dereferenced without a test.
\<close>

definition fetch :: "('ty \<Rightarrow> string \<Rightarrow> 's \<Rightarrow> nat option res) \<Rightarrow> ('ty \<Rightarrow> string \<Rightarrow> 'v \<Rightarrow> 's \<Rightarrow> 's) \<Rightarrow>
    'ty \<Rightarrow> string \<Rightarrow> 'v \<Rightarrow> 's \<Rightarrow> (nat \<times> 's) res" where
  "fetch getter setter ty key init s =
     rbind (getter ty key s) (\<lambda>p. case p of
       Some a \<Rightarrow> Inr (a, s)
     | None \<Rightarrow>
         let s1 = setter ty key init s in
         rbind (getter ty key s1) (\<lambda>p. case p of Some a \<Rightarrow> Inr (a, s1) | None \<Rightarrow> Inl UndefinedBehaviour))"

definition ctx_state :: "'ty \<Rightarrow> string \<Rightarrow> 'v \<Rightarrow> ('ty, 'v) ctx_store \<Rightarrow> (nat \<times> ('ty, 'v) ctx_store) res" where
  "ctx_state = fetch ctx_get ctx_set"

text \<open>A handler at work: it fetches its state, works on it by reference and leaves it changed.\<close>

definition on_state :: "'ty \<Rightarrow> string \<Rightarrow> 'v \<Rightarrow> ('v \<Rightarrow> ('v \<times> 'r) res) \<Rightarrow> ('ty, 'v) ctx_store \<Rightarrow> (('ty, 'v) ctx_store \<times> 'r) res" where
  "on_state ty key init f s =
     rbind (ctx_state ty key init s) (\<lambda>(a, s).
     rbind (obj_read ty a s) (\<lambda>v.
     rbind (f v) (\<lambda>(v', r).
     rbind (obj_write ty a v' s) (\<lambda>s. Inr (s, r)))))"

section \<open>The interface\<close>

type_synonym ('ty, 'v) typed_map = "string \<Rightarrow> ('ty \<times> 'v) option"

locale typed_store =
  fixes inv :: "'s \<Rightarrow> bool"
    and view :: "'s \<Rightarrow> ('ty, 'v) typed_map"
    and setter :: "'ty \<Rightarrow> string \<Rightarrow> 'v \<Rightarrow> 's \<Rightarrow> 's"
    and getter :: "'ty \<Rightarrow> string \<Rightarrow> 's \<Rightarrow> nat option res"
    and reader :: "'ty \<Rightarrow> nat \<Rightarrow> 's \<Rightarrow> 'v res"
    and writer :: "'ty \<Rightarrow> nat \<Rightarrow> 'v \<Rightarrow> 's \<Rightarrow> 's res"
  assumes set_inv: "inv s \<Longrightarrow> inv (setter ty key v s)"
    and set_view: "inv s \<Longrightarrow> view (setter ty key v s) = (view s)(key \<mapsto> (ty, v))"
    and get_found: "inv s \<Longrightarrow> view s key = Some (ty, v) \<Longrightarrow> \<exists>a. getter ty key s = Inr (Some a) \<and> reader ty a s = Inr v"
    and get_missing: "inv s \<Longrightarrow> \<forall>v. view s key \<noteq> Some (ty, v) \<Longrightarrow> getter ty key s = Inr None"
    and write_view: "inv s \<Longrightarrow> getter ty key s = Inr (Some a) \<Longrightarrow>
       \<exists>s'. writer ty a v s = Inr s' \<and> inv s' \<and> view s' = (view s)(key \<mapsto> (ty, v)) \<and> getter ty key s' = Inr (Some a)"
begin

text \<open>\<open>fetch\<close> never fails, returns a pointer to the handler's state or to a fresh one, and touches no
  other key.\<close>

lemma fetch_ok:
  assumes "inv s"
  shows "\<exists>a s'. fetch getter setter ty key init s = Inr (a, s') \<and> inv s' \<and> getter ty key s' = Inr (Some a) \<and>
     (case view s key of
        Some (t, v) \<Rightarrow> if t = ty then s' = s \<and> reader ty a s' = Inr v
                       else reader ty a s' = Inr init \<and> view s' = (view s)(key \<mapsto> (ty, init))
      | None \<Rightarrow> reader ty a s' = Inr init \<and> view s' = (view s)(key \<mapsto> (ty, init)))"
proof (cases "\<exists>v. view s key = Some (ty, v)")
  case True
  then obtain v where v: "view s key = Some (ty, v)" by blast
  then obtain a where "getter ty key s = Inr (Some a)" "reader ty a s = Inr v" using get_found assms by blast
  then show ?thesis using v assms by (simp add: fetch_def)
next
  case False
  let ?s = "setter ty key init s"
  have inv: "inv ?s" and view: "view ?s = (view s)(key \<mapsto> (ty, init))" using set_inv set_view assms by auto
  obtain a where "getter ty key ?s = Inr (Some a)" "reader ty a ?s = Inr init" using get_found [OF inv, of key ty init] view by auto
  then show ?thesis using False inv view get_missing [OF assms, of key ty] by (auto simp: fetch_def split: option.split)
qed

lemma fetch_view:
  assumes "inv s"
  shows "\<exists>a s'. fetch getter setter ty key init s = Inr (a, s') \<and> inv s' \<and>
     view s' = (if \<exists>v. view s key = Some (ty, v) then view s else (view s)(key \<mapsto> (ty, init)))"
proof (cases "\<exists>v. view s key = Some (ty, v)")
  case True
  then show ?thesis using fetch_ok [OF assms, of ty key init] by auto
next
  case False
  then show ?thesis using fetch_ok [OF assms, of ty key init] by (cases "view s key") auto
qed

text \<open>Once fetched, the state is found again at the same address.\<close>

lemma fetch_stable:
  assumes "inv s" and "fetch getter setter ty key init s = Inr (a, s')"
  shows "fetch getter setter ty key init' s' = Inr (a, s')"
  using fetch_ok [OF assms(1), of ty key init] assms(2) by (auto simp: fetch_def)

text \<open>What a handler assigns to its state is what it finds the next time, and no other key changes.\<close>

lemma fetch_update:
  assumes "inv s" and "fetch getter setter ty key init s = Inr (a, s1)"
  shows "\<exists>s2. writer ty a v s1 = Inr s2 \<and> inv s2 \<and> fetch getter setter ty key init s2 = Inr (a, s2) \<and>
     reader ty a s2 = Inr v \<and> (\<forall>k. k \<noteq> key \<longrightarrow> view s2 k = view s k)"
proof -
  have "inv s1" "getter ty key s1 = Inr (Some a)" "\<forall>k. k \<noteq> key \<longrightarrow> view s1 k = view s k"
    using fetch_ok [OF assms(1), of ty key init] assms(2) by (auto split: option.splits if_splits)
  then obtain s2 where s2: "writer ty a v s1 = Inr s2" "inv s2" "view s2 = (view s1)(key \<mapsto> (ty, v))" "getter ty key s2 = Inr (Some a)"
    using write_view by blast
  moreover have "reader ty a s2 = Inr v" using get_found [OF s2(2), of key ty v] s2(3,4) by auto
  ultimately show ?thesis using \<open>\<forall>k. k \<noteq> key \<longrightarrow> view s1 k = view s k\<close> by (auto simp: fetch_def)
qed

end

section \<open>The invariant\<close>

text \<open>Both maps have the same keys, every key owns one live object of the recorded type, no object is
  shared and none is leaked.\<close>

definition store_ok :: "('ty, 'v) ctx_store \<Rightarrow> bool" where
  "store_ok s \<longleftrightarrow>
     (\<forall>k. case store s k of
        None \<Rightarrow> keyTypes s k = None
      | Some a \<Rightarrow> \<exists>t v. keyTypes s k = Some t \<and> objs s a = Some (t, v)) \<and>
     (\<forall>k k' a. store s k = Some a \<and> store s k' = Some a \<longrightarrow> k = k') \<and>
     (\<forall>a. objs s a \<noteq> None \<longrightarrow> a < next_obj s \<and> (\<exists>k. store s k = Some a))"

definition typed_view :: "('ty, 'v) ctx_store \<Rightarrow> ('ty, 'v) typed_map" where
  "typed_view s k = (case store s k of None \<Rightarrow> None | Some a \<Rightarrow> objs s a)"

lemma store_okD:
  assumes "store_ok s"
  shows "store s k = None \<Longrightarrow> keyTypes s k = None"
    and "store s k = Some a \<Longrightarrow> \<exists>t v. keyTypes s k = Some t \<and> objs s a = Some (t, v)"
    and "store s k = Some a \<Longrightarrow> store s k' = Some a \<Longrightarrow> k = k'"
    and "objs s a = Some tv \<Longrightarrow> a < next_obj s"
    and "objs s a = Some tv \<Longrightarrow> \<exists>k. store s k = Some a"
proof -
  have "\<forall>k. case store s k of None \<Rightarrow> keyTypes s k = None
      | Some a \<Rightarrow> \<exists>t v. keyTypes s k = Some t \<and> objs s a = Some (t, v)"
    using assms by (simp add: store_ok_def)
  then have "case store s k of None \<Rightarrow> keyTypes s k = None
      | Some a \<Rightarrow> \<exists>t v. keyTypes s k = Some t \<and> objs s a = Some (t, v)" ..
  then show "store s k = None \<Longrightarrow> keyTypes s k = None"
    and "store s k = Some a \<Longrightarrow> \<exists>t v. keyTypes s k = Some t \<and> objs s a = Some (t, v)" by auto
qed (use assms in \<open>auto simp: store_ok_def\<close>)

lemma fresh_not_stored: "store_ok s \<Longrightarrow> store s k \<noteq> Some (next_obj s)"
  using store_okD(2,4) by fastforce

lemma ctx_new_ok [simp]: "store_ok ctx_new" "typed_view ctx_new = Map.empty"
  by (auto simp: store_ok_def ctx_new_def typed_view_def)

lemma ctx_set_ok:
  assumes "store_ok s"
  shows "store_ok (ctx_set ty key v s)" and "typed_view (ctx_set ty key v s) = (typed_view s)(key \<mapsto> (ty, v))"
proof -
  let ?s = "ctx_set ty key v s" and ?n = "next_obj s"
  have st: "store ?s = (store s)(key \<mapsto> ?n)" and kt: "keyTypes ?s = (keyTypes s)(key \<mapsto> ty)" and nx: "next_obj ?s = Suc ?n"
    by (simp_all add: ctx_set_def Let_def)
  have fresh: "store s k \<noteq> Some ?n" for k using fresh_not_stored [OF assms] .
  have os: "objs ?s a = (if a = ?n then Some (ty, v) else if store s key = Some a then None else objs s a)" for a
    using fresh [of key] by (auto simp: ctx_set_def Let_def destroy_def split: option.split)
  have other: "k \<noteq> key \<Longrightarrow> store s k = Some a \<Longrightarrow> objs ?s a = objs s a" for k a
    using fresh [of k] store_okD(3) [OF assms, of k a key] by (auto simp: os)
  show "typed_view ?s = (typed_view s)(key \<mapsto> (ty, v))"
    by (rule ext) (auto simp: typed_view_def st os [of ?n] other split: option.split)
  show "store_ok ?s" unfolding store_ok_def
  proof (intro conjI allI impI)
    fix k
    show "case store ?s k of None \<Rightarrow> keyTypes ?s k = None
      | Some a \<Rightarrow> \<exists>t v. keyTypes ?s k = Some t \<and> objs ?s a = Some (t, v)"
      using store_okD(1,2) [OF assms, of k] other [of k] by (cases "k = key") (auto simp: st kt os split: option.split)
  next
    fix k k' a
    assume "store ?s k = Some a \<and> store ?s k' = Some a"
    then show "k = k'" using fresh store_okD(3) [OF assms] by (auto simp: st split: if_splits)
  next
    fix a
    assume a: "objs ?s a \<noteq> None"
    then show "a < next_obj ?s" using store_okD(4) [OF assms, of a] by (auto simp: os nx less_Suc_eq split: if_splits)
    show "\<exists>k. store ?s k = Some a" using a store_okD(5) [OF assms, of a] by (auto simp: os st split: if_splits)
  qed
qed

lemma ctx_remove_ok:
  assumes "store_ok s"
  shows "store_ok (ctx_remove key s)" and "typed_view (ctx_remove key s) = (typed_view s)(key := None)"
proof -
  let ?s = "ctx_remove key s"
  have st: "store ?s = (store s)(key := None)" and kt: "keyTypes ?s = (keyTypes s)(key := None)" and nx: "next_obj ?s = next_obj s"
    by (simp_all add: ctx_remove_def)
  have os: "objs ?s a = (if store s key = Some a then None else objs s a)" for a
    by (auto simp: ctx_remove_def destroy_def split: option.split)
  have other: "k \<noteq> key \<Longrightarrow> store s k = Some a \<Longrightarrow> objs ?s a = objs s a" for k a
    using store_okD(3) [OF assms, of k a key] by (auto simp: os)
  show "typed_view ?s = (typed_view s)(key := None)"
    by (rule ext) (auto simp: typed_view_def st other split: option.split)
  show "store_ok ?s" unfolding store_ok_def
  proof (intro conjI allI impI)
    fix k
    show "case store ?s k of None \<Rightarrow> keyTypes ?s k = None
      | Some a \<Rightarrow> \<exists>t v. keyTypes ?s k = Some t \<and> objs ?s a = Some (t, v)"
      using store_okD(1,2) [OF assms, of k] other [of k] by (cases "k = key") (auto simp: st kt split: option.split)
  next
    fix k k' a
    assume "store ?s k = Some a \<and> store ?s k' = Some a"
    then show "k = k'" using store_okD(3) [OF assms] by (auto simp: st split: if_splits)
  next
    fix a
    assume a: "objs ?s a \<noteq> None"
    then show "a < next_obj ?s" using store_okD(4) [OF assms, of a] by (auto simp: os nx split: if_splits)
    show "\<exists>k. store ?s k = Some a" using a store_okD(5) [OF assms, of a] by (auto simp: os st split: if_splits)
  qed
qed

lemma ctx_clearStore_ok [simp]: "store_ok (ctx_clearStore s)" "typed_view (ctx_clearStore s) = Map.empty"
  by (auto simp: store_ok_def ctx_clearStore_def typed_view_def)

lemma ctx_get_eq:
  assumes "store_ok s"
  shows "ctx_get ty key s = Inr (case typed_view s key of Some (t, v) \<Rightarrow> if t = ty then store s key else None | None \<Rightarrow> None)"
  using store_okD(1,2) [OF assms, of key] by (cases "store s key") (auto simp: ctx_get_def typed_view_def)

lemma obj_read_get:
  assumes "store_ok s" and "ctx_get ty key s = Inr (Some a)"
  shows "\<exists>v. typed_view s key = Some (ty, v) \<and> obj_read ty a s = Inr v \<and> store s key = Some a"
  using assms(2) by (auto simp: ctx_get_eq [OF assms(1)] typed_view_def obj_read_def split: option.splits if_splits)

lemma obj_write_ok:
  assumes "store_ok s" and "ctx_get ty key s = Inr (Some a)"
  shows "\<exists>s'. obj_write ty a v s = Inr s' \<and> store_ok s' \<and> typed_view s' = (typed_view s)(key \<mapsto> (ty, v)) \<and>
     ctx_get ty key s' = Inr (Some a)"
proof -
  obtain w where w: "typed_view s key = Some (ty, w)" "obj_read ty a s = Inr w" "store s key = Some a"
    using obj_read_get [OF assms] by blast
  then have kt: "keyTypes s key = Some ty" "objs s a = Some (ty, w)"
    using store_okD(2) [OF assms(1) w(3)] by (auto simp: typed_view_def)
  let ?s = "s\<lparr>objs := (objs s)(a \<mapsto> (ty, v))\<rparr>"
  have other: "k \<noteq> key \<Longrightarrow> store s k \<noteq> Some a" for k using store_okD(3) [OF assms(1) w(3)] by blast
  have "store_ok ?s" unfolding store_ok_def
  proof (intro conjI allI impI)
    fix k
    show "case store ?s k of None \<Rightarrow> keyTypes ?s k = None
      | Some b \<Rightarrow> \<exists>t v. keyTypes ?s k = Some t \<and> objs ?s b = Some (t, v)"
      using store_okD(1,2) [OF assms(1), of k] kt by (cases "store s k") auto
  qed (use assms(1) store_okD(4,5) [OF assms(1)] kt w(3) in \<open>auto simp: store_ok_def split: if_splits\<close>)
  moreover have "typed_view ?s = (typed_view s)(key \<mapsto> (ty, v))"
    using w(3) other by (auto simp: typed_view_def fun_eq_iff split: option.split)
  moreover have "obj_write ty a v s = Inr ?s" by (simp add: obj_write_def w(2))
  moreover have "ctx_get ty key ?s = Inr (Some a)" using w(3) kt by (simp add: ctx_get_def)
  ultimately show ?thesis by blast
qed

interpretation ctx: typed_store store_ok typed_view ctx_set ctx_get obj_read obj_write
proof
  fix s :: "('a, 'b) ctx_store" and ty key v
  assume "store_ok s" and v: "typed_view s key = Some (ty, v)"
  then have "\<exists>a. ctx_get ty key s = Inr (Some a)" by (auto simp: ctx_get_eq typed_view_def split: option.splits)
  then show "\<exists>a. ctx_get ty key s = Inr (Some a) \<and> obj_read ty a s = Inr v"
    using obj_read_get [OF \<open>store_ok s\<close>, of ty key] v by auto
next
  fix s :: "('a, 'b) ctx_store" and key ty
  assume "store_ok s" and "\<forall>v. typed_view s key \<noteq> Some (ty, v)"
  then show "ctx_get ty key s = Inr None" by (auto simp: ctx_get_eq split: option.split)
qed (fact ctx_set_ok obj_write_ok)+

text \<open>A handler finds the state it left, or the initial one, and changes no other key.\<close>

definition stored_state :: "'ty \<Rightarrow> string \<Rightarrow> 'v \<Rightarrow> ('ty, 'v) typed_map \<Rightarrow> 'v" where
  "stored_state ty key init m = (case m key of Some (t, v) \<Rightarrow> if t = ty then v else init | None \<Rightarrow> init)"

lemma on_state_refines:
  assumes "store_ok s"
  shows "case f (stored_state ty key init (typed_view s)) of
     Inl e \<Rightarrow> on_state ty key init f s = Inl e
   | Inr (v, r) \<Rightarrow> \<exists>s'. on_state ty key init f s = Inr (s', r) \<and> store_ok s' \<and> typed_view s' = (typed_view s)(key \<mapsto> (ty, v))"
proof -
  obtain a s1 where f1: "ctx_state ty key init s = Inr (a, s1)" and s1: "store_ok s1" "ctx_get ty key s1 = Inr (Some a)"
    and view: "typed_view s1 = (if \<exists>v. typed_view s key = Some (ty, v) then typed_view s else (typed_view s)(key \<mapsto> (ty, init)))"
    using ctx.fetch_ok [OF assms, of ty key init] ctx.fetch_view [OF assms, of ty key init] unfolding ctx_state_def by auto
  have "obj_read ty a s1 = Inr (stored_state ty key init (typed_view s))"
    using obj_read_get [OF s1] view by (auto simp: stored_state_def split: option.splits if_splits)
  moreover have "\<exists>s'. obj_write ty a v s1 = Inr s' \<and> store_ok s' \<and> typed_view s' = (typed_view s)(key \<mapsto> (ty, v))" for v
    using obj_write_ok [OF s1, of v] view by (auto split: if_splits)
  ultimately show ?thesis using f1 by (auto simp: on_state_def split: sum.split)
qed

section \<open>Sequences of operations\<close>

datatype ('ty, 'v) ctx_op = OpSet 'ty string 'v | OpState 'ty string 'v | OpAssign 'ty string 'v | OpRemove string | OpClear

text \<open>\<open>OpState\<close> is \<open>fetch\<close> with the given initial value; \<open>OpAssign\<close> looks a value up and, when it is found,
  assigns through the pointer.\<close>

fun ctx_do :: "('ty, 'v) ctx_op \<Rightarrow> ('ty, 'v) ctx_store \<Rightarrow> ('ty, 'v) ctx_store res" where
  "ctx_do (OpSet ty k v) s = Inr (ctx_set ty k v s)"
| "ctx_do (OpState ty k v) s = rbind (ctx_state ty k v s) (\<lambda>(a, s'). Inr s')"
| "ctx_do (OpAssign ty k v) s = rbind (ctx_get ty k s) (\<lambda>p. case p of None \<Rightarrow> Inr s | Some a \<Rightarrow> obj_write ty a v s)"
| "ctx_do (OpRemove k) s = Inr (ctx_remove k s)"
| "ctx_do OpClear s = Inr (ctx_clearStore s)"

fun ctx_run :: "('ty, 'v) ctx_op list \<Rightarrow> ('ty, 'v) ctx_store \<Rightarrow> ('ty, 'v) ctx_store res" where
  "ctx_run [] s = Inr s"
| "ctx_run (c # cs) s = rbind (ctx_do c s) (ctx_run cs)"

text \<open>The same operations on a map from keys to typed values.\<close>

fun map_do :: "('ty, 'v) ctx_op \<Rightarrow> ('ty, 'v) typed_map \<Rightarrow> ('ty, 'v) typed_map" where
  "map_do (OpSet ty k v) m = m(k \<mapsto> (ty, v))"
| "map_do (OpState ty k v) m = (if (\<exists>w. m k = Some (ty, w)) then m else m(k \<mapsto> (ty, v)))"
| "map_do (OpAssign ty k v) m = (if (\<exists>w. m k = Some (ty, w)) then m(k \<mapsto> (ty, v)) else m)"
| "map_do (OpRemove k) m = m(k := None)"
| "map_do OpClear m = Map.empty"

definition map_run :: "('ty, 'v) ctx_op list \<Rightarrow> ('ty, 'v) typed_map" where
  "map_run cs = fold map_do cs Map.empty"

lemma ctx_do_refines:
  assumes "store_ok s"
  shows "\<exists>s'. ctx_do c s = Inr s' \<and> store_ok s' \<and> typed_view s' = map_do c (typed_view s)"
proof (cases c)
  case (OpState ty k v)
  then show ?thesis using ctx.fetch_view [OF assms, of ty k v] by (auto simp: ctx_state_def)
next
  case (OpAssign ty k v)
  show ?thesis
  proof (cases "\<exists>w. typed_view s k = Some (ty, w)")
    case True
    then obtain a where "ctx_get ty k s = Inr (Some a)" using ctx.get_found [OF assms] by blast
    then show ?thesis using obj_write_ok [OF assms, of ty k a v] OpAssign True by auto
  next
    case False
    then show ?thesis using ctx.get_missing [OF assms, of k ty] OpAssign assms by auto
  qed
qed (use assms ctx_set_ok ctx_remove_ok in auto)

lemma ctx_run_refines:
  "store_ok s \<Longrightarrow> \<exists>s'. ctx_run cs s = Inr s' \<and> store_ok s' \<and> typed_view s' = fold map_do cs (typed_view s)"
proof (induction cs arbitrary: s)
  case (Cons c cs)
  obtain s' where "ctx_do c s = Inr s'" "store_ok s'" "typed_view s' = map_do c (typed_view s)"
    using ctx_do_refines [OF Cons.prems] by blast
  then show ?case using Cons.IH [of s'] by simp
qed simp

section \<open>Properties\<close>

text \<open>C19. The store is type safe, although \<open>get\<close> casts without a check: after any sequence of operations \<open>get<T>\<close>
  returns a pointer exactly when the value that the sequence left under the key has type \<open>T\<close>, the pointer
  leads to a live object of that type which holds that value, and otherwise it returns a null pointer. No
  operation fails, and no object is left behind that no key owns.\<close>

theorem context_store_type_safe:
  "\<exists>s. ctx_run cs ctx_new = Inr s \<and>
     (\<forall>ty k. case map_run cs k of
        Some (t, v) \<Rightarrow> if t = ty then \<exists>a. ctx_get ty k s = Inr (Some a) \<and> obj_read ty a s = Inr v else ctx_get ty k s = Inr None
      | None \<Rightarrow> ctx_get ty k s = Inr None) \<and>
     (\<forall>k. ctx_has k s = (map_run cs k \<noteq> None)) \<and> {a. objs s a \<noteq> None} = ran (store s)"
proof -
  obtain s where s: "ctx_run cs ctx_new = Inr s" "store_ok s" and view: "typed_view s = map_run cs"
    using ctx_run_refines [of ctx_new cs] by (auto simp: map_run_def)
  have "case map_run cs k of
        Some (t, v) \<Rightarrow> if t = ty then \<exists>a. ctx_get ty k s = Inr (Some a) \<and> obj_read ty a s = Inr v else ctx_get ty k s = Inr None
      | None \<Rightarrow> ctx_get ty k s = Inr None" for ty k
    using ctx.get_found [OF s(2), of k ty] ctx.get_missing [OF s(2), of k ty] by (auto simp: view split: option.split)
  moreover have "ctx_has k s = (map_run cs k \<noteq> None)" for k
    using store_okD(2) [OF s(2), of k] by (auto simp: ctx_has_def typed_view_def split: option.split simp flip: view)
  moreover have "{a. objs s a \<noteq> None} = ran (store s)"
    using store_okD(2,5) [OF s(2)] by (force simp: ran_def)
  ultimately show ?thesis using s(1) by blast
qed

theorem context_store_type_safe_witness:
  "\<exists>s. ctx_run [OpSet True ''k'' (7 :: nat), OpState False ''j'' 1, OpSet False ''k'' 8] ctx_new = Inr s \<and>
     ctx_get True ''k'' s = Inr None \<and> (\<exists>a. ctx_get False ''k'' s = Inr (Some a) \<and> obj_read False a s = Inr 8)"
proof -
  let ?cs = "[OpSet True ''k'' (7 :: nat), OpState False ''j'' 1, OpSet False ''k'' 8]"
  have m: "map_run ?cs ''k'' = Some (False, 8)" by (simp add: map_run_def)
  obtain s where s: "ctx_run ?cs ctx_new = Inr s"
    and g: "\<forall>ty k. case map_run ?cs k of
        Some (t, v) \<Rightarrow> if t = ty then \<exists>a. ctx_get ty k s = Inr (Some a) \<and> obj_read ty a s = Inr v else ctx_get ty k s = Inr None
      | None \<Rightarrow> ctx_get ty k s = Inr None"
    using context_store_type_safe [of ?cs] by blast
  show ?thesis using g [rule_format, of True "''k''"] g [rule_format, of False "''k''"] m by (intro exI [of _ s] conjI s) simp_all
qed

text \<open>Handlers do not disturb each other: what a handler assigns to the state it fetched is what it finds the
  next time it fetches, at the same address, whatever other handlers did to other keys in between (their
  own fetches and assignments, values set, assigned and removed).\<close>

theorem handler_state_persists:
  assumes "store_ok s" and "ctx_state ty key init s = Inr (a, s1)" and "obj_write ty a v s1 = Inr s2"
    and "\<forall>c \<in> set cs. c \<noteq> OpClear \<and> (\<forall>t w. c \<notin> {OpSet t key w, OpState t key w, OpAssign t key w}) \<and> c \<noteq> OpRemove key"
    and "ctx_run cs s2 = Inr s3"
  shows "ctx_state ty key init s3 = Inr (a, s3) \<and> obj_read ty a s3 = Inr v"
proof -
  obtain a1 s1' where f: "ctx_state ty key init s = Inr (a1, s1')" "store_ok s1'" "ctx_get ty key s1' = Inr (Some a1)"
    using ctx.fetch_ok [OF assms(1), of ty key init] unfolding ctx_state_def by blast
  then have s1: "store_ok s1" "ctx_get ty key s1 = Inr (Some a)" using assms(2) by simp_all
  have s2: "store_ok s2" "typed_view s2 key = Some (ty, v)" "ctx_get ty key s2 = Inr (Some a)"
    using obj_write_ok [OF s1, of v] assms(3) by auto
  have st2: "store s2 key = Some a" using obj_read_get [OF s2(1,3)] by blast
  have keep: "store s3 key = Some a \<and> typed_view s3 key = typed_view s2 key \<and> store_ok s3"
    using assms(4,5) st2 s2(1)
  proof (induction cs arbitrary: s2)
    case (Cons c cs)
    obtain s' where s': "ctx_do c s2 = Inr s'" "store_ok s'" "typed_view s' = map_do c (typed_view s2)"
      using ctx_do_refines [OF Cons.prems(4)] by blast
    have "typed_view s' key = typed_view s2 key" using s'(3) Cons.prems(1) by (cases c) auto
    moreover have "store s' key = Some a" using s'(1) Cons.prems(1,3)
      by (cases c) (auto simp: ctx_set_def Let_def ctx_remove_def obj_write_def ctx_state_def fetch_def split: option.splits)
    ultimately show ?case using Cons.IH [of s'] Cons.prems s' by simp
  qed simp
  then have "ctx_get ty key s3 = Inr (Some a)" using s2(2) by (simp add: ctx_get_eq)
  moreover have "obj_read ty a s3 = Inr v" using obj_read_get [of s3 ty key a] calculation keep s2(2) by auto
  ultimately show ?thesis by (simp add: ctx_state_def fetch_def)
qed

theorem handler_state_persists_witness:
  "\<exists>a s1 s2 s3. ctx_state True ''ssl'' (0 :: nat) ctx_new = Inr (a, s1) \<and> obj_write True a 5 s1 = Inr s2 \<and>
     ctx_run [OpState False ''http'' 1, OpAssign False ''http'' 2] s2 = Inr s3 \<and> ctx_state True ''ssl'' 0 s3 = Inr (a, s3) \<and>
     obj_read True a s3 = Inr 5"
proof -
  obtain a s1 where s1: "ctx_state True ''ssl'' (0 :: nat) ctx_new = Inr (a, s1)" "store_ok s1" "ctx_get True ''ssl'' s1 = Inr (Some a)"
    using ctx.fetch_ok [of ctx_new True "''ssl''" 0] unfolding ctx_state_def by auto
  obtain s2 where s2: "obj_write True a 5 s1 = Inr s2" "store_ok s2" using obj_write_ok [OF s1(2,3)] by blast
  let ?cs = "[OpState False ''http'' 1, OpAssign False ''http'' 2]"
  obtain s3 where s3: "ctx_run ?cs s2 = Inr s3" using ctx_run_refines [OF s2(2), of ?cs] by blast
  show ?thesis using handler_state_persists [OF ctx_new_ok(1) s1(1) s2(1) _ s3] s1 s2 s3 by auto
qed

end
