(* ===== verification/ServerHandler.thy ===== *)
theory ServerHandler
  imports EventLoop Worker HttpRequest HttpResponse
begin

text \<open>
  The rest of a context (\<open>src/channel/context.cpp\<close>): the address of the peer, tasks for the loop of the
  connection, pooled buffers; and the HTTP server handler (\<open>src/http/http_server_handler.cpp\<close>), which hands
  requests to the application. As in theory \<open>Worker\<close> a context holds a weak pointer to its connection.
\<close>

section \<open>The connection of a context\<close>

text \<open>\<open>conn_.lock()\<close>.\<close>

definition locked :: "nat option \<Rightarrow> 'p worker \<Rightarrow> conn option" where
  "locked cp w = (case cp of None \<Rightarrow> None | Some me \<Rightarrow> conns w me)"

definition ctx_conn :: "nat option \<Rightarrow> 'p worker \<Rightarrow> conn res" where
  "ctx_conn cp w = (case locked cp w of None \<Rightarrow> Inl UndefinedBehaviour | Some c \<Rightarrow> Inr c)"

definition sharedCtx :: "nat option \<Rightarrow> 'p worker \<Rightarrow> nat option" where
  "sharedCtx cp w = (if locked cp w = None then None else cp)"

text \<open>\<open>loop\<close>: whether the channel of the connection has a loop.\<close>

definition ctx_loop :: "nat option \<Rightarrow> 'p worker \<Rightarrow> bool" where
  "ctx_loop cp w = (case locked cp w of None \<Rightarrow> False | Some c \<Rightarrow> ch_loop (c_channel c))"

text \<open>\<open>writeBuf\<close>: without a connection, a buffer \<open>kEmpty\<close> that all contexts of the thread share.\<close>

definition ctx_writeBuf :: "nat option \<Rightarrow> 'p worker \<Rightarrow> bytebuf \<Rightarrow> bytebuf" where
  "ctx_writeBuf cp w kEmpty = (case locked cp w of None \<Rightarrow> kEmpty | Some c \<Rightarrow> writeBuf c)"

definition ctx_allocateBuf :: "heap \<Rightarrow> nat \<Rightarrow> nat option \<Rightarrow> 'p worker \<Rightarrow> bytebuf option \<times> 'p worker" where
  "ctx_allocateBuf h cap cp w = (if \<not> ctx_loop cp w then (None, w) else case acquireBuf h cap w of (b, w1) \<Rightarrow> (Some b, w1))"

definition ctx_releaseBuf :: "bytebuf \<Rightarrow> nat option \<Rightarrow> 'p worker \<Rightarrow> 'p worker" where
  "ctx_releaseBuf b cp w = (if ctx_loop cp w then releaseBuf b w else w)"

section \<open>The address of the peer\<close>

text \<open>
  The answer of \<open>getpeername\<close>: an address with its port in network byte order, or failure. \<open>inet_ntop\<close>, which
  formats an address, is a parameter.
\<close>

datatype sockaddr = Inet4 bytes "16 word" | Inet6 bytes "16 word"

fun sa_addr :: "sockaddr \<Rightarrow> bytes" where
  "sa_addr (Inet4 a p) = a"
| "sa_addr (Inet6 a p) = a"

fun sa_port :: "sockaddr \<Rightarrow> 16 word" where
  "sa_port (Inet4 a p) = p"
| "sa_port (Inet6 a p) = p"

text \<open>\<open>ntohs\<close> on a little-endian machine.\<close>

definition ntohs :: "16 word \<Rightarrow> nat" where
  "ntohs p = (unat p mod 256) * 256 + unat p div 256"

definition peerAddress :: "(int \<Rightarrow> sockaddr option) \<Rightarrow> (bytes \<Rightarrow> string) \<Rightarrow> nat option \<Rightarrow> 'p worker \<Rightarrow> string" where
  "peerAddress getpeername inet_ntop cp w = (case locked cp w of
     None \<Rightarrow> []
   | Some c \<Rightarrow>
       if ch_fd (c_channel c) < 0 then []
       else (case getpeername (ch_fd (c_channel c)) of
           None \<Rightarrow> []
         | Some sa \<Rightarrow> inet_ntop (sa_addr sa) @ '':'' @ decimal (ntohs (sa_port sa))))"

section \<open>Tasks for the loop of the connection\<close>

definition ctx_isInLoopThread :: "nat \<Rightarrow> nat option \<Rightarrow> 'p worker \<Rightarrow> 'f evloop \<Rightarrow> bool" where
  "ctx_isInLoopThread self cp w el = (ctx_loop cp w \<and> isInLoopThread self el)"

definition ctx_runInLoop :: "'f effects \<Rightarrow> nat \<Rightarrow> 'f option \<Rightarrow> nat option \<Rightarrow> 'p worker \<Rightarrow> 'f evloop \<Rightarrow> 'f evloop \<times> fault option" where
  "ctx_runInLoop run self cb cp w el = (if ctx_loop cp w then runInLoop run self cb el else (el, None))"

section \<open>The HTTP server handler\<close>

datatype server_msg = RequestMsg "http_request option" | ForeignMsg nat

datatype server_effect = ForwardRead server_msg | OnRequest nat http_request

definition server_channelRead :: "server_msg \<Rightarrow> nat option \<Rightarrow> 'p worker \<Rightarrow> server_effect list" where
  "server_channelRead msg cp w = (case msg of
     RequestMsg (Some req) \<Rightarrow> (case sharedCtx cp w of None \<Rightarrow> [] | Some me \<Rightarrow> [OnRequest me req])
   | _ \<Rightarrow> [ForwardRead msg])"

section \<open>Lemmas\<close>

text \<open>A request reaches the application exactly when its connection still exists, and then with that connection.\<close>

lemma server_delivers:
  "OnRequest me r \<in> set (server_channelRead msg cp w) \<longleftrightarrow> msg = RequestMsg (Some r) \<and> cp = Some me \<and> conns w me \<noteq> None"
  by (auto simp: server_channelRead_def sharedCtx_def locked_def split: server_msg.splits option.splits if_splits)

text \<open>The port is read back from its two bytes in network order.\<close>

lemma ntohs_bytes:
  assumes "hi < 256" and "lo < 256"
  shows "ntohs (of_nat (lo * 256 + hi)) = hi * 256 + lo"
proof -
  have "lo * 256 + hi < 2 ^ 16" using assms by simp
  then have "unat (of_nat (lo * 256 + hi) :: 16 word) = lo * 256 + hi" by (simp only: unsigned_of_nat) (simp add: take_bit_nat_eq_self)
  then show ?thesis using assms by (simp add: ntohs_def)
qed

text \<open>A buffer that is released can be acquired again, and the pool is as before.\<close>

lemma buffer_pool_reuse:
  assumes "ctx_loop cp w"
  shows "ctx_allocateBuf h cap cp (ctx_releaseBuf b cp w) = (Some (bb_clear b), w)"
  using assms by (simp add: ctx_allocateBuf_def ctx_releaseBuf_def releaseBuf_def acquireBuf_def ctx_loop_def locked_def cong: option.case_cong)

text \<open>A task given to a context whose connection is gone is dropped: the loop is left as it was, and no error is reported.\<close>

lemma task_of_dead_context_dropped: "locked cp w = None \<Longrightarrow> ctx_runInLoop run self cb cp w el = (el, None)"
  by (simp add: ctx_runInLoop_def ctx_loop_def)

end
