(* ===== verification/Tls.thy ===== *)
theory Tls
  imports Worker ContextStore
begin

text \<open>
  The TLS handler (\<open>src/ssl/ssl_handler.cpp\<close>). OpenSSL is a parameter: \<open>openssl\<close> is the record of the
  functions the handler calls. An SSL object is an internal state together with its two memory BIOs, the
  encrypted input (\<open>inBio\<close>) and the encrypted output (\<open>outBio\<close>); a call answers with its return value, the
  code \<open>SSL_get_error\<close> gives for it, and the object afterwards. What is used of OpenSSL's documentation is
  collected in \<open>bio_laws\<close>, \<open>output_laws\<close> and \<open>read_laws\<close>.

  The handler runs on a connection of theory \<open>Worker\<close>: \<open>flushEncrypted\<close> moves the encrypted output into the
  connection's write buffer and flushes it, an error closes the connection. Its state for the connection
  lives in the context's store (theory \<open>ContextStore\<close>). The lemmas follow the encrypted bytes from OpenSSL
  to the socket and the plain text from OpenSSL to the next handler.
\<close>

section \<open>OpenSSL\<close>

datatype ssl_error = SSL_ERROR_NONE | SSL_ERROR_WANT_READ | SSL_ERROR_WANT_WRITE | SSL_ERROR_ZERO_RETURN | SSL_ERROR_SSL

type_synonym ('o, 'b) ssl_obj = "'o \<times> 'b \<times> 'b"

record ('o, 'b) openssl =
  new_inBio :: "'b option"
  new_outBio :: "'b option"
  BIO_write :: "int \<Rightarrow> bytes \<Rightarrow> 'b \<Rightarrow> 'b"
  BIO_pending :: "'b \<Rightarrow> int"
  BIO_read :: "nat \<Rightarrow> 'b \<Rightarrow> int \<times> bytes \<times> 'b"
  SSL_new :: "'o option"
  SSL_accept :: "('o, 'b) ssl_obj \<Rightarrow> int \<times> ssl_error \<times> ('o, 'b) ssl_obj"
  SSL_read :: "int \<Rightarrow> ('o, 'b) ssl_obj \<Rightarrow> int \<times> bytes \<times> ssl_error \<times> ('o, 'b) ssl_obj"
  SSL_write :: "int \<Rightarrow> bytes \<Rightarrow> ('o, 'b) ssl_obj \<Rightarrow> int \<times> ('o, 'b) ssl_obj"
  SSL_shutdown :: "('o, 'b) ssl_obj \<Rightarrow> ('o, 'b) ssl_obj"

text \<open>The conversion of a \<open>size_t\<close> to \<open>int\<close>.\<close>

definition to_int :: "nat \<Rightarrow> int" where
  "to_int n = sint (of_nat n :: 32 word)"

section \<open>The state of a connection\<close>

record ('o, 'b) ssl_state =
  ssl :: "'o option"
  inBio :: "'b option"
  outBio :: "'b option"
  handshakeDone :: bool
  sslShutdown :: bool

definition ssl_state_new :: "('o, 'b) ssl_state" where
  "ssl_state_new = \<lparr>ssl = None, inBio = None, outBio = None, handshakeDone = False, sslShutdown = False\<rparr>"

text \<open>
  The destructor, the move constructor and the move assignment. \<open>SSL_free\<close> also frees the two BIOs, which the
  object owns since \<open>SSL_set_bio\<close>. A move gives the new object and what is left of the old one; the
  assignment gives the two sides.
\<close>

datatype ('o, 'b) ssl_release = ShutdownSsl 'o | FreeSsl 'o | FreeBio 'b

definition ssl_state_destroy :: "('o, 'b) ssl_state \<Rightarrow> ('o, 'b) ssl_release list" where
  "ssl_state_destroy st = (case ssl st of
     Some x \<Rightarrow> [ShutdownSsl x, FreeSsl x]
   | None \<Rightarrow> (case inBio st of None \<Rightarrow> [] | Some b \<Rightarrow> [FreeBio b]) @ (case outBio st of None \<Rightarrow> [] | Some b \<Rightarrow> [FreeBio b]))"

definition ssl_state_move :: "('o, 'b) ssl_state \<Rightarrow> ('o, 'b) ssl_state \<times> ('o, 'b) ssl_state" where
  "ssl_state_move other =
     (\<lparr>ssl = ssl other, inBio = inBio other, outBio = outBio other, handshakeDone = handshakeDone other, sslShutdown = sslShutdown other\<rparr>,
      other\<lparr>ssl := None, inBio := None, outBio := None\<rparr>)"

definition ssl_state_assign :: "('o, 'b) ssl_state \<Rightarrow> ('o, 'b) ssl_state \<Rightarrow> ('o, 'b) ssl_state \<times> ('o, 'b) ssl_state" where
  "ssl_state_assign this other =
     (this\<lparr>ssl := ssl other, inBio := inBio other, outBio := outBio other, handshakeDone := handshakeDone other, sslShutdown := sslShutdown other\<rparr>,
      other\<lparr>ssl := ssl this, inBio := inBio this, outBio := outBio this\<rparr>)"

text \<open>Moving neither loses an object nor releases one twice: the two sides together release what they released before.\<close>

lemma ssl_state_move_releases:
  "ssl_state_destroy (fst (ssl_state_move st)) = ssl_state_destroy st"
  "ssl_state_destroy (snd (ssl_state_move st)) = []"
  by (simp_all add: ssl_state_move_def ssl_state_destroy_def cong: option.case_cong)

lemma ssl_state_assign_releases:
  "ssl_state_destroy (fst (ssl_state_assign this other)) = ssl_state_destroy other"
  "ssl_state_destroy (snd (ssl_state_assign this other)) = ssl_state_destroy this"
  by (simp_all add: ssl_state_assign_def ssl_state_destroy_def cong: option.case_cong)

text \<open>A call of an SSL function on the object; a null pointer is a fault.\<close>

definition ssl_obj_of :: "('o, 'b) ssl_state \<Rightarrow> ('o, 'b) ssl_obj res" where
  "ssl_obj_of st = (case (ssl st, inBio st, outBio st) of
     (Some x, Some i, Some b) \<Rightarrow> Inr (x, i, b)
   | _ \<Rightarrow> Inl UndefinedBehaviour)"

definition put_obj :: "('o, 'b) ssl_obj \<Rightarrow> ('o, 'b) ssl_state \<Rightarrow> ('o, 'b) ssl_state" where
  "put_obj x st = st\<lparr>ssl := Some (fst x), inBio := Some (fst (snd x)), outBio := Some (snd (snd x))\<rparr>"

text \<open>A message: a buffer, a null buffer pointer, or something that is not a buffer.\<close>

datatype tls_msg = BufMsg bytebuf | NullMsg | OtherMsg nat

datatype tls_effect = FireRead tls_msg | FireWrite tls_msg | FireInactive

section \<open>Output\<close>

text \<open>Bytes put at \<open>writableData()\<close>, then \<open>setWriterIndex(writerIndex() + n)\<close>.\<close>

definition commit :: "bytes \<Rightarrow> nat \<Rightarrow> bytebuf \<Rightarrow> bytebuf res" where
  "commit bs n b = rbind (mem_write (bdata b) (writerIndex b) bs) (\<lambda>d. setWriterIndex (add_sz (writerIndex b) n) (b\<lparr>bdata := d\<rparr>))"

partial_function (option) flush_loop ::
    "('o, 'b) openssl \<Rightarrow> heap \<Rightarrow> 'b \<Rightarrow> bytebuf \<Rightarrow> nat \<Rightarrow> ('b \<times> bytebuf \<times> nat) res option" where
  "flush_loop ossl h ob wb wr =
     (if BIO_pending ossl ob \<le> 0 then Some (Inr (ob, wb, wr))
      else (case ensureWritable h (min (nat (BIO_pending ossl ob)) 4096) wb of
          Inl e \<Rightarrow> Some (Inl e)
        | Inr wb1 \<Rightarrow> (case BIO_read ossl (min (nat (BIO_pending ossl ob)) 4096) ob of (n, bs, ob1) \<Rightarrow>
            if n \<le> 0 then Some (Inr (ob1, wb1, wr))
            else (case commit bs (nat n) wb1 of
                Inl e \<Rightarrow> Some (Inl e)
              | Inr wb2 \<Rightarrow> flush_loop ossl h ob1 wb2 (wr + nat n)))))"

type_synonym ('o, 'b, 'p) tls = "('o, 'b) ssl_state \<times> 'p cio"

definition flushEncrypted :: "('o, 'b) openssl \<Rightarrow> 'p env \<Rightarrow> nat \<Rightarrow> nat \<Rightarrow> ('o, 'b, 'p) tls \<Rightarrow> ('o, 'b, 'p) tls res" where
  "flushEncrypted ossl env now me t =
     (let (st, c, p, k) = t in
      case outBio st of
        None \<Rightarrow> Inl UndefinedBehaviour
      | Some ob \<Rightarrow>
          rbind (returned (flush_loop ossl (mem env) ob (writeBuf c) 0)) (\<lambda>(ob, wb, wr).
          let st = st\<lparr>outBio := Some ob\<rparr>; c = c\<lparr>writeBuf := wb\<rparr> in
          if wr > 0 then rbind (flushWriteBuf env now me (c, p, k)) (\<lambda>s. Inr (st, s))
          else Inr (st, c, p, k)))"

text \<open>\<open>Context::close\<close> on the connection; the pipeline event is an effect.\<close>

definition tls_close :: "('o, 'b, 'p) tls \<Rightarrow> ('o, 'b, 'p) tls \<times> tls_effect list" where
  "tls_close t = (let (st, c, p, k) = t in if closed c then (t, []) else ((st, c\<lparr>closed := True\<rparr>, p, k), [FireInactive]))"

definition handleError :: "('o, 'b, 'p) tls \<Rightarrow> ('o, 'b, 'p) tls \<times> tls_effect list" where
  "handleError t = tls_close t"

section \<open>Input\<close>

text \<open>The objects of a new connection; the flag is whether they could be created.\<close>

definition tls_setup :: "('o, 'b) openssl \<Rightarrow> ('o, 'b) ssl_state \<Rightarrow> ('o, 'b) ssl_state \<times> bool" where
  "tls_setup ossl st =
     (if ssl st \<noteq> None then (st, True)
      else let st = st\<lparr>inBio := new_inBio ossl, outBio := new_outBio ossl\<rparr> in
        if inBio st = None \<or> outBio st = None then (st, False)
        else let st = st\<lparr>ssl := SSL_new ossl\<rparr> in (st, ssl st \<noteq> None))"

text \<open>The loop around \<open>SSL_accept\<close> with \<open>i\<close> rounds left; the flag is the \<open>return\<close> after an error.\<close>

fun accept_loop :: "('o, 'b) openssl \<Rightarrow> 'p env \<Rightarrow> nat \<Rightarrow> nat \<Rightarrow> nat \<Rightarrow> ('o, 'b, 'p) tls \<Rightarrow>
    (('o, 'b, 'p) tls \<times> tls_effect list \<times> bool) res" where
  "accept_loop ossl env now me 0 t = Inr (t, [], False)"
| "accept_loop ossl env now me (Suc i) t =
     (if handshakeDone (fst t) then Inr (t, [], False)
      else rbind (ssl_obj_of (fst t)) (\<lambda>x.
        case SSL_accept ossl x of (ret, err, x) \<Rightarrow>
          let t = (put_obj x (fst t), snd t) in
          if ret = 1 then Inr ((fst t\<lparr>handshakeDone := True\<rparr>, snd t), [], False)
          else rbind (flushEncrypted ossl env now me t) (\<lambda>t.
            if err = SSL_ERROR_WANT_READ then Inr (t, [], False)
            else if err \<noteq> SSL_ERROR_WANT_WRITE then (let (t, es) = handleError t in Inr (t, es, True))
            else accept_loop ossl env now me i t)))"

text \<open>The loop around \<open>SSL_read\<close>: it ends with the return value and the error code of the last call.\<close>

partial_function (option) read_loop ::
    "('o, 'b) openssl \<Rightarrow> heap \<Rightarrow> ('o, 'b) ssl_obj \<Rightarrow> bytebuf \<Rightarrow> (int \<times> ssl_error \<times> ('o, 'b) ssl_obj \<times> bytebuf) res option" where
  "read_loop ossl h x plainBuf = (case ensureWritable h 4096 plainBuf of
     Inl e \<Rightarrow> Some (Inl e)
   | Inr b \<Rightarrow> (case SSL_read ossl (to_int (writableBytes b)) x of (ret, bs, err, x1) \<Rightarrow>
       if ret > 0 then (case commit bs (nat ret) b of
           Inl e \<Rightarrow> Some (Inl e)
         | Inr b1 \<Rightarrow> read_loop ossl h x1 b1)
       else Some (Inr (ret, err, x1, b))))"

text \<open>What follows the last call, with the collected plain text.\<close>

definition read_end :: "('o, 'b) openssl \<Rightarrow> 'p env \<Rightarrow> nat \<Rightarrow> nat \<Rightarrow> int \<Rightarrow> ssl_error \<Rightarrow> bytebuf \<Rightarrow> ('o, 'b, 'p) tls \<Rightarrow>
    (('o, 'b, 'p) tls \<times> tls_effect list) res" where
  "read_end ossl env now me ret err plainBuf t =
     (if ret = 0 then
        let st = fst t\<lparr>sslShutdown := True\<rparr> in
        rbind (ssl_obj_of st) (\<lambda>x.
        rbind (flushEncrypted ossl env now me (put_obj (SSL_shutdown ossl x) st, snd t)) (\<lambda>t. Inr (tls_close t)))
      else if err \<noteq> SSL_ERROR_WANT_READ \<and> err \<noteq> SSL_ERROR_WANT_WRITE then Inr (handleError t)
      else Inr (t, if readableBytes plainBuf > 0 then [FireRead (BufMsg plainBuf)] else []))"

definition read_plain :: "('o, 'b) openssl \<Rightarrow> 'p env \<Rightarrow> nat \<Rightarrow> nat \<Rightarrow> ('o, 'b, 'p) tls \<Rightarrow> (('o, 'b, 'p) tls \<times> tls_effect list) res" where
  "read_plain ossl env now me t =
     rbind (ssl_obj_of (fst t)) (\<lambda>x.
     rbind (returned (read_loop ossl (mem env) x bb_new)) (\<lambda>(ret, err, x, plainBuf).
     read_end ossl env now me ret err plainBuf (put_obj x (fst t), snd t)))"

definition tls_channelRead :: "('o, 'b) openssl \<Rightarrow> 'p env \<Rightarrow> nat \<Rightarrow> nat \<Rightarrow> tls_msg \<Rightarrow> ('o, 'b, 'p) tls \<Rightarrow>
    (('o, 'b, 'p) tls \<times> tls_effect list) res" where
  "tls_channelRead ossl env now me msg t = (case msg of
     BufMsg enc \<Rightarrow>
       if readableBytes enc = 0 then Inr (t, [FireRead msg])
       else (case tls_setup ossl (fst t) of (st, ok) \<Rightarrow>
         if \<not> ok then Inr (handleError (st, snd t))
         else
           rbind (ssl_obj_of st) (\<lambda>(x, i, b).
           rbind (mem_read (bdata enc) (readerIndex enc) (readableBytes enc)) (\<lambda>d.
           let t = (put_obj (x, BIO_write ossl (to_int (readableBytes enc)) d i, b) st, snd t) in
           if handshakeDone (fst t) then read_plain ossl env now me t
           else rbind (accept_loop ossl env now me 16 t) (\<lambda>(t, es, stop).
             if stop then Inr (t, es)
             else if \<not> handshakeDone (fst t) then rbind (flushEncrypted ossl env now me t) (\<lambda>t. Inr (t, []))
             else read_plain ossl env now me t))))
   | _ \<Rightarrow> Inr (t, [FireRead msg]))"

section \<open>Writing\<close>

definition tls_write :: "('o, 'b) openssl \<Rightarrow> 'p env \<Rightarrow> nat \<Rightarrow> nat \<Rightarrow> tls_msg \<Rightarrow> ('o, 'b, 'p) tls \<Rightarrow>
    (('o, 'b, 'p) tls \<times> tls_effect list) res" where
  "tls_write ossl env now me msg t =
     (if \<not> handshakeDone (fst t) then Inr (t, [])
      else (case msg of
          BufMsg plain \<Rightarrow>
            rbind (ssl_obj_of (fst t)) (\<lambda>x.
            rbind (mem_read (bdata plain) (readerIndex plain) (readableBytes plain)) (\<lambda>d.
            case SSL_write ossl (to_int (readableBytes plain)) d x of (ret, x) \<Rightarrow>
              let t = (put_obj x (fst t), snd t) in
              if ret > 0 then rbind (flushEncrypted ossl env now me t) (\<lambda>t. Inr (t, []))
              else Inr (handleError t)))
        | _ \<Rightarrow> Inr (t, [FireWrite msg])))"

section \<open>Certificates\<close>

text \<open>
  \<open>initCtx\<close> and the factory methods: the answers of OpenSSL in the order of the calls are a parameter, and the
  objects that are created and released are recorded. The handler that a factory method drops releases its
  context in the destructor of \<open>Impl\<close>.
\<close>

datatype ssl_res = ResCtx | ResCertBio | ResKeyBio | ResX509 | ResPkey

datatype res_effect = Acquire ssl_res | Release ssl_res

record init_answers =
  ctx_new_ok :: bool
  cert_file_ok :: bool
  key_file_ok :: bool
  cert_bio_ok :: bool
  x509_ok :: bool
  key_bio_ok :: bool
  pkey_ok :: bool
  use_cert_ok :: bool
  use_key_ok :: bool
  check_key_ok :: bool

definition initCtx :: "init_answers \<Rightarrow> bool \<Rightarrow> bool \<times> res_effect list" where
  "initCtx k isPath =
     (if \<not> ctx_new_ok k then (False, [])
      else if isPath then
        (if \<not> cert_file_ok k then (False, [Acquire ResCtx])
         else if \<not> key_file_ok k then (False, [Acquire ResCtx])
         else (True, [Acquire ResCtx]))
      else if \<not> cert_bio_ok k then (False, [Acquire ResCtx])
      else
        let es = [Acquire ResCtx, Acquire ResCertBio] in
        if \<not> x509_ok k then (False, es @ [Release ResCertBio])
        else let es = es @ [Acquire ResX509, Release ResCertBio] in
        if \<not> key_bio_ok k then (False, es @ [Release ResX509])
        else let es = es @ [Acquire ResKeyBio] in
        if \<not> pkey_ok k then (False, es @ [Release ResKeyBio, Release ResX509])
        else let es = es @ [Acquire ResPkey, Release ResKeyBio] in
        if \<not> use_cert_ok k then (False, es @ [Release ResX509, Release ResPkey])
        else if \<not> use_key_ok k then (False, es @ [Release ResX509, Release ResPkey])
        else if \<not> check_key_ok k then (False, es @ [Release ResX509, Release ResPkey])
        else (True, es @ [Release ResX509, Release ResPkey]))"

definition forServer :: "init_answers \<Rightarrow> bool \<Rightarrow> bool \<times> res_effect list" where
  "forServer k isPath =
     (case initCtx k isPath of (ok, es) \<Rightarrow>
        if \<not> ok then (False, es @ (if ctx_new_ok k then [Release ResCtx] else [])) else (True, es))"

text \<open>\<open>setSessionCacheSize\<close>: the size is set on the context, if there is one.\<close>

definition setSessionCacheSize :: "(int \<Rightarrow> 'c \<Rightarrow> 'c) \<Rightarrow> int \<Rightarrow> 'c option \<Rightarrow> 'c option" where
  "setSessionCacheSize sess_set_cache_size n sslCtx = (case sslCtx of None \<Rightarrow> None | Some c \<Rightarrow> Some (sess_set_cache_size n c))"

section \<open>The handler in its context\<close>

text \<open>
  \<open>SslHandler::state\<close>: the state lives in the store of the context, under a key of its own. \<open>ty\<close> is the tag of
  the type \<open>SslState\<close>; the values of the other handlers are on the right of the sum.
\<close>

definition kSslKey :: string where
  "kSslKey = ''__ssl_handler_state__''"

definition with_state :: "'ty \<Rightarrow> (('o, 'b, 'p) tls \<Rightarrow> ('o, 'b, 'p) tls res) \<Rightarrow>
    ('ty, ('o, 'b) ssl_state + 'w) ctx_store \<times> 'p cio \<Rightarrow> (('ty, ('o, 'b) ssl_state + 'w) ctx_store \<times> 'p cio) res" where
  "with_state ty f s = on_state ty kSslKey (Inl ssl_state_new)
     (\<lambda>v. case v of
        Inl st \<Rightarrow> rbind (f (st, snd s)) (\<lambda>(st, c). Inr (Inl st, c))
      | Inr w \<Rightarrow> Inl UndefinedBehaviour) (fst s)"

section \<open>What OpenSSL documents\<close>

text \<open>
  Memory BIOs are byte queues; \<open>bio\<close> gives their contents. \<open>emitted\<close> is all an SSL object has ever put into
  its output BIO: the SSL functions only append there. \<open>plain\<close> is the plain text the input received so far
  decrypts to and that has not been read: \<open>SSL_read\<close> returns some of it as long as there is any. The last
  clauses bound what one connection emits in its life (half the address space) and the plain text that
  waits to be read at one time (256 MiB; a read of the socket brings far less).
\<close>

definition bio_laws :: "('o, 'b) openssl \<Rightarrow> ('b \<Rightarrow> bytes) \<Rightarrow> bool" where
  "bio_laws ossl bio \<longleftrightarrow>
     (\<forall>b. new_outBio ossl = Some b \<longrightarrow> bio b = []) \<and>
     (\<forall>b. BIO_pending ossl b = to_int (length (bio b))) \<and>
     (\<forall>b n. 0 < n \<and> bio b \<noteq> [] \<longrightarrow> (case BIO_read ossl n b of (r, bs, b') \<Rightarrow>
        r = int (length bs) \<and> bs = take n (bio b) \<and> bio b' = drop n (bio b)))"

definition appends :: "('b \<Rightarrow> bytes) \<Rightarrow> ('o \<Rightarrow> bytes) \<Rightarrow> ('o, 'b) ssl_obj \<Rightarrow> ('o, 'b) ssl_obj \<Rightarrow> bool" where
  "appends bio emitted x y \<longleftrightarrow>
     (\<exists>e. emitted (fst y) = emitted (fst x) @ e \<and> bio (snd (snd y)) = bio (snd (snd x)) @ e)"

definition output_laws :: "('o, 'b) openssl \<Rightarrow> ('b \<Rightarrow> bytes) \<Rightarrow> ('o \<Rightarrow> bytes) \<Rightarrow> bool" where
  "output_laws ossl bio emitted \<longleftrightarrow>
     (\<forall>x0. SSL_new ossl = Some x0 \<longrightarrow> emitted x0 = []) \<and>
     (\<forall>x. appends bio emitted x (snd (snd (SSL_accept ossl x)))) \<and>
     (\<forall>x n. appends bio emitted x (snd (snd (snd (SSL_read ossl n x))))) \<and>
     (\<forall>x n d. appends bio emitted x (snd (SSL_write ossl n d x))) \<and>
     (\<forall>x. appends bio emitted x (SSL_shutdown ossl x)) \<and>
     (\<forall>x. length (emitted x) \<le> HALF)"

definition read_laws :: "('o, 'b) openssl \<Rightarrow> (('o, 'b) ssl_obj \<Rightarrow> bytes) \<Rightarrow> bool" where
  "read_laws ossl plain \<longleftrightarrow>
     (\<forall>x n. 0 < n \<longrightarrow> (case SSL_read ossl n x of (ret, bs, err, y) \<Rightarrow>
        if plain x = [] then ret \<le> 0
        else 0 < ret \<and> ret = int (length bs) \<and> ret \<le> n \<and> plain x = bs @ plain y)) \<and>
     (\<forall>x. length (plain x) \<le> 2 ^ 28)"

section \<open>Lemmas on the output path\<close>

lemma to_int_small: "n < 2 ^ 31 \<Longrightarrow> to_int n = int n"
  by (simp add: to_int_def signed_of_nat signed_take_bit_int_eq_self)

lemma to_int_le: "nat (to_int n) \<le> n"
proof (cases "n < 2 ^ 31")
  case False
  have "to_int n < 2 ^ 31" using sint_less [of "of_nat n :: 32 word"] by (simp add: to_int_def)
  then show ?thesis using False by simp
qed (simp add: to_int_small)

lemma commit_ok:
  assumes "wf_buf b" and "writerIndex b + length bs \<le> capacity b"
  shows "\<exists>b'. commit bs (length bs) b = Inr b' \<and> wf_buf b' \<and> contents b' = contents b @ bs \<and>
     writerIndex b' = writerIndex b + length bs \<and> capacity b' = capacity b"
proof -
  note wf = wf_bufD [OF assms(1)]
  have "writerIndex b + length bs \<le> length (blk (bdata b))" using assms wf by simp
  from mem_write_blk [OF this] obtain d where
    d: "mem_write (bdata b) (writerIndex b) bs = Inr d" "blk d = splice_at (writerIndex b) bs (blk (bdata b))" .
  have "add_sz (writerIndex b) (length bs) = writerIndex b + length bs" using assms wf by (simp add: add_sz_exact)
  then have "commit bs (length bs) b = Inr (b\<lparr>bdata := d, writerIndex := writerIndex b + length bs\<rparr>)"
    using d(1) assms(2) by (simp add: commit_def setWriterIndex_def)
  then show ?thesis using wf_append [OF assms d(2)] by simp
qed

lemma bio_readD:
  assumes "bio_laws ossl bio" and "0 < n" and "bio b \<noteq> []" and "BIO_read ossl n b = (r, bs, b')"
  shows "r = int (length bs)" "bs = take n (bio b)" "bio b' = drop n (bio b)"
proof -
  have "case BIO_read ossl n b of (r, bs, b') \<Rightarrow> r = int (length bs) \<and> bs = take n (bio b) \<and> bio b' = drop n (bio b)"
    by (rule assms(1) [unfolded bio_laws_def, THEN conjunct2, THEN conjunct2, rule_format, OF conjI [OF assms(2,3)]])
  then show "r = int (length bs)" "bs = take n (bio b)" "bio b' = drop n (bio b)" by (simp_all add: assms(4))
qed

text \<open>How a loop ends: it returns, with a result in \<open>P\<close> unless an allocation was refused.\<close>

definition ends :: "heap \<Rightarrow> ('a \<Rightarrow> bool) \<Rightarrow> 'a res option \<Rightarrow> bool" where
  "ends h P r = (case r of None \<Rightarrow> False | Some (Inl e) \<Rightarrow> e = BadAlloc \<and> \<not> heap_grants h | Some (Inr x) \<Rightarrow> P x)"

lemma ends_simps [simp]: "ends h P (Some (Inr x)) = P x" "ends h P (Some (Inl e)) = (e = BadAlloc \<and> \<not> heap_grants h)" "\<not> ends h P None"
  by (simp_all add: ends_def)

lemma ends_mono: "ends h P r \<Longrightarrow> (\<And>x. P x \<Longrightarrow> Q x) \<Longrightarrow> ends h Q r"
  by (auto simp: ends_def split: option.splits sum.splits)

text \<open>One round of \<open>flush_loop\<close> moves a chunk of \<open>k\<close> bytes.\<close>

lemma flush_round:
  assumes laws: "bio_laws ossl bio" and wb: "wf_buf wb" "writerIndex wb + length (bio ob) \<le> HALF" and pend: "\<not> BIO_pending ossl ob \<le> 0"
  obtains "flush_loop ossl h ob wb wr = Some (Inl BadAlloc)" "\<not> heap_grants h"
  | k ob1 wb1 where "0 < k" "k \<le> length (bio ob)" "bio ob1 = drop k (bio ob)" "wf_buf wb1" "contents wb1 = contents wb @ take k (bio ob)"
      "writerIndex wb1 = writerIndex wb + k" "flush_loop ossl h ob wb wr = flush_loop ossl h ob1 wb1 (wr + k)"
proof -
  let ?k = "min (nat (BIO_pending ossl ob)) 4096"
  have "BIO_pending ossl ob = to_int (length (bio ob))" using laws by (simp add: bio_laws_def)
  then have k: "0 < ?k" "?k \<le> length (bio ob)" using pend to_int_le [of "length (bio ob)"] by simp_all
  have room: "writerIndex wb + ?k \<le> HALF" using k(2) wb(2) by linarith
  show thesis
  proof (cases "ensureWritable h ?k wb")
    case (Inl e)
    then have "flush_loop ossl h ob wb wr = Some (Inl e)" using pend by (subst flush_loop.simps) simp
    then show thesis using that(1) ensureWritable_Inl [OF wb(1) room Inl] ensureWritable_granted [OF wb(1) room, of h] Inl by auto
  next
    case (Inr wb0)
    note e = ensureWritable_Inr [OF wb(1) room Inr]
    obtain r bs ob1 where rd: "BIO_read ossl ?k ob = (r, bs, ob1)" by (metis surj_pair)
    have "bio ob \<noteq> []" using k by auto
    note bs = bio_readD [OF laws k(1) this rd]
    have len: "length bs = ?k" using k(2) bs(2) by simp
    obtain wb1 where wb1: "commit bs (length bs) wb0 = Inr wb1" "wf_buf wb1" "contents wb1 = contents wb0 @ bs"
        "writerIndex wb1 = writerIndex wb0 + length bs"
      using commit_ok [of wb0 bs] e len by auto
    have r: "\<not> r \<le> 0" "nat r = length bs" using bs(1) len k(1) by linarith+
    have "flush_loop ossl h ob wb wr = flush_loop ossl h ob1 wb1 (wr + ?k)"
      unfolding len [symmetric] using pend Inr rd wb1(1) r by (subst flush_loop.simps) simp
    then show thesis using that(2) [OF k bs(3) wb1(2)] wb1(3,4) e bs(2) len by simp
  qed
qed

text \<open>The loop moves bytes from the BIO to the end of the buffer, in order; it returns, and moves all of them
  unless the count does not fit an \<open>int\<close>.\<close>

lemma flush_loop_moves:
  assumes laws: "bio_laws ossl bio" and "wf_buf wb" and "writerIndex wb + length (bio ob) \<le> HALF"
  shows "ends h (\<lambda>(ob', wb', wr'). wf_buf wb' \<and> (\<exists>n. contents wb' = contents wb @ take n (bio ob) \<and> bio ob' = drop n (bio ob) \<and>
       n \<le> length (bio ob) \<and> writerIndex wb' = writerIndex wb + n \<and> wr' = wr + n) \<and> (length (bio ob) < 2 ^ 31 \<longrightarrow> bio ob' = []))
     (flush_loop ossl h ob wb wr)"
  using assms(2,3)
proof (induction "length (bio ob)" arbitrary: ob wb wr rule: less_induct)
  case less
  show ?case
  proof (cases "BIO_pending ossl ob \<le> 0")
    case True
    then show ?thesis using less.prems to_int_small [of "length (bio ob)"] laws
      by (subst flush_loop.simps) (auto simp: bio_laws_def intro!: exI [of _ 0])
  next
    case False
    show ?thesis
    proof (rule flush_round [OF laws less.prems False, of h wr])
      fix k ob1 wb1
      assume k: "0 < k" "k \<le> length (bio ob)" and ob1: "bio ob1 = drop k (bio ob)"
        and wb1: "wf_buf wb1" "contents wb1 = contents wb @ take k (bio ob)" "writerIndex wb1 = writerIndex wb + k"
        and eq: "flush_loop ossl h ob wb wr = flush_loop ossl h ob1 wb1 (wr + k)"
      have "length (bio ob1) < length (bio ob)" "writerIndex wb1 + length (bio ob1) \<le> HALF" using k ob1 wb1(3) less.prems(2) by simp_all
      from less.hyps [OF this(1) wb1(1) this(2), of "wr + k"] show ?thesis unfolding eq
      proof (rule ends_mono)
        fix x
        assume "case x of (ob', wb', wr') \<Rightarrow> wf_buf wb' \<and> (\<exists>n. contents wb' = contents wb1 @ take n (bio ob1) \<and> bio ob' = drop n (bio ob1) \<and>
          n \<le> length (bio ob1) \<and> writerIndex wb' = writerIndex wb1 + n \<and> wr' = wr + k + n) \<and> (length (bio ob1) < 2 ^ 31 \<longrightarrow> bio ob' = [])"
        then obtain ob' wb' n where x: "x = (ob', wb', wr + k + n)" and wf: "wf_buf wb'"
          and n: "contents wb' = contents wb1 @ take n (bio ob1)" "bio ob' = drop n (bio ob1)" "n \<le> length (bio ob1)"
            "writerIndex wb' = writerIndex wb1 + n" "length (bio ob1) < 2 ^ 31 \<longrightarrow> bio ob' = []" by (cases x) auto
        have "contents wb' = contents wb @ take (k + n) (bio ob)" using n(1) wb1(2) ob1 by (simp add: take_add)
        then show "case x of (ob', wb', wr') \<Rightarrow> wf_buf wb' \<and> (\<exists>n. contents wb' = contents wb @ take n (bio ob) \<and> bio ob' = drop n (bio ob) \<and>
          n \<le> length (bio ob) \<and> writerIndex wb' = writerIndex wb + n \<and> wr' = wr + n) \<and> (length (bio ob) < 2 ^ 31 \<longrightarrow> bio ob' = [])"
          using wf n(2-5) k(2) ob1 wb1(3) by (auto simp: x add.commute intro!: exI [of _ "k + n"])
      qed
    qed simp
  qed
qed

text \<open>
  The wire invariant: what the socket accepted, what the write buffer holds and what the output BIO holds,
  one after the other, are all that OpenSSL has emitted.
\<close>

definition wire_inv :: "('b \<Rightarrow> bytes) \<Rightarrow> ('o \<Rightarrow> bytes) \<Rightarrow> ('o, 'b, 'p) tls \<Rightarrow> bool" where
  "wire_inv bio emitted t = (case t of (st, c, p, k) \<Rightarrow>
     (\<exists>total_out. out_inv total_out c \<and>
       (case ssl st of
          None \<Rightarrow> total_out = []
        | Some x \<Rightarrow> inBio st \<noteq> None \<and> (\<exists>b. outBio st = Some b \<and> total_out @ bio b = emitted x))))"

text \<open>All that OpenSSL has emitted for the connection.\<close>

definition emitted_by :: "('o \<Rightarrow> bytes) \<Rightarrow> ('o, 'b, 'p) tls \<Rightarrow> bytes" where
  "emitted_by emitted t = (case ssl (fst t) of None \<Rightarrow> [] | Some x \<Rightarrow> emitted x)"

text \<open>The only fault an operation may end in is a refused allocation.\<close>

definition faultless :: "'p env \<Rightarrow> ('a \<Rightarrow> bool) \<Rightarrow> 'a res \<Rightarrow> bool" where
  "faultless env P r \<longleftrightarrow> (case r of Inl e \<Rightarrow> e = BadAlloc \<and> \<not> heap_grants (mem env) | Inr y \<Rightarrow> P y)"

lemma faultless_Inr [simp]: "faultless env P (Inr y) = P y"
  by (simp add: faultless_def)

lemma faultless_rbind: "faultless env P m \<Longrightarrow> (\<And>x. m = Inr x \<Longrightarrow> P x \<Longrightarrow> faultless env Q (f x)) \<Longrightarrow> faultless env Q (rbind m f)"
  by (cases m) (simp_all add: faultless_def)

lemma faultless_mono: "faultless env P m \<Longrightarrow> (\<And>x. m = Inr x \<Longrightarrow> P x \<Longrightarrow> Q x) \<Longrightarrow> faultless env Q m"
  by (cases m) (simp_all add: faultless_def)

lemma faultlessE: "faultless env P r \<Longrightarrow> heap_grants (mem env) \<Longrightarrow> \<exists>y. r = Inr y \<and> P y"
  by (cases r) (simp_all add: faultless_def)

lemma ends_faultless: "ends (mem env) P r \<Longrightarrow> faultless env P (returned r)"
  by (auto simp: ends_def faultless_def split: option.splits sum.splits)

lemma flushEncrypted_wire:
  assumes laws: "bio_laws ossl bio" and inv: "wire_inv bio emitted t" and ssl: "ssl (fst t) \<noteq> None"
    and bound: "length (emitted_by emitted t) \<le> HALF"
  shows "faultless env (\<lambda>t'. wire_inv bio emitted t' \<and> emitted_by emitted t' = emitted_by emitted t \<and> ssl (fst t') = ssl (fst t) \<and>
       handshakeDone (fst t') = handshakeDone (fst t) \<and> sslShutdown (fst t') = sslShutdown (fst t) \<and> inBio (fst t') = inBio (fst t) \<and>
       (\<exists>b b'. outBio (fst t) = Some b \<and> outBio (fst t') = Some b' \<and> (length (bio b) < 2 ^ 31 \<longrightarrow> bio b' = [])))
     (flushEncrypted ossl env now me t)"
proof -
  obtain st c p k where t: "t = (st, c, p, k)" by (metis surj_pair)
  obtain x where x: "ssl st = Some x" using ssl t by auto
  obtain tot b where inv': "out_inv tot c" "inBio st \<noteq> None" "outBio st = Some b" "tot @ bio b = emitted x"
    using inv x by (auto simp: wire_inv_def t)
  note i = out_invD [OF inv'(1)]
  have tot: "length tot + length (bio b) \<le> HALF"
    using bound inv'(4) x by (simp add: emitted_by_def t flip: length_append)
  have room: "writerIndex (writeBuf c) + length (bio b) \<le> HALF" using i(3) tot by linarith
  have eq: "flushEncrypted ossl env now me t = rbind (returned (flush_loop ossl (mem env) b (writeBuf c) 0)) (\<lambda>(ob, wb, wr).
      let st = st\<lparr>outBio := Some ob\<rparr>; c = c\<lparr>writeBuf := wb\<rparr> in
      if wr > 0 then rbind (flushWriteBuf env now me (c, p, k)) (\<lambda>s. Inr (st, s)) else Inr (st, c, p, k))"
    using inv'(3) by (simp add: flushEncrypted_def t)
  show ?thesis unfolding eq
  proof (rule faultless_rbind [OF ends_faultless [OF flush_loop_moves [OF laws i(1) room]]], clarify)
    fix ob wb n
    assume wb: "wf_buf wb" "contents wb = contents (writeBuf c) @ take n (bio b)" "writerIndex wb = writerIndex (writeBuf c) + n"
      and ob: "bio ob = drop n (bio b)" "n \<le> length (bio b)" "length (bio b) < 2 ^ 31 \<longrightarrow> bio ob = []"
    let ?st = "st\<lparr>outBio := Some ob\<rparr>" and ?c = "c\<lparr>writeBuf := wb\<rparr>" and ?tot = "tot @ take n (bio b)"
    have all: "?tot @ bio ob = emitted x" using inv'(4) ob(1) by simp
    have c: "wf_buf (writeBuf ?c)" "sent ?c @ contents (writeBuf ?c) = ?tot" "writerIndex (writeBuf ?c) \<le> length ?tot"
      using i(2,3) wb ob(2) by simp_all
    have done_ok: "wire_inv bio emitted (?st, c', p', k')" if "out_inv ?tot c'" for c' p' k'
      using x inv'(2) all that by (auto simp: wire_inv_def)
    obtain c' p' k' where f: "flushWriteBuf env now me (?c, p, k) = Inr (c', p', k')" "out_inv ?tot c'"
      using flushWriteBuf_inv [OF c, of env now me p k] by blast
    have w: "wire_inv bio emitted (?st, c', p', k')" "n = 0 \<Longrightarrow> wire_inv bio emitted (?st, ?c, p, k)"
      using f(2) inv'(1) wb c by (auto intro!: done_ok simp: out_inv_def)
    show "faultless env (\<lambda>t'. wire_inv bio emitted t' \<and> emitted_by emitted t' = emitted_by emitted t \<and> ssl (fst t') = ssl (fst t) \<and>
         handshakeDone (fst t') = handshakeDone (fst t) \<and> sslShutdown (fst t') = sslShutdown (fst t) \<and> inBio (fst t') = inBio (fst t) \<and>
         (\<exists>b b'. outBio (fst t) = Some b \<and> outBio (fst t') = Some b' \<and> (length (bio b) < 2 ^ 31 \<longrightarrow> bio b' = [])))
       (let st = ?st; c = ?c in if 0 + n > 0 then rbind (flushWriteBuf env now me (c, p, k)) (\<lambda>s. Inr (st, s)) else Inr (st, c, p, k))"
      using f(1) w x inv'(3) ob(3) by (simp add: Let_def emitted_by_def t)
  qed
qed

lemma appends_refl [simp]: "appends bio emitted x x"
  by (simp add: appends_def)

lemma appends_trans: "appends bio emitted x y \<Longrightarrow> appends bio emitted y z \<Longrightarrow> appends bio emitted x z"
  by (auto simp: appends_def)

lemma put_obj_fields [simp]:
  "ssl (put_obj x st) = Some (fst x)" "inBio (put_obj x st) = Some (fst (snd x))" "outBio (put_obj x st) = Some (snd (snd x))"
  "handshakeDone (put_obj x st) = handshakeDone st" "sslShutdown (put_obj x st) = sslShutdown st"
  "ssl_obj_of (put_obj x st) = Inr x"
  by (simp_all add: put_obj_def ssl_obj_of_def)

lemma ssl_obj_of_Inr: "ssl_obj_of st = Inr (o1, i, b) \<longleftrightarrow> ssl st = Some o1 \<and> inBio st = Some i \<and> outBio st = Some b"
  by (auto simp: ssl_obj_of_def split: option.split)

lemma wire_inv_obj: "wire_inv bio emitted t \<Longrightarrow> ssl (fst t) \<noteq> None \<Longrightarrow> \<exists>x. ssl_obj_of (fst t) = Inr x"
  by (cases t) (auto simp: wire_inv_def ssl_obj_of_def split: option.splits)

lemma wire_inv_put:
  assumes "wire_inv bio emitted t" and "ssl_obj_of (fst t) = Inr x" and "appends bio emitted x y"
  shows "wire_inv bio emitted (put_obj y (fst t), snd t)"
proof -
  obtain st c p k where t: "t = (st, c, p, k)" by (metis surj_pair)
  obtain o1 i b where x: "x = (o1, i, b)" by (metis surj_pair)
  have st: "ssl st = Some o1" "outBio st = Some b" using assms(2) by (simp_all add: t x ssl_obj_of_Inr)
  obtain tot where "out_inv tot c" "tot @ bio b = emitted o1" using assms(1) st by (auto simp: wire_inv_def t)
  moreover obtain e where "emitted (fst y) = emitted o1 @ e" "bio (snd (snd y)) = bio b @ e"
    using assms(3) by (auto simp: appends_def x)
  ultimately show ?thesis by (auto simp: wire_inv_def t)
qed

lemma wire_inv_flags:
  "wire_inv bio emitted (st\<lparr>handshakeDone := h\<rparr>, s) = wire_inv bio emitted (st, s)"
  "wire_inv bio emitted (st\<lparr>sslShutdown := h\<rparr>, s) = wire_inv bio emitted (st, s)"
  by (cases s; cases "ssl st"; simp add: wire_inv_def)+

lemma wire_inv_close:
  assumes "wire_inv bio emitted t"
  shows "wire_inv bio emitted (fst (tls_close t))" and "closed (fst (snd (fst (tls_close t))))" and "fst (fst (tls_close t)) = fst t"
proof -
  obtain st c p k where t: "t = (st, c, p, k)" by (metis surj_pair)
  have "out_inv tot c \<Longrightarrow> out_inv tot (c\<lparr>closed := True\<rparr>)" for tot by (simp add: out_inv_def)
  then show "wire_inv bio emitted (fst (tls_close t))" using assms by (auto simp: wire_inv_def t tls_close_def)
  show "closed (fst (snd (fst (tls_close t))))" "fst (fst (tls_close t)) = fst t" by (simp_all add: t tls_close_def)
qed

lemma output_lawsD:
  assumes "output_laws ossl bio emitted"
  shows "SSL_new ossl = Some x0 \<Longrightarrow> emitted x0 = []" "SSL_accept ossl x = (r, err, y) \<Longrightarrow> appends bio emitted x y"
    "SSL_read ossl n x = (r, bs, err, y) \<Longrightarrow> appends bio emitted x y" "SSL_write ossl n d x = (r, y) \<Longrightarrow> appends bio emitted x y"
    "appends bio emitted x (SSL_shutdown ossl x)" "length (emitted o1) \<le> HALF"
  using assms unfolding output_laws_def by (metis snd_conv)+

lemma emitted_by_bound: "output_laws ossl bio emitted \<Longrightarrow> length (emitted_by emitted t) \<le> HALF"
  using output_lawsD(6) [of ossl bio emitted] by (auto simp: emitted_by_def split: option.split)

text \<open>What an operation keeps: the wire invariant, and an SSL object that exists.\<close>

definition tls_live :: "('b \<Rightarrow> bytes) \<Rightarrow> ('o \<Rightarrow> bytes) \<Rightarrow> ('o, 'b, 'p) tls \<Rightarrow> bool" where
  "tls_live bio emitted t \<longleftrightarrow> wire_inv bio emitted t \<and> ssl (fst t) \<noteq> None"

lemma live_obj: "tls_live bio emitted t \<Longrightarrow> \<exists>x. ssl_obj_of (fst t) = Inr x"
  using wire_inv_obj unfolding tls_live_def by blast

lemma flushEncrypted_live:
  assumes "bio_laws ossl bio" and "output_laws ossl bio emitted" and "tls_live bio emitted t"
  shows "faultless env (\<lambda>t'. tls_live bio emitted t' \<and> handshakeDone (fst t') = handshakeDone (fst t)) (flushEncrypted ossl env now me t)"
  using assms(3) flushEncrypted_wire [OF assms(1), of emitted t env now me] emitted_by_bound [OF assms(2), of t]
  by (auto simp: tls_live_def elim: faultless_mono)

lemma put_live:
  assumes "tls_live bio emitted t" and "ssl_obj_of (fst t) = Inr x" and "appends bio emitted x y"
  shows "tls_live bio emitted (put_obj y (fst t), snd t)"
  using wire_inv_put [OF _ assms(2,3)] assms(1) by (simp add: tls_live_def)

lemma close_live: "tls_live bio emitted t \<Longrightarrow> tls_live bio emitted (fst (tls_close t))"
  using wire_inv_close by (metis tls_live_def)

lemma handleError_live:
  assumes "tls_live bio emitted t"
  obtains t' es where "handleError t = (t', es)" "tls_live bio emitted t'" "set es \<subseteq> {FireInactive}" "closed (fst (snd t'))"
proof -
  have "snd (tls_close t) = [] \<or> snd (tls_close t) = [FireInactive]" by (simp add: tls_close_def split_beta Let_def)
  then show ?thesis using that [of "fst (tls_close t)" "snd (tls_close t)"] close_live [OF assms] wire_inv_close(2) [of bio emitted t] assms
    by (auto simp: handleError_def tls_live_def)
qed

lemma accept_loop_live:
  assumes laws: "bio_laws ossl bio" "output_laws ossl bio emitted"
  shows "tls_live bio emitted t \<Longrightarrow> faultless env (\<lambda>(t', es, stop). tls_live bio emitted t' \<and> set es \<subseteq> {FireInactive} \<and>
     (stop \<longrightarrow> closed (fst (snd t')))) (accept_loop ossl env now me i t)"
proof (induction i arbitrary: t)
  case (Suc i)
  show ?case
  proof (cases "handshakeDone (fst t)")
    case False
    obtain x where x: "ssl_obj_of (fst t) = Inr x" using live_obj [OF Suc.prems] by blast
    obtain r err y where a: "SSL_accept ossl x = (r, err, y)" by (metis surj_pair)
    let ?t = "(put_obj y (fst t), snd t)"
    have live: "tls_live bio emitted ?t" by (rule put_live [OF Suc.prems x output_lawsD(2) [OF laws(2) a]])
    show ?thesis
    proof (cases "r = 1")
      case True
      then show ?thesis using False x a live by (simp add: tls_live_def wire_inv_flags)
    next
      case r: False
      have "faultless env (\<lambda>(t', es, stop). tls_live bio emitted t' \<and> set es \<subseteq> {FireInactive} \<and> (stop \<longrightarrow> closed (fst (snd t'))))
          (rbind (flushEncrypted ossl env now me ?t) (\<lambda>t.
            if err = SSL_ERROR_WANT_READ then Inr (t, [], False)
            else if err \<noteq> SSL_ERROR_WANT_WRITE then (let (t, es) = handleError t in Inr (t, es, True))
            else accept_loop ossl env now me i t))"
      proof (rule faultless_rbind [OF flushEncrypted_live [OF laws live]])
        fix t1
        assume "flushEncrypted ossl env now me ?t = Inr t1"
          and t1: "tls_live bio emitted t1 \<and> handshakeDone (fst t1) = handshakeDone (fst ?t)"
        obtain t2 es where h: "handleError t1 = (t2, es)" "tls_live bio emitted t2" "set es \<subseteq> {FireInactive}" "closed (fst (snd t2))"
          using handleError_live t1 by blast
        show "faultless env (\<lambda>(t', es, stop). tls_live bio emitted t' \<and> set es \<subseteq> {FireInactive} \<and> (stop \<longrightarrow> closed (fst (snd t'))))
          (if err = SSL_ERROR_WANT_READ then Inr (t1, [], False)
            else if err \<noteq> SSL_ERROR_WANT_WRITE then (let (t, es) = handleError t1 in Inr (t, es, True))
            else accept_loop ossl env now me i t1)"
          using t1 h Suc.IH [of t1] by simp
      qed
      then show ?thesis using False x a r by (simp add: Let_def)
    qed
  qed (use Suc.prems in simp)
qed simp

section \<open>Lemmas on the input path\<close>

lemma ensureWritable_capacity:
  assumes "wf_buf b" and "writerIndex b + len \<le> HALF" and "ensureWritable h len b = Inr b'" and "capacity b \<le> n"
    and "65 \<le> n" and "2 * (writerIndex b + len) \<le> n"
  shows "capacity b' \<le> n"
proof (cases "capacity b < writerIndex b + len")
  case True
  from ensureWritable_expands [OF assms(1,2) True, of h] obtain c where
    c: "ensureWritable h len b = expand h c b" "writerIndex b + len \<le> c" "c < SZ" "c < max 65 (2 * (writerIndex b + len))" by blast
  then have "capacity b' = c" using expand_Inr [OF assms(1), of c h b'] assms(3) True by simp
  then show ?thesis using c(4) assms(5,6) by simp
qed (use assms in \<open>simp add: ensureWritable_fits\<close>)

lemma read_lawsD:
  assumes "read_laws ossl plain" and "0 < n" and "SSL_read ossl n x = (ret, bs, err, y)"
  shows "plain x = [] \<Longrightarrow> ret \<le> 0" "plain x \<noteq> [] \<Longrightarrow> ret = int (length bs) \<and> bs \<noteq> [] \<and> int (length bs) \<le> n \<and> plain x = bs @ plain y"
proof -
  have "case SSL_read ossl n x of (ret, bs, err, y) \<Rightarrow> if plain x = [] then ret \<le> 0
        else 0 < ret \<and> ret = int (length bs) \<and> ret \<le> n \<and> plain x = bs @ plain y"
    by (rule assms(1) [unfolded read_laws_def, THEN conjunct1, rule_format, OF assms(2)])
  then show "plain x = [] \<Longrightarrow> ret \<le> 0"
    and "plain x \<noteq> [] \<Longrightarrow> ret = int (length bs) \<and> bs \<noteq> [] \<and> int (length bs) \<le> n \<and> plain x = bs @ plain y"
    by (auto simp: assms(3) split: if_splits)
qed

text \<open>One round of \<open>read_loop\<close>: it ends when there is no plain text left, or appends some to the buffer.\<close>

lemma read_round:
  assumes laws: "read_laws ossl plain" "output_laws ossl bio emitted"
    and b: "wf_buf b" "writerIndex b + length (plain x) \<le> 2 ^ 28" "capacity b \<le> 2 ^ 30"
  obtains "read_loop ossl h x b = Some (Inl BadAlloc)" "\<not> heap_grants h"
  | ret err y b1 n bs where "plain x = []" "0 < n" "SSL_read ossl n x = (ret, bs, err, y)" "ret \<le> 0" "appends bio emitted x y"
      "read_loop ossl h x b = Some (Inr (ret, err, y, b1))" "wf_buf b1" "contents b1 = contents b"
  | y b2 bs where "bs \<noteq> []" "plain x = bs @ plain y" "appends bio emitted x y" "wf_buf b2" "contents b2 = contents b @ bs"
      "writerIndex b2 = writerIndex b + length bs" "capacity b2 \<le> 2 ^ 30" "read_loop ossl h x b = read_loop ossl h y b2"
proof -
  have room: "writerIndex b + 4096 \<le> HALF" using b(2) by simp
  show thesis
  proof (cases "ensureWritable h 4096 b")
    case (Inl e)
    then have "read_loop ossl h x b = Some (Inl e)" by (subst read_loop.simps) simp
    then show thesis using that(1) ensureWritable_Inl [OF b(1) room Inl] ensureWritable_granted [OF b(1) room, of h] Inl by auto
  next
    case (Inr b1)
    note e = ensureWritable_Inr [OF b(1) room Inr]
    have cap: "capacity b1 \<le> 2 ^ 30" using ensureWritable_capacity [OF b(1) room Inr b(3)] b(2) by simp
    have wb: "writableBytes b1 = capacity b1 - writerIndex b1" using e by (simp add: writableBytes_wf)
    then have "writableBytes b1 < 2 ^ 31" using cap by simp
    then have n: "to_int (writableBytes b1) = int (capacity b1 - writerIndex b1)" using to_int_small wb by metis
    have pos: "0 < to_int (writableBytes b1)" using n e by simp
    obtain ret bs err y where rd: "SSL_read ossl (to_int (writableBytes b1)) x = (ret, bs, err, y)" by (metis surj_pair)
    note app = output_lawsD(3) [OF laws(2) rd]
    show thesis
    proof (cases "plain x = []")
      case True
      then have "ret \<le> 0" using read_lawsD(1) [OF laws(1) pos rd] by simp
      moreover from this have "read_loop ossl h x b = Some (Inr (ret, err, y, b1))" using Inr rd by (subst read_loop.simps) simp
      ultimately show thesis using that(2) [OF True pos rd] app e by blast
    next
      case False
      then have r: "ret = int (length bs)" "bs \<noteq> []" "int (length bs) \<le> to_int (writableBytes b1)" "plain x = bs @ plain y"
        using read_lawsD(2) [OF laws(1) pos rd] by blast+
      have "writerIndex b1 + length bs \<le> capacity b1" using r(3) n e by simp
      then obtain b2 where b2: "commit bs (length bs) b1 = Inr b2" "wf_buf b2" "contents b2 = contents b1 @ bs"
          "writerIndex b2 = writerIndex b1 + length bs" "capacity b2 = capacity b1"
        using commit_ok [of b1 bs] e by blast
      have "read_loop ossl h x b = read_loop ossl h y b2" using Inr rd r(1,2) b2(1) by (subst read_loop.simps) simp
      then show thesis using that(3) [OF r(2,4) app b2(2)] b2 e cap by simp
    qed
  qed
qed

text \<open>The loop collects exactly the plain text there is and stops with the answer of the call that found none.\<close>

lemma read_loop_collects:
  assumes laws: "read_laws ossl plain" "output_laws ossl bio emitted"
    and "wf_buf b" and "writerIndex b + length (plain x) \<le> 2 ^ 28" and "capacity b \<le> 2 ^ 30"
  shows "ends h (\<lambda>(ret, err, y, b'). wf_buf b' \<and> contents b' = contents b @ plain x \<and> appends bio emitted x y \<and> ret \<le> 0 \<and>
       (\<exists>z n bs. plain z = [] \<and> 0 < n \<and> appends bio emitted x z \<and> SSL_read ossl n z = (ret, bs, err, y) \<and> (plain x = [] \<longrightarrow> z = x)))
     (read_loop ossl h x b)"
  using assms(3-5)
proof (induction "length (plain x)" arbitrary: x b rule: less_induct)
  case less
  show ?case
  proof (rule read_round [OF laws less.prems, of h])
    fix ret err y b1 n bs
    assume a: "plain x = []" "0 < n" "SSL_read ossl n x = (ret, bs, err, y)" "ret \<le> 0" "appends bio emitted x y"
      "read_loop ossl h x b = Some (Inr (ret, err, y, b1))" "wf_buf b1" "contents b1 = contents b"
    then have "\<exists>z n bs. plain z = [] \<and> 0 < n \<and> appends bio emitted x z \<and> SSL_read ossl n z = (ret, bs, err, y) \<and> (plain x = [] \<longrightarrow> z = x)"
      by (intro exI [of _ x] exI [of _ n] exI [of _ bs]) simp
    with a show ?thesis by simp
  next
    fix y b2 bs
    assume a: "bs \<noteq> []" "plain x = bs @ plain y" "appends bio emitted x y" and b2: "wf_buf b2" "contents b2 = contents b @ bs"
      "writerIndex b2 = writerIndex b + length bs" "capacity b2 \<le> 2 ^ 30" and eq: "read_loop ossl h x b = read_loop ossl h y b2"
    have "length (plain y) < length (plain x)" "writerIndex b2 + length (plain y) \<le> 2 ^ 28" using a(1,2) b2(3) less.prems(2) by simp_all
    from less.hyps [OF this(1) b2(1) this(2) b2(4)] show ?thesis unfolding eq
    proof (rule ends_mono)
      fix r
      assume "case r of (ret, err, w, b') \<Rightarrow> wf_buf b' \<and> contents b' = contents b2 @ plain y \<and> appends bio emitted y w \<and> ret \<le> 0 \<and>
        (\<exists>z n bs. plain z = [] \<and> 0 < n \<and> appends bio emitted y z \<and> SSL_read ossl n z = (ret, bs, err, w) \<and> (plain y = [] \<longrightarrow> z = y))"
      moreover obtain ret err w b' where r: "r = (ret, err, w, b')" by (metis surj_pair)
      ultimately show "case r of (ret, err, y, b') \<Rightarrow> wf_buf b' \<and> contents b' = contents b @ plain x \<and> appends bio emitted x y \<and> ret \<le> 0 \<and>
        (\<exists>z n bs. plain z = [] \<and> 0 < n \<and> appends bio emitted x z \<and> SSL_read ossl n z = (ret, bs, err, y) \<and> (plain x = [] \<longrightarrow> z = x))"
        unfolding r prod.case using a b2(2) appends_trans [OF a(3)] by (metis append_assoc append_is_Nil_conv)
    qed
  qed simp
qed

lemma plain_bound: "read_laws ossl plain \<Longrightarrow> length (plain x) \<le> 2 ^ 28"
  unfolding read_laws_def by blast

lemma fresh_buf [simp]: "writerIndex bb_new = 0" "capacity bb_new = 0"
  by (simp_all add: bb_new_def)

text \<open>The two ends of \<open>read_plain\<close> in one statement: the loop returns with all the plain text.\<close>

lemma read_all:
  assumes "read_laws ossl plain" and "output_laws ossl bio emitted"
  shows "faultless env (\<lambda>(ret, err, y, b). wf_buf b \<and> contents b = plain x \<and> appends bio emitted x y \<and> ret \<le> 0 \<and>
     (\<exists>z n bs. plain z = [] \<and> 0 < n \<and> appends bio emitted x z \<and> SSL_read ossl n z = (ret, bs, err, y) \<and> (plain x = [] \<longrightarrow> z = x)))
     (returned (read_loop ossl (mem env) x bb_new))"
proof -
  have "writerIndex bb_new + length (plain x) \<le> 2 ^ 28" "capacity bb_new \<le> 2 ^ 30" using plain_bound [OF assms(1), of x] by simp_all
  from read_loop_collects [OF assms wf_bb_new this, of "mem env"] show ?thesis by (intro ends_faultless) simp
qed

lemma read_plain_live:
  assumes laws: "bio_laws ossl bio" "output_laws ossl bio emitted" "read_laws ossl plain" and live: "tls_live bio emitted t"
  shows "faultless env (\<lambda>(t', es). tls_live bio emitted t') (read_plain ossl env now me t)"
proof -
  obtain x where x: "ssl_obj_of (fst t) = Inr x" using live_obj [OF live] by blast
  show ?thesis unfolding read_plain_def x rbind_Inr
  proof (rule faultless_rbind [OF read_all [OF laws(3,2)]], clarify, goal_cases)
    case (1 ret err o1 i b plainBuf)
    let ?y = "(o1, i, b)" and ?t = "(put_obj (o1, i, b) (fst t), snd t)"
    have l: "tls_live bio emitted ?t" using put_live [OF live x] 1 by blast
    let ?st = "(put_obj ?y (fst t))\<lparr>sslShutdown := True\<rparr>"
    have obj: "ssl_obj_of ?st = Inr ?y" by (simp add: ssl_obj_of_Inr)
    have "tls_live bio emitted (?st, snd t)" using l by (simp add: tls_live_def wire_inv_flags)
    then have "tls_live bio emitted (put_obj (SSL_shutdown ossl ?y) ?st, snd t)"
      using put_live [of bio emitted "(?st, snd t)" ?y] obj output_lawsD(5) [OF laws(2)] by auto
    note f = flushEncrypted_live [OF laws(1,2) this, of env now me]
    show ?case
    proof (cases "ret = 0")
      case True
      have "faultless env (\<lambda>(t', es). tls_live bio emitted t')
         (rbind (flushEncrypted ossl env now me (put_obj (SSL_shutdown ossl ?y) ?st, snd t)) (\<lambda>t. Inr (tls_close t)))"
        by (rule faultless_rbind [OF f]) (use close_live in \<open>auto simp: split_beta\<close>)
      then show ?thesis using True obj by (simp add: read_end_def Let_def)
    next
      case False
      then show ?thesis using l close_live [OF l] by (auto simp: read_end_def handleError_def split_beta)
    qed
  qed
qed

text \<open>\<open>read_plain\<close> announces plain text only on an established session.\<close>

lemma read_plain_fires:
  assumes "read_plain ossl env now me t = Inr (t', es)" and "FireRead m \<in> set es"
  shows "handshakeDone (fst t') = handshakeDone (fst t)"
proof -
  obtain x where x: "ssl_obj_of (fst t) = Inr x" using assms(1) by (auto simp: read_plain_def)
  obtain ret err y b where r: "returned (read_loop ossl (mem env) x bb_new) = Inr (ret, err, y, b)"
    using assms(1) x by (auto simp: read_plain_def)
  have no: "FireRead m \<notin> set (snd (tls_close u))" for u :: "('a, 'b, 'c) tls" by (cases u) (simp add: tls_close_def)
  show ?thesis
  proof (cases "ret = 0")
    case True
    then have "\<exists>u. tls_close u = (t', es)" using assms(1) x r by (auto simp: read_plain_def read_end_def Let_def)
    then show ?thesis using no assms(2) by (metis snd_conv)
  next
    case False
    then show ?thesis using assms x r no [of "(put_obj y (fst t), snd t)"]
      by (auto simp: read_plain_def read_end_def handleError_def split: if_splits)
  qed
qed

lemma tls_setup_ok:
  assumes "bio_laws ossl bio" and "output_laws ossl bio emitted" and "wire_inv bio emitted t" and "tls_setup ossl (fst t) = (st, ok)"
  shows "wire_inv bio emitted (st, snd t)" and "ok \<Longrightarrow> tls_live bio emitted (st, snd t)" and "handshakeDone st = handshakeDone (fst t)"
proof -
  obtain st0 c p k where t: "t = (st0, c, p, k)" by (metis surj_pair)
  have "wire_inv bio emitted (st, snd t) \<and> (ok \<longrightarrow> ssl st \<noteq> None) \<and> handshakeDone st = handshakeDone st0"
  proof (cases "ssl st0")
    case None
    then have "out_inv [] c" using assms(3) by (simp add: t wire_inv_def)
    moreover have "ssl st = Some x \<Longrightarrow> emitted x = [] \<and> inBio st \<noteq> None \<and> (\<exists>b. outBio st = Some b \<and> bio b = [])" for x
      using assms(1,4) None output_lawsD(1) [OF assms(2)] by (auto simp: t tls_setup_def Let_def bio_laws_def split: if_splits)
    ultimately have "wire_inv bio emitted (st, snd t)" by (auto simp: wire_inv_def t split: option.split)
    then show ?thesis using assms(4) None by (auto simp: t tls_setup_def Let_def split: if_splits)
  next
    case (Some x)
    then show ?thesis using assms(3,4) by (simp add: t tls_setup_def)
  qed
  then show "wire_inv bio emitted (st, snd t)" "ok \<Longrightarrow> tls_live bio emitted (st, snd t)" "handshakeDone st = handshakeDone (fst t)"
    by (simp_all add: t tls_live_def)
qed

text \<open>The messages that the connection hands to the handler are well-formed buffers.\<close>

definition wf_msg :: "tls_msg \<Rightarrow> bool" where
  "wf_msg m = (case m of BufMsg b \<Rightarrow> wf_buf b | _ \<Rightarrow> True)"

text \<open>After the input has been fed to the BIO.\<close>

definition fed :: "('o, 'b) openssl \<Rightarrow> bytebuf \<Rightarrow> ('o, 'b) ssl_obj \<Rightarrow> ('o, 'b) ssl_obj" where
  "fed ossl enc x = (fst x, BIO_write ossl (to_int (readableBytes enc)) (contents enc) (fst (snd x)), snd (snd x))"

lemma fed_appends [simp]: "appends bio emitted x (fed ossl enc x)"
  by (simp add: appends_def fed_def)

text \<open>\<open>tls_channelRead\<close> once the objects exist.\<close>

lemma tls_channelRead_eq:
  assumes "wf_buf enc" and "readableBytes enc \<noteq> 0" and "tls_setup ossl (fst t) = (st, True)" and "ssl_obj_of st = Inr x"
  shows "tls_channelRead ossl env now me (BufMsg enc) t =
    (let t = (put_obj (fed ossl enc x) st, snd t) in
     if handshakeDone (fst t) then read_plain ossl env now me t
     else rbind (accept_loop ossl env now me 16 t) (\<lambda>(t, es, stop).
       if stop then Inr (t, es)
       else if \<not> handshakeDone (fst t) then rbind (flushEncrypted ossl env now me t) (\<lambda>t. Inr (t, []))
       else read_plain ossl env now me t))"
proof -
  obtain o1 i b where x: "x = (o1, i, b)" by (metis surj_pair)
  show ?thesis using assms mem_read_all [OF assms(1)] by (simp add: tls_channelRead_def x fed_def Let_def)
qed

text \<open>The invariant of the handler: the wire invariant, and a session exists once it is established.\<close>

definition tls_inv :: "('b \<Rightarrow> bytes) \<Rightarrow> ('o \<Rightarrow> bytes) \<Rightarrow> ('o, 'b, 'p) tls \<Rightarrow> bool" where
  "tls_inv bio emitted t \<longleftrightarrow> wire_inv bio emitted t \<and> (handshakeDone (fst t) \<longrightarrow> ssl (fst t) \<noteq> None)"

lemma live_inv: "tls_live bio emitted t \<Longrightarrow> tls_inv bio emitted t"
  by (simp add: tls_live_def tls_inv_def)

lemma tls_channelRead_wire:
  assumes laws: "bio_laws ossl bio" "output_laws ossl bio emitted" "read_laws ossl plain"
    and inv: "tls_inv bio emitted t" and msg: "wf_msg msg"
  shows "faultless env (\<lambda>(t', es). tls_inv bio emitted t' \<and>
     (case msg of BufMsg enc \<Rightarrow> \<forall>m. readableBytes enc \<noteq> 0 \<and> FireRead m \<in> set es \<longrightarrow> handshakeDone (fst t') | _ \<Rightarrow> True))
     (tls_channelRead ossl env now me msg t)"
proof (cases "\<exists>enc. msg = BufMsg enc \<and> readableBytes enc \<noteq> 0")
  case False
  then show ?thesis using inv by (auto simp: tls_channelRead_def split: tls_msg.split)
next
  case True
  then obtain enc where enc: "msg = BufMsg enc" "readableBytes enc \<noteq> 0" "wf_buf enc" using msg by (auto simp: wf_msg_def)
  obtain st ok where su: "tls_setup ossl (fst t) = (st, ok)" by (metis surj_pair)
  have inv': "wire_inv bio emitted t" using inv by (simp add: tls_inv_def)
  note ok = tls_setup_ok [OF laws(1,2) inv' su]
  have no: "FireRead m \<notin> set (snd (handleError u))" for m and u :: "('a, 'b, 'c) tls" by (cases u) (simp add: handleError_def tls_close_def)
  show ?thesis
  proof (cases ok)
    case False
    have "ssl (fst t) = None" using su False by (auto simp: tls_setup_def split: if_splits)
    then have "tls_inv bio emitted (fst (tls_close (st, snd t)))"
      using inv ok(3) wire_inv_close [OF ok(1)] by (simp add: tls_inv_def)
    then show ?thesis using enc su False no [of _ "(st, snd t)"]
      by (auto simp: tls_channelRead_def handleError_def split_beta)
  next
    case True
    obtain x where x: "ssl_obj_of st = Inr x" using live_obj [OF ok(2) [OF True]] by auto
    let ?t = "(put_obj (fed ossl enc x) st, snd t)"
    let ?Q = "\<lambda>(t', es). tls_inv bio emitted t' \<and> (\<forall>m. FireRead m \<in> set es \<longrightarrow> handshakeDone (fst t'))"
    have live: "tls_live bio emitted ?t" using put_live [OF ok(2) [OF True], of x "fed ossl enc x"] x by simp
    have plain: "faultless env ?Q (read_plain ossl env now me u)" if "tls_live bio emitted u" "handshakeDone (fst u)" for u :: "('a, 'b, 'c) tls"
      using read_plain_live [OF laws that(1), of env now me] that(2)
      by (elim faultless_mono) (auto simp: live_inv dest: read_plain_fires)
    have "faultless env ?Q (rbind (accept_loop ossl env now me 16 ?t) (\<lambda>(t, es, stop).
       if stop then Inr (t, es)
       else if \<not> handshakeDone (fst t) then rbind (flushEncrypted ossl env now me t) (\<lambda>t. Inr (t, []))
       else read_plain ossl env now me t))"
    proof (rule faultless_rbind [OF accept_loop_live [OF laws(1,2) live]])
      fix r
      assume "accept_loop ossl env now me 16 ?t = Inr r"
        and "case r of (t', es, stop) \<Rightarrow> tls_live bio emitted t' \<and> set es \<subseteq> {FireInactive} \<and> (stop \<longrightarrow> closed (fst (snd t')))"
      then obtain u es stop where r: "r = (u, es, stop)" and u: "tls_live bio emitted u" and es: "set es \<subseteq> {FireInactive}"
        by (cases r) auto
      have "faultless env ?Q (rbind (flushEncrypted ossl env now me u) (\<lambda>t. Inr (t, [])))"
        by (rule faultless_rbind [OF flushEncrypted_live [OF laws(1,2) u]]) (auto simp: live_inv)
      then show "faultless env ?Q (case r of (t, es, stop) \<Rightarrow>
         if stop then Inr (t, es)
         else if \<not> handshakeDone (fst t) then rbind (flushEncrypted ossl env now me t) (\<lambda>t. Inr (t, []))
         else read_plain ossl env now me t)"
        using live_inv [OF u] es plain [OF u] by (auto simp: r)
    qed
    then show ?thesis using plain [OF live] enc
      unfolding enc(1) tls_channelRead_eq [OF enc(3,2) su [unfolded True [THEN eqTrueI]] x] by (auto simp: Let_def split_beta elim!: faultless_mono)
  qed
qed

lemma tls_write_wire:
  assumes laws: "bio_laws ossl bio" "output_laws ossl bio emitted"
    and inv: "tls_inv bio emitted t" and msg: "wf_msg msg"
  shows "faultless env (\<lambda>(t', es). tls_inv bio emitted t') (tls_write ossl env now me msg t)"
proof (cases "\<exists>b. msg = BufMsg b \<and> handshakeDone (fst t)")
  case False
  then show ?thesis using inv by (auto simp: tls_write_def split: tls_msg.split)
next
  case True
  then obtain b where b: "msg = BufMsg b" "wf_buf b" "handshakeDone (fst t)" using msg by (auto simp: wf_msg_def)
  have live: "tls_live bio emitted t" using inv b(3) by (simp add: tls_live_def tls_inv_def)
  obtain x where x: "ssl_obj_of (fst t) = Inr x" using live_obj [OF live] by blast
  obtain ret y where w: "SSL_write ossl (to_int (readableBytes b)) (contents b) x = (ret, y)" by (metis surj_pair)
  let ?t = "(put_obj y (fst t), snd t)"
  have l: "tls_live bio emitted ?t" by (rule put_live [OF live x output_lawsD(4) [OF laws(2) w]])
  have eq: "tls_write ossl env now me msg t =
      (if ret > 0 then rbind (flushEncrypted ossl env now me ?t) (\<lambda>t. Inr (t, [])) else Inr (handleError ?t))"
    using b x w mem_read_all [OF b(2)] by (simp add: tls_write_def)
  obtain t2 es where h: "handleError ?t = (t2, es)" "tls_live bio emitted t2" using handleError_live [OF l] by blast
  have "faultless env (\<lambda>(t', es). tls_inv bio emitted t')
      (rbind (flushEncrypted ossl env now me ?t) (\<lambda>t. Inr (t, [])))"
    by (rule faultless_rbind [OF flushEncrypted_live [OF laws l]]) (auto simp: live_inv)
  then show ?thesis unfolding eq using h by (auto simp: live_inv)
qed

section \<open>Sequences of events\<close>

datatype tls_event = TlsRead nat tls_msg | TlsWrite nat tls_msg | SockWritable nat | SockFlush nat | SockPending

fun tls_step :: "('o, 'b) openssl \<Rightarrow> 'p env \<Rightarrow> nat \<Rightarrow> tls_event \<Rightarrow> ('o, 'b, 'p) tls \<Rightarrow> ('o, 'b, 'p) tls res" where
  "tls_step ossl env me (TlsRead now msg) t = rbind (tls_channelRead ossl env now me msg t) (\<lambda>(t, es). Inr t)"
| "tls_step ossl env me (TlsWrite now msg) t = rbind (tls_write ossl env now me msg t) (\<lambda>(t, es). Inr t)"
| "tls_step ossl env me (SockWritable now) t = rbind (onWrite env now me (snd t)) (\<lambda>s. Inr (fst t, s))"
| "tls_step ossl env me (SockFlush now) t = rbind (flushWriteBuf env now me (snd t)) (\<lambda>s. Inr (fst t, s))"
| "tls_step ossl env me SockPending t = rbind (flush_one env me (snd t)) (\<lambda>s. Inr (fst t, s))"

fun tls_run :: "('o, 'b) openssl \<Rightarrow> 'p env \<Rightarrow> nat \<Rightarrow> tls_event list \<Rightarrow> ('o, 'b, 'p) tls \<Rightarrow> ('o, 'b, 'p) tls res" where
  "tls_run ossl env me [] t = Inr t"
| "tls_run ossl env me (e # es) t = rbind (tls_step ossl env me e t) (tls_run ossl env me es)"

fun wf_event :: "tls_event \<Rightarrow> bool" where
  "wf_event (TlsRead now msg) = wf_msg msg"
| "wf_event (TlsWrite now msg) = wf_msg msg"
| "wf_event _ = True"

lemma wire_inv_socket:
  assumes "wire_inv bio emitted t" and "\<And>tot c p k. out_inv tot c \<Longrightarrow> \<exists>c' p' k'. f (c, p, k) = Inr (c', p', k') \<and> out_inv tot c'"
  shows "\<exists>s. f (snd t) = Inr s \<and> wire_inv bio emitted (fst t, s)"
proof -
  obtain st c p k where t: "t = (st, c, p, k)" by (metis surj_pair)
  obtain tot where tot: "out_inv tot c" "case ssl st of None \<Rightarrow> tot = []
        | Some x \<Rightarrow> inBio st \<noteq> None \<and> (\<exists>b. outBio st = Some b \<and> tot @ bio b = emitted x)" using assms(1) by (auto simp: wire_inv_def t)
  obtain c' p' k' where "f (c, p, k) = Inr (c', p', k')" "out_inv tot c'" using assms(2) [OF tot(1), of p k] by blast
  then show ?thesis using tot(2) by (auto simp: wire_inv_def t)
qed

lemma tls_step_inv:
  assumes laws: "bio_laws ossl bio" "output_laws ossl bio emitted" "read_laws ossl plain"
    and inv: "tls_inv bio emitted t" and "wf_event e"
  shows "faultless env (tls_inv bio emitted) (tls_step ossl env me e t)"
proof -
  have wire: "wire_inv bio emitted t" and hs: "handshakeDone (fst t) \<Longrightarrow> ssl (fst t) \<noteq> None" using inv by (simp_all add: tls_inv_def)
  show ?thesis
  proof (cases e)
    case (TlsRead now msg)
    then show ?thesis using tls_channelRead_wire [OF laws inv, of msg env now me] assms(5)
      by (auto elim!: faultless_rbind)
  next
    case (TlsWrite now msg)
    then show ?thesis using tls_write_wire [OF laws(1,2) inv, of msg env now me] assms(5)
      by (auto elim!: faultless_rbind)
  next
    case (SockWritable now)
    have "\<exists>s. onWrite env now me (snd t) = Inr s \<and> wire_inv bio emitted (fst t, s)"
      by (rule wire_inv_socket [OF wire]) (rule onWrite_inv)
    then show ?thesis using SockWritable hs by (auto simp: tls_inv_def)
  next
    case (SockFlush now)
    have "\<exists>s. flushWriteBuf env now me (snd t) = Inr s \<and> wire_inv bio emitted (fst t, s)"
      by (rule wire_inv_socket [OF wire]) (rule flushWriteBuf_inv [OF out_invD(1-3)])
    then show ?thesis using SockFlush hs by (auto simp: tls_inv_def)
  next
    case SockPending
    have "\<exists>s. flush_one env me (snd t) = Inr s \<and> wire_inv bio emitted (fst t, s)"
      by (rule wire_inv_socket [OF wire]) (rule flush_one_inv)
    then show ?thesis using SockPending hs by (auto simp: tls_inv_def)
  qed
qed

lemma tls_run_inv:
  assumes "bio_laws ossl bio" "output_laws ossl bio emitted" "read_laws ossl plain"
  shows "tls_inv bio emitted t \<Longrightarrow> \<forall>e \<in> set es. wf_event e \<Longrightarrow> faultless env (tls_inv bio emitted) (tls_run ossl env me es t)"
  by (induction es arbitrary: t) (auto intro!: faultless_rbind [OF tls_step_inv [OF assms]])

section \<open>Properties\<close>

text \<open>C17. The encrypted stream reaches the socket intact: after any sequence of messages read, messages written and
  socket events on a new connection, whatever OpenSSL and the socket answer, the bytes the socket accepted,
  the write buffer and the output BIO, one after the other, are exactly what OpenSSL has emitted for the
  connection. Nothing is lost, sent twice or reordered, and every event returns; the only fault is a
  refused allocation.\<close>

theorem tls_stream_intact:
  assumes "bio_laws ossl bio" and "output_laws ossl bio emitted" and "read_laws ossl plain" and "\<forall>e \<in> set es. wf_event e"
  shows "faultless env (\<lambda>(st, c, p, k). case ssl st of
       None \<Rightarrow> sent c @ contents (writeBuf c) = []
     | Some x \<Rightarrow> \<exists>b. outBio st = Some b \<and> sent c @ contents (writeBuf c) @ bio b = emitted x)
     (tls_run ossl env me es (ssl_state_new, conn_new\<lparr>c_channel := ch\<rparr>, p0, k0))"
proof -
  have "out_inv [] (conn_new\<lparr>c_channel := ch\<rparr>)" by (simp add: out_inv_def conn_new_def bb_new_def wf_buf_def contents_def)
  then have "tls_inv bio emitted (ssl_state_new, conn_new\<lparr>c_channel := ch\<rparr>, p0, k0)"
    by (simp add: tls_inv_def wire_inv_def ssl_state_new_def)
  from tls_run_inv [OF assms(1-3) this assms(4), of env me] show ?thesis
    by (elim faultless_mono) (auto simp: tls_inv_def wire_inv_def out_inv_def split: option.splits simp flip: append_assoc)
qed

text \<open>The read loop of \<open>read_plain\<close>, with what the last call of \<open>SSL_read\<close> answered.\<close>

lemma read_plain_cases:
  assumes laws: "bio_laws ossl bio" "output_laws ossl bio emitted" "read_laws ossl plain" and live: "tls_live bio emitted t"
    and x: "ssl_obj_of (fst t) = Inr x"
    and stop: "\<And>z n. plain z = [] \<Longrightarrow> 0 < n \<Longrightarrow> appends bio emitted x z \<Longrightarrow> (plain x = [] \<Longrightarrow> z = x) \<Longrightarrow> \<exists>bs y. SSL_read ossl n z = (ret, bs, err, y)"
    and P: "\<And>y b. appends bio emitted x y \<Longrightarrow> wf_buf b \<Longrightarrow> contents b = plain x \<Longrightarrow>
       faultless env P (read_end ossl env now me ret err b (put_obj y (fst t), snd t))"
  shows "faultless env P (read_plain ossl env now me t)"
  unfolding read_plain_def x rbind_Inr
proof (rule faultless_rbind [OF read_all [OF laws(3,2)]])
  fix r
  assume "returned (read_loop ossl (mem env) x bb_new) = Inr r"
  obtain ret' err' y b where r: "r = (ret', err', y, b)" by (metis surj_pair)
  assume "case r of (ret, err, y, b) \<Rightarrow> wf_buf b \<and> contents b = plain x \<and> appends bio emitted x y \<and> ret \<le> 0 \<and>
     (\<exists>z n bs. plain z = [] \<and> 0 < n \<and> appends bio emitted x z \<and> SSL_read ossl n z = (ret, bs, err, y) \<and> (plain x = [] \<longrightarrow> z = x))"
  note res = this [unfolded r prod.case]
  obtain z n bs where z: "plain z = []" "0 < n" "appends bio emitted x z" "SSL_read ossl n z = (ret', bs, err', y)" "plain x = [] \<Longrightarrow> z = x"
    using res by blast
  obtain bs' y' where "SSL_read ossl n z = (ret, bs', err, y')" using stop [OF z(1-3,5)] by blast
  then have "ret' = ret" "err' = err" using z(4) by simp_all
  then show "faultless env P (case r of (ret, err, x, plainBuf) \<Rightarrow> read_end ossl env now me ret err plainBuf (put_obj x (fst t), snd t))"
    unfolding r prod.case using P res by blast
qed

lemma established_read:
  assumes "tls_inv bio emitted t" and "handshakeDone (fst t)" and "wf_buf enc" and "readableBytes enc \<noteq> 0" and "ssl_obj_of (fst t) = Inr x"
  shows "tls_channelRead ossl env now me (BufMsg enc) t = read_plain ossl env now me (put_obj (fed ossl enc x) (fst t), snd t)"
    and "tls_live bio emitted (put_obj (fed ossl enc x) (fst t), snd t)"
proof -
  have "ssl (fst t) \<noteq> None" using assms(1,2) by (simp add: tls_inv_def)
  then have "tls_setup ossl (fst t) = (fst t, True)" by (simp add: tls_setup_def)
  then show "tls_channelRead ossl env now me (BufMsg enc) t = read_plain ossl env now me (put_obj (fed ossl enc x) (fst t), snd t)"
    using tls_channelRead_eq [OF assms(3,4) _ assms(5)] assms(2) by (simp add: Let_def)
  have "tls_live bio emitted t" using assms(1) \<open>ssl (fst t) \<noteq> None\<close> by (simp add: tls_live_def tls_inv_def)
  then show "tls_live bio emitted (put_obj (fed ossl enc x) (fst t), snd t)" using put_live [OF _ assms(5) fed_appends] by blast
qed

lemma established_delivers:
  assumes "bio_laws ossl bio" and "output_laws ossl bio emitted" and "read_laws ossl plain" and "tls_inv bio emitted t"
    and "handshakeDone (fst t)" and "wf_buf enc" and "readableBytes enc \<noteq> 0" and "ssl_obj_of (fst t) = Inr x"
    and "\<forall>z n. plain z = [] \<and> 0 < n \<and> appends bio emitted (fed ossl enc x) z \<longrightarrow> (\<exists>bs y. SSL_read ossl n z = (-1, bs, SSL_ERROR_WANT_READ, y))"
  shows "faultless env (\<lambda>(t', es). snd t' = snd t \<and> handshakeDone (fst t') \<and>
     (if plain (fed ossl enc x) = [] then es = [] else \<exists>b. es = [FireRead (BufMsg b)] \<and> wf_buf b \<and> contents b = plain (fed ossl enc x)))
     (tls_channelRead ossl env now me (BufMsg enc) t)"
proof -
  note e = established_read [OF assms(4-8)]
  show ?thesis unfolding e(1)
  proof (rule read_plain_cases [OF assms(1-3) e(2)])
    show "ssl_obj_of (fst (put_obj (fed ossl enc x) (fst t), snd t)) = Inr (fed ossl enc x)" by simp
  next
    fix z and n :: int
    assume "plain z = []" "0 < n" "appends bio emitted (fed ossl enc x) z"
    then show "\<exists>bs y. SSL_read ossl n z = (-1, bs, SSL_ERROR_WANT_READ, y)" using assms(9) by blast
  qed (use assms(5) in \<open>simp add: read_end_def readable_eq_length\<close>)
qed

text \<open>Every decrypted byte is delivered, once: on an established session, as long as the peer has not closed
  it, a message from the socket makes the handler pass on one buffer that holds exactly the plain text
  OpenSSL has for it, or nothing when there is none, and leaves the connection as it is.\<close>

theorem tls_plaintext_delivered:
  assumes "bio_laws ossl bio" and "output_laws ossl bio emitted" and "read_laws ossl plain" and "tls_inv bio emitted t"
    and "handshakeDone (fst t)" and "wf_buf enc" and "readableBytes enc \<noteq> 0" and "ssl_obj_of (fst t) = Inr x"
    and "\<forall>z n. plain z = [] \<and> 0 < n \<and> appends bio emitted (fed ossl enc x) z \<longrightarrow> (\<exists>bs y. SSL_read ossl n z = (-1, bs, SSL_ERROR_WANT_READ, y))"
  shows "faultless env (\<lambda>(t', es). snd t' = snd t \<and> handshakeDone (fst t') \<and>
     (if plain (fed ossl enc x) = [] then es = [] else \<exists>b. es = [FireRead (BufMsg b)] \<and> wf_buf b \<and> contents b = plain (fed ossl enc x)))
     (tls_channelRead ossl env now me (BufMsg enc) t)"
  by (rule established_delivers [OF assms])

text \<open>The plain text that arrives together with the end of the session is lost: when the peer's data is
  followed by its \<open>close_notify\<close>, the handler closes the connection and passes nothing on, however much plain
  text it has already decrypted.\<close>

theorem tls_close_loses_plaintext:
  assumes "bio_laws ossl bio" and "output_laws ossl bio emitted" and "read_laws ossl plain" and "tls_inv bio emitted t"
    and "handshakeDone (fst t)" and "wf_buf enc" and "readableBytes enc \<noteq> 0" and "ssl_obj_of (fst t) = Inr x"
    and "\<forall>z n. plain z = [] \<and> 0 < n \<and> appends bio emitted (fed ossl enc x) z \<longrightarrow> (\<exists>bs y. SSL_read ossl n z = (0, bs, SSL_ERROR_ZERO_RETURN, y))"
  shows "faultless env (\<lambda>(t', es). closed (fst (snd t')) \<and> (\<forall>m. FireRead m \<notin> set es)) (tls_channelRead ossl env now me (BufMsg enc) t)"
proof -
  note e = established_read [OF assms(4-8)]
  show ?thesis unfolding e(1)
  proof (rule read_plain_cases [OF assms(1-3) e(2)])
    show "ssl_obj_of (fst (put_obj (fed ossl enc x) (fst t), snd t)) = Inr (fed ossl enc x)" by simp
  next
    fix z and n :: int
    assume "plain z = []" "0 < n" "appends bio emitted (fed ossl enc x) z"
    then show "\<exists>bs y. SSL_read ossl n z = (0, bs, SSL_ERROR_ZERO_RETURN, y)" using assms(9) by blast
  next
    fix y b
    assume y: "appends bio emitted (fed ossl enc x) y"
    let ?st = "(put_obj y (put_obj (fed ossl enc x) (fst t)))\<lparr>sslShutdown := True\<rparr>"
    have obj: "ssl_obj_of ?st = Inr y" by (cases y) (simp add: ssl_obj_of_Inr)
    have "tls_live bio emitted (?st, snd t)" using put_live [OF e(2) _ y] by (simp add: tls_live_def wire_inv_flags)
    then have "tls_live bio emitted (put_obj (SSL_shutdown ossl y) ?st, snd t)"
      using put_live [of bio emitted "(?st, snd t)" y] obj output_lawsD(5) [OF assms(2)] by auto
    note f = flushEncrypted_live [OF assms(1,2) this, of env now me]
    have "faultless env (\<lambda>(t', es). closed (fst (snd t')) \<and> (\<forall>m. FireRead m \<notin> set es))
        (rbind (flushEncrypted ossl env now me (put_obj (SSL_shutdown ossl y) ?st, snd t)) (\<lambda>t. Inr (tls_close t)))"
      by (rule faultless_rbind [OF f]) (auto simp: tls_close_def split: if_splits)
    then show "faultless env (\<lambda>(t', es). closed (fst (snd t')) \<and> (\<forall>m. FireRead m \<notin> set es))
        (read_end ossl env now me 0 SSL_ERROR_ZERO_RETURN b (put_obj y (fst (put_obj (fed ossl enc x) (fst t), snd t)), snd (put_obj (fed ossl enc x) (fst t), snd t)))"
      using obj by (simp add: read_end_def Let_def)
  qed
qed

text \<open>C36. The last flight of the handshake is not sent: when \<open>SSL_accept\<close> completes the handshake, what it has put into
  the output BIO (in TLS 1.2 the server's Finished message, for which the client waits before it sends
  anything) stays there. The connection is left as it was, nothing is written and nothing is flushed.\<close>

theorem tls_last_flight_not_flushed:
  assumes "bio_laws ossl bio" and "output_laws ossl bio emitted" and "read_laws ossl plain" and "tls_inv bio emitted t"
    and "\<not> handshakeDone (fst t)" and "wf_buf enc" and "readableBytes enc \<noteq> 0"
    and "tls_setup ossl (fst t) = (st, True)" and "ssl_obj_of st = Inr x" and "SSL_accept ossl (fed ossl enc x) = (1, err, y)"
    and "plain y = []" and "\<forall>n > 0. \<exists>bs z. SSL_read ossl n y = (-1, bs, SSL_ERROR_WANT_READ, z)"
  shows "faultless env (\<lambda>(t', es). es = [] \<and> snd t' = snd t \<and> handshakeDone (fst t') \<and>
     (\<exists>b rest. outBio (fst t') = Some b \<and> bio b = bio (snd (snd y)) @ rest)) (tls_channelRead ossl env now me (BufMsg enc) t)"
proof -
  have wire: "wire_inv bio emitted t" using assms(4) by (simp add: tls_inv_def)
  note su = tls_setup_ok [OF assms(1,2) wire assms(8)]
  let ?t = "(put_obj (fed ossl enc x) st, snd t)" and ?st = "(put_obj y (put_obj (fed ossl enc x) st))\<lparr>handshakeDone := True\<rparr>"
  have "tls_live bio emitted ?t" using put_live [OF su(2), of x "fed ossl enc x"] assms(9) by simp
  then have "tls_live bio emitted (put_obj y (put_obj (fed ossl enc x) st), snd t)"
    using put_live [OF _ _ output_lawsD(2) [OF assms(2,10)], of ?t] by simp
  then have live: "tls_live bio emitted (?st, snd t)" by (simp add: tls_live_def wire_inv_flags)
  have "accept_loop ossl env now me 16 ?t = Inr ((?st, snd t), [], False)"
    using assms(5,10) su(3) accept_loop.simps(2) [of ossl env now me 15 ?t] by (simp add: Let_def numeral_eq_Suc)
  then have eq: "tls_channelRead ossl env now me (BufMsg enc) t = read_plain ossl env now me (?st, snd t)"
    using tls_channelRead_eq [OF assms(6-9)] assms(5) su(3) by (simp add: Let_def)
  show ?thesis unfolding eq
  proof (rule read_plain_cases [OF assms(1-3) live])
    show "ssl_obj_of (fst (?st, snd t)) = Inr y" by (cases y) (simp add: ssl_obj_of_Inr)
  next
    fix z and n :: int
    assume "0 < n" "plain y = [] \<Longrightarrow> z = y"
    then show "\<exists>bs w. SSL_read ossl n z = (-1, bs, SSL_ERROR_WANT_READ, w)" using assms(11,12) by blast
  qed (use assms(11) in \<open>auto simp: read_end_def readable_eq_length appends_def\<close>)
qed


text \<open>Creating a handler leaks nothing: on every path, for certificates given as text or as files, each object is
  released at most once and only after it was created; a factory method that succeeds leaves exactly the
  context, one that fails leaves nothing.\<close>

fun track :: "res_effect list \<Rightarrow> ssl_res set \<Rightarrow> ssl_res set option" where
  "track [] s = Some s"
| "track (Acquire r # es) s = (if r \<in> s then None else track es (insert r s))"
| "track (Release r # es) s = (if r \<in> s then track es (s - {r}) else None)"

theorem tls_factory_leaks_nothing:
  "track (snd (forServer k isPath)) {} = Some (if fst (forServer k isPath) then {ResCtx} else {})"
  by (auto simp: forServer_def initCtx_def Let_def)

section \<open>The handler and the context store\<close>

datatype ('ty, 'v) ctx_tls_event = HandlerEvent tls_event | OtherKey "('ty, 'v) ctx_op"

fun off_key :: "('ty, 'v) ctx_op \<Rightarrow> bool" where
  "off_key (OpSet t k v) = (k \<noteq> kSslKey)"
| "off_key (OpState t k v) = (k \<noteq> kSslKey)"
| "off_key (OpAssign t k v) = (k \<noteq> kSslKey)"
| "off_key (OpRemove k) = (k \<noteq> kSslKey)"
| "off_key OpClear = False"

fun ctx_tls_step :: "'ty \<Rightarrow> ('o, 'b) openssl \<Rightarrow> 'p env \<Rightarrow> nat \<Rightarrow> ('ty, ('o, 'b) ssl_state + 'w) ctx_tls_event \<Rightarrow>
    ('ty, ('o, 'b) ssl_state + 'w) ctx_store \<times> 'p cio \<Rightarrow> (('ty, ('o, 'b) ssl_state + 'w) ctx_store \<times> 'p cio) res" where
  "ctx_tls_step ty ossl env me (HandlerEvent e) s = with_state ty (tls_step ossl env me e) s"
| "ctx_tls_step ty ossl env me (OtherKey c) s = rbind (ctx_do c (fst s)) (\<lambda>st. Inr (st, snd s))"

fun ctx_tls_run :: "'ty \<Rightarrow> ('o, 'b) openssl \<Rightarrow> 'p env \<Rightarrow> nat \<Rightarrow> ('ty, ('o, 'b) ssl_state + 'w) ctx_tls_event list \<Rightarrow>
    ('ty, ('o, 'b) ssl_state + 'w) ctx_store \<times> 'p cio \<Rightarrow> (('ty, ('o, 'b) ssl_state + 'w) ctx_store \<times> 'p cio) res" where
  "ctx_tls_run ty ossl env me [] s = Inr s"
| "ctx_tls_run ty ossl env me (e # es) s = rbind (ctx_tls_step ty ossl env me e s) (ctx_tls_run ty ossl env me es)"

fun handler_events :: "('ty, 'v) ctx_tls_event list \<Rightarrow> tls_event list" where
  "handler_events [] = []"
| "handler_events (HandlerEvent e # es) = e # handler_events es"
| "handler_events (OtherKey c # es) = handler_events es"

lemma stored_state_upd [simp]: "stored_state ty key init (m(key \<mapsto> (ty, v))) = v"
  by (simp add: stored_state_def)

lemma with_state_refines:
  assumes "store_ok s" and "stored_state ty kSslKey (Inl ssl_state_new) (typed_view s) = Inl st"
  shows "case f (st, c) of
     Inl e \<Rightarrow> with_state ty f (s, c) = Inl e
   | Inr (st', c') \<Rightarrow> \<exists>s'. with_state ty f (s, c) = Inr (s', c') \<and> store_ok s' \<and> stored_state ty kSslKey (Inl ssl_state_new) (typed_view s') = Inl st'"
proof -
  have "with_state ty f (s, c) = on_state ty kSslKey (Inl ssl_state_new) (\<lambda>v. case v of
        Inl st \<Rightarrow> rbind (f (st, c)) (\<lambda>(st, c). Inr (Inl st, c))
      | Inr w \<Rightarrow> Inl UndefinedBehaviour) s" by (simp only: with_state_def fst_conv snd_conv)
  then show ?thesis using on_state_refines [OF assms(1), where f = "\<lambda>v. case v of
        Inl st \<Rightarrow> rbind (f (st, c)) (\<lambda>(st, c). Inr (Inl st, c))
      | Inr w \<Rightarrow> Inl UndefinedBehaviour" and ty = ty and key = kSslKey and init = "Inl ssl_state_new"]
    by (cases "f (st, c)") (auto simp: assms(2))
qed

lemma other_key_keeps:
  assumes "store_ok s" and "off_key c"
  shows "\<exists>s'. ctx_do c s = Inr s' \<and> store_ok s' \<and> stored_state ty kSslKey v (typed_view s') = stored_state ty kSslKey v (typed_view s)"
  using ctx_do_refines [OF assms(1), of c] assms(2) by (cases c) (auto simp: stored_state_def)


section \<open>Witnesses\<close>

text \<open>
  A small OpenSSL. The first byte of the input completes the handshake and emits a byte; the rest of the input
  is the plain text, up to 100 bytes at a time; one message can be written, which emits one byte. \<open>fin\<close> is
  what \<open>SSL_read\<close> answers when there is no plain text.
\<close>

definition demo_ssl :: "int \<times> ssl_error \<Rightarrow> (nat, bytes) openssl" where
  "demo_ssl fin = \<lparr>new_inBio = Some [], new_outBio = Some [], BIO_write = (\<lambda>n d b. b @ d),
     BIO_pending = (\<lambda>b. to_int (length b)), BIO_read = (\<lambda>n b. (int (length (take n b)), take n b, drop n b)),
     SSL_new = Some 0,
     SSL_accept = (\<lambda>(x, i, b). if x \<noteq> 0 then (1, SSL_ERROR_NONE, (x, i, b))
        else if i = [] then (-1, SSL_ERROR_WANT_READ, (x, i, b)) else (1, SSL_ERROR_NONE, (1, tl i, b @ [22]))),
     SSL_read = (\<lambda>n (x, i, b). if x = 0 \<or> i = [] then (fst fin, [], snd fin, (x, i, b))
        else (int (length (take (nat n) (take 100 i))), take (nat n) (take 100 i), SSL_ERROR_NONE, (x, drop (nat n) (take 100 i), b))),
     SSL_write = (\<lambda>n d (x, i, b). if x = 1 \<and> d \<noteq> [] then (int (length d), (2, i, b @ [23])) else (-1, (x, i, b))),
     SSL_shutdown = (\<lambda>x. x)\<rparr>"

definition demo_emitted :: "nat \<Rightarrow> bytes" where
  "demo_emitted x = take x [22, 23]"

definition demo_plain :: "(nat, bytes) ssl_obj \<Rightarrow> bytes" where
  "demo_plain x = (if fst x = 0 then [] else take 100 (fst (snd x)))"

lemma demo_bio_laws: "bio_laws (demo_ssl fin) (\<lambda>b. b)"
  by (simp add: bio_laws_def demo_ssl_def)

lemma demo_output_laws: "output_laws (demo_ssl fin) (\<lambda>b. b) demo_emitted"
  by (auto simp: output_laws_def demo_ssl_def appends_def demo_emitted_def)

lemma take_in_two:
  assumes "k \<le> 100"
  shows "take k xs @ take 100 (drop k (take 100 xs)) = take 100 xs"
proof -
  have "take 100 (drop k (take 100 xs)) = drop k (take 100 xs)" by (rule take_all) simp
  then show ?thesis using assms append_take_drop_id [of k "take 100 xs"] by (simp add: min_def)
qed

lemma demo_read_laws: "fst fin \<le> 0 \<Longrightarrow> read_laws (demo_ssl fin) demo_plain"
  by (auto simp: read_laws_def demo_ssl_def demo_plain_def min_def take_in_two)

definition demo_msg :: "bytes \<Rightarrow> bytebuf" where
  "demo_msg d = \<lparr>bdata = Some d, capacity = length d, readerIndex = 0, writerIndex = length d\<rparr>"

lemma demo_msg_ok: "length d < SZ \<Longrightarrow> wf_buf (demo_msg d) \<and> contents (demo_msg d) = d \<and> readableBytes (demo_msg d) = length d"
  by (simp add: wf_buf_def demo_msg_def contents_def readableBytes_def sub_sz_exact)

abbreviation demo_open :: "int \<times> ssl_error" where "demo_open \<equiv> (-1, SSL_ERROR_WANT_READ)"
abbreviation demo_closed :: "int \<times> ssl_error" where "demo_closed \<equiv> (0, SSL_ERROR_ZERO_RETURN)"

text \<open>An established session on a new connection.\<close>

definition demo_session :: "(nat, bytes, unit) tls" where
  "demo_session = (\<lparr>ssl = Some 1, inBio = Some [], outBio = Some [22], handshakeDone = True, sslShutdown = False\<rparr>, conn_new, (), 0)"

lemma demo_session_ok: "tls_inv (\<lambda>b. b) demo_emitted demo_session" "handshakeDone (fst demo_session)" "ssl_obj_of (fst demo_session) = Inr (1, [], [22])"
  by (simp_all add: tls_inv_def wire_inv_def demo_session_def demo_emitted_def out_inv_def conn_new_def ssl_obj_of_def)

lemma demo_fed: "length d < SZ \<Longrightarrow> fed (demo_ssl fin) (demo_msg d) (x, i, b) = (x, i @ d, b)"
  using demo_msg_ok [of d] by (simp add: fed_def demo_ssl_def)

lemma demo_read_end: "demo_plain z = [] \<Longrightarrow> \<exists>bs y. SSL_read (demo_ssl fin) n z = (fst fin, bs, snd fin, y)"
  by (cases z) (auto simp: demo_plain_def demo_ssl_def split: if_splits)

lemma demo_grants: "heap_grants (mem (demo_env kn))"
  by (simp add: demo_env_def demo_heap_grants)

theorem tls_plaintext_delivered_witness:
  "\<exists>t b. tls_channelRead (demo_ssl demo_open) (demo_env (\<lambda>i. Again)) 5 0 (BufMsg (demo_msg [7, 8])) demo_session = Inr (t, [FireRead (BufMsg b)]) \<and>
     contents b = [7, 8]"
proof -
  have len: "length [7, 8 :: byte] < SZ" by simp
  note m = demo_msg_ok [OF len]
  have f: "fed (demo_ssl demo_open) (demo_msg [7, 8]) (1, [], [22]) = (1, [7, 8], [22])" using demo_fed [OF len] by simp
  have r: "read_laws (demo_ssl demo_open) demo_plain" by (rule demo_read_laws) simp
  have p: "demo_plain (1, [7, 8], [22]) = [7, 8]" by (simp add: demo_plain_def)
  have "faultless (demo_env (\<lambda>i. Again)) (\<lambda>(t', es). snd t' = snd demo_session \<and> handshakeDone (fst t') \<and>
     (if demo_plain (1, [7, 8], [22]) = [] then es = [] else \<exists>b. es = [FireRead (BufMsg b)] \<and> wf_buf b \<and> contents b = demo_plain (1, [7, 8], [22])))
     (tls_channelRead (demo_ssl demo_open) (demo_env (\<lambda>i. Again)) 5 0 (BufMsg (demo_msg [7, 8])) demo_session)"
    using tls_plaintext_delivered [OF demo_bio_laws demo_output_laws r demo_session_ok(1,2) _ _ demo_session_ok(3), of "demo_msg [7, 8]"
        "demo_env (\<lambda>i. Again)" 5 0] m demo_read_end [of _ demo_open] unfolding f by simp
  from faultlessE [OF this demo_grants] p show ?thesis by auto
qed

theorem tls_close_loses_plaintext_witness:
  "\<exists>t es. tls_channelRead (demo_ssl demo_closed) (demo_env (\<lambda>i. Again)) 5 0 (BufMsg (demo_msg [7, 8])) demo_session = Inr (t, es) \<and>
     closed (fst (snd t)) \<and> (\<forall>m. FireRead m \<notin> set es) \<and> demo_plain (fed (demo_ssl demo_closed) (demo_msg [7, 8]) (1, [], [22])) = [7, 8]"
proof -
  have len: "length [7, 8 :: byte] < SZ" by simp
  note m = demo_msg_ok [OF len]
  have f: "fed (demo_ssl demo_closed) (demo_msg [7, 8]) (1, [], [22]) = (1, [7, 8], [22])" using demo_fed [OF len] by simp
  have r: "read_laws (demo_ssl demo_closed) demo_plain" by (rule demo_read_laws) simp
  have "faultless (demo_env (\<lambda>i. Again)) (\<lambda>(t', es). closed (fst (snd t')) \<and> (\<forall>m. FireRead m \<notin> set es))
     (tls_channelRead (demo_ssl demo_closed) (demo_env (\<lambda>i. Again)) 5 0 (BufMsg (demo_msg [7, 8])) demo_session)"
    using tls_close_loses_plaintext [OF demo_bio_laws demo_output_laws r demo_session_ok(1,2) _ _ demo_session_ok(3), of "demo_msg [7, 8]"
        "demo_env (\<lambda>i. Again)" 5 0] m demo_read_end [of _ demo_closed] unfolding f by simp
  from faultlessE [OF this demo_grants] show ?thesis unfolding f by (auto simp: demo_plain_def)
qed

definition demo_fresh :: "(nat, bytes, unit) tls" where
  "demo_fresh = (ssl_state_new, conn_new, (), 0)"

lemma demo_fresh_ok: "tls_inv (\<lambda>b. b) demo_emitted demo_fresh" "\<not> handshakeDone (fst demo_fresh)"
  by (simp_all add: tls_inv_def wire_inv_def demo_fresh_def ssl_state_new_def out_inv_def conn_new_def)

theorem tls_last_flight_not_flushed_witness:
  "\<exists>t b. tls_channelRead (demo_ssl demo_open) (demo_env (\<lambda>i. Again)) 5 0 (BufMsg (demo_msg [1])) demo_fresh = Inr (t, []) \<and>
     snd t = snd demo_fresh \<and> outBio (fst t) = Some b \<and> take 1 b = [22]"
proof -
  have len: "length [1 :: byte] < SZ" by simp
  note m = demo_msg_ok [OF len]
  let ?st = "\<lparr>ssl = Some 0, inBio = Some [], outBio = Some [], handshakeDone = False, sslShutdown = False\<rparr> :: (nat, bytes) ssl_state"
  have su: "tls_setup (demo_ssl demo_open) (fst demo_fresh) = (?st, True)" "ssl_obj_of ?st = Inr (0, [], [])"
    by (simp_all add: tls_setup_def demo_fresh_def ssl_state_new_def demo_ssl_def ssl_obj_of_def Let_def)
  have f: "fed (demo_ssl demo_open) (demo_msg [1]) (0, [], []) = (0, [1], [])" using demo_fed [OF len] by simp
  have acc: "SSL_accept (demo_ssl demo_open) (fed (demo_ssl demo_open) (demo_msg [1]) (0, [], [])) = (1, SSL_ERROR_NONE, (1, [], [22]))"
    unfolding f by (simp add: demo_ssl_def)
  have r: "read_laws (demo_ssl demo_open) demo_plain" by (rule demo_read_laws) simp
  have y: "demo_plain (1, [], [22]) = []" by (simp add: demo_plain_def)
  have "faultless (demo_env (\<lambda>i. Again)) (\<lambda>(t', es). es = [] \<and> snd t' = snd demo_fresh \<and> handshakeDone (fst t') \<and>
     (\<exists>b rest. outBio (fst t') = Some b \<and> b = snd (snd (1 :: nat, [] :: bytes, [22])) @ rest))
     (tls_channelRead (demo_ssl demo_open) (demo_env (\<lambda>i. Again)) 5 0 (BufMsg (demo_msg [1])) demo_fresh)"
    by (rule tls_last_flight_not_flushed [OF demo_bio_laws demo_output_laws r demo_fresh_ok _ _ su acc y])
      (use m demo_read_end [OF y, of demo_open] in simp_all)
  from faultlessE [OF this demo_grants] show ?thesis by (auto simp: demo_fresh_def)
qed


theorem tls_stream_intact_witness:
  "\<exists>st c p k. tls_run (demo_ssl demo_open) (demo_env (\<lambda>i. Again)) 0 [TlsRead 1 (BufMsg (demo_msg [1])), TlsWrite 2 (BufMsg (demo_msg [9]))]
       (ssl_state_new, conn_new\<lparr>c_channel := channel_new True 5\<rparr>, (), 0) = Inr (st, c, p, k) \<and>
     (case ssl st of None \<Rightarrow> sent c @ contents (writeBuf c) = []
      | Some x \<Rightarrow> \<exists>b. outBio st = Some b \<and> sent c @ contents (writeBuf c) @ b = demo_emitted x)"
proof -
  have r: "read_laws (demo_ssl demo_open) demo_plain" by (rule demo_read_laws) simp
  have "wf_buf (demo_msg [1])" "wf_buf (demo_msg [9])" using demo_msg_ok [of "[1]"] demo_msg_ok [of "[9]"] by simp_all
  then have "\<forall>e \<in> set [TlsRead 1 (BufMsg (demo_msg [1])), TlsWrite 2 (BufMsg (demo_msg [9]))]. wf_event e" by (simp add: wf_msg_def)
  from faultlessE [OF tls_stream_intact [OF demo_bio_laws demo_output_laws r this] demo_grants [of "\<lambda>i. Again"], of 0 "channel_new True 5" "()" 0]
  show ?thesis by auto
qed


end
