(* ===== verification/Https.thy ===== *)
theory Https
  imports Tls HttpCodec
begin

text \<open>
  HTTP over TLS: the TLS handler of theory \<open>Tls\<close> in front of the HTTP codec of theory \<open>HttpCodec\<close>, as the
  pipeline composes them. The codec runs inside the call with which the TLS handler passes a buffer on, so the
  two handlers alternate. The lemmas combine what the two theories show of each.
\<close>

section \<open>The composed handlers\<close>

text \<open>The buffers among the effects of the TLS handler.\<close>

fun passed_on :: "tls_effect list \<Rightarrow> bytebuf list" where
  "passed_on [] = []"
| "passed_on (tls_effect.FireRead (BufMsg b) # es) = b # passed_on es"
| "passed_on (e # es) = passed_on es"

text \<open>One read of the socket after the other through both handlers.\<close>

fun https_feed :: "('o, 'b) openssl \<Rightarrow> 'p env \<Rightarrow> nat \<Rightarrow> nat \<Rightarrow> llhttp \<Rightarrow> bool \<Rightarrow> bytebuf list \<Rightarrow> ('o, 'b, 'p) tls \<Rightarrow> http_codec \<Rightarrow>
    (('o, 'b, 'p) tls \<times> http_codec \<times> codec_effect list \<times> fault list) res" where
  "https_feed ossl env now me ll hasCtx [] t st = Inr (t, st, [], [])"
| "https_feed ossl env now me ll hasCtx (enc # encs) t st =
     rbind (tls_channelRead ossl env now me (BufMsg enc) t) (\<lambda>(t, es).
     case codec_feed ll hasCtx (mem env) st (passed_on es) of (st, out, ex) \<Rightarrow>
     rbind (https_feed ossl env now me ll hasCtx encs t st) (\<lambda>(t, st, outs, exs). Inr (t, st, out @ outs, ex @ exs)))"

text \<open>The plain text that each of the reads decrypts to.\<close>

fun session_plain :: "('o, 'b) openssl \<Rightarrow> (('o, 'b) ssl_obj \<Rightarrow> bytes) \<Rightarrow> 'p env \<Rightarrow> nat \<Rightarrow> nat \<Rightarrow> bytebuf list \<Rightarrow> ('o, 'b, 'p) tls \<Rightarrow> bytes list" where
  "session_plain ossl plain env now me [] t = []"
| "session_plain ossl plain env now me (enc # encs) t =
     (case ssl_obj_of (fst t) of
        Inl e \<Rightarrow> []
      | Inr x \<Rightarrow> plain (fed ossl enc x) # (case tls_channelRead ossl env now me (BufMsg enc) t of
            Inl e \<Rightarrow> []
          | Inr (t', es) \<Rightarrow> session_plain ossl plain env now me encs t'))"

section \<open>Lemmas\<close>

lemma codec_feed_append:
  "codec_feed ll hasCtx h st (bs @ cs) =
     (case codec_feed ll hasCtx h st bs of (st, out, ex) \<Rightarrow> case codec_feed ll hasCtx h st cs of (st, outs, exs) \<Rightarrow> (st, out @ outs, ex @ exs))"
  by (induction bs arbitrary: st) (auto simp: split_beta)

text \<open>An established session whose peer has not closed it.\<close>

definition peer_open :: "('o, 'b) openssl \<Rightarrow> (('o, 'b) ssl_obj \<Rightarrow> bytes) \<Rightarrow> bool" where
  "peer_open ossl plain \<longleftrightarrow> (\<forall>z n. plain z = [] \<and> 0 < n \<longrightarrow> (\<exists>bs y. SSL_read ossl n z = (-1, bs, SSL_ERROR_WANT_READ, y)))"

lemma established_step:
  assumes laws: "bio_laws ossl bio" "output_laws ossl bio emitted" "read_laws ossl plain" and inv: "tls_inv bio emitted t"
    and hs: "handshakeDone (fst t)" and enc: "wf_buf enc" "readableBytes enc \<noteq> 0" and op: "peer_open ossl plain" and heap: "heap_grants (mem env)"
    and x: "ssl_obj_of (fst t) = Inr x"
  shows "\<exists>t' es. tls_channelRead ossl env now me (BufMsg enc) t = Inr (t', es) \<and> tls_inv bio emitted t' \<and> handshakeDone (fst t') \<and>
     list_all wf_buf (passed_on es) \<and> map contents (passed_on es) = filter (\<lambda>p. p \<noteq> []) [plain (fed ossl enc x)]"
proof -
  have "wf_msg (BufMsg enc)" using enc(1) by (simp add: wf_msg_def)
  from faultlessE [OF tls_channelRead_wire [OF laws inv this, of env now me] heap] obtain t' es where
    r: "tls_channelRead ossl env now me (BufMsg enc) t = Inr (t', es)" "tls_inv bio emitted t'" by auto
  have "faultless env (\<lambda>(t', es). snd t' = snd t \<and> handshakeDone (fst t') \<and>
     (if plain (fed ossl enc x) = [] then es = [] else \<exists>b. es = [tls_effect.FireRead (BufMsg b)] \<and> wf_buf b \<and> contents b = plain (fed ossl enc x)))
     (tls_channelRead ossl env now me (BufMsg enc) t)"
    by (rule established_delivers [OF laws inv hs enc x]) (use op in \<open>unfold peer_open_def, blast\<close>)
  then show ?thesis using r by (auto split: if_splits)
qed

lemma tls_feeds_codec:
  assumes laws: "bio_laws ossl bio" "output_laws ossl bio emitted" "read_laws ossl plain" and op: "peer_open ossl plain" and heap: "heap_grants (mem env)"
  shows "tls_inv bio emitted t \<Longrightarrow> handshakeDone (fst t) \<Longrightarrow> \<forall>enc \<in> set encs. wf_buf enc \<and> readableBytes enc \<noteq> 0 \<Longrightarrow>
     \<exists>t' bufs. tls_inv bio emitted t' \<and> list_all wf_buf bufs \<and> map contents bufs = filter (\<lambda>p. p \<noteq> []) (session_plain ossl plain env now me encs t) \<and>
       https_feed ossl env now me ll hasCtx encs t st = Inr (t', codec_feed ll hasCtx (mem env) st bufs)"
proof (induction encs arbitrary: t st)
  case Nil
  then show ?case by (intro exI [of _ t] exI [of _ "[]"]) simp
next
  case (Cons enc encs)
  have "tls_live bio emitted t" using Cons.prems(1,2) by (simp add: tls_live_def tls_inv_def)
  then obtain x where x: "ssl_obj_of (fst t) = Inr x" using live_obj by blast
  have enc: "wf_buf enc" "readableBytes enc \<noteq> 0" using Cons.prems(3) by auto
  obtain t1 es where t1: "tls_channelRead ossl env now me (BufMsg enc) t = Inr (t1, es)" "tls_inv bio emitted t1" "handshakeDone (fst t1)"
      "list_all wf_buf (passed_on es)" "map contents (passed_on es) = filter (\<lambda>p. p \<noteq> []) [plain (fed ossl enc x)]"
    using established_step [OF laws Cons.prems(1,2) enc op heap x] by blast
  obtain st1 out ex where c: "codec_feed ll hasCtx (mem env) st (passed_on es) = (st1, out, ex)" by (metis surj_pair)
  have "\<forall>enc \<in> set encs. wf_buf enc \<and> readableBytes enc \<noteq> 0" using Cons.prems(3) by simp
  from Cons.IH [OF t1(2,3) this, of st1] obtain t2 bufs where ih: "tls_inv bio emitted t2" "list_all wf_buf bufs"
      "map contents bufs = filter (\<lambda>p. p \<noteq> []) (session_plain ossl plain env now me encs t1)"
      "https_feed ossl env now me ll hasCtx encs t1 st1 = Inr (t2, codec_feed ll hasCtx (mem env) st1 bufs)" by blast
  have "https_feed ossl env now me ll hasCtx (enc # encs) t st = Inr (t2, codec_feed ll hasCtx (mem env) st (passed_on es @ bufs))"
    unfolding codec_feed_append using t1(1) c ih(4) by (simp add: split_beta)
  moreover have "map contents (passed_on es @ bufs) = filter (\<lambda>p. p \<noteq> []) (session_plain ossl plain env now me (enc # encs) t)"
    using t1(1,5) ih(3) x by (simp del: filter.simps) simp
  ultimately show ?case using ih(1,2) t1(4) by (intro exI [of _ t2] exI [of _ "passed_on es @ bufs"]) simp
qed

lemma concat_nonempty [simp]: "concat (filter (\<lambda>p. p \<noteq> []) ps) = concat ps"
  by (induction ps) auto

section \<open>Property\<close>

text \<open>An HTTPS request is received as it was sent: on an established session, when the reads of the socket decrypt to
  the text of a request, cut into pieces anywhere and with reads in between that complete no record, the
  two handlers together pass on exactly that request, once, and keep nothing back.\<close>

theorem https_request_received:
  assumes "bio_laws ossl bio" and "output_laws ossl bio emitted" and "read_laws ossl plain" and "peer_open ossl plain"
    and "tls_inv bio emitted t" and "handshakeDone (fst t)" and "\<forall>enc \<in> set encs. wf_buf enc \<and> readableBytes enc \<noteq> 0"
    and "concat (session_plain ossl plain env now me encs t) = bytes_of (wire_text w)"
    and "llhttp_parses ll R" and "good_request R w" and "length (wire_text w) \<le> HALF" and "heap_grants (mem env)"
  shows "\<exists>t' st. https_feed ossl env now me ll hasCtx encs t http_codec_new = Inr (t', st, wire_effects hasCtx w, []) \<and>
     tls_inv bio emitted t' \<and> codec_holds st []"
proof -
  obtain t' bufs where b: "tls_inv bio emitted t'" "list_all wf_buf bufs"
      "map contents bufs = filter (\<lambda>p. p \<noteq> []) (session_plain ossl plain env now me encs t)"
      "https_feed ossl env now me ll hasCtx encs t http_codec_new = Inr (t', codec_feed ll hasCtx (mem env) http_codec_new bufs)"
    using tls_feeds_codec [OF assms(1-4,12,5-7)] by blast
  let ?qs = "map chars_of (map contents bufs)"
  have qs: "map contents bufs = map bytes_of ?qs" by (simp add: o_def)
  have "bytes_of (concat ?qs) = concat (map contents bufs)" by (induction bufs) (simp_all add: bytes_of_append)
  also have "\<dots> = bytes_of (wire_text w)" unfolding b(3) using assms(8) by simp
  finally have whole: "wire_text w = concat ?qs" by (metis chars_bytes)
  moreover have "[] \<notin> set (map contents bufs)" unfolding b(3) by simp
  then have ne: "[] \<notin> set ?qs" by (force simp: chars_of_def)
  moreover have "?qs \<noteq> []" using whole good_text(1) [OF assms(10)] by auto
  ultimately obtain st where "codec_feed ll hasCtx (mem env) http_codec_new bufs = (st, wire_effects hasCtx w, [])" "codec_holds st []"
    using feed_partial [OF assms(9-12) codec_holds_new, of ?qs bufs hasCtx] qs b(2) by auto
  then show ?thesis using b(1,4) by simp
qed

section \<open>Witness\<close>

theorem https_request_received_witness:
  "\<exists>t st. https_feed (demo_ssl demo_open) (demo_env (\<lambda>i. Again)) 5 0 demo_llhttp True
       [demo_msg (bytes_of (wire_text demo_wire))] demo_session http_codec_new = Inr (t, st, wire_effects True demo_wire, [])"
proof -
  let ?d = "bytes_of (wire_text demo_wire)"
  have r: "read_laws (demo_ssl demo_open) demo_plain" by (rule demo_read_laws) simp
  have op: "peer_open (demo_ssl demo_open) demo_plain" unfolding peer_open_def using demo_read_end [of _ demo_open] by simp
  have len: "length ?d < SZ" "0 < length ?d" "length ?d \<le> 100" "length (wire_text demo_wire) \<le> HALF" by (simp_all add: demo_wire_text)
  note m = demo_msg_ok [OF len(1)]
  have enc: "\<forall>enc \<in> set [demo_msg ?d]. wf_buf enc \<and> readableBytes enc \<noteq> 0" using m len(2) by simp
  have "demo_plain (1, ?d, [22]) = ?d" using len(3) by (simp add: demo_plain_def)
  then have "concat (session_plain (demo_ssl demo_open) demo_plain (demo_env (\<lambda>i. Again)) 5 0 [demo_msg ?d] demo_session) = ?d"
    using demo_fed [OF len(1), of demo_open 1 "[]" "[22]"] demo_session_ok(3) by (simp split: sum.split)
  from https_request_received [OF demo_bio_laws demo_output_laws r op demo_session_ok(1,2) enc this demo_llhttp_parses demo_wire_good len(4) demo_grants, of True]
  show ?thesis by blast
qed

end
