(* ===== verification/HttpServer.thy ===== *)
theory HttpServer
  imports HttpCodec Router Worker
begin

text \<open>
  An HTTP server on one connection: the codec of theory \<open>HttpCodec\<close> in front of the router of theory \<open>Router\<close>, as
  the pipeline composes them. What the codec decides on is carried out in order: it sets the flags of the
  connection, passes requests to the router, whose handlers answer through \<open>Context::writeAndFlush\<close>, and
  answers itself what it refuses. The application's handlers are a parameter: a handler that is called answers
  with a response or not at all.

  The connection below the codec is a record \<open>transport\<close>: how bytes arrive, how a response is written, how a
  flag of the connection is set. The locale \<open>http_transport\<close> states what the server relies on, and the lemmas
  in it follow the responses into the output. It is interpreted here for a connection of theory \<open>Worker\<close>, and
  in theory \<open>HttpsServer\<close> for one with the TLS handler in front.
\<close>

section \<open>The composed handlers\<close>

record 's transport =
  tr_receive :: "nat \<Rightarrow> bytebuf \<Rightarrow> 's \<Rightarrow> ('s \<times> bytebuf list) res"
  tr_put :: "nat \<Rightarrow> http_response \<Rightarrow> 's \<Rightarrow> 's res"
  tr_upd :: "(conn \<Rightarrow> conn) \<Rightarrow> 's \<Rightarrow> 's"

record 'h server =
  sv_llhttp :: llhttp
  sv_mem :: heap
  sv_router :: "'h router"
  sv_app :: "'h \<Rightarrow> http_request \<Rightarrow> http_response option"

text \<open>The answers of router and codec: a \<open>text/plain\<close> response.\<close>

definition plain_reply :: "http_status \<Rightarrow> string \<Rightarrow> http_response" where
  "plain_reply st msg = setContent msg (setContentType ''text/plain'' (setStatus st http_response_new))"

fun route_answer :: "('h \<Rightarrow> http_request \<Rightarrow> http_response option) \<Rightarrow> 'h decision \<Rightarrow> http_response option" where
  "route_answer app (Invoke h req) = app h req"
| "route_answer app (Respond code msg) = Some (plain_reply (if code = 405 then ST_METHOD_NOT_ALLOWED else ST_NOT_FOUND) msg)"
| "route_answer app Silent = None"

fun serve_effect :: "'s transport \<Rightarrow> 'h server \<Rightarrow> nat \<Rightarrow> codec_effect \<Rightarrow> 's \<Rightarrow> 's res" where
  "serve_effect tr sv now FireRaw s = Inr s"
| "serve_effect tr sv now (ConnKeepAlive b) s = Inr (tr_upd tr (\<lambda>c. c\<lparr>conn.keepAlive := b\<rparr>) s)"
| "serve_effect tr sv now SignalActivity s = Inr (tr_upd tr (\<lambda>c. c\<lparr>lastReadMs := now\<rparr>) s)"
| "serve_effect tr sv now (Reply st msg) s = tr_put tr now (plain_reply st msg) s"
| "serve_effect tr sv now (FireRead req) s = (case route_answer (sv_app sv) (onRequest req (sv_router sv)) of
     None \<Rightarrow> Inr s
   | Some resp \<Rightarrow> tr_put tr now resp s)"

fun serve_effects :: "'s transport \<Rightarrow> 'h server \<Rightarrow> nat \<Rightarrow> codec_effect list \<Rightarrow> 's \<Rightarrow> 's res" where
  "serve_effects tr sv now [] s = Inr s"
| "serve_effects tr sv now (e # es) s = rbind (serve_effect tr sv now e s) (serve_effects tr sv now es)"

text \<open>The state of the codec and the connection are passed along; a fault of the codec ends the run.\<close>

definition serve_buf :: "'s transport \<Rightarrow> 'h server \<Rightarrow> nat \<Rightarrow> bytebuf \<Rightarrow> http_codec \<times> 's \<Rightarrow> (http_codec \<times> 's) res" where
  "serve_buf tr sv now buf t =
     (case codec_channelRead (sv_llhttp sv) 0 0 True (sv_mem sv) (fst t) (Some buf) of (st, es, ex) \<Rightarrow>
        rbind (serve_effects tr sv now es (snd t)) (\<lambda>s. case ex of Some e \<Rightarrow> Inl e | None \<Rightarrow> Inr (st, s)))"

fun serve_bufs :: "'s transport \<Rightarrow> 'h server \<Rightarrow> nat \<Rightarrow> bytebuf list \<Rightarrow> http_codec \<times> 's \<Rightarrow> (http_codec \<times> 's) res" where
  "serve_bufs tr sv now [] t = Inr t"
| "serve_bufs tr sv now (b # bs) t = rbind (serve_buf tr sv now b t) (serve_bufs tr sv now bs)"

definition serve_read :: "'s transport \<Rightarrow> 'h server \<Rightarrow> nat \<Rightarrow> bytebuf \<Rightarrow> http_codec \<times> 's \<Rightarrow> (http_codec \<times> 's) res" where
  "serve_read tr sv now buf t = rbind (tr_receive tr now buf (snd t)) (\<lambda>(s, bufs). serve_bufs tr sv now bufs (fst t, s))"

text \<open>The reads of a connection, each with its time.\<close>

fun serve_reads :: "'s transport \<Rightarrow> 'h server \<Rightarrow> (nat \<times> bytebuf) list \<Rightarrow> http_codec \<times> 's \<Rightarrow> (http_codec \<times> 's) res" where
  "serve_reads tr sv [] t = Inr t"
| "serve_reads tr sv ((now, buf) # reads) t = rbind (serve_read tr sv now buf t) (serve_reads tr sv reads)"

section \<open>What client and server exchange\<close>

text \<open>The text of the answer to a request.\<close>

definition answer_to :: "'h server \<Rightarrow> wire_request \<Rightarrow> string" where
  "answer_to sv w = (case route_answer (sv_app sv) (onRequest (wire_request_of w) (sv_router sv)) of
     None \<Rightarrow> []
   | Some resp \<Rightarrow> response_text (setKeepAlive (\<not> wants_close (w_headers w)) resp))"

definition answers_to :: "'h server \<Rightarrow> (wire_request \<times> (nat \<times> bytebuf) list) list \<Rightarrow> string" where
  "answers_to sv xs = concat (map (answer_to sv \<circ> fst) xs)"

text \<open>
  The reads carry the text \<open>d\<close>: \<open>clear_text\<close> is what a read adds to the text received so far in the state in
  which it arrives. A client sends requests one after the other when the reads of each carry its text.
\<close>

fun carries :: "'s transport \<Rightarrow> 'h server \<Rightarrow> (bytebuf \<Rightarrow> 's \<Rightarrow> bool) \<Rightarrow> (bytebuf \<Rightarrow> 's \<Rightarrow> bytes) \<Rightarrow> bytes \<Rightarrow> (nat \<times> bytebuf) list \<Rightarrow>
    http_codec \<times> 's \<Rightarrow> bool" where
  "carries tr sv good clear_text d [] t \<longleftrightarrow> d = []"
| "carries tr sv good clear_text d ((now, buf) # reads) t \<longleftrightarrow>
     (let e = clear_text buf (snd t) in good buf (snd t) \<and> take (length e) d = e \<and>
       (case serve_read tr sv now buf t of Inl _ \<Rightarrow> True | Inr t' \<Rightarrow> carries tr sv good clear_text (drop (length e) d) reads t'))"

fun sends :: "'s transport \<Rightarrow> 'h server \<Rightarrow> (bytebuf \<Rightarrow> 's \<Rightarrow> bool) \<Rightarrow> (bytebuf \<Rightarrow> 's \<Rightarrow> bytes) \<Rightarrow>
    (wire_request \<times> (nat \<times> bytebuf) list) list \<Rightarrow> http_codec \<times> 's \<Rightarrow> bool" where
  "sends tr sv good clear_text [] t \<longleftrightarrow> True"
| "sends tr sv good clear_text ((w, reads) # xs) t \<longleftrightarrow> carries tr sv good clear_text (bytes_of (wire_text w)) reads t \<and>
     (case serve_reads tr sv reads t of Inl _ \<Rightarrow> True | Inr t' \<Rightarrow> sends tr sv good clear_text xs t')"

definition parsed :: "'h server \<Rightarrow> (wire_request \<times> (nat \<times> bytebuf) list) list \<Rightarrow> bool" where
  "parsed sv xs \<longleftrightarrow> heap_grants (sv_mem sv) \<and> (\<exists>R. llhttp_parses (sv_llhttp sv) R \<and>
     (\<forall>(w, reads) \<in> set xs. good_request R w \<and> length (wire_text w) \<le> HALF))"

section \<open>The transport\<close>

lemma serve_reads_append:
  "serve_reads tr sv (as @ bs) t = rbind (serve_reads tr sv as t) (serve_reads tr sv bs)"
proof (induction as arbitrary: t)
  case (Cons a as)
  then show ?case by (cases a; cases "serve_read tr sv (fst a) (snd a) t") simp_all
qed simp

locale http_transport =
  fixes tr :: "'s transport" and keeps :: "'s \<Rightarrow> bool" and answered :: "string \<Rightarrow> 's \<Rightarrow> bool" and fits :: "string \<Rightarrow> bool"
    and good :: "bytebuf \<Rightarrow> 's \<Rightarrow> bool" and clear_text :: "bytebuf \<Rightarrow> 's \<Rightarrow> bytes"
  assumes put: "answered t s \<Longrightarrow> fits (t @ response_text (setKeepAlive (keeps s) resp)) \<Longrightarrow>
      \<exists>s'. tr_put tr now resp s = Inr s' \<and> answered (t @ response_text (setKeepAlive (keeps s) resp)) s'"
    and receive: "answered t s \<Longrightarrow> good buf s \<Longrightarrow> \<exists>s' bufs. tr_receive tr now buf s = Inr (s', bufs) \<and> answered t s' \<and>
      list_all wf_buf bufs \<and> map contents bufs = (if clear_text buf s = [] then [] else [clear_text buf s])"
    and set_keepAlive: "answered t s \<Longrightarrow> answered t (tr_upd tr (\<lambda>c. c\<lparr>conn.keepAlive := b\<rparr>) s)"
      "keeps (tr_upd tr (\<lambda>c. c\<lparr>conn.keepAlive := b\<rparr>) s) = b"
    and set_lastRead: "answered t s \<Longrightarrow> answered t (tr_upd tr (\<lambda>c. c\<lparr>lastReadMs := n\<rparr>) s)"
      "keeps (tr_upd tr (\<lambda>c. c\<lparr>lastReadMs := n\<rparr>) s) = keeps s"
    and fits_prefix: "fits (t @ u) \<Longrightarrow> fits t"
begin

lemma request_served:
  assumes "answered t s" and "fits (t @ answer_to sv w)"
  shows "\<exists>s'. serve_effects tr sv now (wire_effects True w) s = Inr s' \<and> answered (t @ answer_to sv w) s'"
proof -
  let ?ka = "\<not> wants_close (w_headers w)"
  let ?s = "tr_upd tr (\<lambda>c. c\<lparr>lastReadMs := now\<rparr>) (tr_upd tr (\<lambda>c. c\<lparr>conn.keepAlive := ?ka\<rparr>) s)"
  have s: "answered t ?s" "keeps ?s = ?ka" using assms(1) by (simp_all add: set_keepAlive set_lastRead)
  show ?thesis
  proof (cases "route_answer (sv_app sv) (onRequest (wire_request_of w) (sv_router sv))")
    case None
    then show ?thesis using s(1) by (simp add: wire_effects_def answer_to_def)
  next
    case (Some resp)
    then show ?thesis using put [OF s(1), of resp now] assms(2) s(2) by (auto simp: wire_effects_def answer_to_def)
  qed
qed

text \<open>Reads that carry nothing change nothing for the codec.\<close>

lemma idle_reads:
  "answered t s \<Longrightarrow> carries tr sv good clear_text [] reads (st, s) \<Longrightarrow> \<exists>s'. serve_reads tr sv reads (st, s) = Inr (st, s') \<and> answered t s'"
proof (induction reads arbitrary: s)
  case (Cons rd reads)
  obtain now buf where rd: "rd = (now, buf)" by (cases rd)
  have g: "good buf s" "clear_text buf s = []" using Cons.prems(2) by (simp_all add: rd Let_def)
  obtain s' where s': "tr_receive tr now buf s = Inr (s', [])" "answered t s'" using receive [OF Cons.prems(1) g(1), of now] g(2) by auto
  then have r: "serve_read tr sv now buf (st, s) = Inr (st, s')" by (simp add: serve_read_def)
  then have "carries tr sv good clear_text [] reads (st, s')" using Cons.prems(2) by (simp add: rd Let_def)
  with Cons.IH [OF s'(2)] show ?case using r by (simp add: rd)
qed simp

lemma request_exchanged:
  assumes "llhttp_parses (sv_llhttp sv) R" and "good_request R w" and "length (wire_text w) \<le> HALF" and "heap_grants (sv_mem sv)"
    and fits: "fits (t @ answer_to sv w)"
  shows "answered t s \<Longrightarrow> codec_holds st p \<Longrightarrow> wire_text w = p @ q \<Longrightarrow> q \<noteq> [] \<Longrightarrow> carries tr sv good clear_text (bytes_of q) reads (st, s) \<Longrightarrow>
     \<exists>st' s'. serve_reads tr sv reads (st, s) = Inr (st', s') \<and> answered (t @ answer_to sv w) s' \<and> codec_holds st' []"
proof (induction reads arbitrary: st s p q)
  case Nil
  then show ?case by (simp add: bytes_of_def)
next
  case (Cons rd reads)
  obtain now buf where rd: "rd = (now, buf)" by (cases rd)
  let ?e = "clear_text buf s"
  have g: "good buf s" "take (length ?e) (bytes_of q) = ?e" using Cons.prems(5) by (simp_all add: rd Let_def)
  obtain s1 bufs where s1: "tr_receive tr now buf s = Inr (s1, bufs)" "answered t s1" "list_all wf_buf bufs"
      "map contents bufs = (if ?e = [] then [] else [?e])" using receive [OF Cons.prems(1) g(1)] by blast
  show ?case
  proof (cases "?e = []")
    case True
    then have r: "serve_read tr sv now buf (st, s) = Inr (st, s1)" using s1 by (simp add: serve_read_def)
    then have "carries tr sv good clear_text (bytes_of q) reads (st, s1)" using Cons.prems(5) True by (simp add: rd Let_def)
    from Cons.IH [OF s1(2) Cons.prems(2-4) this] show ?thesis using r by (simp add: rd)
  next
    case False
    then obtain b where b: "bufs = [b]" "wf_buf b" "contents b = ?e" using s1(3,4) by (cases bufs) auto
    let ?q = "take (length ?e) q" and ?rest = "drop (length ?e) q"
    have q: "wire_text w = p @ ?q @ ?rest" "?q \<noteq> []" "contents b = bytes_of ?q" "bytes_of ?rest = drop (length ?e) (bytes_of q)"
      using Cons.prems(3,4) False b(3) g(2) by (simp_all add: bytes_of_def take_map drop_map)
    from read_piece [OF assms(1-4) Cons.prems(2) q(1,2) b(2) q(3), of True] obtain st1 where
      st1: "codec_channelRead (sv_llhttp sv) 0 0 True (sv_mem sv) st (Some b) = (st1, if ?rest = [] then wire_effects True w else [], None)"
        "codec_holds st1 (if ?rest = [] then [] else p @ ?q)" by blast
    show ?thesis
    proof (cases "?rest = []")
      case True
      obtain s2 where s2: "serve_effects tr sv now (wire_effects True w) s1 = Inr s2" "answered (t @ answer_to sv w) s2"
        using request_served [OF s1(2) fits] by blast
      then have r: "serve_read tr sv now buf (st, s) = Inr (st1, s2)" using s1(1) b(1) st1(1) True by (simp add: serve_read_def serve_buf_def)
      have "drop (length ?e) (bytes_of q) = []" using q(4) True by (simp add: bytes_of_def)
      then have "carries tr sv good clear_text [] reads (st1, s2)" using Cons.prems(5) r by (simp add: rd Let_def)
      from idle_reads [OF s2(2) this] show ?thesis using r st1(2) True by (auto simp: rd)
    next
      case rest: False
      then have r: "serve_read tr sv now buf (st, s) = Inr (st1, s1)" using s1(1) b(1) st1(1) by (simp add: serve_read_def serve_buf_def)
      have h: "codec_holds st1 (p @ ?q)" "wire_text w = (p @ ?q) @ ?rest" using st1(2) rest q(1) by simp_all
      have "carries tr sv good clear_text (bytes_of ?rest) reads (st1, s1)" using Cons.prems(5) r q(4) by (simp add: rd Let_def)
      from Cons.IH [OF s1(2) h rest this] show ?thesis using r by (simp add: rd)
    qed
  qed
qed

lemma requests_answered:
  assumes "parsed sv xs"
  shows "answered t s \<Longrightarrow> codec_holds st [] \<Longrightarrow> sends tr sv good clear_text xs (st, s) \<Longrightarrow> fits (t @ answers_to sv xs) \<Longrightarrow>
     \<exists>st' s'. serve_reads tr sv (concat (map snd xs)) (st, s) = Inr (st', s') \<and> answered (t @ answers_to sv xs) s' \<and> codec_holds st' []"
  using assms
proof (induction xs arbitrary: t s st)
  case (Cons x xs)
  obtain w reads where x: "x = (w, reads)" by (cases x)
  obtain R where w: "llhttp_parses (sv_llhttp sv) R" "good_request R w" "length (wire_text w) \<le> HALF" "heap_grants (sv_mem sv)"
    using Cons.prems(5) by (auto simp: parsed_def x)
  have all: "answers_to sv (x # xs) = answer_to sv w @ answers_to sv xs" by (simp add: answers_to_def x)
  have f: "fits (t @ answer_to sv w)" using Cons.prems(4) fits_prefix [of "t @ answer_to sv w"] unfolding all by simp
  have c: "carries tr sv good clear_text (bytes_of (wire_text w)) reads (st, s)" using Cons.prems(3) by (simp add: x)
  obtain st1 s1 where s1: "serve_reads tr sv reads (st, s) = Inr (st1, s1)" "answered (t @ answer_to sv w) s1" "codec_holds st1 []"
    using request_exchanged [OF w f Cons.prems(1,2) _ good_text(1) [OF w(2)] c] by auto
  have "parsed sv xs" using Cons.prems(5) by (auto simp: parsed_def)
  moreover have "sends tr sv good clear_text xs (st1, s1)" using Cons.prems(3) s1(1) by (simp add: x)
  ultimately show ?case using Cons.IH [OF s1(2,3)] Cons.prems(4) s1(1) all by (simp add: x serve_reads_append)
qed (simp add: answers_to_def)

end

section \<open>A connection without TLS\<close>

text \<open>\<open>Context::writeAndFlush\<close> with the codec as the first handler of the pipeline.\<close>

definition write_response :: "'p env \<Rightarrow> nat \<Rightarrow> nat \<Rightarrow> http_response \<Rightarrow> 'p cio \<Rightarrow> 'p cio res" where
  "write_response env now me r s =
     (let ka = conn.keepAlive (fst s) in
      rbind (case codec_write (mem env) True (Some (setKeepAlive ka r)) of
          None \<Rightarrow> Inr s
        | Some rb \<Rightarrow> rbind rb (\<lambda>b. rbind (mem_read (bdata b) (readerIndex b) (readableBytes b)) (\<lambda>d. wire_write env now me d s)))
      (\<lambda>(c, p, k). flushWriteBuf env now me (if \<not> ka then c\<lparr>conn.keepAlive := False\<rparr> else c, p, k)))"

definition plain_transport :: "'p env \<Rightarrow> nat \<Rightarrow> 'p cio transport" where
  "plain_transport env me = \<lparr>tr_receive = (\<lambda>now buf s. Inr (s, [buf])), tr_put = (\<lambda>now r s. write_response env now me r s),
     tr_upd = (\<lambda>f s. (f (fst s), snd s))\<rparr>"

text \<open>A socket that takes whatever it is offered.\<close>

definition greedy_socket :: "'p env \<Rightarrow> bool" where
  "greedy_socket env \<longleftrightarrow> (\<forall>i. \<exists>n. kern env i = Wrote n \<and> HALF \<le> n)"

lemma flushWriteBuf_greedy:
  assumes "greedy_socket env" and "out_inv t c" and "length t \<le> HALF" and "flushWriteBuf env now me (c, p, k) = Inr (c', p', k')"
  shows "contents (writeBuf c') = []"
proof (cases "readableBytes (writeBuf c) = 0")
  case True
  then show ?thesis using assms(2,4) by (auto simp: flushWriteBuf_def out_inv_def readable_eq_length)
next
  case False
  note i = out_invD [OF assms(2)]
  have rd: "mem_read (bdata (writeBuf c)) (readerIndex (writeBuf c)) (readableBytes (writeBuf c)) = Inr (contents (writeBuf c))"
    by (rule mem_read_all [OF i(1)])
  obtain n where n: "kern env k = Wrote n" "HALF \<le> n" using assms(1) unfolding greedy_socket_def by blast
  have le: "length (contents (writeBuf c)) \<le> n" using i(2) assms(3) n(2) by (metis le_add2 length_append order_trans)
  then have m: "min n (length (contents (writeBuf c))) = length (contents (writeBuf c))" by simp
  have "length (contents (writeBuf c)) \<noteq> 0" using False i(1) by (simp add: readable_eq_length)
  moreover have dw: "wf_buf (discard (length (contents (writeBuf c))) (writeBuf c)) \<and>
      contents (discard (length (contents (writeBuf c))) (writeBuf c)) = []"
    using discard_wf [OF i(1), of "length (contents (writeBuf c))"] by simp
  ultimately show ?thesis using assms(4) False rd n(1) m i(1)
    by (auto simp: flushWriteBuf_def Let_def readable_eq_length bb_clear_wf)
qed

text \<open>What was answered so far: it is in the output stream, and a greedy socket has taken all of it.\<close>

definition answered :: "'p env \<Rightarrow> string \<Rightarrow> conn \<Rightarrow> bool" where
  "answered env t c \<longleftrightarrow> heap_grants (mem env) \<and> out_inv (bytes_of t) c \<and> (greedy_socket env \<longrightarrow> contents (writeBuf c) = [])"

lemma write_response_out:
  assumes "answered env t c" and "t' = response_text (setKeepAlive (conn.keepAlive c) resp)" and "length t + length t' \<le> HALF"
  shows "\<exists>c' p' k'. write_response env now me resp (c, p, k) = Inr (c', p', k') \<and> answered env (t @ t') c'"
proof -
  have heap: "heap_grants (mem env)" using assms(1) by (simp add: answered_def)
  obtain b where b: "toByteBuf (mem env) (setKeepAlive (conn.keepAlive c) resp) = Inr b" "wf_buf b" "contents b = bytes_of t'"
    using toByteBuf_ok [OF _ heap, of "setKeepAlive (conn.keepAlive c) resp"] assms(2,3) by auto
  have inv: "out_inv (bytes_of t) c" using assms(1) by (simp add: answered_def)
  have len: "length (bytes_of t) + length (bytes_of t') \<le> HALF" using assms(3) by simp
  obtain c1 p1 k1 where w: "wire_write env now me (bytes_of t') (c, p, k) = Inr (c1, p1, k1)"
    using wire_write_fault [OF inv len, of env now me p k] heap
    by (cases "wire_write env now me (bytes_of t') (c, p, k)") auto
  let ?c = "if \<not> conn.keepAlive c then c1\<lparr>conn.keepAlive := False\<rparr> else c1"
  have "out_inv (bytes_of (t @ t')) c1" using wire_write_inv [OF inv len w] by (simp add: bytes_of_append)
  then have i: "out_inv (bytes_of (t @ t')) ?c" by (simp add: out_inv_def)
  obtain c2 p2 k2 where f: "flushWriteBuf env now me (?c, p1, k1) = Inr (c2, p2, k2)" "out_inv (bytes_of (t @ t')) c2"
    using flushWriteBuf_inv [OF out_invD(1-3) [OF i], of env now me p1 k1] by blast
  have "write_response env now me resp (c, p, k) = Inr (c2, p2, k2)"
    using b w f(1) mem_read_all [OF b(2)] by (simp add: write_response_def codec_write_def http_encode_def)
  moreover have "greedy_socket env \<longrightarrow> contents (writeBuf c2) = []" using flushWriteBuf_greedy [OF _ i _ f(1)] assms(3) by simp
  ultimately show ?thesis using f(2) heap by (simp add: answered_def)
qed

lemma answered_flags [simp]:
  "answered env t (c\<lparr>conn.keepAlive := b\<rparr>) = answered env t c" "answered env t (c\<lparr>lastReadMs := n\<rparr>) = answered env t c"
  by (simp_all add: answered_def out_inv_def)

interpretation plain: http_transport "plain_transport env me" "\<lambda>s. conn.keepAlive (fst s)" "\<lambda>t s. answered env t (fst s)" "\<lambda>t. length t \<le> HALF"
    "\<lambda>buf s. wf_buf buf \<and> contents buf \<noteq> []" "\<lambda>buf s. contents buf" for env :: "'p env" and me
proof
  fix t and s :: "'p cio" and resp now
  assume "answered env t (fst s)" "length (t @ response_text (setKeepAlive (conn.keepAlive (fst s)) resp)) \<le> HALF"
  then show "\<exists>s'. tr_put (plain_transport env me) now resp s = Inr s' \<and>
      answered env (t @ response_text (setKeepAlive (conn.keepAlive (fst s)) resp)) (fst s')"
    using write_response_out [of env t "fst s" _ resp now me "fst (snd s)" "snd (snd s)"] by (auto simp: plain_transport_def)
qed (auto simp: plain_transport_def)

text \<open>Reads that are the text of a request in pieces.\<close>

definition segments :: "wire_request \<Rightarrow> (nat \<times> bytebuf) list \<Rightarrow> bool" where
  "segments w reads \<longleftrightarrow> (\<forall>(now, b) \<in> set reads. wf_buf b \<and> contents b \<noteq> []) \<and>
     concat (map (contents \<circ> snd) reads) = bytes_of (wire_text w)"

abbreviation plain_good :: "bytebuf \<Rightarrow> 'p cio \<Rightarrow> bool" where "plain_good \<equiv> \<lambda>buf s. wf_buf buf \<and> contents buf \<noteq> []"
abbreviation plain_text :: "bytebuf \<Rightarrow> 'p cio \<Rightarrow> bytes" where "plain_text \<equiv> \<lambda>buf s. contents buf"

lemma segments_carry:
  "\<forall>(now, b) \<in> set reads. wf_buf b \<and> contents b \<noteq> [] \<Longrightarrow>
     carries (plain_transport env me) sv plain_good plain_text (concat (map (contents \<circ> snd) reads)) reads t"
proof (induction reads arbitrary: t)
  case (Cons rd reads)
  then show ?case by (cases rd) (simp add: Let_def split: sum.split)
qed simp

lemma segments_sent:
  "\<forall>(w, reads) \<in> set xs. segments w reads \<Longrightarrow> sends (plain_transport env me) sv plain_good plain_text xs t"
proof (induction xs arbitrary: t)
  case (Cons x xs t)
  obtain w reads where x: "x = (w, reads)" by (cases x)
  then have "segments w reads" using Cons.prems by simp
  then have "carries (plain_transport env me) sv plain_good plain_text (bytes_of (wire_text w)) reads t"
    using segments_carry [of reads env me sv t] by (simp add: segments_def)
  then show ?case using Cons by (simp add: x split: sum.split)
qed simp

section \<open>Property\<close>


section \<open>Witness\<close>

definition demo_server :: "nat server" where
  "demo_server = \<lparr>sv_llhttp = demo_llhttp, sv_mem = demo_heap, sv_router = add_routes [(M_GET, ''/a'', Some 7)] router_new,
     sv_app = (\<lambda>h req. Some (setContent ''hi'' http_response_new))\<rparr>"

lemma demo_answer:
  "answer_to demo_server demo_wire =
     ''HTTP/1.1 200 OK'' @ CRLF @ ''Content-Length: 2'' @ CRLF @ ''Content-Type: text/plain'' @ CRLF @ ''Connection: keep-alive'' @ CRLF @ CRLF @ ''hi''"
proof -
  have "onRequest (wire_request_of demo_wire) (add_routes [(M_GET, ''/a'', Some (7::nat))] router_new) = Invoke 7 (wire_request_of demo_wire)"
    by (rule static_route_dispatch) (simp_all add: wire_request_of_def setRawData_def set_method_def setUri_def parsePath_def demo_wire_def http_request_new_def
        methodToMask_def static_entries_def is_static_def splitPath.simps normalizePath_def method_index_def)
  moreover have d: "decimal (Suc (Suc 0)) = ''2''" by code_simp
  moreover have "\<not> wants_close (w_headers demo_wire)" by (simp add: demo_wire_def)
  ultimately show ?thesis by (simp add: answer_to_def demo_server_def setKeepAlive_def setContent_def http_response_new_def
        response_text_def response_head_def render_header_def render_headers_def d)
qed

lemma demo_parsed: "list_all (\<lambda>x. fst x = demo_wire) xs \<Longrightarrow> parsed demo_server xs"
proof -
  assume a: "list_all (\<lambda>x. fst x = demo_wire) xs"
  have "length (wire_text demo_wire) \<le> HALF" by (simp add: demo_wire_text)
  then have "\<forall>(w, reads) \<in> set xs. good_request {demo_wire} w \<and> length (wire_text w) \<le> HALF"
    using a demo_wire_good by (auto simp: list_all_iff)
  then show ?thesis using demo_llhttp_parses demo_heap_grants unfolding parsed_def demo_server_def by auto
qed


end
