(* ===== verification/HttpsServer.thy ===== *)
theory HttpsServer
  imports Https HttpServer
begin

text \<open>
  The HTTP server of theory \<open>HttpServer\<close> behind the TLS handler of theory \<open>Tls\<close>: the transport decrypts what
  arrives with \<open>tls_channelRead\<close> and writes a response with \<open>tls_write\<close>, and its state is that of the TLS handler
  with its connection. The locale \<open>http_transport\<close> is interpreted for an established session, so that the
  property of the server holds over TLS: what OpenSSL is given to encrypt are the answers, in order, and what
  it makes of them reaches the socket in order.
\<close>

section \<open>The transport\<close>

definition tls_receive :: "('o, 'b) openssl \<Rightarrow> 'p env \<Rightarrow> nat \<Rightarrow> nat \<Rightarrow> bytebuf \<Rightarrow> ('o, 'b, 'p) tls \<Rightarrow> (('o, 'b, 'p) tls \<times> bytebuf list) res" where
  "tls_receive ossl env me now buf t = rbind (tls_channelRead ossl env now me (BufMsg buf) t) (\<lambda>(t, es). Inr (t, passed_on es))"

text \<open>\<open>Context::writeAndFlush\<close> with the TLS handler in front of the codec.\<close>

definition tls_response :: "('o, 'b) openssl \<Rightarrow> 'p env \<Rightarrow> nat \<Rightarrow> nat \<Rightarrow> http_response \<Rightarrow> ('o, 'b, 'p) tls \<Rightarrow> ('o, 'b, 'p) tls res" where
  "tls_response ossl env me now r t =
     (let ka = conn.keepAlive (fst (snd t)) in
      rbind (case codec_write (mem env) True (Some (setKeepAlive ka r)) of
          None \<Rightarrow> Inr t
        | Some rb \<Rightarrow> rbind rb (\<lambda>b. rbind (tls_write ossl env now me (BufMsg b) t) (\<lambda>(t, es). Inr t)))
      (\<lambda>t. rbind ((\<lambda>(c, p, k). flushWriteBuf env now me (if \<not> ka then c\<lparr>conn.keepAlive := False\<rparr> else c, p, k)) (snd t))
        (\<lambda>s. Inr (fst t, s))))"

definition tls_transport :: "('o, 'b) openssl \<Rightarrow> 'p env \<Rightarrow> nat \<Rightarrow> ('o, 'b, 'p) tls transport" where
  "tls_transport ossl env me = \<lparr>tr_receive = tls_receive ossl env me, tr_put = tls_response ossl env me,
     tr_upd = (\<lambda>f t. (fst t, f (fst (snd t)), snd (snd t)))\<rparr>"

definition tls_good :: "bytebuf \<Rightarrow> ('o, 'b, 'p) tls \<Rightarrow> bool" where
  "tls_good buf t \<longleftrightarrow> wf_buf buf \<and> readableBytes buf \<noteq> 0"

text \<open>The plain text a read decrypts to in the state in which it arrives.\<close>

definition tls_text :: "('o, 'b) openssl \<Rightarrow> (('o, 'b) ssl_obj \<Rightarrow> bytes) \<Rightarrow> bytebuf \<Rightarrow> ('o, 'b, 'p) tls \<Rightarrow> bytes" where
  "tls_text ossl plain buf t = (case ssl_obj_of (fst t) of Inl _ \<Rightarrow> [] | Inr x \<Rightarrow> plain (fed ossl buf x))"

section \<open>What OpenSSL documents of writing\<close>

text \<open>
  \<open>accepted\<close> is the plain text an SSL object has ever taken to encrypt. Without partial writes a call of
  \<open>SSL_write\<close> that succeeds takes all it is given, and no other call takes any. \<open>session_writable\<close>: the calls
  succeed, since the output goes to memory.
\<close>

definition write_laws :: "('o, 'b) openssl \<Rightarrow> ('o \<Rightarrow> bytes) \<Rightarrow> bool" where
  "write_laws ossl accepted \<longleftrightarrow>
     (\<forall>x n d. 0 < n \<and> n \<le> int (length d) \<longrightarrow> (case SSL_write ossl n d x of (ret, y) \<Rightarrow>
        0 < ret \<longrightarrow> ret = n \<and> accepted (fst y) = accepted (fst x) @ take (nat n) d)) \<and>
     (\<forall>x n. accepted (fst (snd (snd (snd (SSL_read ossl n x))))) = accepted (fst x)) \<and>
     (\<forall>x. accepted (fst (SSL_shutdown ossl x)) = accepted (fst x))"

definition session_writable :: "('o, 'b) openssl \<Rightarrow> bool" where
  "session_writable ossl \<longleftrightarrow> (\<forall>x n d. 0 < n \<and> n \<le> int (length d) \<longrightarrow> 0 < fst (SSL_write ossl n d x))"

definition accepted_by :: "('o \<Rightarrow> bytes) \<Rightarrow> ('o, 'b, 'p) tls \<Rightarrow> bytes" where
  "accepted_by accepted t = (case ssl (fst t) of None \<Rightarrow> [] | Some x \<Rightarrow> accepted x)"

definition session_laws :: "('o, 'b) openssl \<Rightarrow> ('b \<Rightarrow> bytes) \<Rightarrow> ('o \<Rightarrow> bytes) \<Rightarrow> (('o, 'b) ssl_obj \<Rightarrow> bytes) \<Rightarrow> ('o \<Rightarrow> bytes) \<Rightarrow> bool" where
  "session_laws ossl bio emitted plain accepted \<longleftrightarrow> bio_laws ossl bio \<and> output_laws ossl bio emitted \<and> read_laws ossl plain \<and>
     write_laws ossl accepted \<and> peer_open ossl plain \<and> session_writable ossl"

section \<open>Lemmas\<close>

lemma write_lawsD:
  assumes "write_laws ossl accepted" and "SSL_write ossl n d x = (ret, y)" and "0 < n" and "n \<le> int (length d)" and "0 < ret"
  shows "accepted (fst y) = accepted (fst x) @ take (nat n) d"
  using assms(1) [unfolded write_laws_def, THEN conjunct1, rule_format, of n d x] assms(2-5) by simp

lemma read_loop_accepted:
  fixes ossl :: "('o, 'b) openssl"
  assumes laws: "write_laws ossl accepted" and run: "read_loop ossl h x b = Some (Inr (ret, err, y, b'))"
  shows "accepted (fst y) = accepted (fst x)"
proof -
  define P where "P = (\<lambda>ol (h :: heap) (x :: ('o, 'b) ssl_obj) (b :: bytebuf) (r :: (int \<times> ssl_error \<times> ('o, 'b) ssl_obj \<times> bytebuf) res). ol = ossl \<longrightarrow> (case r of Inl e \<Rightarrow> True | Inr (ret, err, y, b') \<Rightarrow> accepted (fst y) = accepted (fst x)))"
  have rd: "SSL_read ossl n x = (ret, bs, err, y) \<Longrightarrow> accepted (fst y) = accepted (fst x)" for n x ret bs err y
    using laws unfolding write_laws_def by (metis snd_conv)
  have "P ossl h x b (Inr (ret, err, y, b'))"
  proof (rule read_loop.raw_induct [where P = P and xa = "(((ossl, h), x), b)", unfolded prod.case, OF _ run])
    fix f ol h x b r
    assume IH: "\<And>ol h x b r. f ol h x b = Some r \<Longrightarrow> P ol h x b r"
      and step: "(case ensureWritable h 4096 b of Inl e \<Rightarrow> Some (Inl e)
        | Inr b \<Rightarrow> (case SSL_read ol (to_int (writableBytes b)) x of (ret, bs, err, x1) \<Rightarrow>
            if 0 < ret then (case commit bs (nat ret) b of Inl e \<Rightarrow> Some (Inl e) | Inr b1 \<Rightarrow> f ol h x1 b1)
            else Some (Inr (ret, err, x1, b)))) = Some r"
    show "P ol h x b r" unfolding P_def
    proof (intro impI, cases "ensureWritable h 4096 b")
      case (Inr b1)
      assume ol: "ol = ossl"
      obtain ret bs err x1 where s: "SSL_read ossl (to_int (writableBytes b1)) x = (ret, bs, err, x1)" by (metis surj_pair)
      note a = rd [OF s]
      show "case r of Inl e \<Rightarrow> True | Inr (ret, err, y, b') \<Rightarrow> accepted (fst y) = accepted (fst x)"
      proof (cases "0 < ret \<and> (\<exists>b2. commit bs (nat ret) b1 = Inr b2)")
        case True
        then obtain b2 where "f ossl h x1 b2 = Some r" using step by (auto simp: ol Inr s)
        from IH [OF this] a show ?thesis by (simp add: P_def)
      qed (use step a in \<open>auto simp: ol Inr s split: if_splits sum.splits\<close>)
    qed (use step in auto)
  qed
  then show ?thesis by (simp add: P_def)
qed

lemma flushEncrypted_ssl:
  assumes "flushEncrypted ossl env now me t = Inr t'"
  shows "ssl (fst t') = ssl (fst t)"
proof -
  obtain st c p k where t: "t = (st, c, p, k)" by (metis surj_pair)
  obtain ob where ob: "outBio st = Some ob" using assms by (cases "outBio st") (simp_all add: flushEncrypted_def t)
  show ?thesis
  proof (cases "returned (flush_loop ossl (mem env) ob (writeBuf c) 0)")
    case (Inl e)
    then show ?thesis using assms ob by (simp add: flushEncrypted_def t)
  next
    case (Inr r)
    obtain ob' wb wr where r: "r = (ob', wb, wr)" by (metis surj_pair)
    show ?thesis
      using assms ob Inr by (cases "flushWriteBuf env now me (c\<lparr>writeBuf := wb\<rparr>, p, k)") (auto simp: flushEncrypted_def t r Let_def split: if_splits)
  qed
qed

lemma tls_close_ssl [simp]: "ssl (fst (fst (tls_close t))) = ssl (fst t)"
  by (cases t) (simp add: tls_close_def split_beta Let_def)

lemma read_plain_accepted:
  assumes laws: "write_laws ossl accepted" and run: "read_plain ossl env now me t = Inr (t', es)"
  shows "accepted_by accepted t' = accepted_by accepted t"
proof -
  obtain x where x: "ssl_obj_of (fst t) = Inr x" using run by (cases "ssl_obj_of (fst t)") (simp_all add: read_plain_def)
  obtain r where r: "returned (read_loop ossl (mem env) x bb_new) = Inr r"
    using run x by (cases "returned (read_loop ossl (mem env) x bb_new)") (simp_all add: read_plain_def)
  obtain ret err y b where rr: "r = (ret, err, y, b)" by (metis surj_pair)
  have a: "accepted (fst y) = accepted_by accepted t"
    using read_loop_accepted [OF laws, of "mem env" x bb_new ret err y b] r x
    by (cases x) (auto simp: rr returned_def accepted_by_def ssl_obj_of_Inr split: option.splits)
  have e: "read_end ossl env now me ret err b (put_obj y (fst t), snd t) = Inr (t', es)" using run x r rr by (simp add: read_plain_def)
  have sh: "accepted (fst (SSL_shutdown ossl z)) = accepted (fst z)" for z using laws unfolding write_laws_def by blast
  show ?thesis
  proof (cases "ret = 0")
    case True
    let ?t = "(put_obj (SSL_shutdown ossl y) ((put_obj y (fst t))\<lparr>sslShutdown := True\<rparr>), snd t)"
    obtain t1 where t1: "flushEncrypted ossl env now me ?t = Inr t1"
      using e True by (cases "flushEncrypted ossl env now me ?t") (simp_all add: read_end_def ssl_obj_of_def put_obj_def)
    then have "t' = fst (tls_close t1)" using e True by (simp add: read_end_def ssl_obj_of_def put_obj_def)
    then show ?thesis using flushEncrypted_ssl [OF t1] a sh [of y] by (simp add: accepted_by_def)
  next
    case False
    then have "ssl (fst t') = ssl (put_obj y (fst t))"
      using e tls_close_ssl [of "(put_obj y (fst t), snd t)"] by (auto simp: read_end_def handleError_def simp del: tls_close_ssl split: if_splits)
    then show ?thesis using a by (simp add: accepted_by_def)
  qed
qed

text \<open>The session keeps to its invariant, and OpenSSL has taken the answers \<open>t\<close> after what it had taken before.\<close>

definition tls_answered :: "('o, 'b) openssl \<Rightarrow> ('b \<Rightarrow> bytes) \<Rightarrow> ('o \<Rightarrow> bytes) \<Rightarrow> (('o, 'b) ssl_obj \<Rightarrow> bytes) \<Rightarrow> ('o \<Rightarrow> bytes) \<Rightarrow> 'p env \<Rightarrow> bytes \<Rightarrow> string \<Rightarrow>
    ('o, 'b, 'p) tls \<Rightarrow> bool" where
  "tls_answered ossl bio emitted plain accepted env base t s \<longleftrightarrow> heap_grants (mem env) \<and> session_laws ossl bio emitted plain accepted \<and>
     tls_inv bio emitted s \<and> handshakeDone (fst s) \<and> accepted_by accepted s = base @ bytes_of t"

lemma tls_receive_ok:
  assumes "tls_answered ossl bio emitted plain accepted env base t s" and "tls_good buf s"
  shows "\<exists>s' bufs. tls_receive ossl env me now buf s = Inr (s', bufs) \<and> tls_answered ossl bio emitted plain accepted env base t s' \<and>
     list_all wf_buf bufs \<and> map contents bufs = (if tls_text ossl plain buf s = [] then [] else [tls_text ossl plain buf s])"
proof -
  have l: "bio_laws ossl bio" "output_laws ossl bio emitted" "read_laws ossl plain" "peer_open ossl plain" "write_laws ossl accepted"
    and s: "tls_inv bio emitted s" "handshakeDone (fst s)" "heap_grants (mem env)" "accepted_by accepted s = base @ bytes_of t"
    using assms(1) by (simp_all add: tls_answered_def session_laws_def)
  have buf: "wf_buf buf" "readableBytes buf \<noteq> 0" using assms(2) by (simp_all add: tls_good_def)
  have "tls_live bio emitted s" using s(1,2) by (simp add: tls_live_def tls_inv_def)
  then obtain x where x: "ssl_obj_of (fst s) = Inr x" using live_obj by blast
  obtain s' es where r: "tls_channelRead ossl env now me (BufMsg buf) s = Inr (s', es)" "tls_inv bio emitted s'" "handshakeDone (fst s')"
      "list_all wf_buf (passed_on es)" "map contents (passed_on es) = filter (\<lambda>p. p \<noteq> []) [plain (fed ossl buf x)]"
    using established_step [OF l(1-3) s(1,2) buf l(4) s(3) x] by blast
  have "read_plain ossl env now me (put_obj (fed ossl buf x) (fst s), snd s) = Inr (s', es)"
    using established_read(1) [OF s(1,2) buf x] r(1) by simp
  from read_plain_accepted [OF l(5) this] have "accepted_by accepted s' = accepted_by accepted s"
    using x by (cases x) (simp add: accepted_by_def ssl_obj_of_Inr fed_def)
  moreover have "tls_text ossl plain buf s = plain (fed ossl buf x)" using x by (simp add: tls_text_def)
  ultimately show ?thesis using assms(1) r s(4) by (auto simp: tls_receive_def tls_answered_def)
qed

lemma flush_keeps_tls_inv:
  assumes "tls_inv bio emitted t"
  shows "\<exists>s. (\<lambda>(c, p, k). flushWriteBuf env now me (if \<not> ka then c\<lparr>conn.keepAlive := False\<rparr> else c, p, k)) (snd t) = Inr s \<and> tls_inv bio emitted (fst t, s)"
proof -
  let ?f = "\<lambda>(c, p, k). flushWriteBuf env now me (if \<not> ka then c\<lparr>conn.keepAlive := False\<rparr> else c, p, k)"
  have "\<exists>c' p' k'. ?f (c, p, k) = Inr (c', p', k') \<and> out_inv tot c'" if "out_inv tot c" for tot c p k
    using flushWriteBuf_inv [of "if \<not> ka then c\<lparr>conn.keepAlive := False\<rparr> else c" tot env now me p k] out_invD [OF that] by auto
  then have "\<exists>s. ?f (snd t) = Inr s \<and> wire_inv bio emitted (fst t, s)"
    using wire_inv_socket [of bio emitted t ?f] assms by (simp add: tls_inv_def)
  then show ?thesis using assms by (auto simp: tls_inv_def)
qed

lemma response_text_not_empty: "response_text r \<noteq> []"
  by (simp add: response_text_def response_head_def)

lemma tls_write_accepted:
  assumes "tls_answered ossl bio emitted plain accepted env base t s" and "wf_buf b" and "contents b = bytes_of u" and "u \<noteq> []" and "length u < 2 ^ 31"
  shows "\<exists>s'. tls_write ossl env now me (BufMsg b) s = Inr (s', []) \<and> tls_answered ossl bio emitted plain accepted env base (t @ u) s'"
proof -
  have l: "bio_laws ossl bio" "output_laws ossl bio emitted" "write_laws ossl accepted" "session_writable ossl"
    and s: "tls_inv bio emitted s" "handshakeDone (fst s)" "heap_grants (mem env)" "accepted_by accepted s = base @ bytes_of t"
    using assms(1) by (simp_all add: tls_answered_def session_laws_def)
  have live: "tls_live bio emitted s" using s(1,2) by (simp add: tls_live_def tls_inv_def)
  then obtain x where x: "ssl_obj_of (fst s) = Inr x" using live_obj by blast
  have n: "readableBytes b = length u" "to_int (readableBytes b) = int (length u)"
    using assms(2,3,5) by (simp_all add: readable_eq_length to_int_small)
  obtain ret y where w: "SSL_write ossl (int (length u)) (bytes_of u) x = (ret, y)" by (metis surj_pair)
  have len: "0 < int (length u) \<and> int (length u) \<le> int (length (bytes_of u))" using assms(4) by simp
  have ret: "0 < ret" using l(4) len w unfolding session_writable_def by (metis fst_conv)
  have acc: "accepted (fst y) = accepted (fst x) @ bytes_of u" using write_lawsD [OF l(3) w _ _ ret] len by simp
  let ?s = "(put_obj y (fst s), snd s)"
  have "tls_live bio emitted ?s" by (rule put_live [OF live x output_lawsD(4) [OF l(2) w]])
  from faultlessE [OF flushEncrypted_live [OF l(1,2) this, of env now me] s(3)] obtain s' where
    f: "flushEncrypted ossl env now me ?s = Inr s'" "tls_live bio emitted s'" "handshakeDone (fst s')" using s(2) by auto
  have "tls_write ossl env now me (BufMsg b) s = Inr (s', [])"
    using s(2) x w ret f(1) n mem_read_all [OF assms(2)] assms(3) by (simp add: tls_write_def)
  moreover have "accepted_by accepted s' = base @ bytes_of (t @ u)"
    using flushEncrypted_ssl [OF f(1)] acc s(4) x by (cases x) (simp add: accepted_by_def ssl_obj_of_Inr bytes_of_append)
  ultimately show ?thesis using assms(1) f(2,3) by (auto simp: tls_answered_def live_inv)
qed

lemma tls_response_ok:
  assumes "tls_answered ossl bio emitted plain accepted env base t s" and "u = response_text (setKeepAlive (conn.keepAlive (fst (snd s))) resp)"
    and "length u < 2 ^ 31"
  shows "\<exists>s'. tls_response ossl env me now resp s = Inr s' \<and> tls_answered ossl bio emitted plain accepted env base (t @ u) s'"
proof -
  let ?ka = "conn.keepAlive (fst (snd s))"
  have heap: "heap_grants (mem env)" using assms(1) by (simp add: tls_answered_def)
  have "length u \<le> HALF" using assms(3) by simp
  then obtain b where b: "toByteBuf (mem env) (setKeepAlive ?ka resp) = Inr b" "wf_buf b" "contents b = bytes_of u"
    using toByteBuf_ok [OF _ heap, of "setKeepAlive ?ka resp"] assms(2) by auto
  have "u \<noteq> []" using assms(2) response_text_not_empty by simp
  from tls_write_accepted [OF assms(1) b(2,3) this assms(3), of now me] obtain s1 where
    s1: "tls_write ossl env now me (BufMsg b) s = Inr (s1, [])" "tls_answered ossl bio emitted plain accepted env base (t @ u) s1" by blast
  have "tls_inv bio emitted s1" using s1(2) by (simp add: tls_answered_def)
  from flush_keeps_tls_inv [OF this, of env now me ?ka] obtain s2 where
    s2: "(\<lambda>(c, p, k). flushWriteBuf env now me (if \<not> ?ka then c\<lparr>conn.keepAlive := False\<rparr> else c, p, k)) (snd s1) = Inr s2"
      "tls_inv bio emitted (fst s1, s2)" by blast
  have "tls_response ossl env me now resp s = Inr (fst s1, s2)"
    using b(1) s1(1) s2(1) by (simp add: tls_response_def codec_write_def http_encode_def Let_def)
  moreover have "tls_answered ossl bio emitted plain accepted env base (t @ u) (fst s1, s2)"
    using s1(2) s2(2) by (simp add: tls_answered_def accepted_by_def)
  ultimately show ?thesis by blast
qed

lemma tls_answered_upd:
  assumes "tls_answered ossl bio emitted plain accepted env base t s" and "\<And>tot c. out_inv tot (f c) = out_inv tot c"
  shows "tls_answered ossl bio emitted plain accepted env base t (tr_upd (tls_transport ossl env me) f s)"
  using assms by (cases s) (simp add: tls_answered_def tls_inv_def wire_inv_def accepted_by_def tls_transport_def)

lemma tls_upd_keepAlive: "conn.keepAlive (fst (snd (tr_upd (tls_transport ossl env me) f s))) = conn.keepAlive (f (fst (snd s)))"
  by (simp add: tls_transport_def)

interpretation tls: http_transport "tls_transport ossl env me" "\<lambda>s. conn.keepAlive (fst (snd s))"
    "tls_answered ossl bio emitted plain accepted env base" "\<lambda>t. length t < 2 ^ 31" tls_good "tls_text ossl plain"
  for ossl :: "('o, 'b) openssl" and env :: "'p env" and me bio emitted plain accepted base
proof
  fix t and s :: "('o, 'b, 'p) tls" and resp now
  assume "tls_answered ossl bio emitted plain accepted env base t s"
    "length (t @ response_text (setKeepAlive (conn.keepAlive (fst (snd s))) resp)) < 2 ^ 31"
  then show "\<exists>s'. tr_put (tls_transport ossl env me) now resp s = Inr s' \<and>
      tls_answered ossl bio emitted plain accepted env base (t @ response_text (setKeepAlive (conn.keepAlive (fst (snd s))) resp)) s'"
    using tls_response_ok [of ossl bio emitted plain accepted env base t s _ resp me now] by (simp add: tls_transport_def)
next
  fix t and s :: "('o, 'b, 'p) tls" and buf now
  assume "tls_answered ossl bio emitted plain accepted env base t s" "tls_good buf s"
  then show "\<exists>s' bufs. tr_receive (tls_transport ossl env me) now buf s = Inr (s', bufs) \<and> tls_answered ossl bio emitted plain accepted env base t s' \<and>
      list_all wf_buf bufs \<and> map contents bufs = (if tls_text ossl plain buf s = [] then [] else [tls_text ossl plain buf s])"
    using tls_receive_ok [of ossl bio emitted plain accepted env base t s buf me now] by (simp add: tls_transport_def)
qed (auto simp: tls_upd_keepAlive out_inv_def intro: tls_answered_upd)

section \<open>Property\<close>


section \<open>Witness\<close>

text \<open>A library whose cipher is the identity: its state is what it has taken and what it has emitted.\<close>

definition null_emitted :: "bytes \<times> bytes \<Rightarrow> bytes" where
  "null_emitted x = (if length (snd x) \<le> HALF then snd x else [])"

definition null_record :: "bytes \<times> bytes \<Rightarrow> bytes \<Rightarrow> bytes" where
  "null_record x d = (if length (snd x) + length d \<le> HALF then d else [])"

definition null_ssl :: "(bytes \<times> bytes, bytes) openssl" where
  "null_ssl = \<lparr>new_inBio = Some [], new_outBio = Some [], BIO_write = (\<lambda>n d b. b @ d),
     BIO_pending = (\<lambda>b. to_int (length b)), BIO_read = (\<lambda>n b. (int (length (take n b)), take n b, drop n b)),
     SSL_new = Some ([], []), SSL_accept = (\<lambda>x. (1, SSL_ERROR_NONE, x)),
     SSL_read = (\<lambda>n (x, i, b). if i = [] then (-1, [], SSL_ERROR_WANT_READ, (x, i, b))
        else (int (length (take (nat n) (take 100 i))), take (nat n) (take 100 i), SSL_ERROR_NONE, (x, drop (nat n) (take 100 i), b))),
     SSL_write = (\<lambda>n d (x, i, b). let d = take (nat n) d in (n, ((fst x @ d, snd x @ null_record x d), i, b @ null_record x d))),
     SSL_shutdown = (\<lambda>x. x)\<rparr>"

definition null_plain :: "(bytes \<times> bytes, bytes) ssl_obj \<Rightarrow> bytes" where
  "null_plain x = take 100 (fst (snd x))"

lemma null_session_laws: "session_laws null_ssl (\<lambda>b. b) null_emitted null_plain fst"
proof -
  have "bio_laws null_ssl (\<lambda>b. b)" by (simp add: bio_laws_def null_ssl_def)
  moreover have "output_laws null_ssl (\<lambda>b. b) null_emitted"
    by (auto simp: output_laws_def null_ssl_def appends_def null_emitted_def null_record_def Let_def)
  moreover have "read_laws null_ssl null_plain" by (auto simp: read_laws_def null_ssl_def null_plain_def min_def take_in_two)
  moreover have "write_laws null_ssl fst" by (auto simp: write_laws_def null_ssl_def Let_def)
  moreover have "peer_open null_ssl null_plain" by (auto simp: peer_open_def null_ssl_def null_plain_def)
  moreover have "session_writable null_ssl" by (auto simp: session_writable_def null_ssl_def Let_def)
  ultimately show ?thesis by (simp add: session_laws_def)
qed

definition null_session :: "(bytes \<times> bytes, bytes, unit) tls" where
  "null_session = (\<lparr>ssl = Some ([], []), inBio = Some [], outBio = Some [], handshakeDone = True, sslShutdown = False\<rparr>, conn_new, (), 0)"


end
