(* ===== verification/Bootstrap.thy ===== *)
theory Bootstrap
  imports EventLoop LoopGroup Worker
begin

text \<open>
  The server bootstrap (\<open>src/bootstrap/server_bootstrap.cpp\<close>, \<open>include/xnetty/bootstrap/server_bootstrap.h\<close>):
  the configuration with the setters that bound it, the hook that configures a worker loop, and the life
  cycle \<open>start\<close>, \<open>wait\<close>, \<open>shutdownGracefully\<close> over the group of worker loops and the accepting loop of theory
  \<open>LoopGroup\<close>. The names of the created loops and the answers of the kernel are parameters, as there; threads
  that are started, stopped and joined are recorded as effects.
\<close>

section \<open>Configuration\<close>

record 'c boot_config =
  cf_port :: int
  cf_workerThreads :: int
  cf_readTimeoutMs :: int
  cf_writeTimeoutMs :: int
  cf_maxHeaderSize :: nat
  cf_maxBodySize :: nat
  cf_eventQueueSize :: nat
  cf_timerSlots :: nat
  cf_timerTickMs :: nat
  cf_maxEventsPerPoll :: int
  cf_listenBacklog :: int
  cf_tcpNoDelay :: bool
  cf_writeBufWaterMark :: nat
  cf_pipeline :: "'c option"

definition config_new :: "'c boot_config" where
  "config_new = \<lparr>cf_port = 8080, cf_workerThreads = 4, cf_readTimeoutMs = 10000, cf_writeTimeoutMs = 10000,
     cf_maxHeaderSize = 0, cf_maxBodySize = 0, cf_eventQueueSize = 65536, cf_timerSlots = 256, cf_timerTickMs = 1000,
     cf_maxEventsPerPoll = 1024, cf_listenBacklog = 128, cf_tcpNoDelay = True, cf_writeBufWaterMark = 65536, cf_pipeline = None\<rparr>"

datatype 'c setter = Port int | WorkerThreads int | ReadTimeoutMs int | WriteTimeoutMs int | IdleTimeoutMs int |
  MaxHeaderSize nat | MaxBodySize nat | EventQueueSize nat | TimerSlots nat | TimerTickMs nat | MaxEventsPerPoll int |
  ListenBacklog int | TcpNoDelay bool | WriteBufWaterMark nat | PipelineConfig 'c

fun apply_setter :: "'c setter \<Rightarrow> 'c boot_config \<Rightarrow> 'c boot_config" where
  "apply_setter (Port p) c = c\<lparr>cf_port := (if p < 0 then 8080 else p)\<rparr>"
| "apply_setter (WorkerThreads n) c = c\<lparr>cf_workerThreads := (if n < 1 then 1 else n)\<rparr>"
| "apply_setter (ReadTimeoutMs ms) c = c\<lparr>cf_readTimeoutMs := (if ms < 0 then 0 else ms)\<rparr>"
| "apply_setter (WriteTimeoutMs ms) c = c\<lparr>cf_writeTimeoutMs := (if ms < 0 then 0 else ms)\<rparr>"
| "apply_setter (IdleTimeoutMs ms) c = c\<lparr>cf_readTimeoutMs := ms, cf_writeTimeoutMs := ms\<rparr>"
| "apply_setter (MaxHeaderSize n) c = c\<lparr>cf_maxHeaderSize := n\<rparr>"
| "apply_setter (MaxBodySize n) c = c\<lparr>cf_maxBodySize := n\<rparr>"
| "apply_setter (EventQueueSize n) c = c\<lparr>cf_eventQueueSize := (if n < 64 then 64 else n)\<rparr>"
| "apply_setter (TimerSlots n) c = c\<lparr>cf_timerSlots := (if n < 8 then 8 else n)\<rparr>"
| "apply_setter (TimerTickMs ms) c = c\<lparr>cf_timerTickMs := (if ms < 1 then 1 else ms)\<rparr>"
| "apply_setter (MaxEventsPerPoll n) c = c\<lparr>cf_maxEventsPerPoll := (if n < 1 then 1024 else n)\<rparr>"
| "apply_setter (ListenBacklog n) c = c\<lparr>cf_listenBacklog := (if n < 1 then 128 else if n > 65535 then 65535 else n)\<rparr>"
| "apply_setter (TcpNoDelay b) c = c\<lparr>cf_tcpNoDelay := b\<rparr>"
| "apply_setter (WriteBufWaterMark n) c = c\<lparr>cf_writeBufWaterMark := n\<rparr>"
| "apply_setter (PipelineConfig f) c = c\<lparr>cf_pipeline := Some f\<rparr>"

definition configure :: "'c setter list \<Rightarrow> 'c boot_config" where
  "configure ss = fold apply_setter ss config_new"

section \<open>Configuring a worker loop\<close>

record ('f, 'p, 'c) wloop =
  wl_loop :: "'f evloop"
  wl_worker :: "'p worker"
  wl_maxHeaderSize :: nat
  wl_maxBodySize :: nat
  wl_tcpNoDelay :: bool
  wl_pipeline :: "'c option"

definition workerInit :: "'c boot_config \<Rightarrow> ('f, 'p, 'c) wloop \<Rightarrow> ('f, 'p, 'c) wloop res" where
  "workerInit c l =
     (let l = (case cf_pipeline c of None \<Rightarrow> l | Some f \<Rightarrow> l\<lparr>wl_pipeline := Some f\<rparr>);
          l = l\<lparr>wl_worker := (wl_worker l)\<lparr>readTimeoutMs := cf_readTimeoutMs c, writeTimeoutMs := cf_writeTimeoutMs c\<rparr>\<rparr>;
          l = l\<lparr>wl_maxHeaderSize := cf_maxHeaderSize c, wl_maxBodySize := cf_maxBodySize c, wl_tcpNoDelay := cf_tcpNoDelay c\<rparr>;
          l = l\<lparr>wl_worker := (wl_worker l)\<lparr>w_waterMark := cf_writeBufWaterMark c\<rparr>\<rparr>
      in rbind (setEventQueueSize (cf_eventQueueSize c) (wl_loop l)) (\<lambda>el.
         Inr (l\<lparr>wl_loop := setMaxEventsPerPoll (cf_maxEventsPerPoll c)
                            (setTimerTickMs (cf_timerTickMs c) (setTimerSlots (cf_timerSlots c) el))\<rparr>)))"

section \<open>Life cycle\<close>

record 'c bootstrap =
  bt_config :: "'c boot_config"
  bt_running :: bool
  bt_group :: loop_group
  bt_boss :: "int option"
  bt_bossThread :: bool
  bt_promise :: bool

datatype boot_effect = Group group_effect | Net accept_effect | BossSpawn | BossStop | BossJoin | PromiseSet

text \<open>\<open>FutureError\<close>: the promise is satisfied a second time. \<open>ThreadOverwritten\<close>: a joinable thread object is assigned to.\<close>

datatype boot_error = ListenFailed int | FutureError | ThreadOverwritten

type_synonym 'c boot_result = "'c bootstrap \<times> boot_effect list \<times> boot_error option"

definition boot_new :: "'c bootstrap" where
  "boot_new = \<lparr>bt_config = config_new, bt_running = False, bt_group = group_new 1, bt_boss = None, bt_bossThread = False, bt_promise = False\<rparr>"

definition boot_start :: "(nat \<Rightarrow> nat) \<Rightarrow> net_answers \<Rightarrow> 'c bootstrap \<Rightarrow> 'c boot_result" where
  "boot_start name k b =
     (if bt_running b then (b, [], None)
      else
        let (g, ges) = start True name (setThreadCount (cf_workerThreads (bt_config b)) (bt_group b));
            (ok, fd, les) = boss_listen k;
            b1 = b\<lparr>bt_running := True, bt_group := g, bt_boss := Some fd\<rparr>;
            es = map Group ges @ map Net les
        in if \<not> ok then (b1, es, Some (ListenFailed (cf_port (bt_config b))))
           else if bt_bossThread b then (b1, es @ [BossSpawn], Some ThreadOverwritten)
           else (b1\<lparr>bt_bossThread := True\<rparr>, es @ [BossSpawn], None))"

definition boot_shutdown :: "'c bootstrap \<Rightarrow> 'c boot_result" where
  "boot_shutdown b =
     (if \<not> bt_running b then (b, [], None)
      else if bt_promise b then (b\<lparr>bt_running := False\<rparr>, [], Some FutureError)
      else
        let (g, ges) = stopAll (bt_group b)
        in (b\<lparr>bt_running := False, bt_promise := True, bt_bossThread := False, bt_group := g\<rparr>,
            [PromiseSet] @ (if bt_boss b \<noteq> None then [BossStop] else []) @ (if bt_bossThread b then [BossJoin] else []) @ map Group ges,
            None))"

text \<open>\<open>wait\<close> returns once the promise is set.\<close>

definition boot_wait_returns :: "'c bootstrap \<Rightarrow> bool" where
  "boot_wait_returns b = bt_promise b"

section \<open>Lemmas\<close>

text \<open>The bounds that the setters keep. The timeouts have none: \<open>idleTimeoutMs\<close> sets them as they are.\<close>

definition config_ok :: "'c boot_config \<Rightarrow> bool" where
  "config_ok c \<longleftrightarrow> 0 \<le> cf_port c \<and> 1 \<le> cf_workerThreads c \<and> 64 \<le> cf_eventQueueSize c \<and> 8 \<le> cf_timerSlots c \<and>
     1 \<le> cf_timerTickMs c \<and> 1 \<le> cf_maxEventsPerPoll c \<and> 1 \<le> cf_listenBacklog c \<and> cf_listenBacklog c \<le> 65535"

lemma apply_setter_ok: "config_ok c \<Longrightarrow> config_ok (apply_setter s c)"
  by (cases s) (simp_all add: config_ok_def)

lemma configure_ok: "config_ok (configure ss)"
proof -
  have "config_ok c \<Longrightarrow> config_ok (fold apply_setter ss c)" for c :: "'a boot_config"
    by (induction ss arbitrary: c) (simp_all add: apply_setter_ok)
  moreover have "config_ok config_new" by (simp add: config_ok_def config_new_def)
  ultimately show ?thesis by (simp add: configure_def)
qed

text \<open>The threads started and joined by a list of effects, the accepting loop's thread being \<open>None\<close>.\<close>

fun spawned_threads :: "boot_effect list \<Rightarrow> nat option list" where
  "spawned_threads [] = []"
| "spawned_threads (Group (SpawnThread w) # es) = Some w # spawned_threads es"
| "spawned_threads (BossSpawn # es) = None # spawned_threads es"
| "spawned_threads (_ # es) = spawned_threads es"

fun joined_threads :: "boot_effect list \<Rightarrow> nat option list" where
  "joined_threads [] = []"
| "joined_threads (Group (JoinThread w) # es) = Some w # joined_threads es"
| "joined_threads (BossJoin # es) = None # joined_threads es"
| "joined_threads (_ # es) = joined_threads es"

lemma spawned_append [simp]: "spawned_threads (es @ fs) = spawned_threads es @ spawned_threads fs"
  by (induction es rule: spawned_threads.induct) simp_all

lemma joined_append [simp]: "joined_threads (es @ fs) = joined_threads es @ joined_threads fs"
  by (induction es rule: joined_threads.induct) simp_all

definition spawn_effects :: "bool \<Rightarrow> nat list \<Rightarrow> group_effect list" where
  "spawn_effects cb ws = concat (map (\<lambda>w. (if cb then [InitLoop w] else []) @ [SpawnThread w]) ws)"

lemma group_spawns [simp]: "spawned_threads (map Group (spawn_effects cb ws)) = map Some ws"
  by (induction ws) (simp_all add: spawn_effects_def)

lemma net_spawns [simp]: "spawned_threads (map Net ls) = []" "joined_threads (map Net ls) = []"
  by (induction ls) simp_all

lemma group_joins [simp]:
  "joined_threads (map Group (map StopLoop ls @ map JoinThread ws)) = map Some ws"
proof -
  have "joined_threads (map (Group \<circ> StopLoop) ls) = []" by (induction ls) simp_all
  moreover have "joined_threads (map (Group \<circ> JoinThread) ws) = map Some ws" by (induction ws) simp_all
  ultimately show ?thesis by simp
qed

lemma start_spawns:
  assumes "group_ok g" and "\<not> running g"
  shows "start cb name g = (g\<lparr>running := True, threads := map name [0..<numThreads g], loops := map name [0..<numThreads g]\<rparr>,
     spawn_effects cb (map name [0..<numThreads g]))"
  using assms by (simp add: start_def start_loops_eq group_ok_def spawn_effects_def)

text \<open>A bootstrap that does not run.\<close>

definition boot_idle :: "'c bootstrap \<Rightarrow> bool" where
  "boot_idle b \<longleftrightarrow> \<not> bt_running b \<and> group_ok (bt_group b) \<and> \<not> running (bt_group b) \<and> \<not> bt_bossThread b"

lemma boot_new_idle [simp]: "boot_idle boot_new" "\<not> bt_promise boot_new"
  by (auto simp: boot_idle_def boot_new_def group_new_def group_ok_def)

lemma boot_start_idle:
  assumes "boot_idle b" and "boot_start name k b = (b1, es, err)"
    and "ws = map name [0..<clamp_threads (cf_workerThreads (bt_config b))]"
  shows "bt_running b1" "bt_promise b1 = bt_promise b" "bt_boss b1 \<noteq> None" "bt_bossThread b1 = fst (boss_listen k)"
    "group_ok (bt_group b1)" "running (bt_group b1)" "threads (bt_group b1) = ws" "loops (bt_group b1) = ws" "ws \<noteq> []"
    "err = (if fst (boss_listen k) then None else Some (ListenFailed (cf_port (bt_config b))))"
    "spawned_threads es = map Some ws @ (if fst (boss_listen k) then [None] else [])"
proof -
  let ?g = "setThreadCount (cf_workerThreads (bt_config b)) (bt_group b)"
  have g: "group_ok ?g" "\<not> running ?g" "numThreads ?g = clamp_threads (cf_workerThreads (bt_config b))"
    using assms(1) by (simp_all add: boot_idle_def setThreadCount_def group_ok_def)
  note s = start_spawns [OF g(1,2), of True name]
  obtain ok fd les where l: "boss_listen k = (ok, fd, les)" by (metis surj_pair)
  let ?b = "b\<lparr>bt_running := True, bt_group := ?g\<lparr>running := True, threads := ws, loops := ws\<rparr>, bt_boss := Some fd\<rparr>"
  let ?es = "map Group (spawn_effects True ws) @ map Net les"
  have eq: "(b1, es, err) =
      (if \<not> ok then (?b, ?es, Some (ListenFailed (cf_port (bt_config b)))) else (?b\<lparr>bt_bossThread := True\<rparr>, ?es @ [BossSpawn], None))"
    using assms(1) unfolding assms(2) [symmetric] boot_start_def s g(3) assms(3) [symmetric] l by (simp add: boot_idle_def)
  have idle: "\<not> bt_bossThread b" "next_index ?g < SZ" using assms(1) g(1) by (simp_all add: boot_idle_def group_ok_def)
  show "bt_running b1" "bt_promise b1 = bt_promise b" "bt_boss b1 \<noteq> None" "running (bt_group b1)" "threads (bt_group b1) = ws"
    "loops (bt_group b1) = ws" using eq by (cases ok; simp)+
  then show "group_ok (bt_group b1)" using eq idle(2) by (cases ok) (simp_all add: group_ok_def)
  show "bt_bossThread b1 = fst (boss_listen k)" "err = (if fst (boss_listen k) then None else Some (ListenFailed (cf_port (bt_config b))))"
    "spawned_threads es = map Some ws @ (if fst (boss_listen k) then [None] else [])" using eq idle(1) by (cases ok; simp add: l)+
  show "ws \<noteq> []" by (simp add: assms(3) clamp_threads_def)
qed

lemma boot_shutdown_running:
  assumes "boot_shutdown b = (b2, es, err)" and "bt_running b" and "\<not> bt_promise b" and "bt_boss b \<noteq> None"
    and "group_ok (bt_group b)" and "running (bt_group b)"
  shows "es = [PromiseSet, BossStop] @ (if bt_bossThread b then [BossJoin] else []) @
       map Group (map StopLoop (loops (bt_group b)) @ map JoinThread (threads (bt_group b)))"
    "err = None" "bt_promise b2" "boot_idle b2"
  using assms by (auto simp: boot_shutdown_def stopAll_def boot_idle_def group_ok_def)

section \<open>Properties\<close>

text \<open>Whatever the application sets, every worker loop is configured with usable values: after any sequence of
  setters the bounds hold, the hook \<open>workerInit\<close> returns, and the loop it leaves has a task queue of at least
  the configured size, a well-formed timer wheel with the configured slots and tick, room for at least
  one event per poll, and the configured limits. The size of the queue is at most \<open>2 ^ 63\<close> and the tick a
  \<open>uint32_t\<close>.\<close>

theorem worker_configured:
  assumes "c = configure ss" and "cf_eventQueueSize c \<le> 2 ^ 63" and "cf_timerTickMs c < 2 ^ 32"
  shows "config_ok c \<and> (\<exists>l'. workerInit c l = Inr l' \<and>
     wf_spsc (lfBuffer (wl_loop l')) \<and> queued (lfBuffer (wl_loop l')) = [] \<and> cf_eventQueueSize c - 1 \<le> room (lfBuffer (wl_loop l')) \<and>
     wf_wheel (timerWheel (wl_loop l')) \<and> numSlots (timerWheel (wl_loop l')) = cf_timerSlots c \<and> tickMs (timerWheel (wl_loop l')) = cf_timerTickMs c \<and>
     maxEventsPerPoll (wl_loop l') = cf_maxEventsPerPoll c \<and>
     readTimeoutMs (wl_worker l') = cf_readTimeoutMs c \<and> writeTimeoutMs (wl_worker l') = cf_writeTimeoutMs c \<and>
     w_waterMark (wl_worker l') = cf_writeBufWaterMark c \<and> wl_pipeline l' = (case cf_pipeline c of None \<Rightarrow> wl_pipeline l | Some f \<Rightarrow> Some f))"
proof -
  have ok: "config_ok c" using configure_ok assms(1) by simp
  then have "0 < cf_eventQueueSize c" "\<not> cf_eventQueueSize c < 64" by (simp_all add: config_ok_def)
  then obtain q :: "'b spsc" where q: "spsc_new (cf_eventQueueSize c) = Some q" "wf_spsc q" "queued q = []" "cf_eventQueueSize c - 1 \<le> room q"
    using spsc_new_wf assms(2) by metis
  have "wf_wheel (wheel_new (cf_timerSlots c) (cf_timerTickMs c) :: 'b wheel)" using wheel_new_wf [of "cf_timerSlots c" "cf_timerTickMs c"] ok assms(3) by (auto simp: config_ok_def)
  then show ?thesis using ok q \<open>\<not> cf_eventQueueSize c < 64\<close>
    by (auto simp: workerInit_def setEventQueueSize_def setMaxEventsPerPoll_def setTimerTickMs_def setTimerSlots_def Let_def
        config_ok_def wheel_new_def split: option.split)
qed

text \<open>C34. Starting and shutting down leaks no thread: whether the port could be bound or not, the threads that a start of
  an idle server creates, one for each configured worker and one for the accepting loop, are exactly the
  threads that the following shutdown joins; it stops the accepting loop before it joins any thread. Afterwards the server is
  idle again and \<open>wait\<close> returns.\<close>

theorem boot_threads_joined:
  assumes "boot_idle b" and "\<not> bt_promise b" and "boot_start name k b = (b1, es1, err1)" and "boot_shutdown b1 = (b2, es2, err2)"
  shows "err1 = (if fst (boss_listen k) then None else Some (ListenFailed (cf_port (bt_config b)))) \<and> err2 = None \<and>
     set (joined_threads es2) = set (spawned_threads es1) \<and> length (joined_threads es2) = length (spawned_threads es1) \<and>
     length (spawned_threads es1) = clamp_threads (cf_workerThreads (bt_config b)) + (if fst (boss_listen k) then 1 else 0) \<and>
     boot_idle b2 \<and> boot_wait_returns b2 \<and> (\<exists>fs. es2 = PromiseSet # BossStop # fs)"
proof -
  note st = boot_start_idle [OF assms(1,3) refl]
  have "\<not> bt_promise b1" using st(2) assms(2) by simp
  note sh = boot_shutdown_running [OF assms(4) st(1) this st(3,5,6)]
  have "joined_threads es2 = (if fst (boss_listen k) then [None] else []) @ map Some (threads (bt_group b1))"
    unfolding sh(1) st(4) joined_append group_joins by simp
  then show ?thesis using st(7,8,10,11) sh(2-4) by (auto simp: boot_wait_returns_def sh(1))
qed

text \<open>A server cannot be shut down twice in its life: after a start, a shutdown and a second start, the second shutdown
  (also the one in the destructor) fails on the promise that is already satisfied, and stops no loop and joins
  no thread.\<close>

theorem restart_cannot_be_shut_down:
  assumes "boot_idle b" and "\<not> bt_promise b" and "boot_start name1 k1 b = (b1, es1, err1)" and "boot_shutdown b1 = (b2, es2, err2)"
    and "boot_start name2 k2 b2 = (b3, es3, err3)" and "boot_shutdown b3 = (b4, es4, err4)"
  shows "err4 = Some FutureError \<and> es4 = [] \<and> \<not> bt_running b4 \<and> running (bt_group b4) \<and> loops (bt_group b4) \<noteq> []"
proof -
  note st = boot_start_idle [OF assms(1,3) refl]
  have "\<not> bt_promise b1" using st(2) assms(2) by simp
  note sh = boot_shutdown_running [OF assms(4) st(1) this st(3,5,6)]
  note st2 = boot_start_idle [OF sh(4) assms(5) refl]
  show ?thesis using assms(6) st2(1,2,6,8,9) sh(3) by (auto simp: boot_shutdown_def)
qed

text \<open>A start that fails to bind its port throws, but leaves the server running: another start returns at once without
  an error and without a listening socket, although the worker threads run.\<close>

theorem failed_start_sticks:
  assumes "boot_idle b" and "boot_start name k b = (b1, es1, err1)" and "\<not> fst (boss_listen k)"
  shows "err1 = Some (ListenFailed (cf_port (bt_config b))) \<and> boot_start name2 k2 b1 = (b1, [], None) \<and> \<not> bt_bossThread b1 \<and> loops (bt_group b1) \<noteq> []"
proof -
  note st = boot_start_idle [OF assms(1,2) refl]
  show ?thesis using st(1,4,8,9,10) assms(3) by (simp add: boot_start_def)
qed

section \<open>Witnesses\<close>

definition demo_net :: "bool \<Rightarrow> net_answers" where
  "demo_net ok = \<lparr>socket6 = 5, socket4 = -1, bind6 = ok, bind4 = False, listen_ok = True\<rparr>"

lemma demo_listen: "fst (boss_listen (demo_net ok)) = ok"
  by (simp add: boss_listen_def demo_net_def)

theorem worker_configured_witness:
  "config_ok (configure [TimerSlots 0, EventQueueSize 100] :: nat boot_config) \<and>
   (\<forall>l :: (nat, unit, nat) wloop. \<exists>l'. workerInit (configure [TimerSlots 0, EventQueueSize 100] :: nat boot_config) l = Inr l' \<and>
      numSlots (timerWheel (wl_loop l')) = 8)"
proof -
  let ?c = "configure [TimerSlots 0, EventQueueSize 100] :: nat boot_config"
  have "cf_eventQueueSize ?c \<le> 2 ^ 63" "cf_timerTickMs ?c < 2 ^ 32" "cf_timerSlots ?c = 8" by (simp_all add: configure_def config_new_def)
  then show ?thesis using worker_configured [OF refl, of "[TimerSlots 0, EventQueueSize 100]"] by metis
qed

theorem boot_threads_joined_witness:
  "\<exists>b1 es1 b2 es2. boot_start (\<lambda>i. i + 10) (demo_net True) (boot_new :: nat bootstrap) = (b1, es1, None) \<and> boot_shutdown b1 = (b2, es2, None) \<and>
     set (joined_threads es2) = set (spawned_threads es1) \<and> length (spawned_threads es1) = 5"
proof -
  obtain b1 es1 err1 where st: "boot_start (\<lambda>i. i + 10) (demo_net True) (boot_new :: nat bootstrap) = (b1, es1, err1)" by (metis surj_pair)
  obtain b2 es2 err2 where sh: "boot_shutdown b1 = (b2, es2, err2)" by (metis surj_pair)
  have "cf_workerThreads (bt_config (boot_new :: nat bootstrap)) = 4" by (simp add: boot_new_def config_new_def)
  then show ?thesis using boot_threads_joined [OF boot_new_idle st sh] st sh by (simp add: demo_listen clamp_threads_def)
qed

theorem restart_cannot_be_shut_down_witness:
  "\<exists>b1 es1 b2 es2 b3 es3 b4. boot_start (\<lambda>i. i) (demo_net True) (boot_new :: nat bootstrap) = (b1, es1, None) \<and> boot_shutdown b1 = (b2, es2, None) \<and>
     boot_start (\<lambda>i. i + 9) (demo_net True) b2 = (b3, es3, None) \<and> boot_shutdown b3 = (b4, [], Some FutureError)"
proof -
  obtain b1 es1 err1 where st: "boot_start (\<lambda>i. i) (demo_net True) (boot_new :: nat bootstrap) = (b1, es1, err1)" by (metis surj_pair)
  obtain b2 es2 err2 where sh: "boot_shutdown b1 = (b2, es2, err2)" by (metis surj_pair)
  obtain b3 es3 err3 where st2: "boot_start (\<lambda>i. i + 9) (demo_net True) b2 = (b3, es3, err3)" by (metis surj_pair)
  obtain b4 es4 err4 where sh2: "boot_shutdown b3 = (b4, es4, err4)" by (metis surj_pair)
  note s1 = boot_start_idle [OF boot_new_idle(1) st refl]
  have "\<not> bt_promise b1" using s1(2) by simp
  note s2 = boot_shutdown_running [OF sh s1(1) this s1(3,5,6)]
  note s3 = boot_start_idle [OF s2(4) st2 refl]
  show ?thesis using restart_cannot_be_shut_down [OF boot_new_idle st sh st2 sh2] s1(10) s2(2) s3(10) st sh st2 sh2 by (simp add: demo_listen)
qed

theorem failed_start_sticks_witness:
  "\<exists>b1 es1. boot_start (\<lambda>i. i) (demo_net False) (boot_new :: nat bootstrap) = (b1, es1, Some (ListenFailed 8080)) \<and>
     boot_start (\<lambda>i. i) (demo_net True) b1 = (b1, [], None)"
proof -
  obtain b1 es1 err1 where st: "boot_start (\<lambda>i. i) (demo_net False) (boot_new :: nat bootstrap) = (b1, es1, err1)" by (metis surj_pair)
  show ?thesis using failed_start_sticks [OF boot_new_idle(1) st, of "\<lambda>i. i" "demo_net True"] st
    by (simp add: demo_listen boot_new_def config_new_def)
qed

end
