(* ===== verification/CodecLimits.thy ===== *)
theory CodecLimits
  imports Pipeline Bootstrap HttpCodec
begin

text \<open>
  The limits of the HTTP codec (\<open>src/http/http_codec.cpp\<close>): a request whose headers end beyond
  \<open>maxHeaderSize_\<close> is answered with 431, one that announces a body above \<open>maxBodySize_\<close> with 413, and
  neither reaches the handlers. The limits a codec was constructed with are overridden by those of the
  bootstrap, which reach it through the worker loop when a connection is set up
  (\<open>src/event/worker_loop.cpp\<close>). What the loop of \<open>HttpCodec\<close> does with a canonical request is computed for
  any limits and any request object it starts from; the object a refused request leaves behind is what the
  next request of the connection is parsed into.
\<close>

section \<open>The limits of a codec\<close>

record codec_limits =
  cl_maxHeaderSize :: nat
  cl_maxBodySize :: nat

definition codec_limits_new :: "nat \<Rightarrow> nat \<Rightarrow> codec_limits" where
  "codec_limits_new maxHeader maxBody = \<lparr>cl_maxHeaderSize = maxHeader, cl_maxBodySize = maxBody\<rparr>"

definition setMaxHeaderSize :: "nat \<Rightarrow> codec_limits \<Rightarrow> codec_limits" where
  "setMaxHeaderSize n l = l\<lparr>cl_maxHeaderSize := n\<rparr>"

definition setMaxBodySize :: "nat \<Rightarrow> codec_limits \<Rightarrow> codec_limits" where
  "setMaxBodySize n l = l\<lparr>cl_maxBodySize := n\<rparr>"

text \<open>
  The part of \<open>setupConnection\<close> that overrides the limits: \<open>is_codec\<close> is the dynamic cast to the codec,
  \<open>es\<close> the handlers of the connection's pipeline and \<open>hs\<close> the codec objects among them.
\<close>

definition override_limits :: "('f, 'p, 'c) wloop \<Rightarrow> (nat \<Rightarrow> bool) \<Rightarrow> entry list \<Rightarrow> (nat \<Rightarrow> codec_limits) \<Rightarrow> nat \<Rightarrow> codec_limits" where
  "override_limits l is_codec es hs =
     (if wl_maxHeaderSize l \<noteq> 0 \<or> wl_maxBodySize l \<noteq> 0
      then case findHandler is_codec es of
             None \<Rightarrow> hs
           | Some c \<Rightarrow>
               let cl = hs c;
                   cl = (if wl_maxHeaderSize l \<noteq> 0 then setMaxHeaderSize (wl_maxHeaderSize l) cl else cl);
                   cl = (if wl_maxBodySize l \<noteq> 0 then setMaxBodySize (wl_maxBodySize l) cl else cl)
               in hs(c := cl)
      else hs)"

lemma override_limits_codec:
  assumes "findHandler is_codec es = Some c"
  shows "override_limits l is_codec es hs c =
    codec_limits_new (if wl_maxHeaderSize l = 0 then cl_maxHeaderSize (hs c) else wl_maxHeaderSize l)
      (if wl_maxBodySize l = 0 then cl_maxBodySize (hs c) else wl_maxBodySize l)"
  using assms by (simp add: override_limits_def codec_limits_new_def setMaxHeaderSize_def setMaxBodySize_def)

lemma workerInit_limits:
  fixes l :: "('f, 'p, 'c) wloop"
  assumes "cf_eventQueueSize (configure ss) \<le> 2 ^ 63"
  obtains l' where "workerInit (configure ss) l = Inr l'" "wl_maxHeaderSize l' = cf_maxHeaderSize (configure ss)"
    "wl_maxBodySize l' = cf_maxBodySize (configure ss)"
proof -
  let ?c = "configure ss"
  have ok: "0 < cf_eventQueueSize ?c" "\<not> cf_eventQueueSize ?c < 64" using configure_ok [of ss] by (simp_all add: config_ok_def)
  then obtain q :: "'f spsc" where "spsc_new (cf_eventQueueSize ?c) = Some q" using spsc_new_wf assms by metis
  then have "\<exists>l'. workerInit ?c l = Inr l' \<and> wl_maxHeaderSize l' = cf_maxHeaderSize ?c \<and> wl_maxBodySize l' = cf_maxBodySize ?c"
    using ok by (auto simp: workerInit_def setEventQueueSize_def Let_def split: option.split)
  with that show ?thesis by blast
qed

section \<open>What the codec decides\<close>

definition announced :: "(string \<times> string) list \<Rightarrow> nat" where
  "announced hs = (case find_header ''Content-Length'' hs of
     None \<Rightarrow> 0 | Some v \<Rightarrow> (case stoul v of None \<Rightarrow> 0 | Some n \<Rightarrow> n))"

definition header_refused :: "nat \<Rightarrow> wire_request \<Rightarrow> bool" where
  "header_refused maxH w \<longleftrightarrow> maxH > 0 \<and> last_end w > maxH"

definition body_refused :: "nat \<Rightarrow> (string \<times> string) list \<Rightarrow> bool" where
  "body_refused maxB hs \<longleftrightarrow> maxB > 0 \<and> announced hs > maxB"

definition header_refusal :: "bool \<Rightarrow> codec_effect list" where
  "header_refusal hasCtx = (if hasCtx then [Reply ST_REQUEST_HEADER_FIELDS_TOO_LARGE ''Header Too Large''] else [])"

definition body_refusal :: "bool \<Rightarrow> wire_request \<Rightarrow> codec_effect list" where
  "body_refusal hasCtx w =
     (if hasCtx then [ConnKeepAlive (\<not> wants_close (w_headers w)), SignalActivity, Reply ST_PAYLOAD_TOO_LARGE ''Body Too Large'']
      else [])"

text \<open>The answers to a sequence of requests: the first one that is refused ends it.\<close>

fun limited_effects :: "nat \<Rightarrow> nat \<Rightarrow> bool \<Rightarrow> wire_request list \<Rightarrow> codec_effect list" where
  "limited_effects maxH maxB hasCtx [] = []"
| "limited_effects maxH maxB hasCtx (w # ws) =
     (if header_refused maxH w then header_refusal hasCtx
      else if body_refused maxB (w_headers w) then body_refusal hasCtx w
      else wire_effects hasCtx w @ limited_effects maxH maxB hasCtx ws)"

text \<open>The request object after a request was parsed into an older one.\<close>

definition parsed_into :: "http_request \<Rightarrow> wire_request \<Rightarrow> http_request" where
  "parsed_into old w =
     (setRawData (Some (wire_text w)) (header_layout (length (wire_prefix w)) (w_headers w)) (last_end w)
       ((set_method (w_method w) (setUri (w_uri w) old))\<lparr>rq_version := HTTP_1_1\<rparr>))
     \<lparr>headersParsed := True, rq_headers := rq_headers old @ w_headers w\<rparr>"

lemma parsed_into_headers [simp]: "rq_headers (parsed_into old w) = rq_headers old @ w_headers w"
  by (simp add: parsed_into_def)

lemma parsed_into_pristine:
  assumes "pristine old" and "good_request R w"
  shows "parsed_into old w = wire_request_of w"
proof -
  have "rq_headers old = []" using assms(1) by (cases old) (simp add: pristine_def http_request_new_def)
  then show ?thesis
    using pristine_final [OF assms(1), of "w_method w"] assms(2)
    by (simp add: parsed_into_def wire_request_of_def good_request_def)
qed

section \<open>The loop under limits\<close>

lemma run_wire_limits:
  "run_events (wire_text w @ rest) (wire_events w) req (parse_ctx_new maxH) =
     (if header_refused maxH w
      then Inr (setUri (w_uri w) req,
        \<lparr>headerEndOffset = last_end w, pc_offsets = header_layout (length (wire_prefix w)) (w_headers w),
         msgComplete = False, headerTooLarge = True, maxHeaderSize = maxH, maxOffset = last_end w\<rparr>)
      else Inr ((set_method (w_method w) (setUri (w_uri w) req))\<lparr>rq_version := HTTP_1_1\<rparr>,
        \<lparr>headerEndOffset = last_end w, pc_offsets = header_layout (length (wire_prefix w)) (w_headers w),
         msgComplete = True, headerTooLarge = False, maxHeaderSize = maxH, maxOffset = last_end w\<rparr>))"
proof -
  let ?t = "wire_text w @ rest"
  have t: "?t = (w_name w @ '' '') @ w_uri w @ (drop (length (w_name w @ '' '' @ w_uri w)) ?t)"
    by (simp add: wire_text_def wire_prefix_def)
  have url: "str_at (Some ?t) (length (w_name w) + 1) (length (w_uri w)) = Inr (w_uri w)"
    by (subst t) (use str_at_app [of "w_name w @ '' ''" "w_uri w"] in simp)
  define pc where "pc = bump (length (w_name w) + 1 + length (w_uri w)) (parse_ctx_new maxH)"
  have pc: "pc = (parse_ctx_new maxH)\<lparr>maxOffset := length (w_name w) + 1 + length (w_uri w)\<rparr>"
    by (simp add: pc_def bump_def parse_ctx_new_def)
  have "maxOffset pc \<le> length (wire_prefix w)" by (simp add: pc wire_prefix_def)
  note h = run_header_events [OF this]
  show ?thesis
    unfolding wire_events_def append_Cons run_events.simps(2) on_url_def url rbind_Inr case_prod_conv
    unfolding pc_def [symmetric] h
    by (simp add: pc parse_ctx_new_def on_hc_def on_msg_cmpl_def last_end_def header_refused_def)
qed

lemma header_parsed_into:
  "header key (setRawData (Some (wire_text w)) (header_layout (length (wire_prefix w)) (w_headers w)) (last_end w)
       ((set_method (w_method w) (setUri (w_uri w) old))\<lparr>rq_version := HTTP_1_1\<rparr>))
   = Inr (case find_header key (rq_headers old @ w_headers w) of Some v \<Rightarrow> v | None \<Rightarrow> [], parsed_into old w)"
proof -
  let ?r = "setRawData (Some (wire_text w)) (header_layout (length (wire_prefix w)) (w_headers w)) (last_end w)
       ((set_method (w_method w) (setUri (w_uri w) old))\<lparr>rq_version := HTTP_1_1\<rparr>)"
  have "rq_headers ?r = rq_headers old" by (simp add: setRawData_def setUri_def parsePath_def)
  then have "ensureHeadersParsed ?r = Inr (parsed_into old w)"
    using parse_entries_layout [of "wire_prefix w" "w_headers w" "CRLF @ w_body w"]
    by (auto simp: ensureHeadersParsed_def setRawData_def wire_text_def parsed_into_def Let_def)
  then show ?thesis by (simp add: header_def)
qed

lemma stoul_Nil [simp]: "stoul [] = None"
  by (simp add: stoul_def)

lemma announced_alt:
  "announced hs = (case stoul (case find_header ''Content-Length'' hs of Some v \<Rightarrow> v | None \<Rightarrow> []) of Some n \<Rightarrow> n | None \<Rightarrow> 0)"
  by (simp add: announced_def split: option.split)

text \<open>One complete request, for any limits and any request object in the codec.\<close>

lemma loop_limits:
  fixes old w defines "r \<equiv> parsed_into old w"
  assumes "llhttp_parses ll R" and "good_request R w" and "hc_request st = old"
  shows "codec_loop ll maxH maxB hasCtx h st src (bytes_of (wire_text w) @ rest) out =
    (if header_refused maxH w
     then (clear_leftover (st\<lparr>hc_request := setUri (w_uri w) old\<rparr>), out @ header_refusal hasCtx, None)
     else if body_refused maxB (rq_headers r)
     then (clear_leftover (st\<lparr>hc_request := r\<rparr>), out @ body_refusal hasCtx w, None)
     else let st' = clear_leftover (st\<lparr>hc_request := http_request_new\<rparr>);
              out' = out @ (if hasCtx then [ConnKeepAlive (\<not> wants_close (w_headers w)), SignalActivity] else []) @ [codec_effect.FireRead r] in
          if rest = [] then (st', out', None)
          else codec_loop ll maxH maxB hasCtx h st' (advance (length (wire_text w)) src) rest out')"
proof -
  let ?t = "wire_text w"
  have "w \<in> R" using assms(3) by (simp add: good_request_def)
  then have ll: "ll (?t @ chars_of rest) = (wire_events w, Some (length ?t))"
    using assms(2) by (simp add: llhttp_parses_def)
  have tx: "chars_of (bytes_of ?t @ rest) = ?t @ chars_of rest" by (simp add: chars_of_append)
  have n: "?t \<noteq> []" using good_text(1) [OF assms(3)] by simp
  have le: "0 < last_end w" by (simp add: last_end_def wire_prefix_def)
  obtain cl where cl: "header ''Content-Length'' (setRawData (Some ?t) (header_layout (length (wire_prefix w)) (w_headers w)) (last_end w)
       ((set_method (w_method w) (setUri (w_uri w) old))\<lparr>rq_version := HTTP_1_1\<rparr>)) = Inr (cl, r)"
    and a: "announced (rq_headers r) = (case stoul cl of Some n \<Rightarrow> n | None \<Rightarrow> 0)"
    unfolding header_parsed_into r_def by (simp add: announced_alt)
  have br: "0 < maxB \<and> cl \<noteq> [] \<and> maxB < (case stoul cl of Some n \<Rightarrow> n | None \<Rightarrow> 0) \<longleftrightarrow> body_refused maxB (rq_headers r)"
    by (cases "cl = []") (auto simp: body_refused_def a)
  show ?thesis
    using n le by (subst codec_loop.simps)
      (simp add: tx ll run_wire_limits cl br wire_close assms(4) Let_def clear_leftover_def header_refusal_def body_refusal_def)
qed

text \<open>A whole sequence of requests in one buffer, from a request object that no complete request touched.\<close>

lemma loop_limited:
  assumes "llhttp_parses ll R" and "list_all (good_request R) ws" and "ws \<noteq> []" and "pristine (hc_request st)"
  shows "\<exists>st'. codec_loop ll maxH maxB hasCtx h st src (bytes_of (concat (map wire_text ws))) out =
      (st', out @ limited_effects maxH maxB hasCtx ws, None) \<and> readableBytes (hc_leftover st') = 0"
  using assms(2-4)
proof (induction ws arbitrary: st src out)
  case (Cons w ws)
  let ?st = "clear_leftover (st\<lparr>hc_request := http_request_new\<rparr>)"
  have w: "good_request R w" and ws: "list_all (good_request R) ws" using Cons.prems(1) by simp_all
  have r: "parsed_into (hc_request st) w = wire_request_of w" by (rule parsed_into_pristine [OF Cons.prems(3) w])
  have hs: "rq_headers (wire_request_of w) = w_headers w" by (simp add: wire_request_of_def)
  note step = loop_limits [OF assms(1) w refl, of maxH maxB hasCtx h st src "bytes_of (concat (map wire_text ws))" out,
      unfolded r hs]
  have ne: "bytes_of (concat (map wire_text ws)) = [] \<longleftrightarrow> ws = []"
    using ws good_text(1) by (cases ws) auto
  show ?case
  proof (cases "header_refused maxH w \<or> body_refused maxB (w_headers w) \<or> ws = []")
    case True
    then show ?thesis using step ne by (auto simp: bytes_of_append readable_clear wire_effects_def Let_def)
  next
    case False
    then have "\<exists>st'. codec_loop ll maxH maxB hasCtx h ?st (advance (length (wire_text w)) src)
        (bytes_of (concat (map wire_text ws))) (out @ wire_effects hasCtx w) =
      (st', (out @ wire_effects hasCtx w) @ limited_effects maxH maxB hasCtx ws, None) \<and> readableBytes (hc_leftover st') = 0"
      by (intro Cons.IH [OF ws]) simp_all
    then show ?thesis using False step [unfolded ne] by (simp add: bytes_of_append wire_effects_def Let_def)
  qed
qed simp

section \<open>Reading a whole request\<close>

text \<open>The codec between requests: nothing waits in the leftover buffer.\<close>

definition between :: "http_codec \<Rightarrow> bool" where
  "between st \<longleftrightarrow> readableBytes (hc_leftover st) = 0"

lemma between_clear [simp]: "between (clear_leftover st)"
  by (simp add: between_def readable_clear)

lemma between_new [simp]: "between http_codec_new"
  using codec_holds_readable [OF codec_holds_new] by (simp add: between_def)

lemma read_whole:
  assumes "between st" and "good_request R w" and "wf_buf buf" and "contents buf = bytes_of (wire_text w @ rest)"
  shows "codec_channelRead ll maxH maxB hasCtx h st (Some buf) =
    codec_loop ll maxH maxB hasCtx h st FromBuf (bytes_of (wire_text w) @ bytes_of rest) []"
proof -
  have t: "wire_text w @ rest \<noteq> []" "hd (wire_text w @ rest) = hd (w_name w)" using good_text [OF assms(2)] by simp_all
  have "unat (hd (bytes_of (wire_text w @ rest))) = of_char (hd (w_name w))" using unat_hd_bytes [OF t(1)] t(2) by simp
  moreover have "readableBytes buf \<noteq> 0"
    using assms(3,4) t(1) by (simp only: readable_eq_length length_bytes_of length_0_conv) simp
  ultimately show ?thesis
    using assms(1,2) mem_read_all [OF assms(3)] assms(4)
    by (simp add: codec_channelRead_def good_request_def between_def bytes_of_append)
qed

fun codec_reads :: "llhttp \<Rightarrow> nat \<Rightarrow> nat \<Rightarrow> bool \<Rightarrow> heap \<Rightarrow> http_codec \<Rightarrow> bytebuf list \<Rightarrow> codec_result" where
  "codec_reads ll maxH maxB hasCtx h st [] = (st, [], None)"
| "codec_reads ll maxH maxB hasCtx h st (b # bs) =
     (case codec_channelRead ll maxH maxB hasCtx h st (Some b) of
        (st', out, Some e) \<Rightarrow> (st', out, Some e)
      | (st', out, None) \<Rightarrow>
          (case codec_reads ll maxH maxB hasCtx h st' bs of (st'', outs, ex) \<Rightarrow> (st'', out @ outs, ex)))"

text \<open>A request object that an earlier, refused request filled: its announcement comes first.\<close>

definition poisoned :: "nat \<Rightarrow> http_codec \<Rightarrow> bool" where
  "poisoned maxB st \<longleftrightarrow> between st \<and>
     (\<exists>v n. map_of (rq_headers (hc_request st)) ''Content-Length'' = Some v \<and> stoul v = Some n \<and> n > maxB)"

lemma find_exact: "find (\<lambda>(k, v). k = key) hs = map_option (Pair key) (map_of hs key)"
  by (induction hs) auto

lemma announced_exact:
  assumes "map_of hs ''Content-Length'' = Some v" and "stoul v = Some n"
  shows "announced (hs @ hs') = n"
proof -
  have "map_of (hs @ hs') ''Content-Length'' = Some v" using assms(1) by (simp add: map_add_def)
  then show ?thesis using assms(2) by (simp add: announced_def find_header_def find_exact)
qed

lemma poisoned_refuses:
  assumes "llhttp_parses ll R" and "good_request R w" and "poisoned maxB st" and "0 < maxB" and "\<not> header_refused maxH w"
    and "wf_buf buf" and "contents buf = bytes_of (wire_text w)"
  shows "\<exists>st'. codec_channelRead ll maxH maxB hasCtx h st (Some buf) = (st', body_refusal hasCtx w, None) \<and> poisoned maxB st'"
proof -
  obtain v n where v: "between st" "map_of (rq_headers (hc_request st)) ''Content-Length'' = Some v" "stoul v = Some n" "n > maxB"
    using assms(3) by (auto simp: poisoned_def)
  have "body_refused maxB (rq_headers (hc_request st) @ w_headers w)"
    using announced_exact [OF v(2,3)] v(4) assms(4) by (simp add: body_refused_def)
  moreover have "map_of (rq_headers (hc_request st) @ w_headers w) ''Content-Length'' = Some v"
    using v(2) by (simp add: map_add_def)
  ultimately show ?thesis
    using read_whole [OF v(1) assms(2,6), of "[]"] loop_limits [OF assms(1,2) refl, of maxH maxB hasCtx h st FromBuf "[]" "[]"]
      assms(5,7) v(3,4) by (auto simp: poisoned_def)
qed

lemma poisoned_reads:
  assumes "llhttp_parses ll R" and "0 < maxB"
  shows "poisoned maxB st \<Longrightarrow> list_all (good_request R) ws \<Longrightarrow> list_all (\<lambda>w. \<not> header_refused maxH w) ws \<Longrightarrow>
    list_all wf_buf bufs \<Longrightarrow> map contents bufs = map (\<lambda>w. bytes_of (wire_text w)) ws \<Longrightarrow>
    \<exists>st'. codec_reads ll maxH maxB hasCtx h st bufs = (st', concat (map (body_refusal hasCtx) ws), None)"
proof (induction ws arbitrary: st bufs)
  case (Cons w ws)
  obtain b bs where bufs: "bufs = b # bs" using Cons.prems(5) by (cases bufs) auto
  from poisoned_refuses [OF assms(1) _ Cons.prems(1) assms(2), of w maxH b hasCtx h] Cons.prems bufs obtain st1 where
    "codec_channelRead ll maxH maxB hasCtx h st (Some b) = (st1, body_refusal hasCtx w, None)" "poisoned maxB st1" by auto
  with Cons.IH [of st1 bs] Cons.prems bufs show ?case by auto
qed simp

text \<open>The first read of a connection that brings a request with too large a body.\<close>

lemma first_refused:
  assumes "llhttp_parses ll R" and "good_request R w" and "\<not> header_refused maxH w" and "body_refused maxB (w_headers w)"
    and "wf_buf buf" and "contents buf = bytes_of (wire_text w)"
  shows "codec_channelRead ll maxH maxB hasCtx h http_codec_new (Some buf) =
    (clear_leftover (http_codec_new\<lparr>hc_request := parsed_into http_request_new w\<rparr>), body_refusal hasCtx w, None)"
proof -
  have "hc_request http_codec_new = http_request_new" "rq_headers http_request_new = []"
    by (simp_all add: http_codec_new_def http_request_new_def)
  then show ?thesis
    using read_whole [OF between_new assms(2,5), of "[]"] assms(3,4,6)
      loop_limits [OF assms(1,2), of http_codec_new http_request_new maxH maxB hasCtx h FromBuf "[]" "[]"] by simp
qed

text \<open>All requests of one read.\<close>

lemma read_limited:
  assumes "llhttp_parses ll R" and "list_all (good_request R) ws" and "ws \<noteq> []" and "between st" and "pristine (hc_request st)"
    and "wf_buf buf" and "contents buf = bytes_of (concat (map wire_text ws))"
  shows "\<exists>st'. codec_channelRead ll maxH maxB hasCtx h st (Some buf) = (st', limited_effects maxH maxB hasCtx ws, None) \<and> between st'"
proof -
  obtain w vs where ws: "ws = w # vs" using assms(3) by (cases ws) auto
  have "good_request R w" using assms(2) ws by simp
  note r = read_whole [OF assms(4) this assms(6), of "concat (map wire_text vs)" ll maxH maxB hasCtx h]
  from loop_limited [OF assms(1-3,5), of maxH maxB hasCtx h FromBuf "[]"] r assms(7) show ?thesis
    by (simp add: ws between_def bytes_of_append)
qed

section \<open>Properties\<close>

text \<open>C15. Limits are enforced from the bootstrap to the codec: whatever the application sets, the limits of its
  configuration reach the codec of every connection (0 leaves the codec its own), and of the requests of one read the
  codec passes on those before the first one that exceeds a limit, answers that one with 431 or 413, and
  discards what follows; no operation faults and nothing stays buffered.\<close>

theorem configured_limits_enforced:
  assumes "cf_eventQueueSize (configure ss) \<le> 2 ^ 63" and "findHandler is_codec es = Some c"
    and "llhttp_parses ll R" and "list_all (good_request R) ws" and "ws \<noteq> []" and "between st" and "pristine (hc_request st)"
    and "wf_buf buf" and "contents buf = bytes_of (concat (map wire_text ws))"
    and "maxH = (if cf_maxHeaderSize (configure ss) = 0 then cl_maxHeaderSize (hs c) else cf_maxHeaderSize (configure ss))"
    and "maxB = (if cf_maxBodySize (configure ss) = 0 then cl_maxBodySize (hs c) else cf_maxBodySize (configure ss))"
  shows "\<exists>l' st'. workerInit (configure ss) l = Inr l' \<and>
    codec_channelRead ll (cl_maxHeaderSize (override_limits l' is_codec es hs c)) (cl_maxBodySize (override_limits l' is_codec es hs c))
      hasCtx h st (Some buf) = (st', limited_effects maxH maxB hasCtx ws, None) \<and> between st'"
proof -
  obtain l' where l': "workerInit (configure ss) l = Inr l'" "wl_maxHeaderSize l' = cf_maxHeaderSize (configure ss)"
    "wl_maxBodySize l' = cf_maxBodySize (configure ss)" using workerInit_limits [OF assms(1)] .
  have "override_limits l' is_codec es hs c = codec_limits_new maxH maxB"
    by (simp add: override_limits_codec [OF assms(2)] l'(2,3) assms(10,11))
  then show ?thesis
    using l'(1) read_limited [OF assms(3-9), of maxH maxB hasCtx h] by (simp add: codec_limits_new_def)
qed


text \<open>Two requests: one that announces nine bytes and one without a body.\<close>

definition demo_post :: wire_request where
  "demo_post = \<lparr>w_method = LL_POST, w_name = ''POST'', w_uri = ''/b'', w_headers = [(''Content-Length'', ''9'')], w_body = ''123456789''\<rparr>"

definition demo_limits_llhttp :: llhttp where
  "demo_limits_llhttp s = (if take (length (wire_text demo_post)) s = wire_text demo_post
     then (wire_events demo_post, Some (length (wire_text demo_post))) else demo_llhttp s)"

lemma demo_limits_parses: "llhttp_parses demo_limits_llhttp {demo_wire, demo_post}"
proof -
  have p: "wire_text demo_post = CHR ''P'' # tl (wire_text demo_post)" "wire_text demo_wire = CHR ''G'' # tl (wire_text demo_wire)"
    by (simp_all add: wire_text_def wire_prefix_def demo_post_def demo_wire_def)
  have self: "take (length t) (take k t) \<noteq> t" if "k < length t" for t :: string and k
    using that by (auto dest: arg_cong [of _ _ length])
  have cross: "take (length t) (take k t') \<noteq> t" if "t = a # b" "t' = c # d" "a \<noteq> c" for t t' b d :: string and a c k
    using that by (cases k) auto
  have other: "take (length (wire_text demo_post)) (wire_text demo_wire @ rest) \<noteq> wire_text demo_post" for rest
    by (subst p(1), subst (2) p(1), subst p(2)) simp
  have pre: "demo_limits_llhttp (take k t) = ([], None)" if "k < length t" "t = wire_text demo_post \<or> t = wire_text demo_wire" for k t
    using that self cross [OF p] cross [OF p(2,1)] by (auto simp: demo_limits_llhttp_def demo_llhttp_def simp del: take_take)
  have whole: "demo_limits_llhttp (wire_text w @ rest) = (wire_events w, Some (length (wire_text w)))"
    if "w = demo_wire \<or> w = demo_post" for w rest
    using that other [of rest] by (auto simp: demo_limits_llhttp_def demo_llhttp_def)
  show ?thesis by (auto simp: llhttp_parses_def whole pre)
qed

lemma demo_limits_good: "good_request {demo_wire, demo_post} demo_wire" "good_request {demo_wire, demo_post} demo_post"
  by (simp_all add: good_request_def demo_wire_def demo_post_def)

lemma demo_nine: "stoul ''9'' = Some 9"
  by (simp add: stoul_def is_space_def is_digit_def digits_value_def Let_def)

lemma demo_limits_values:
  "last_end demo_post = 35" "announced (w_headers demo_post) = 9" "announced (w_headers demo_wire) = 0" "last_end demo_wire = 24"
  by (simp_all add: last_end_def announced_def wire_prefix_def render_headers_def render_header_def demo_post_def demo_wire_def
      find_header_def same_ignoring_case_def demo_nine)

lemma demo_limits_fits: "length (wire_text demo_post) < SZ" "length (wire_text demo_wire) < SZ"
  by (simp_all add: wire_text_def wire_prefix_def demo_post_def demo_wire_def render_headers_def render_header_def)

theorem configured_limits_enforced_witness:
  "\<forall>l :: (nat, unit, nat) wloop. \<exists>l' st'. workerInit (configure [MaxHeaderSize 64, MaxBodySize 5] :: nat boot_config) l = Inr l' \<and>
     (let cl = override_limits l' (\<lambda>i. i = 7) [\<lparr>e_name = ''codec'', e_handler = 7, e_inbound = True, e_outbound = True, e_ctx = 0\<rparr>]
            (\<lambda>_. codec_limits_new 0 0) 7 in
      codec_channelRead demo_limits_llhttp (cl_maxHeaderSize cl) (cl_maxBodySize cl) True demo_heap http_codec_new
       (Some (full_buf (bytes_of (wire_text demo_wire @ wire_text demo_post @ wire_text demo_wire))))
      = (st', wire_effects True demo_wire @ body_refusal True demo_post, None)) \<and> between st'"
proof
  fix l :: "(nat, unit, nat) wloop"
  let ?ss = "[MaxHeaderSize 64, MaxBodySize 5] :: nat setter list" and ?ws = "[demo_wire, demo_post, demo_wire]"
  have c: "cf_eventQueueSize (configure ?ss) \<le> 2 ^ 63" "cf_maxHeaderSize (configure ?ss) = 64" "cf_maxBodySize (configure ?ss) = 5"
    by (simp_all add: configure_def config_new_def)
  have f: "findHandler (\<lambda>i. i = 7) [\<lparr>e_name = ''codec'', e_handler = 7, e_inbound = True, e_outbound = True, e_ctx = 0\<rparr>] = Some 7" by simp
  have "length (bytes_of (concat (map wire_text ?ws))) < SZ"
    by (simp add: wire_text_def wire_prefix_def demo_post_def demo_wire_def render_headers_def render_header_def)
  moreover have "limited_effects 64 5 True ?ws = wire_effects True demo_wire @ body_refusal True demo_post"
    by (simp add: header_refused_def body_refused_def demo_limits_values)
  moreover have "pristine (hc_request http_codec_new)" by (simp add: http_codec_new_def)
  ultimately show "\<exists>l' st'. workerInit (configure ?ss) l = Inr l' \<and>
     (let cl = override_limits l' (\<lambda>i. i = 7) [\<lparr>e_name = ''codec'', e_handler = 7, e_inbound = True, e_outbound = True, e_ctx = 0\<rparr>]
            (\<lambda>_. codec_limits_new 0 0) 7 in
      codec_channelRead demo_limits_llhttp (cl_maxHeaderSize cl) (cl_maxBodySize cl) True demo_heap http_codec_new
       (Some (full_buf (bytes_of (wire_text demo_wire @ wire_text demo_post @ wire_text demo_wire))))
      = (st', wire_effects True demo_wire @ body_refusal True demo_post, None)) \<and> between st'"
    using configured_limits_enforced [OF c(1) f demo_limits_parses _ _ between_new, of ?ws "full_buf (bytes_of (concat (map wire_text ?ws)))"
        64 "\<lambda>_. codec_limits_new 0 0" 5 l True demo_heap]
      demo_limits_good c(2,3) by (simp add: full_buf_ok Let_def)
qed


text \<open>The headers of a refused request can also reach the handlers. When the refused request spelt the name of
  its Content-Length in another case and the next one spells it as the codec looks for it, the next
  request is passed on with the headers of the refused one in front of its own.\<close>

theorem refused_headers_leak:
  assumes "llhttp_parses ll R" and "good_request R w" and "good_request R w'"
    and "\<not> header_refused maxH w" and "\<not> header_refused maxH w'" and "body_refused maxB (w_headers w)"
    and "map_of (w_headers w) ''Content-Length'' = None" and "map_of (w_headers w') ''Content-Length'' = Some v"
    and "stoul v = Some n" and "n \<le> maxB"
    and "wf_buf b" and "contents b = bytes_of (wire_text w)" and "wf_buf b'" and "contents b' = bytes_of (wire_text w')"
  shows "\<exists>st' r. codec_reads ll maxH maxB True h http_codec_new [b, b'] =
      (st', body_refusal True w @ [ConnKeepAlive (\<not> wants_close (w_headers w')), SignalActivity, codec_effect.FireRead r], None)
    \<and> rq_headers r = w_headers w @ w_headers w' \<and> rq_uri r = w_uri w'"
proof -
  let ?old = "parsed_into http_request_new w"
  let ?st = "clear_leftover (http_codec_new\<lparr>hc_request := ?old\<rparr>)"
  have hs: "rq_headers ?old = w_headers w" by (simp add: http_request_new_def)
  have "map_of (w_headers w @ w_headers w') ''Content-Length'' = Some v" using assms(7,8) by (simp add: map_add_def)
  then have "announced (w_headers w @ w_headers w') = n"
    using announced_exact [of "w_headers w @ w_headers w'" v n "[]"] assms(9) by simp
  then have "\<not> body_refused maxB (w_headers w @ w_headers w')" using assms(10) by (simp add: body_refused_def)
  then have "\<exists>st'. codec_channelRead ll maxH maxB True h ?st (Some b') =
      (st', [ConnKeepAlive (\<not> wants_close (w_headers w')), SignalActivity, codec_effect.FireRead (parsed_into ?old w')], None)"
    using read_whole [OF between_clear assms(3,13), of "[]"] assms(5,14) hs
      loop_limits [OF assms(1,3), of ?st ?old maxH maxB True h FromBuf "[]" "[]"] by (simp add: Let_def)
  moreover have "rq_uri (parsed_into ?old w') = w_uri w'"
    by (cases "w_method w'") (simp_all add: parsed_into_def setRawData_def set_method_def setUri_def parsePath_def)
  ultimately show ?thesis
    using first_refused [OF assms(1,2,4,6,11,12), of True h] hs by auto
qed

text \<open>The limit on bodies does not limit what is buffered: as long as a request is incomplete it is kept, however
  much of it has come and whatever it announces.\<close>

theorem body_limit_checked_late:
  assumes "llhttp_parses ll R" and "w \<in> R" and "wire_text w = t @ rest" and "rest \<noteq> []" and "length t \<le> HALF" and "heap_grants h"
    and "codec_holds st t" and "t \<noteq> []"
  shows "\<exists>st'. codec_loop ll 0 maxB hasCtx h st src (bytes_of t) [] = (st', [], None) \<and> codec_holds st' t"
proof -
  have k: "length t < length (wire_text w)" "take (length t) (wire_text w) = t" using assms(3,4) by simp_all
  have st: "pristine (hc_request st)" "wf_buf (hc_leftover st)" using assms(7) by (simp_all add: codec_holds_def)
  have "\<forall>e \<in> set (fst (ll t)). e \<noteq> OnMessageComplete \<and> (\<forall>at len. e = OnUrl at len \<longrightarrow> at + len \<le> length t)"
    using assms(1,2) k by (metis llhttp_parses_def)
  from run_prefix [OF this, of "parse_ctx_new 0" "hc_request st"] st(1) obtain req pc where
    "run_events t (fst (ll t)) (hc_request st) (parse_ctx_new 0) = Inr (req, pc)" "\<not> msgComplete pc" "\<not> headerTooLarge pc"
    by (auto simp: parse_ctx_new_def)
  then have "codec_loop ll 0 maxB hasCtx h st src (bytes_of t) [] = codec_loop ll 0 0 hasCtx h st src (bytes_of t) []"
    by (subst (1 2) codec_loop.simps) (simp add: Let_def)
  then show ?thesis using loop_keeps_piece [OF assms(1-6) st, of src hasCtx "[]"] assms(7,8) by simp
qed

end
