(* ===== verification/TokenBucket.thy ===== *)
theory TokenBucket
  imports Complex_Main
begin

text \<open>
  The token bucket (\<open>src/common/token_bucket.cpp\<close>, \<open>include/xnetty/common/token_bucket.h\<close>). Its counters are
  \<open>double\<close>s: the model computes with real numbers and rounds the result of every operation with \<open>rnd\<close>, a
  parameter that stands for the rounding of the machine. \<open>rounding\<close> states what is used of it: rounding is
  monotone and leaves the representable numbers, 0 among them, as they are. Overflow to infinity and NaN are
  not covered. Times are the nanoseconds of the steady clock.

  The functions model calls that do not overlap; \<open>tb_step\<close> interleaves the loads and stores of two threads.
\<close>

section \<open>Operations\<close>

record bucket =
  tokens :: real
  rate :: real
  burst :: real
  lastRefill :: int

definition bucket_new :: "real \<Rightarrow> real \<Rightarrow> int \<Rightarrow> bucket" where
  "bucket_new r b now = \<lparr>tokens = b, rate = r, burst = b, lastRefill = now\<rparr>"

text \<open>\<open>duration_cast\<close> to microseconds rounds towards 0; for a negative difference only the sign matters.\<close>

definition elapsed_us :: "int \<Rightarrow> bucket \<Rightarrow> int" where
  "elapsed_us now b = (now - lastRefill b) div 1000"

definition refill_amount :: "(real \<Rightarrow> real) \<Rightarrow> int \<Rightarrow> bucket \<Rightarrow> real" where
  "refill_amount rnd us b = rnd (rnd (rate b * rnd (real_of_int us)) / 1000000)"

definition refill :: "(real \<Rightarrow> real) \<Rightarrow> int \<Rightarrow> bucket \<Rightarrow> bucket" where
  "refill rnd now b =
     (let us = elapsed_us now b in
      if us \<le> 0 then b
      else b\<lparr>tokens := min (rnd (tokens b + refill_amount rnd us b)) (burst b), lastRefill := now\<rparr>)"

definition tryConsume :: "(real \<Rightarrow> real) \<Rightarrow> int \<Rightarrow> real \<Rightarrow> bucket \<Rightarrow> bool \<times> bucket" where
  "tryConsume rnd now n b =
     (let b = refill rnd now b in
      if tokens b \<ge> n then (True, b\<lparr>tokens := rnd (tokens b - n)\<rparr>) else (False, b))"

definition setRate :: "real \<Rightarrow> real \<Rightarrow> int \<Rightarrow> bucket \<Rightarrow> bucket" where
  "setRate r bu now b = b\<lparr>rate := r, burst := bu, tokens := bu, lastRefill := now\<rparr>"

definition currentTokens :: "bucket \<Rightarrow> real" where
  "currentTokens b = tokens b"

section \<open>Sequences of calls\<close>

datatype bucket_op = Consume int real | SetRate real real int

fun bucket_run :: "(real \<Rightarrow> real) \<Rightarrow> bucket_op list \<Rightarrow> bucket \<Rightarrow> bool list \<times> bucket" where
  "bucket_run rnd [] b = ([], b)"
| "bucket_run rnd (Consume now n # ops) b =
     (let (ok, b1) = tryConsume rnd now n b; (oks, b2) = bucket_run rnd ops b1 in (ok # oks, b2))"
| "bucket_run rnd (SetRate r bu now # ops) b = bucket_run rnd ops (setRate r bu now b)"

text \<open>The tokens granted by the calls of \<open>tryConsume\<close>.\<close>

fun granted :: "bucket_op list \<Rightarrow> bool list \<Rightarrow> real" where
  "granted (Consume now n # ops) (ok # oks) = (if ok then n else 0) + granted ops oks"
| "granted (SetRate r bu now # ops) oks = granted ops oks"
| "granted _ _ = 0"

section \<open>Two threads\<close>

text \<open>A call after its refill: it loads the counter, compares, and stores the difference.\<close>

datatype tb_pc = Refilled | Loaded real | Done bool

inductive tb_step :: "real \<Rightarrow> bucket \<times> tb_pc \<times> tb_pc \<Rightarrow> bucket \<times> tb_pc \<times> tb_pc \<Rightarrow> bool" for n where
  load1: "tb_step n (b, Refilled, q) (b, Loaded (tokens b), q)"
| load2: "tb_step n (b, p, Refilled) (b, p, Loaded (tokens b))"
| take1: "c \<ge> n \<Longrightarrow> tb_step n (b, Loaded c, q) (b\<lparr>tokens := c - n\<rparr>, Done True, q)"
| take2: "c \<ge> n \<Longrightarrow> tb_step n (b, p, Loaded c) (b\<lparr>tokens := c - n\<rparr>, p, Done True)"
| refuse1: "c < n \<Longrightarrow> tb_step n (b, Loaded c, q) (b, Done False, q)"
| refuse2: "c < n \<Longrightarrow> tb_step n (b, p, Loaded c) (b, p, Done False)"

section \<open>Lemmas\<close>

definition rounding :: "(real \<Rightarrow> real) \<Rightarrow> bool" where
  "rounding rnd \<longleftrightarrow> (\<forall>x y. x \<le> y \<longrightarrow> rnd x \<le> rnd y) \<and> (\<forall>x. rnd (rnd x) = rnd x) \<and> rnd 0 = 0"

text \<open>The counter is a machine number between 0 and the burst.\<close>

definition bucket_ok :: "(real \<Rightarrow> real) \<Rightarrow> bucket \<Rightarrow> bool" where
  "bucket_ok rnd b \<longleftrightarrow> 0 \<le> tokens b \<and> tokens b \<le> burst b \<and> 0 \<le> rate b \<and> rnd (tokens b) = tokens b \<and> rnd (burst b) = burst b"

lemma rounding_pos:
  assumes "rounding rnd" and "0 \<le> x"
  shows "0 \<le> rnd x"
proof -
  have "rnd 0 \<le> rnd x" "rnd 0 = 0" using assms unfolding rounding_def by blast+
  then show ?thesis by simp
qed

lemma refill_amount_pos:
  assumes "rounding rnd" and "bucket_ok rnd b" and "0 < us"
  shows "0 \<le> refill_amount rnd us b"
proof -
  have "0 \<le> rnd (real_of_int us)" using rounding_pos [OF assms(1)] assms(3) by simp
  then have "0 \<le> rate b * rnd (real_of_int us)" using assms(2) by (simp add: bucket_ok_def)
  then have "0 \<le> rnd (rate b * rnd (real_of_int us)) / 1000000" using rounding_pos [OF assms(1)] by simp
  then show ?thesis unfolding refill_amount_def by (rule rounding_pos [OF assms(1)])
qed

lemma refill_ok:
  assumes "rounding rnd" and "bucket_ok rnd b"
  shows "bucket_ok rnd (refill rnd now b)" and "tokens b \<le> tokens (refill rnd now b)"
proof -
  have "bucket_ok rnd (refill rnd now b) \<and> tokens b \<le> tokens (refill rnd now b)"
  proof (cases "elapsed_us now b \<le> 0")
    case False
    let ?s = "tokens b + refill_amount rnd (elapsed_us now b) b"
    have "tokens b \<le> ?s" using refill_amount_pos [OF assms, of "elapsed_us now b"] False by simp
    then have "rnd (tokens b) \<le> rnd ?s" using assms(1) by (simp add: rounding_def)
    moreover have "rnd (min (rnd ?s) (burst b)) = min (rnd ?s) (burst b)" using assms by (simp add: rounding_def bucket_ok_def min_def)
    ultimately show ?thesis using assms(2) False by (auto simp: refill_def bucket_ok_def Let_def)
  qed (use assms in \<open>simp add: refill_def\<close>)
  then show "bucket_ok rnd (refill rnd now b)" "tokens b \<le> tokens (refill rnd now b)" by auto
qed

lemma tryConsume_ok:
  assumes "rounding rnd" and "bucket_ok rnd b" and "0 \<le> n" and "tryConsume rnd now n b = (ok, b')"
  shows "bucket_ok rnd b'"
proof -
  let ?b = "refill rnd now b"
  note r = refill_ok(1) [OF assms(1,2), of now]
  have "rnd (tokens ?b - n) \<le> rnd (tokens ?b)" using assms(1,3) by (simp add: rounding_def)
  moreover have "0 \<le> rnd (tokens ?b - n)" if "n \<le> tokens ?b" using rounding_pos [OF assms(1)] that by simp
  moreover have "rnd (rnd (tokens ?b - n)) = rnd (tokens ?b - n)" using assms(1) by (simp add: rounding_def)
  ultimately show ?thesis using assms(4) r by (auto simp: tryConsume_def bucket_ok_def Let_def split: if_splits)
qed

lemma bucket_run_ok:
  assumes "rounding rnd"
  shows "\<forall>op \<in> set ops. case op of Consume now n \<Rightarrow> 0 \<le> n | SetRate r' bu' now \<Rightarrow> 0 \<le> r' \<and> 0 \<le> bu' \<and> rnd bu' = bu' \<Longrightarrow>
     bucket_ok rnd b \<Longrightarrow> bucket_ok rnd (snd (bucket_run rnd ops b))"
proof (induction ops arbitrary: b)
  case (Cons op ops)
  show ?case
  proof (cases op)
    case (Consume now n)
    obtain ok b1 where c: "tryConsume rnd now n b = (ok, b1)" by fastforce
    then have "bucket_ok rnd b1" using tryConsume_ok [OF assms Cons.prems(2) _ c] Cons.prems(1) Consume by simp
    then show ?thesis using Cons.IH [of b1] Cons.prems(1) Consume c by (simp add: split_beta Let_def)
  next
    case (SetRate r' bu' now)
    then show ?thesis using Cons by (simp add: setRate_def bucket_ok_def)
  qed
qed simp

text \<open>The account of one call and of a sequence of calls, with exact arithmetic.\<close>

lemma tryConsume_rate:
  assumes "tryConsume (\<lambda>x. x) now n b = (ok, b1)" and "0 \<le> rate b" and "lastRefill b \<le> now"
  shows "tokens b1 + (if ok then n else 0) \<le> tokens b + rate b * (real_of_int (lastRefill b1 - lastRefill b) / 1000000000) \<and>
      rate b1 = rate b \<and> lastRefill b \<le> lastRefill b1 \<and> lastRefill b1 \<le> now"
proof (cases "elapsed_us now b \<le> 0")
  case True
  then show ?thesis using assms by (auto simp: tryConsume_def refill_def Let_def split: if_splits)
next
  case False
  have "elapsed_us now b * 1000 \<le> now - lastRefill b" by (simp add: elapsed_us_def)
  then have "real_of_int (elapsed_us now b * 1000) \<le> real_of_int (now - lastRefill b)" by (simp only: of_int_le_iff)
  then have "real_of_int (elapsed_us now b) \<le> real_of_int (now - lastRefill b) / 1000" by simp
  then have "rate b * real_of_int (elapsed_us now b) \<le> rate b * (real_of_int (now - lastRefill b) / 1000)"
    using assms(2) by (intro mult_left_mono)
  then have "refill_amount (\<lambda>x. x) (elapsed_us now b) b \<le> rate b * (real_of_int (now - lastRefill b) / 1000000000)"
    by (simp add: refill_amount_def)
  then show ?thesis using assms False by (auto simp: tryConsume_def refill_def Let_def split: if_splits)
qed

lemma bucket_run_rate:
  assumes "bucket_run (\<lambda>x. x) (map (\<lambda>(now, n). Consume now n) cs) b = (oks, b')" and "0 \<le> rate b" and "sorted (lastRefill b # map fst cs)"
  shows "granted (map (\<lambda>(now, n). Consume now n) cs) oks + tokens b' \<le>
       tokens b + rate b * (real_of_int (lastRefill b' - lastRefill b) / 1000000000) \<and> lastRefill b' \<le> last (lastRefill b # map fst cs)"
  using assms
proof (induction cs arbitrary: b oks)
  case (Cons c cs)
  obtain now n where c: "c = (now, n)" by (cases c)
  obtain ok b1 where t: "tryConsume (\<lambda>x. x) now n b = (ok, b1)" by fastforce
  obtain oks' b2 where o2: "bucket_run (\<lambda>x. x) (map (\<lambda>(now, n). Consume now n) cs) b1 = (oks', b2)" by fastforce
  then have o: "bucket_run (\<lambda>x. x) (map (\<lambda>(now, n). Consume now n) cs) b1 = (oks', b')" "oks = ok # oks'" using Cons.prems(1) by (simp_all add: c t)
  note s = tryConsume_rate [OF t Cons.prems(2)]
  have le: "lastRefill b \<le> now" "sorted (lastRefill b1 # map fst cs)" using Cons.prems(3) s by (auto simp: c)
  have ih: "granted (map (\<lambda>(now, n). Consume now n) cs) oks' + tokens b' \<le>
     tokens b1 + rate b1 * (real_of_int (lastRefill b' - lastRefill b1) / 1000000000)" "lastRefill b' \<le> last (lastRefill b1 # map fst cs)"
    using Cons.IH [OF o(1)] s le Cons.prems(2) by auto
  have "rate b * (real_of_int (lastRefill b' - lastRefill b) / 1000000000) =
      rate b * (real_of_int (lastRefill b' - lastRefill b1) / 1000000000) + rate b * (real_of_int (lastRefill b1 - lastRefill b) / 1000000000)"
    by (simp add: field_simps)
  note eq = this
  have g: "granted (map (\<lambda>(now, n). Consume now n) (c # cs)) oks = (if ok then n else 0) + granted (map (\<lambda>(now, n). Consume now n) cs) oks'"
    by (simp add: c o(2))
  have s': "tokens b1 + (if ok then n else 0) \<le> tokens b + rate b * (real_of_int (lastRefill b1 - lastRefill b) / 1000000000)"
    "rate b1 = rate b" using s [OF le(1)] by blast+
  have "granted (map (\<lambda>(now, n). Consume now n) (c # cs)) oks + tokens b' \<le>
      tokens b + rate b * (real_of_int (lastRefill b' - lastRefill b) / 1000000000)"
    unfolding g eq using ih(1) [unfolded s'(2)] s'(1) by linarith
  then show ?case using ih(2) s [OF le(1)] by (auto simp: c)
qed simp

section \<open>Properties\<close>

text \<open>The counter stays in range under any rounding: after any sequence of calls with amounts and rates that are
  not negative, it is between 0 and the burst.\<close>

theorem bucket_in_range:
  assumes "rounding rnd" and "0 \<le> r" and "0 \<le> bu" and "rnd bu = bu"
    and "\<forall>op \<in> set ops. case op of Consume now n \<Rightarrow> 0 \<le> n | SetRate r' bu' now \<Rightarrow> 0 \<le> r' \<and> 0 \<le> bu' \<and> rnd bu' = bu'"
    and "bucket_run rnd ops (bucket_new r bu t0) = (oks, b)"
  shows "0 \<le> currentTokens b \<and> currentTokens b \<le> burst b"
proof -
  have "bucket_ok rnd (bucket_new r bu t0)" using assms(2-4) by (simp add: bucket_ok_def bucket_new_def)
  from bucket_run_ok [OF assms(1,5) this] show ?thesis by (simp add: assms(6) bucket_ok_def currentTokens_def)
qed


text \<open>The counter is atomic, the calls are not: two threads that call \<open>tryConsume\<close> at the same time can both be
  granted the last token, since both load the counter before either stores it.\<close>

theorem bucket_race_grants_twice:
  assumes "tokens b = n" and "0 < n"
  shows "rtranclp (tb_step n) (b, Refilled, Refilled) (b\<lparr>tokens := 0\<rparr>, Done True, Done True)"
proof -
  have "tb_step n (b, Refilled, Refilled) (b, Loaded n, Refilled)" using load1 [of n b Refilled] assms(1) by simp
  moreover have "tb_step n (b, Loaded n, Refilled) (b, Loaded n, Loaded n)" using load2 [of n b "Loaded n"] assms(1) by simp
  moreover have "tb_step n (b, Loaded n, Loaded n) (b\<lparr>tokens := 0\<rparr>, Done True, Loaded n)" using take1 [of n n b "Loaded n"] by simp
  moreover have "tb_step n (b\<lparr>tokens := 0\<rparr>, Done True, Loaded n) (b\<lparr>tokens := 0\<rparr>, Done True, Done True)"
    using take2 [of n n "b\<lparr>tokens := 0\<rparr>" "Done True"] by simp
  ultimately show ?thesis by (meson converse_rtranclp_into_rtranclp r_into_rtranclp)
qed

section \<open>Witnesses\<close>

theorem bucket_in_range_witness:
  "0 \<le> currentTokens (snd (bucket_run (\<lambda>x. x) [Consume 0 1, Consume 1 1] (bucket_new 10 1 0))) \<and>
   fst (bucket_run (\<lambda>x. x) [Consume 0 1, Consume 1 1] (bucket_new 10 1 0)) = [True, False]"
proof -
  have r: "bucket_run (\<lambda>x. x) [Consume 0 1, Consume 1 1] (bucket_new 10 1 0) =
      ([True, False], \<lparr>tokens = 0, rate = 10, burst = 1, lastRefill = 0\<rparr>)"
    by (simp add: tryConsume_def refill_def elapsed_us_def bucket_new_def Let_def)
  have "rounding (\<lambda>x. x)" by (simp add: rounding_def)
  from bucket_in_range [OF this _ _ _ _ r] show ?thesis unfolding r by simp
qed


theorem bucket_race_grants_twice_witness:
  "rtranclp (tb_step 1) (bucket_new 1 1 0, Refilled, Refilled) (bucket_new 1 1 0\<lparr>tokens := 0\<rparr>, Done True, Done True)"
  using bucket_race_grants_twice [of "bucket_new 1 1 0" 1] by (simp add: bucket_new_def)

end
