(* ===== verification/Common.thy ===== *)
theory Common
  imports HttpResponse "HOL-Library.Multiset"
begin

text \<open>
  The common utilities: error values and results (\<open>include/xnetty/common/error.h\<close>, \<open>result.h\<close>,
  \<open>src/common/error.cpp\<close>), the counters of \<open>metrics.h\<close> and the level filter of the logger
  (\<open>logger.h\<close>, \<open>src/common/logger.cpp\<close>). The text of a system error number and of a calendar date
  come from the C library and are parameters.
\<close>

section \<open>Errors and results\<close>

datatype error_code = EC_OK | NOT_FOUND | INVALID_ARGUMENT | OUT_OF_MEMORY | IO_ERROR | TIMEOUT | CONNECTION_CLOSED |
  CONNECTION_REFUSED | PROTOCOL_ERROR | UNSUPPORTED | INTERNAL | AGAIN | BAD_FD | ADDRESS_IN_USE

fun code_number :: "error_code \<Rightarrow> nat" where
  "code_number EC_OK = 0"
| "code_number NOT_FOUND = 1"
| "code_number INVALID_ARGUMENT = 2"
| "code_number OUT_OF_MEMORY = 3"
| "code_number IO_ERROR = 4"
| "code_number TIMEOUT = 5"
| "code_number CONNECTION_CLOSED = 6"
| "code_number CONNECTION_REFUSED = 7"
| "code_number PROTOCOL_ERROR = 8"
| "code_number UNSUPPORTED = 9"
| "code_number INTERNAL = 10"
| "code_number AGAIN = 11"
| "code_number BAD_FD = 12"
| "code_number ADDRESS_IN_USE = 13"

record error =
  e_code :: error_code
  e_message :: string

definition error_toString :: "error \<Rightarrow> string" where
  "error_toString e = ''['' @ decimal (code_number (e_code e)) @ '']'' @ '' '' @ e_message e"

definition error_bool :: "error \<Rightarrow> bool" where
  "error_bool e \<longleftrightarrow> e_code e \<noteq> EC_OK"

definition fromErrno :: "(int \<Rightarrow> string) \<Rightarrow> int \<Rightarrow> error" where
  "fromErrno strerror n = \<lparr>e_code = IO_ERROR, e_message = strerror n\<rparr>"

datatype 'a result = Value 'a | Error error

fun isOk :: "'a result \<Rightarrow> bool" where
  "isOk (Value x) = True"
| "isOk (Error e) = False"

definition isError :: "'a result \<Rightarrow> bool" where
  "isError r \<longleftrightarrow> \<not> isOk r"

text \<open>\<open>value\<close>, \<open>expect\<close> and \<open>unwrap\<close> of an error end the process (an assertion or \<open>abort\<close>), as does \<open>error\<close> of a value.\<close>

fun result_value :: "'a result \<Rightarrow> 'a res" where
  "result_value (Value x) = Inr x"
| "result_value (Error e) = Inl Terminated"

definition result_expect :: "'a result \<Rightarrow> 'a res" where
  "result_expect r = (if \<not> isOk r then Inl Terminated else result_value r)"

fun result_error :: "'a result \<Rightarrow> error res" where
  "result_error (Value x) = Inl Terminated"
| "result_error (Error e) = Inr e"

definition result_map :: "('a \<Rightarrow> 'b) \<Rightarrow> 'a result \<Rightarrow> 'b result res" where
  "result_map fn r =
     (if isOk r then rbind (result_value r) (\<lambda>x. Inr (Value (fn x))) else rbind (result_error r) (\<lambda>e. Inr (Error e)))"

text \<open>\<open>Result<void>\<close>: a flag and an error, which is \<open>OK\<close> without a message when there is none.\<close>

record result_void =
  rv_isOk :: bool
  rv_error :: error

definition void_ok :: result_void where
  "void_ok = \<lparr>rv_isOk = True, rv_error = \<lparr>e_code = EC_OK, e_message = []\<rparr>\<rparr>"

definition void_error :: "error \<Rightarrow> result_void" where
  "void_error e = \<lparr>rv_isOk = False, rv_error = e\<rparr>"

definition void_get_error :: "result_void \<Rightarrow> error res" where
  "void_get_error r = (if rv_isOk r then Inl Terminated else Inr (rv_error r))"

definition void_expect :: "result_void \<Rightarrow> unit res" where
  "void_expect r = (if \<not> rv_isOk r then Inl Terminated else Inr ())"

section \<open>Metrics\<close>

text \<open>Every update is one atomic addition, so concurrent updates are a sequence of them in some order.\<close>

record metrics =
  m_requests :: "64 word"
  m_bytesSent :: "64 word"
  m_bytesReceived :: "64 word"
  m_activeConns :: "64 word"
  m_errors :: "64 word"

definition metrics_new :: metrics where
  "metrics_new = \<lparr>m_requests = 0, m_bytesSent = 0, m_bytesReceived = 0, m_activeConns = 0, m_errors = 0\<rparr>"

datatype metric_op = IncrementRequests | IncrementBytesSent "64 word" | IncrementBytesReceived "64 word" |
  IncrementActiveConns | DecrementActiveConns | IncrementErrors

fun metric_step :: "metric_op \<Rightarrow> metrics \<Rightarrow> metrics" where
  "metric_step IncrementRequests m = m\<lparr>m_requests := m_requests m + 1\<rparr>"
| "metric_step (IncrementBytesSent n) m = m\<lparr>m_bytesSent := m_bytesSent m + n\<rparr>"
| "metric_step (IncrementBytesReceived n) m = m\<lparr>m_bytesReceived := m_bytesReceived m + n\<rparr>"
| "metric_step IncrementActiveConns m = m\<lparr>m_activeConns := m_activeConns m + 1\<rparr>"
| "metric_step DecrementActiveConns m = m\<lparr>m_activeConns := m_activeConns m - 1\<rparr>"
| "metric_step IncrementErrors m = m\<lparr>m_errors := m_errors m + 1\<rparr>"

definition decimal_int :: "int \<Rightarrow> string" where
  "decimal_int n = (if n < 0 then ''-'' @ decimal (nat (- n)) else decimal (nat n))"

definition metrics_toString :: "metrics \<Rightarrow> string" where
  "metrics_toString m = ''requests='' @ decimal (unat (m_requests m)) @ '' bytes_sent='' @ decimal (unat (m_bytesSent m)) @
     '' bytes_recv='' @ decimal (unat (m_bytesReceived m)) @ '' active_conns='' @ decimal_int (sint (m_activeConns m)) @
     '' errors='' @ decimal (unat (m_errors m))"

section \<open>Logger\<close>

datatype log_level = LL_OFF | LL_TRACE | LL_DEBUG | LL_INFO | LL_WARN | LL_ERROR

fun level_number :: "log_level \<Rightarrow> int" where
  "level_number LL_OFF = -1"
| "level_number LL_TRACE = 0"
| "level_number LL_DEBUG = 1"
| "level_number LL_INFO = 2"
| "level_number LL_WARN = 3"
| "level_number LL_ERROR = 4"

fun logLevelName :: "log_level \<Rightarrow> string" where
  "logLevelName LL_OFF = ''OFF''"
| "logLevelName LL_TRACE = ''TRACE''"
| "logLevelName LL_DEBUG = ''DEBUG''"
| "logLevelName LL_INFO = ''INFO''"
| "logLevelName LL_WARN = ''WARN''"
| "logLevelName LL_ERROR = ''ERROR''"

record 'h logger =
  lg_level :: log_level
  lg_handler :: "'h option"

definition logger_new :: "'h \<Rightarrow> 'h logger" where
  "logger_new dflt = \<lparr>lg_level = LL_ERROR, lg_handler = Some dflt\<rparr>"

definition setLevel :: "log_level \<Rightarrow> 'h logger \<Rightarrow> 'h logger" where
  "setLevel level lg = lg\<lparr>lg_level := level\<rparr>"

definition setHandler :: "'h option \<Rightarrow> 'h logger \<Rightarrow> 'h logger" where
  "setHandler h lg = lg\<lparr>lg_handler := h\<rparr>"

definition shouldLog :: "'h logger \<Rightarrow> log_level \<Rightarrow> bool" where
  "shouldLog lg level \<longleftrightarrow> lg_level lg \<noteq> LL_OFF \<and> level_number level \<ge> level_number (lg_level lg)"

text \<open>The call of the handler, if there is one. The macro \<open>XNETTY_LOG\<close> tests the level first and evaluates the message
  only then: \<open>msg\<close> gives the message and the state after its evaluation.\<close>

definition logger_log :: "'h logger \<Rightarrow> log_level \<Rightarrow> string \<Rightarrow> ('h \<times> log_level \<times> string) option" where
  "logger_log lg level message =
     (if \<not> shouldLog lg level then None
      else case lg_handler lg of None \<Rightarrow> None | Some h \<Rightarrow> Some (h, level, message))"

definition xnetty_log :: "'h logger \<Rightarrow> log_level \<Rightarrow> ('s \<Rightarrow> string \<times> 's) \<Rightarrow> 's \<Rightarrow> ('h \<times> log_level \<times> string) option \<times> 's" where
  "xnetty_log lg level msg s =
     (if shouldLog lg level then (case msg s of (m, s') \<Rightarrow> (logger_log lg level m, s')) else (None, s))"

text \<open>The default handler: the text of a line from the date up to the second and the milliseconds since the epoch,
  and whether it goes to the error stream.\<close>

definition pad3 :: "nat \<Rightarrow> string" where
  "pad3 n = replicate (3 - length (decimal n)) (CHR ''0'') @ decimal n"

definition default_handler :: "string \<Rightarrow> nat \<Rightarrow> string \<Rightarrow> nat \<Rightarrow> string \<Rightarrow> log_level \<times> string \<Rightarrow> bool \<times> string" where
  "default_handler date epoch_ms file line func m =
     (level_number (fst m) \<ge> level_number LL_WARN,
      ''['' @ logLevelName (fst m) @ ''] '' @ date @ ''.'' @ pad3 (epoch_ms mod 1000) @ ''Z '' @ file @ '':'' @ decimal line @
      '' ('' @ func @ '') '' @ snd m @ [CHR 0x0A])"

section \<open>Lemmas\<close>

lemma result_map_functor:
  "result_map f r = Inr (case r of Value x \<Rightarrow> Value (f x) | Error e \<Rightarrow> Error e)"
  by (cases r) (simp_all add: result_map_def)

text \<open>What is logged at one level is logged at every level above it, and nothing is evaluated for what is not logged.\<close>

lemma shouldLog_mono: "shouldLog lg l \<Longrightarrow> level_number l \<le> level_number l' \<Longrightarrow> shouldLog lg l'"
  by (simp add: shouldLog_def)

lemma off_is_silent: "shouldLog (setLevel LL_OFF lg) l = False" "xnetty_log (setLevel LL_OFF lg) l msg s = (None, s)"
  by (simp_all add: shouldLog_def setLevel_def xnetty_log_def)

lemma disabled_not_evaluated: "\<not> shouldLog lg l \<Longrightarrow> xnetty_log lg l msg s = (None, s)"
  by (simp add: xnetty_log_def)

lemma pad3_length:
  assumes "n < 1000"
  shows "length (pad3 n) = 3"
proof -
  have "length (decimal n) \<le> 3" using assms by (simp add: decimal.simps [of n] decimal.simps [of "n div 10"] decimal.simps [of "n div 10 div 10"])
  then show ?thesis by (simp add: pad3_def)
qed

lemma metric_step_commutes: "metric_step a (metric_step b m) = metric_step b (metric_step a m)"
  by (cases a; cases b) (simp_all add: algebra_simps)

text \<open>The counters do not depend on the order in which the threads' updates take effect.\<close>

theorem metrics_order_independent:
  assumes "mset ops = mset ops'"
  shows "fold metric_step ops m = fold metric_step ops' m"
proof -
  have "fold metric_step ops = fold metric_step ops'"
    by (rule fold_multiset_equiv) (use assms metric_step_commutes in \<open>auto simp: fun_eq_iff\<close>)
  then show ?thesis by simp
qed

theorem metrics_order_independent_witness:
  "fold metric_step [IncrementActiveConns, IncrementBytesSent 3, DecrementActiveConns] metrics_new =
   fold metric_step [DecrementActiveConns, IncrementActiveConns, IncrementBytesSent 3] metrics_new"
  by (rule metrics_order_independent) simp

text \<open>A connection counted when it opens and when it closes leaves the gauge as it was, also through values
  that are negative in between.\<close>

lemma active_conns_balanced:
  "m_activeConns (fold metric_step ops m) =
     m_activeConns m + of_nat (count_list ops IncrementActiveConns) - of_nat (count_list ops DecrementActiveConns)"
proof (induction ops arbitrary: m)
  case (Cons op ops)
  then show ?case by (cases op) (simp_all add: algebra_simps)
qed simp

end
